(* ===== verification/Prelude.thy ===== *)
theory Prelude
  imports Complex_Main "HOL-Library.Word"
begin

text \<open>
  What every theory of the development shares: the names of the model's basic types, the
  arithmetic of byte masks, generic lemmas on lists, and Go's \<open>float64\<close> as far as the code
  computes with it (indices, lengths and limits).

  \<^item> \<open>byte\<close> is Go's \<open>byte\<close>, \<open>unit16\<close> a \<open>uint16\<close>; a Go \<open>string\<close> that the code reads byte
    by byte is a \<open>byte list\<close>. A rune is a \<open>nat\<close>: no rune of the code is negative or overflows.
  \<^item> \<open>f64\<close> is a \<open>float64\<close>: NaN, the infinities, negative zero, and a finite value, read as
    the rational number it is. Every theorem holds for all rationals, so for the finite
    doubles among them. Sums and products of the code are exact on them: where the code adds,
    the operands are integers that either fit 53 bits or stay on the same side of every bound
    they are compared with, however they are rounded.
\<close>

unbundle bit_operations_syntax

type_synonym byte = "8 word"
type_synonym unit16 = "16 word"
type_synonym rune = nat

named_theorems byte_arith
named_theorems str_simps

subsection \<open>Byte arithmetic\<close>

lemma unat_byte_less [simp]: "unat (b :: byte) < 256"
proof -
  have "unsigned b < (2::nat) ^ LENGTH(8)" by (rule unsigned_less)
  then show ?thesis by simp
qed

lemma unat_unit_less [simp]: "unat (u :: unit16) < 65536"
proof -
  have "unsigned u < (2::nat) ^ LENGTH(16)" by (rule unsigned_less)
  then show ?thesis by simp
qed

lemma byte_eq_iff: "(b :: byte) = c \<longleftrightarrow> unat b = unat c"
  by (simp add: word_unat_eq_iff)

lemma or_push_bit [byte_arith]: "x < 2 ^ n \<Longrightarrow> push_bit n a OR x = a * 2 ^ n + (x :: nat)"
proof -
  assume x: "x < 2 ^ n"
  then have t: "take_bit n x = x" by (simp add: take_bit_nat_eq_self_iff)
  have "push_bit n a AND take_bit n x = 0"
    by (rule bit_eqI) (auto simp: bit_and_iff bit_push_bit_iff bit_take_bit_iff)
  with t show ?thesis by (simp add: disjunctive_add_eq_or [symmetric] push_bit_eq_mult)
qed

lemma and_3F_nat [byte_arith]: "(n :: nat) AND 0x3F = n mod 64"
proof -
  have "n AND 0x3F = n AND mask 6" by (simp add: mask_eq_exp_minus_1)
  then show ?thesis by (simp add: take_bit_eq_mask [symmetric] take_bit_eq_mod)
qed

lemma and_3FF_nat [byte_arith]: "(n :: nat) AND 0x3FF = n mod 1024"
proof -
  have "n AND 0x3FF = n AND mask 10" by (simp add: mask_eq_exp_minus_1)
  then show ?thesis by (simp add: take_bit_eq_mask [symmetric] take_bit_eq_mod)
qed

lemma unat_and_3F [byte_arith]: "unat ((b :: byte) AND 0x3F) = unat b mod 64"
  by (simp add: unsigned_and_eq and_3F_nat)

lemma unat_and_1F [byte_arith]: "unat ((b :: byte) AND 0x1F) = unat b mod 32"
proof -
  have "unat (b AND 0x1F) = unat b AND mask 5" by (simp add: unsigned_and_eq mask_eq_exp_minus_1)
  then show ?thesis by (simp add: take_bit_eq_mask [symmetric] take_bit_eq_mod)
qed

lemma unat_and_0F [byte_arith]: "unat ((b :: byte) AND 0x0F) = unat b mod 16"
proof -
  have "unat (b AND 0x0F) = unat b AND mask 4" by (simp add: unsigned_and_eq mask_eq_exp_minus_1)
  then show ?thesis by (simp add: take_bit_eq_mask [symmetric] take_bit_eq_mod)
qed

lemma unat_and_07 [byte_arith]: "unat ((b :: byte) AND 0x07) = unat b mod 8"
proof -
  have "unat (b AND 0x07) = unat b AND mask 3" by (simp add: unsigned_and_eq mask_eq_exp_minus_1)
  then show ?thesis by (simp add: take_bit_eq_mask [symmetric] take_bit_eq_mod)
qed

lemma and_C0_eq_80 [byte_arith]: "(b :: byte) AND 0xC0 = 0x80 \<longleftrightarrow> 128 \<le> unat b \<and> unat b < 192"
proof -
  have "b AND 0xC0 = 0x80 \<longleftrightarrow> unat (b AND 0xC0) = unat (0x80 :: byte)"
    by (simp only: word_unat_eq_iff)
  also have "unat (b AND 0xC0) = unat b AND push_bit 6 (mask 2)"
    by (simp add: unsigned_and_eq mask_eq_exp_minus_1)
  also have "\<dots> = push_bit 6 (take_bit 2 (drop_bit 6 (unat b)))"
    by (rule bit_eqI)
      (auto simp: bit_and_iff bit_push_bit_iff bit_take_bit_iff bit_drop_bit_eq bit_mask_iff)
  also have "\<dots> = (unat b div 64) mod 4 * 64"
    by (simp add: push_bit_eq_mult take_bit_eq_mod drop_bit_eq_div)
  finally show ?thesis using unat_byte_less [of b] by auto
qed

lemma byte_less_80_bit: "(b :: byte) < 0x80 \<longleftrightarrow> \<not> bit b 7"
proof -
  have "bit b 7 \<longleftrightarrow> bit (unat b) 7"
    by (simp add: bit_unsigned_iff)
  also have "\<dots> \<longleftrightarrow> odd (unat b div 128)" by (simp add: bit_nat_def)
  finally have *: "bit b 7 \<longleftrightarrow> odd (unat b div 128)" .
  have "unat b div 128 = (if unat b < 128 then 0 else 1)"
    using unat_byte_less [of b] by (auto intro!: div_nat_eqI)
  with * show ?thesis by (simp add: word_less_nat_alt)
qed

lemma unat_word_of_nat_byte [byte_arith]: "n < 256 \<Longrightarrow> unat (word_of_nat n :: byte) = n"
  by (simp add: unsigned_of_nat take_bit_eq_mod)

lemma unat_word_of_nat_unit [byte_arith]: "n < 65536 \<Longrightarrow> unat (word_of_nat n :: unit16) = n"
  by (simp add: unsigned_of_nat take_bit_eq_mod)

subsection \<open>Lists\<close>

lemma take_append_exact [simp]: "n = length xs \<Longrightarrow> take n (xs @ ys) = xs"
  by simp

lemma drop_append_exact [simp]: "n = length xs \<Longrightarrow> drop n (xs @ ys) = ys"
  by simp

lemma concat_snoc: "concat (xs @ [x]) = concat xs @ x"
  by simp

text \<open>The elements of a list, with a separator between each two.\<close>

fun separated :: "'a list \<Rightarrow> 'a list list \<Rightarrow> 'a list" where
  "separated sep [] = []"
| "separated sep [x] = x"
| "separated sep (x # y # ys) = x @ sep @ separated sep (y # ys)"

lemma separated_Cons: "separated sep (x # xs) = x @ concat (map ((@) sep) xs)"
  by (induction xs arbitrary: x) auto

lemma separated_Nil_sep [simp]: "separated [] xs = concat xs"
  by (induction "[] :: 'a list" xs rule: separated.induct) auto

subsection \<open>float64\<close>

datatype f64 = NaN | PosInf | NegInf | NegZero | Fin rat

definition f64_of_nat :: "nat \<Rightarrow> f64" where
  "f64_of_nat n = Fin (of_nat n)"

text \<open>\<open>math.Trunc\<close>: toward zero, keeping the sign of a zero.\<close>

fun f64_trunc :: "f64 \<Rightarrow> f64" where
  "f64_trunc (Fin q) =
     (if 0 \<le> q then Fin (of_int (floor q))
      else if -1 < q then NegZero
      else Fin (of_int (ceiling q)))"
| "f64_trunc f = f"

text \<open>The sum, where one side is finite: the only sums the code makes.\<close>

fun f64_add :: "f64 \<Rightarrow> f64 \<Rightarrow> f64" where
  "f64_add NaN _ = NaN"
| "f64_add _ NaN = NaN"
| "f64_add PosInf NegInf = NaN"
| "f64_add NegInf PosInf = NaN"
| "f64_add PosInf _ = PosInf"
| "f64_add _ PosInf = PosInf"
| "f64_add NegInf _ = NegInf"
| "f64_add _ NegInf = NegInf"
| "f64_add NegZero NegZero = NegZero"
| "f64_add NegZero (Fin r) = Fin r"
| "f64_add (Fin q) NegZero = Fin q"
| "f64_add (Fin q) (Fin r) = Fin (q + r)"

text \<open>Go's ordered comparisons: false where either side is NaN, and -0 is 0.\<close>

fun f64_less :: "f64 \<Rightarrow> f64 \<Rightarrow> bool" where
  "f64_less NaN _ = False"
| "f64_less _ NaN = False"
| "f64_less _ NegInf = False"
| "f64_less NegInf _ = True"
| "f64_less PosInf _ = False"
| "f64_less _ PosInf = True"
| "f64_less NegZero NegZero = False"
| "f64_less NegZero (Fin r) = (0 < r)"
| "f64_less (Fin q) NegZero = (q < 0)"
| "f64_less (Fin q) (Fin r) = (q < r)"

fun f64_eq :: "f64 \<Rightarrow> f64 \<Rightarrow> bool" where
  "f64_eq NaN _ = False"
| "f64_eq _ NaN = False"
| "f64_eq NegZero (Fin r) = (r = 0)"
| "f64_eq (Fin q) NegZero = (q = 0)"
| "f64_eq a b = (a = b)"

definition f64_le :: "f64 \<Rightarrow> f64 \<Rightarrow> bool" where
  "f64_le a b \<longleftrightarrow> f64_less a b \<or> f64_eq a b"

text \<open>\<open>int(f)\<close> of a value the code has already put in range: toward zero.\<close>

fun f64_int :: "f64 \<Rightarrow> int" where
  "f64_int (Fin q) = (if 0 \<le> q then floor q else ceiling q)"
| "f64_int _ = 0"

lemma f64_int_of_nat [simp]: "f64_int (f64_of_nat n) = int n"
  by (simp add: f64_of_nat_def)

lemma f64_less_of_nat [simp]: "f64_less (f64_of_nat m) (f64_of_nat n) \<longleftrightarrow> m < n"
  by (simp add: f64_of_nat_def)

lemma f64_le_of_nat [simp]: "f64_le (f64_of_nat m) (f64_of_nat n) \<longleftrightarrow> m \<le> n"
  by (auto simp: f64_of_nat_def f64_le_def)

lemma f64_add_of_nat [simp]: "f64_add (f64_of_nat m) (f64_of_nat n) = f64_of_nat (m + n)"
  by (simp add: f64_of_nat_def)

fun f64_val :: "f64 \<Rightarrow> rat" where
  "f64_val (Fin q) = q"
| "f64_val _ = 0"

fun f64_signbit :: "f64 \<Rightarrow> bool" where
  "f64_signbit (Fin q) = (q < 0)"
| "f64_signbit NegInf = True"
| "f64_signbit NegZero = True"
| "f64_signbit _ = False"

definition f64_is_inf :: "f64 \<Rightarrow> bool" where
  "f64_is_inf f \<longleftrightarrow> f = PosInf \<or> f = NegInf"

definition f64_mul :: "f64 \<Rightarrow> f64 \<Rightarrow> f64" where
  "f64_mul a b =
     (if a = NaN \<or> b = NaN then NaN
      else let neg = (f64_signbit a \<noteq> f64_signbit b)
        in if f64_is_inf a \<or> f64_is_inf b
           then if f64_eq a (Fin 0) \<or> f64_eq b (Fin 0) then NaN
                else if neg then NegInf else PosInf
           else if f64_val a * f64_val b = 0 \<and> neg then NegZero
           else Fin (f64_val a * f64_val b))"

definition f64_min :: "f64 \<Rightarrow> f64 \<Rightarrow> f64" where
  "f64_min a b = (if a = NaN \<or> b = NaN then NaN else if f64_less b a \<or> (a = Fin 0 \<and> b = NegZero) then b else a)"

subsection \<open>Failures\<close>

text \<open>
  A thrown error of one of the built-in kinds (\<open>throwError\<close> of \<open>error.go\<close>), or a Go panic of
  the runtime's own. A message that Go formats from values is kept as its template's name and
  those values.
\<close>

datatype error_kind =
  ErrorBase | ErrorType | ErrorRange | ErrorURI | ErrorSyntax | ErrorReference | ErrorEval

datatype message =
    Text string
  | InvalidCount f64
  | NotAStringIndex f64
  | StringIndexOutOfRange f64 nat
  | NotAnArrayIndex f64
  | IndexOutOfRange int nat
  | NotAnArrayIndexToSet f64
  | WouldLeaveHole int nat
  | SetLengthHoles nat int
  | ArrayShrank nat string nat
  | UnwrapFailure string string bool
  | CannotRead string string
  | CannotSet string string
  | CannotUseIn string string
  | NotIterable string

datatype failure = Thrown error_kind message | Panic message

type_synonym 'a result = "failure + 'a"

fun and_then :: "'a result \<Rightarrow> ('a \<Rightarrow> 'b result) \<Rightarrow> 'b result" where
  "and_then (Inl e) f = Inl e"
| "and_then (Inr x) f = f x"

subsection \<open>Refinement\<close>

text \<open>
  A component that refines another, operation by operation, refines it over every history.
\<close>

locale simulation =
  fixes rel :: "'s \<Rightarrow> 'a \<Rightarrow> bool" and step :: "'o \<Rightarrow> 's \<Rightarrow> 's" and spec :: "'o \<Rightarrow> 'a \<Rightarrow> 'a"
  assumes simulates: "rel s a \<Longrightarrow> rel (step op s) (spec op a)"
begin

lemma history: "rel s a \<Longrightarrow> rel (fold step ops s) (fold spec ops a)"
  by (induction ops arbitrary: s a) (simp_all add: simulates)

end

end
