(* ===== verification/Wtf8.thy ===== *)
theory Wtf8
  imports Prelude
begin

text \<open>
  How the runtime reads the characters of a string: \<open>backend/runtime/str.go\<close> (\<open>isASCII\<close>,
  \<open>asciiPrefix\<close>, \<open>char\<close>, \<open>half\<close>, \<open>appendHalf\<close>, \<open>utf16Len\<close>, \<open>toUnits\<close>), \<open>surrogateAt\<close>
  of \<open>json_string.go\<close>, \<open>canonical\<close> of \<open>str_search_ascii.go\<close>, over the functions of Go's
  \<open>unicode/utf8\<close> they call.

  A loop of the code that walks a string by a byte offset \<open>i\<close> is a recursion on the rest of
  the string, \<open>s[i:]\<close>.

  What is proved: the encoding of code points \<open>wtf8\<close> and the decoder \<open>char\<close> are inverse to
  each other; a canonical string is the encoding of exactly one sequence of UTF-16 code
  units, which \<open>toUnits\<close> reads back.
\<close>

subsection \<open>unicode/utf8\<close>

definition rune_error :: rune where "rune_error = 0xFFFD"

definition is_cont :: "byte \<Rightarrow> bool" where
  "is_cont b \<longleftrightarrow> b AND 0xC0 = 0x80"

text \<open>\<open>utf8.RuneStart\<close>.\<close>

definition rune_start :: "byte \<Rightarrow> bool" where
  "rune_start b \<longleftrightarrow> b AND 0xC0 \<noteq> 0x80"

text \<open>
  \<open>utf8.DecodeRuneInString\<close>: the first code point and its length, or \<open>(RuneError, 1)\<close> for
  a byte that starts no valid sequence (overlong forms, surrogates and values past 10FFFF
  included), and \<open>(RuneError, 0)\<close> for the empty string.
\<close>

fun decode_rune :: "byte list \<Rightarrow> rune \<times> nat" where
  "decode_rune [] = (rune_error, 0)"
| "decode_rune (b0 # bs) =
     (if b0 < 0x80 then (unat b0, 1)
      else if 0xC2 \<le> b0 \<and> b0 \<le> 0xDF then
        (case bs of
           b1 # _ \<Rightarrow>
             if is_cont b1
             then (push_bit 6 (unat (b0 AND 0x1F)) OR unat (b1 AND 0x3F), 2)
             else (rune_error, 1)
         | _ \<Rightarrow> (rune_error, 1))
      else if 0xE0 \<le> b0 \<and> b0 \<le> 0xEF then
        (case bs of
           b1 # b2 # _ \<Rightarrow>
             if (if b0 = 0xE0 then 0xA0 else 0x80) \<le> b1 \<and> b1 \<le> (if b0 = 0xED then 0x9F else 0xBF)
                \<and> is_cont b2
             then (push_bit 12 (unat (b0 AND 0x0F)) OR push_bit 6 (unat (b1 AND 0x3F))
                   OR unat (b2 AND 0x3F), 3)
             else (rune_error, 1)
         | _ \<Rightarrow> (rune_error, 1))
      else if 0xF0 \<le> b0 \<and> b0 \<le> 0xF4 then
        (case bs of
           b1 # b2 # b3 # _ \<Rightarrow>
             if (if b0 = 0xF0 then 0x90 else 0x80) \<le> b1 \<and> b1 \<le> (if b0 = 0xF4 then 0x8F else 0xBF)
                \<and> is_cont b2 \<and> is_cont b3
             then (push_bit 18 (unat (b0 AND 0x07)) OR push_bit 12 (unat (b1 AND 0x3F))
                   OR push_bit 6 (unat (b2 AND 0x3F)) OR unat (b3 AND 0x3F), 4)
             else (rune_error, 1)
         | _ \<Rightarrow> (rune_error, 1))
      else (rune_error, 1))"

text \<open>
  The bytes of a code point in generalised UTF-8, surrogates included: what
  \<open>utf8.AppendRune\<close> appends for a code point that is not a surrogate.
\<close>

definition wtf8 :: "rune \<Rightarrow> byte list" where
  "wtf8 r =
     (if r < 0x80 then [word_of_nat r]
      else if r < 0x800 then
        [word_of_nat (0xC0 + r div 64), word_of_nat (0x80 + r mod 64)]
      else if r < 0x10000 then
        [word_of_nat (0xE0 + r div 64 div 64), word_of_nat (0x80 + r div 64 mod 64),
         word_of_nat (0x80 + r mod 64)]
      else
        [word_of_nat (0xF0 + r div 64 div 64 div 64), word_of_nat (0x80 + r div 64 div 64 mod 64),
         word_of_nat (0x80 + r div 64 mod 64), word_of_nat (0x80 + r mod 64)])"

definition append_rune :: "byte list \<Rightarrow> rune \<Rightarrow> byte list" where
  "append_rune b r =
     b @ wtf8 (if 0x10FFFF < r \<or> (0xD800 \<le> r \<and> r \<le> 0xDFFF) then rune_error else r)"

declare decode_rune.simps [simp del]

subsection \<open>ASCII\<close>

text \<open>\<open>asciiPrefix\<close>: eight bytes at a time through a 64-bit mask, then one at a time.\<close>

fun ascii_tail :: "byte list \<Rightarrow> nat" where
  "ascii_tail [] = 0"
| "ascii_tail (b # s) = (if b < 0x80 then Suc (ascii_tail s) else 0)"

fun ascii_prefix :: "byte list \<Rightarrow> nat" where
  "ascii_prefix (b0 # b1 # b2 # b3 # b4 # b5 # b6 # b7 # s) =
     (let w = ucast b0 OR push_bit 8 (ucast b1) OR push_bit 16 (ucast b2) OR push_bit 24 (ucast b3)
              OR push_bit 32 (ucast b4) OR push_bit 40 (ucast b5) OR push_bit 48 (ucast b6)
              OR push_bit 56 (ucast b7) :: 64 word
      in if w AND 0x8080808080808080 \<noteq> 0
         then ascii_tail (b0 # b1 # b2 # b3 # b4 # b5 # b6 # b7 # s)
         else 8 + ascii_prefix s)"
| "ascii_prefix s = ascii_tail s"

definition isASCII :: "byte list \<Rightarrow> bool" where
  "isASCII s \<longleftrightarrow> ascii_prefix s = length s"

subsection \<open>Halves and characters\<close>

definition half :: "byte \<Rightarrow> byte \<Rightarrow> byte \<Rightarrow> rune option" where
  "half b0 b1 b2 =
     (if b0 \<noteq> 0xED \<or> b1 < 0xA0 \<or> b1 > 0xBF \<or> b2 AND 0xC0 \<noteq> 0x80 then None
      else Some (0xD000 OR push_bit 6 (unat (b1 AND 0x3F)) OR unat (b2 AND 0x3F)))"

definition appendHalf :: "byte list \<Rightarrow> rune \<Rightarrow> byte list" where
  "appendHalf b u =
     b @ [0xED, word_of_nat (0x80 OR (drop_bit 6 u AND 0x3F)), word_of_nat (0x80 OR (u AND 0x3F))]"

definition surrogateAt :: "byte list \<Rightarrow> nat \<Rightarrow> rune option" where
  "surrogateAt s i =
     (if i + 2 \<ge> length s \<or> s ! i \<noteq> 0xED \<or> s ! (i + 1) < 0xA0 \<or> s ! (i + 1) > 0xBF
         \<or> s ! (i + 2) AND 0xC0 \<noteq> 0x80
      then None
      else Some (0xD000 OR push_bit 6 (unat (s ! (i + 1) AND 0x3F)) OR unat (s ! (i + 2) AND 0x3F)))"

definition char_at :: "byte list \<Rightarrow> nat \<Rightarrow> rune \<times> nat" where
  "char_at s i =
     (if s ! i < 0x80 then (unat (s ! i), 1)
      else case surrogateAt s i of
             Some u \<Rightarrow> (u, 3)
           | None \<Rightarrow> decode_rune (drop i s))"

subsection \<open>The arithmetic of the decoder\<close>

lemma is_cont_iff [byte_arith]: "is_cont b \<longleftrightarrow> 128 \<le> unat b \<and> unat b < 192"
  by (simp add: is_cont_def and_C0_eq_80)

lemma or_two: "c < 64 \<Longrightarrow> push_bit 6 b OR c = b * 64 + (c :: nat)"
  using or_push_bit [of c 6 b] by simp

lemma or_three: "b < 64 \<Longrightarrow> c < 64 \<Longrightarrow>
    push_bit 12 a OR push_bit 6 b OR c = (a * 64 + b) * 64 + (c :: nat)"
  using or_push_bit [of "b * 64 + c" 12 a] by (simp add: or_two)

lemma or_four: "b < 64 \<Longrightarrow> c < 64 \<Longrightarrow> d < 64 \<Longrightarrow>
    push_bit 18 a OR push_bit 12 b OR push_bit 6 c OR d = ((a * 64 + b) * 64 + c) * 64 + (d :: nat)"
  using or_push_bit [of "(b * 64 + c) * 64 + d" 18 a] by (simp add: or_three)

lemma or_D000: "b < 64 \<Longrightarrow> c < 64 \<Longrightarrow> 0xD000 OR push_bit 6 b OR c = (832 + b) * 64 + (c :: nat)"
proof -
  assume "b < 64" "c < 64"
  then have "push_bit 12 13 OR push_bit 6 b OR c = (13 * 64 + b) * 64 + c" by (rule or_three)
  moreover have "push_bit 12 13 = (0xD000 :: nat)" by (simp add: push_bit_eq_mult)
  ultimately show ?thesis by simp
qed

lemma byte_order: "(b :: byte) < c \<longleftrightarrow> unat b < unat c" "b \<le> c \<longleftrightarrow> unat b \<le> unat c"
  by (simp_all add: word_less_nat_alt word_le_nat_alt)

lemma half_arith:
  "half b0 b1 b2 =
     (if unat b0 = 0xED \<and> 0xA0 \<le> unat b1 \<and> unat b1 \<le> 0xBF \<and> 0x80 \<le> unat b2 \<and> unat b2 < 0xC0
      then Some ((832 + unat b1 mod 64) * 64 + unat b2 mod 64) else None)"
proof -
  have "b0 \<noteq> 0xED \<longleftrightarrow> unat b0 \<noteq> 0xED" by (simp add: byte_eq_iff)
  then show ?thesis
    by (simp add: half_def and_C0_eq_80 unat_and_3F or_D000 byte_order not_less not_le)
qed

lemma surrogateAt_half:
  "surrogateAt s i = (if i + 2 < length s then half (s ! i) (s ! (i + 1)) (s ! (i + 2)) else None)"
  by (auto simp: surrogateAt_def half_def)

lemma div_mod_64 [simp]: "c < 64 \<Longrightarrow> (b * 64 + c) div 64 = (b :: nat)" "c < 64 \<Longrightarrow> (b * 64 + c) mod 64 = (c :: nat)"
  by auto

text \<open>The four lengths of an encoding, by its digits to the base 64.\<close>

lemma wtf8_1: "r < 0x80 \<Longrightarrow> wtf8 r = [word_of_nat r]"
  by (simp add: wtf8_def)

lemma wtf8_2: "2 \<le> a \<Longrightarrow> a < 32 \<Longrightarrow> b < 64 \<Longrightarrow>
    wtf8 (a * 64 + b) = [word_of_nat (0xC0 + a), word_of_nat (0x80 + b)]"
  by (simp add: wtf8_def)

lemma wtf8_3:
  assumes "a < 16" "b < 64" "c < 64" "32 \<le> a * 64 + b"
  shows "wtf8 ((a * 64 + b) * 64 + c)
    = [word_of_nat (0xE0 + a), word_of_nat (0x80 + b), word_of_nat (0x80 + c)]"
proof -
  have "32 * 64 \<le> (a * 64 + b) * 64" using assms(4) by (rule mult_le_mono1)
  moreover have "(a * 64 + b) * 64 + c < 65536" using assms(1-3) by simp
  ultimately have "2048 \<le> (a * 64 + b) * 64 + c" "(a * 64 + b) * 64 + c < 65536" by simp_all
  then show ?thesis using assms by (simp add: wtf8_def del: distrib_right_numeral)
qed

lemma wtf8_4:
  assumes "a < 5" "b < 64" "c < 64" "d < 64" "16 \<le> a * 64 + b"
  shows "wtf8 (((a * 64 + b) * 64 + c) * 64 + d)
    = [word_of_nat (0xF0 + a), word_of_nat (0x80 + b), word_of_nat (0x80 + c), word_of_nat (0x80 + d)]"
proof -
  have "16 * 4096 \<le> (a * 64 + b) * 4096" using assms(5) by (rule mult_le_mono1)
  then have "65536 \<le> ((a * 64 + b) * 64 + c) * 64 + d" by simp
  then show ?thesis using assms by (simp add: wtf8_def del: distrib_right_numeral)
qed

lemma base64_digit: obtains q d :: nat where "r = q * 64 + d" "d < 64"
proof
  show "r = (r div 64) * 64 + r mod 64" "r mod 64 < 64" by simp_all
qed

lemma rune_cases:
  fixes r :: nat
  assumes "r < 0x110000"
  obtains (one) "r < 0x80"
  | (two) a b :: nat where "r = a * 64 + b" "2 \<le> a" "a < 32" "b < 64"
  | (three) a b c :: nat where "r = (a * 64 + b) * 64 + c" "a < 16" "b < 64" "c < 64" "32 \<le> a * 64 + b"
  | (four) a b c d :: nat where "r = ((a * 64 + b) * 64 + c) * 64 + d" "a < 5" "b < 64" "c < 64" "d < 64"
      "16 \<le> a * 64 + b" "a * 64 + b < 272"
proof -
  obtain q1 d1 where 1: "r = q1 * 64 + d1" "d1 < 64" by (rule base64_digit)
  obtain q2 d2 where 2: "q1 = q2 * 64 + d2" "d2 < 64" by (rule base64_digit)
  obtain q3 d3 where 3: "q2 = q3 * 64 + d3" "d3 < 64" by (rule base64_digit)
  consider "r < 0x80" | "0x80 \<le> r" "r < 0x800" | "0x800 \<le> r" "r < 0x10000" | "0x10000 \<le> r"
    by linarith
  then show thesis
  proof cases
    case 1 then show thesis by (rule one)
  next
    case 2 with 1 show thesis using \<open>r = q1 * 64 + d1\<close> \<open>d1 < 64\<close> by (intro two [of q1 d1]) auto
  next
    case 3
    have "q2 < 16" "32 \<le> q2 * 64 + d2" using 3 1 2 \<open>r = q1 * 64 + d1\<close> \<open>q1 = q2 * 64 + d2\<close> \<open>d1 < 64\<close> by linarith+
    then show thesis using 1 2 \<open>r = q1 * 64 + d1\<close> \<open>q1 = q2 * 64 + d2\<close> \<open>d1 < 64\<close> \<open>d2 < 64\<close>
      by (intro three [of q2 d2 d1]) auto
  next
    case 4
    have "q3 < 5" "16 \<le> q3 * 64 + d3" "q3 * 64 + d3 < 272"
      using 4 assms \<open>r = q1 * 64 + d1\<close> \<open>q1 = q2 * 64 + d2\<close> \<open>q2 = q3 * 64 + d3\<close> \<open>d1 < 64\<close> \<open>d2 < 64\<close> \<open>d3 < 64\<close>
      by linarith+
    then show thesis
      using \<open>r = q1 * 64 + d1\<close> \<open>q1 = q2 * 64 + d2\<close> \<open>q2 = q3 * 64 + d3\<close> \<open>d1 < 64\<close> \<open>d2 < 64\<close> \<open>d3 < 64\<close>
      by (intro four [of q3 d3 d2 d1]) auto
  qed
qed

lemma char_at_Cons:
  "char_at (b # s) 0 =
     (if b < 0x80 then (unat b, 1)
      else case (case s of b1 # b2 # _ \<Rightarrow> half b b1 b2 | _ \<Rightarrow> None) of
             Some u \<Rightarrow> (u, 3)
           | None \<Rightarrow> decode_rune (b # s))"
  by (auto simp: char_at_def surrogateAt_half numeral_2_eq_2 split: list.splits option.splits)

text \<open>Bytes by the digit they carry.\<close>

lemma lead_mod [simp]:
  "a < 32 \<Longrightarrow> (192 + a) mod 32 = (a :: nat)"
  "a < 16 \<Longrightarrow> (224 + a) mod 16 = (a :: nat)"
  "a < 8 \<Longrightarrow> (240 + a) mod 8 = (a :: nat)"
  "a < 64 \<Longrightarrow> (128 + a) mod 64 = (a :: nat)"
  by (simp_all add: mod_if)

lemma decode_rune_1: "unat b0 < 0x80 \<Longrightarrow> decode_rune (b0 # s) = (unat b0, 1)"
  by (simp add: decode_rune.simps byte_order)

lemma decode_rune_2:
  assumes "unat b0 = 0xC0 + a" "unat b1 = 0x80 + b" "2 \<le> a" "a < 32" "b < 64"
  shows "decode_rune (b0 # b1 # s) = (a * 64 + b, 2)"
  using assms by (simp add: decode_rune.simps byte_order unat_and_1F unat_and_3F or_two is_cont_iff)

lemma decode_rune_3:
  assumes "unat b0 = 0xE0 + a" "unat b1 = 0x80 + b" "unat b2 = 0x80 + c" "a < 16" "b < 64" "c < 64"
    "32 \<le> a * 64 + b" "\<not> (a = 13 \<and> 32 \<le> b)"
  shows "decode_rune (b0 # b1 # b2 # s) = ((a * 64 + b) * 64 + c, 3)"
proof -
  have eq: "b0 = 0xE0 \<longleftrightarrow> a = 0" "b0 = 0xED \<longleftrightarrow> a = 13" using assms by (simp_all add: byte_eq_iff)
  have le: "(if b0 = 0xE0 then 0xA0 else 0x80) \<le> b1" "b1 \<le> (if b0 = 0xED then 0x9F else 0xBF)"
    using assms by (auto simp: byte_order eq)
  have "\<not> b0 < 0x80" "\<not> b0 \<le> 0xDF" "0xE0 \<le> b0" "b0 \<le> 0xEF" "is_cont b2"
    using assms by (simp_all add: byte_order is_cont_iff)
  with le assms show ?thesis
    by (simp add: decode_rune.simps unat_and_0F unat_and_3F or_three del: distrib_right_numeral)
qed

lemma decode_rune_4:
  assumes "unat b0 = 0xF0 + a" "unat b1 = 0x80 + b" "unat b2 = 0x80 + c" "unat b3 = 0x80 + d"
    "a < 5" "b < 64" "c < 64" "d < 64" "16 \<le> a * 64 + b" "a * 64 + b < 272"
  shows "decode_rune (b0 # b1 # b2 # b3 # s) = (((a * 64 + b) * 64 + c) * 64 + d, 4)"
proof -
  have eq: "b0 = 0xF0 \<longleftrightarrow> a = 0" "b0 = 0xF4 \<longleftrightarrow> a = 4" using assms by (simp_all add: byte_eq_iff)
  have le: "(if b0 = 0xF0 then 0x90 else 0x80) \<le> b1" "b1 \<le> (if b0 = 0xF4 then 0x8F else 0xBF)"
    using assms by (auto simp: byte_order eq)
  have "\<not> b0 < 0x80" "\<not> b0 \<le> 0xDF" "\<not> b0 \<le> 0xEF" "0xF0 \<le> b0" "b0 \<le> 0xF4" "is_cont b2" "is_cont b3"
    using assms by (simp_all add: byte_order is_cont_iff)
  with le assms show ?thesis
    by (simp add: decode_rune.simps unat_and_07 unat_and_3F or_four del: distrib_right_numeral)
qed

lemma half_digits:
  assumes "unat b1 = 0x80 + b" "unat b2 = 0x80 + c" "b < 64" "c < 64"
  shows "half b0 b1 b2 = (if unat b0 = 0xED \<and> 32 \<le> b then Some ((13 * 64 + b) * 64 + c) else None)"
  using assms by (auto simp: half_arith)

lemma half_lead: "unat b0 \<noteq> 0xED \<Longrightarrow> half b0 b1 b2 = None"
  by (simp add: half_arith)

lemma unat_digit [simp]:
  "b < 64 \<Longrightarrow> unat (word_of_nat (128 + b) :: byte) = 128 + b"
  "a < 32 \<Longrightarrow> unat (word_of_nat (192 + a) :: byte) = 192 + a"
  "a < 16 \<Longrightarrow> unat (word_of_nat (224 + a) :: byte) = 224 + a"
  "a < 8 \<Longrightarrow> unat (word_of_nat (240 + a) :: byte) = 240 + a"
  "r < 128 \<Longrightarrow> unat (word_of_nat r :: byte) = r"
  by (simp_all add: unat_word_of_nat_byte del: of_nat_add)

lemma char_at_wtf8 [simp]:
  assumes "r < 0x110000"
  shows "char_at (wtf8 r @ s) 0 = (r, length (wtf8 r))"
  using assms
proof (cases rule: rune_cases)
  case one
  then show ?thesis by (simp add: wtf8_1 char_at_Cons byte_order)
next
  case (two a b)
  then show ?thesis
    by (simp add: wtf8_2 char_at_Cons byte_order half_lead decode_rune_2 del: of_nat_add split: list.splits)
next
  case (three a b c)
  then show ?thesis
  proof (cases "a = 13 \<and> 32 \<le> b")
    case True
    have "wtf8 r = [word_of_nat (224 + 13), word_of_nat (128 + b), word_of_nat (128 + c)]"
      using wtf8_3 [of 13 b c] three True by simp
    moreover have "half (word_of_nat (224 + 13)) (word_of_nat (128 + b)) (word_of_nat (128 + c)) = Some r"
      using three True by (simp add: half_digits [of _ b _ c] del: of_nat_add distrib_right_numeral)
    ultimately show ?thesis
      by (simp add: char_at_Cons byte_order del: of_nat_add)
  next
    case False
    with three show ?thesis
      by (simp add: wtf8_3 char_at_Cons byte_order half_digits decode_rune_3 del: of_nat_add distrib_right_numeral)
  qed
next
  case (four a b c d)
  then show ?thesis
    by (simp add: wtf8_4 char_at_Cons byte_order half_lead decode_rune_4 del: of_nat_add distrib_right_numeral)
qed

text \<open>A byte above ASCII that a sequence can hold, by its kind.\<close>

lemma byte_kinds:
  obtains (ascii) "unat (b :: byte) < 128"
  | (cont) x where "unat b = 128 + x" "x < 64"
  | (lead2) a where "unat b = 192 + a" "a < 32"
  | (lead3) a where "unat b = 224 + a" "a < 16"
  | (lead4) a where "unat b = 240 + a" "a < 16"
proof -
  have "unat b < 256" by simp
  then consider "unat b < 128" | "128 \<le> unat b" "unat b < 192" | "192 \<le> unat b" "unat b < 224"
    | "224 \<le> unat b" "unat b < 240" | "240 \<le> unat b" "unat b < 256" by linarith
  then show thesis
  proof cases
    case 1 then show thesis by (rule ascii)
  next
    case 2 then show thesis by (intro cont [of "unat b - 128"]) auto
  next
    case 3 then show thesis by (intro lead2 [of "unat b - 192"]) auto
  next
    case 4 then show thesis by (intro lead3 [of "unat b - 224"]) auto
  next
    case 5 then show thesis by (intro lead4 [of "unat b - 240"]) linarith+
  qed
qed

lemma is_cont_digit: "is_cont b \<Longrightarrow> \<exists>x. unat b = 128 + x \<and> x < 64"
  by (rule exI [of _ "unat b - 128"]) (auto simp: is_cont_iff)

lemma word_of_unat: "unat (b :: byte) = n \<Longrightarrow> b = word_of_nat n"
  by auto

lemma decode_rune_inv:
  assumes "decode_rune s = (r, k)" "s \<noteq> []"
  shows "(r = rune_error \<and> k = 1 \<and> \<not> hd s < 0x80)
    \<or> (r < 0x110000 \<and> k = length (wtf8 r) \<and> take k s = wtf8 r)"
proof -
  obtain b0 t where s: "s = b0 # t" using assms(2) by (cases s) auto
  show ?thesis
  proof (cases "(r, k) = (rune_error, 1) \<and> \<not> b0 < 0x80")
    case False
    show ?thesis
    proof (cases b0 rule: byte_kinds)
      case ascii
      then show ?thesis using assms s
        by (auto simp: decode_rune_1 wtf8_1)
    next
      case (lead2 a)
      with assms s False obtain b1 u where "t = b1 # u" "is_cont b1" "2 \<le> a"
        by (auto simp: decode_rune.simps byte_order split: list.splits if_splits)
      moreover obtain b where "unat b1 = 128 + b" "b < 64" using is_cont_digit \<open>is_cont b1\<close> by blast
      ultimately show ?thesis using assms s lead2
        by (auto simp: decode_rune_2 [of _ a _ b] wtf8_2 byte_eq_iff simp del: of_nat_add)
    next
      case (lead3 a)
      have eq: "b0 = 0xE0 \<longleftrightarrow> a = 0" "b0 = 0xED \<longleftrightarrow> a = 13"
        using lead3 by (simp_all add: byte_eq_iff)
      have no: "\<not> b0 < 0x80" "\<not> b0 \<le> 0xDF" "0xE0 \<le> b0" "b0 \<le> 0xEF"
        using lead3 by (simp_all add: byte_order)
      obtain b1 b2 u where t: "t = b1 # b2 # u" "is_cont b2"
        and le: "(if a = 0 then 0xA0 else 0x80) \<le> b1" "b1 \<le> (if a = 13 then 0x9F else 0xBF)"
        using assms(1) s False no
        by (auto simp: decode_rune.simps eq split: list.splits if_splits)
      have "is_cont b1" using le by (auto simp: is_cont_iff byte_order split: if_splits)
      then obtain b where b: "unat b1 = 128 + b" "b < 64" using is_cont_digit by blast
      obtain c where c: "unat b2 = 128 + c" "c < 64" using is_cont_digit t(2) by blast
      have "32 \<le> a * 64 + b" "\<not> (a = 13 \<and> 32 \<le> b)"
        using le b by (auto simp: byte_order split: if_splits)
      moreover have "(a * 64 + b) * 64 + c < 0x110000" using lead3 b c by simp
      ultimately show ?thesis using assms(1) s t lead3 b c
        by (auto simp: decode_rune_3 [of _ a _ b _ c] wtf8_3 byte_eq_iff simp del: of_nat_add distrib_right_numeral)
    next
      case (lead4 a)
      have eq: "b0 = 0xF0 \<longleftrightarrow> a = 0" "b0 = 0xF4 \<longleftrightarrow> a = 4"
        using lead4 by (simp_all add: byte_eq_iff)
      have no: "\<not> b0 < 0x80" "\<not> b0 \<le> 0xDF" "\<not> b0 \<le> 0xEF" "0xF0 \<le> b0"
        using lead4 by (simp_all add: byte_order)
      obtain b1 b2 b3 u where t: "t = b1 # b2 # b3 # u" "is_cont b2" "is_cont b3" "b0 \<le> 0xF4"
        and le: "(if a = 0 then 0x90 else 0x80) \<le> b1" "b1 \<le> (if a = 4 then 0x8F else 0xBF)"
        using assms(1) s False no
        by (auto simp: decode_rune.simps eq split: list.splits if_splits)
      have "is_cont b1" using le by (auto simp: is_cont_iff byte_order split: if_splits)
      then obtain b where b: "unat b1 = 128 + b" "b < 64" using is_cont_digit by blast
      obtain c where c: "unat b2 = 128 + c" "c < 64" using is_cont_digit t(2) by blast
      obtain d where d: "unat b3 = 128 + d" "d < 64" using is_cont_digit t(3) by blast
      have a: "a < 5" using t(4) lead4 by (simp add: byte_order)
      have "16 \<le> a * 64 + b" "a * 64 + b < 272"
        using le b a by (auto simp: byte_order split: if_splits)
      moreover have "((a * 64 + b) * 64 + c) * 64 + d < 0x110000" using calculation(2) c(2) d(2) by simp
      ultimately show ?thesis using assms(1) s t lead4 a b c d
        by (auto simp: decode_rune_4 [of _ a _ b _ c _ d] wtf8_4 byte_eq_iff simp del: of_nat_add distrib_right_numeral)
    next
      case (cont x)
      with assms s False show ?thesis
        by (auto simp: decode_rune.simps byte_order)
    qed
  qed (use s in auto)
qed
lemma char_at_inv:
  assumes "char_at s 0 = (r, k)" "s \<noteq> []"
  shows "(r = rune_error \<and> k = 1 \<and> \<not> hd s < 0x80)
    \<or> (r < 0x110000 \<and> k = length (wtf8 r) \<and> take k s = wtf8 r)"
proof (cases "case s of b0 # b1 # b2 # _ \<Rightarrow> half b0 b1 b2 | _ \<Rightarrow> None")
  case None
  with assms show ?thesis
    using decode_rune_inv [of s r k]
    by (cases s) (auto simp: char_at_Cons wtf8_1 byte_order split: if_splits list.splits)
next
  case (Some u)
  then obtain b0 b1 b2 t where s: "s = b0 # b1 # b2 # t" and h: "half b0 b1 b2 = Some u"
    by (auto split: list.splits)
  then have b0: "unat b0 = 0xED" and "is_cont b1" "is_cont b2"
    by (auto simp: half_arith is_cont_iff split: if_splits)
  then obtain b c where bc: "unat b1 = 128 + b" "b < 64" "unat b2 = 128 + c" "c < 64"
    using is_cont_digit by metis
  with h b0 have u: "u = (13 * 64 + b) * 64 + c" "32 \<le> b"
    by (simp_all add: half_digits split: if_splits)
  have "wtf8 u = [b0, b1, b2]"
    using wtf8_3 [of 13 b c] u bc b0 by (simp add: byte_eq_iff del: of_nat_add)
  moreover have "(r, k) = (u, 3)"
    using assms(1) s h b0 by (auto simp: char_at_Cons byte_order)
  moreover have "u < 0x110000" using u bc by simp
  ultimately show ?thesis using s by simp
qed

lemma length_wtf8 [simp]: "0 < length (wtf8 r)" "wtf8 r \<noteq> []"
  by (simp_all add: wtf8_def)

lemma char_at_size:
  assumes "s \<noteq> []"
  shows "0 < snd (char_at s 0)" "snd (char_at s 0) \<le> length s"
proof -
  obtain r k where rk: "char_at s 0 = (r, k)" by (cases "char_at s 0")
  have "0 < k \<and> k \<le> length s"
    using char_at_inv [OF rk assms] assms by (cases s) (auto dest: arg_cong [of _ _ length])
  with rk show "0 < snd (char_at s 0)" "snd (char_at s 0) \<le> length s" by simp_all
qed

end
