(* ===== verification/Utf16.thy ===== *)
theory Utf16
  imports Wtf8
begin

text \<open>
  The UTF-16 view of a string (\<open>backend/runtime/str.go\<close>: \<open>asciiPrefix\<close>, \<open>isASCII\<close>,
  \<open>utf16Len\<close>, \<open>toUnits\<close>; \<open>str_search_ascii.go\<close>: \<open>canonical\<close>), and the correspondence it
  rests on. \<open>of_units\<close> is the specification of a JavaScript string held as a Go string: the
  only canonical string with the given code units. \<open>text_repr\<close> is that contract as an
  interface, and the string operations are stated against it.
\<close>

subsection \<open>asciiPrefix\<close>

lemma bounded_ball: "S \<subseteq> {..<k} \<Longrightarrow> (\<forall>n<k. n \<in> S \<longrightarrow> P n) \<longleftrightarrow> (\<forall>n \<in> S. P (n :: nat))"
  by blast

lemma ascii_mask_bit:
  "n < 64 \<Longrightarrow> bit (0x8080808080808080 :: 64 word) n \<longleftrightarrow> n \<in> {7,15,23,31,39,47,55,63}"
proof -
  have "(0x8080808080808080 :: 64 word)
    = foldr (\<lambda>k w. push_bit k 1 OR w) [7,15,23,31,39,47,55,63] 0" by simp
  then show "n < 64 \<Longrightarrow> ?thesis"
    by (simp only: foldr.simps o_apply bit_or_iff bit_push_bit_iff bit_1_iff bit_0_eq bot_apply) auto
qed

lemma ascii_word:
  "((ucast (b0 :: byte) OR push_bit 8 (ucast (b1 :: byte)) OR push_bit 16 (ucast (b2 :: byte))
     OR push_bit 24 (ucast (b3 :: byte)) OR push_bit 32 (ucast (b4 :: byte)) OR push_bit 40 (ucast (b5 :: byte))
     OR push_bit 48 (ucast (b6 :: byte)) OR push_bit 56 (ucast (b7 :: byte)) :: 64 word)
      AND 0x8080808080808080 = 0)
   \<longleftrightarrow> (\<forall>b \<in> {b0, b1, b2, b3, b4, b5, b6, b7}. b < 0x80)"
  (is "?w AND ?m = 0 \<longleftrightarrow> ?r")
proof -
  have "?w AND ?m = 0 \<longleftrightarrow> (\<forall>n<64. \<not> (bit ?w n \<and> bit ?m n))"
    unfolding bit_eq_iff bit_and_iff possible_bit_word by (simp del: bit_numeral_word_iff)
  also have "\<dots> \<longleftrightarrow> (\<forall>n<64. n \<in> {7,15,23,31,39,47,55,63} \<longrightarrow> \<not> bit ?w n)"
    using ascii_mask_bit by blast
  also have "\<dots> \<longleftrightarrow> (\<forall>n \<in> {7,15,23,31,39,47,55,63}. \<not> bit ?w n)"
    by (rule bounded_ball) simp
  also have "\<dots> \<longleftrightarrow> ?r"
    by (simp add: byte_less_80_bit bit_or_iff bit_push_bit_iff bit_unsigned_iff bit_imp_le_length)
      (auto dest: bit_imp_le_length)
  finally show ?thesis .
qed

lemma ascii_tail_takeWhile: "ascii_tail s = length (takeWhile (\<lambda>b. b < 0x80) s)"
  by (induction s) auto

lemma ascii_prefix_step:
  "ascii_prefix (b0 # b1 # b2 # b3 # b4 # b5 # b6 # b7 # s) =
    (if \<forall>b \<in> {b0, b1, b2, b3, b4, b5, b6, b7}. b < 0x80 then 8 + ascii_prefix s
     else ascii_tail (b0 # b1 # b2 # b3 # b4 # b5 # b6 # b7 # s))"
  unfolding ascii_prefix.simps(1) Let_def ascii_word [symmetric] by (simp only: if_not_P if_P split: if_split) blast

text \<open>\<open>asciiPrefix\<close> counts the leading bytes below 0x80.\<close>

lemma ascii_prefix_takeWhile: "ascii_prefix s = length (takeWhile (\<lambda>b. b < 0x80) s)"
proof (induction "length s" arbitrary: s rule: less_induct)
  case less
  show ?case
  proof (cases "\<exists>b0 b1 b2 b3 b4 b5 b6 b7 t. s = b0 # b1 # b2 # b3 # b4 # b5 # b6 # b7 # t")
    case True
    then obtain b0 b1 b2 b3 b4 b5 b6 b7 t where s: "s = b0 # b1 # b2 # b3 # b4 # b5 # b6 # b7 # t"
      by blast
    have "ascii_prefix t = length (takeWhile (\<lambda>b. b < 0x80) t)" using s by (intro less) simp
    then show ?thesis unfolding s ascii_prefix_step
      by (auto simp: ascii_tail_takeWhile simp del: ascii_tail.simps)
  next
    case False
    then have "ascii_prefix s = ascii_tail s" by (cases s rule: ascii_prefix.cases) auto
    then show ?thesis by (simp add: ascii_tail_takeWhile)
  qed
qed

lemma isASCII_iff: "isASCII s \<longleftrightarrow> (\<forall>b \<in> set s. b < 0x80)"
proof -
  have "length (takeWhile P s) = length s \<longleftrightarrow> (\<forall>b \<in> set s. P b)" for P
    by (induction s) auto
  then show ?thesis by (simp add: isASCII_def ascii_prefix_takeWhile)
qed

subsection \<open>Walking a string\<close>

lemma snd_char_at_pos [simp]: "char_at (b # s) 0 = (r, k) \<Longrightarrow> 0 < k"
  using char_at_size(1) [of "b # s"] by simp

lemma char_at_pos_sym [simp]: "(r, k) = char_at (b # s) 0 \<Longrightarrow> 0 < k"
  by (metis snd_char_at_pos)

lemma ascii_prefix_pos [simp]: "b < 0x80 \<Longrightarrow> 0 < ascii_prefix (b # s)"
  by (simp add: ascii_prefix_takeWhile)

text \<open>\<open>utf16Len\<close>: a run of ASCII is skipped whole.\<close>

function utf16_len_from :: "byte list \<Rightarrow> nat \<Rightarrow> nat" where
  "utf16_len_from [] n = n"
| "utf16_len_from (b # s) n =
     (if b < 0x80 then
        let k = ascii_prefix (b # s) in utf16_len_from (drop k (b # s)) (n + k)
      else
        let (r, size) = char_at (b # s) 0
        in utf16_len_from (drop size (b # s)) (if r \<ge> 0x10000 then n + 1 + 1 else n + 1))"
  by pat_completeness auto
termination
  by (relation "measure (\<lambda>(s, n). length s)") auto

definition utf16Len :: "byte list \<Rightarrow> nat" where
  "utf16Len s = utf16_len_from s 0"

function toUnits :: "byte list \<Rightarrow> unit16 list" where
  "toUnits [] = []"
| "toUnits (b # s) =
     (let (r, size) = char_at (b # s) 0
      in if r \<ge> 0x10000
         then let r = r - 0x10000
              in word_of_nat (0xD800 + drop_bit 10 r) # word_of_nat (0xDC00 + (r AND 0x3FF))
                 # toUnits (drop size (b # s))
         else word_of_nat r # toUnits (drop size (b # s)))"
  by pat_completeness auto
termination
  by (relation "measure length") auto

text \<open>\<open>canonical\<close>: no stray byte, no high half followed by a low one.\<close>

function canonical_from :: "byte list \<Rightarrow> bool \<Rightarrow> bool" where
  "canonical_from [] high = True"
| "canonical_from (b # s) high =
     (if b < 0x80 then canonical_from (drop (ascii_prefix (b # s)) (b # s)) False
      else
        let (r, size) = char_at (b # s) 0
        in if (r = rune_error \<and> size = 1) \<or> (high \<and> r \<ge> 0xDC00 \<and> r \<le> 0xDFFF) then False
           else canonical_from (drop size (b # s)) (r \<ge> 0xD800 \<and> r \<le> 0xDBFF))"
  by pat_completeness auto
termination
  by (relation "measure (\<lambda>(s, h). length s)") auto

definition canonical :: "byte list \<Rightarrow> bool" where
  "canonical s \<longleftrightarrow> canonical_from s False"

declare utf16_len_from.simps(2) [simp del] toUnits.simps(2) [simp del] canonical_from.simps(2) [simp del]

subsection \<open>The characters of a string\<close>

function scan :: "byte list \<Rightarrow> (rune \<times> nat) list" where
  "scan [] = []"
| "scan (b # s) = char_at (b # s) 0 # scan (drop (snd (char_at (b # s) 0)) (b # s))"
  by pat_completeness auto
termination
  by (relation "measure length") (auto simp: char_at_size)

declare scan.simps(2) [simp del]

definition encode :: "rune list \<Rightarrow> byte list" where
  "encode rs = concat (map wtf8 rs)"

definition units_of :: "rune \<Rightarrow> unit16 list" where
  "units_of r =
     (if r \<ge> 0x10000
      then [word_of_nat (0xD800 + (r - 0x10000) div 1024), word_of_nat (0xDC00 + (r - 0x10000) mod 1024)]
      else [word_of_nat r])"

definition stray :: "rune \<times> nat \<Rightarrow> bool" where
  "stray c \<longleftrightarrow> c = (rune_error, 1)"

definition is_high :: "rune \<Rightarrow> bool" where "is_high r \<longleftrightarrow> 0xD800 \<le> r \<and> r \<le> 0xDBFF"
definition is_low :: "rune \<Rightarrow> bool" where "is_low r \<longleftrightarrow> 0xDC00 \<le> r \<and> r \<le> 0xDFFF"

fun no_pair :: "rune list \<Rightarrow> bool" where
  "no_pair (r # q # rs) \<longleftrightarrow> \<not> (is_high r \<and> is_low q) \<and> no_pair (q # rs)"
| "no_pair _ \<longleftrightarrow> True"

lemma scan_ascii: "b < 0x80 \<Longrightarrow> scan (b # s) = (unat b, 1) # scan s"
  by (simp add: scan.simps(2) char_at_Cons)

lemma scan_ascii_map: "\<forall>b \<in> set s. b < 0x80 \<Longrightarrow> scan s = map (\<lambda>b. (unat b, Suc 0)) s"
  by (induction s) (auto simp: scan_ascii)

lemma scan_ascii_prefix:
  "scan s = map (\<lambda>b. (unat b, 1)) (take (ascii_prefix s) s) @ scan (drop (ascii_prefix s) s)"
  unfolding ascii_prefix_takeWhile by (induction s) (auto simp: scan_ascii)

lemma take_ascii_prefix: "\<forall>b \<in> set (take (ascii_prefix s) s). b < 0x80"
  unfolding ascii_prefix_takeWhile by (metis takeWhile_eq_take set_takeWhileD)

lemma toUnits_scan: "toUnits s = concat (map (units_of \<circ> fst) (scan s))"
  by (induction s rule: toUnits.induct)
    (auto simp: toUnits.simps(2) scan.simps(2) units_of_def and_3FF_nat drop_bit_eq_div Let_def
      split: prod.splits simp del: of_nat_add)

lemma length_units_of: "length (units_of r) = (if r \<ge> 0x10000 then 2 else 1)"
  by (simp add: units_of_def)

lemma ascii_units_length:
  "\<forall>b \<in> set xs. b < 0x80 \<Longrightarrow>
   (\<Sum>b \<leftarrow> xs. length (units_of (unat (b :: byte)))) = length xs"
  by (induction xs) (auto simp: length_units_of byte_order)

lemma utf16_len_from_scan: "utf16_len_from s n = n + (\<Sum>c \<leftarrow> scan s. length (units_of (fst c)))"
proof (induction s n rule: utf16_len_from.induct)
  case (2 b s n)
  show ?case
  proof (cases "b < 0x80")
    case True
    have "ascii_prefix (b # s) \<le> length (b # s)"
      unfolding ascii_prefix_takeWhile by (rule length_takeWhile_le)
    with take_ascii_prefix [of "b # s"] 2(1) [OF True refl] True show ?thesis
      by (subst scan_ascii_prefix) (simp add: utf16_len_from.simps(2) Let_def ascii_units_length comp_def)
  next
    case False
    with 2(2) [OF False] show ?thesis
      by (auto simp: utf16_len_from.simps(2) scan.simps(2) length_units_of split: prod.splits)
  qed
qed simp

lemma utf16Len_eq: "utf16Len s = length (toUnits s)"
  by (simp add: utf16Len_def utf16_len_from_scan toUnits_scan length_concat comp_def)

fun canon_list :: "bool \<Rightarrow> (rune \<times> nat) list \<Rightarrow> bool" where
  "canon_list h [] \<longleftrightarrow> True"
| "canon_list h (c # cs) \<longleftrightarrow> \<not> stray c \<and> \<not> (h \<and> is_low (fst c)) \<and> canon_list (is_high (fst c)) cs"

lemma ascii_not_special [simp]:
  "(b :: byte) < 0x80 \<Longrightarrow> \<not> stray (unat b, k)" "b < 0x80 \<Longrightarrow> \<not> is_low (unat b)" "b < 0x80 \<Longrightarrow> \<not> is_high (unat b)"
  by (auto simp: stray_def rune_error_def is_low_def is_high_def byte_order)

lemma canon_list_ascii:
  "\<forall>b \<in> set xs. b < 0x80 \<Longrightarrow> xs \<noteq> [] \<Longrightarrow>
   canon_list h (map (\<lambda>b :: byte. (unat b, Suc 0)) xs @ cs) = canon_list False cs"
proof (induction xs arbitrary: h)
  case (Cons b xs)
  then show ?case by (cases xs) auto
qed simp

lemma canonical_from_scan: "canonical_from s h = canon_list h (scan s)"
proof (induction s h rule: canonical_from.induct)
  case (2 b s h)
  show ?case
  proof (cases "b < 0x80")
    case True
    with 2(1) [OF True] take_ascii_prefix [of "b # s"] show ?thesis
      by (subst scan_ascii_prefix)
        (simp add: canonical_from.simps(2) canon_list_ascii ascii_prefix_pos [THEN less_imp_neq, symmetric])
  next
    case False
    with 2(2) [OF False] show ?thesis
      by (auto simp: canonical_from.simps(2) scan.simps(2) stray_def is_low_def is_high_def split: prod.splits)
  qed
qed simp

lemma canon_list_iff:
  "canon_list h cs \<longleftrightarrow>
    (\<forall>c \<in> set cs. \<not> stray c) \<and> no_pair (map fst cs) \<and> \<not> (h \<and> cs \<noteq> [] \<and> is_low (fst (hd cs)))"
proof (induction cs arbitrary: h)
  case (Cons c cs)
  then show ?case by (cases cs) auto
qed simp

lemma length_wtf8_error: "length (wtf8 rune_error) = 3"
  by (simp add: wtf8_def rune_error_def)

lemma not_stray_wtf8 [simp]: "\<not> stray (r, length (wtf8 r))"
  using length_wtf8_error by (auto simp: stray_def)

lemma scan_wtf8: "r < 0x110000 \<Longrightarrow> scan (wtf8 r @ s) = (r, length (wtf8 r)) # scan s"
proof -
  assume r: "r < 0x110000"
  obtain b t where bt: "wtf8 r @ s = b # t" by (cases "wtf8 r @ s") auto
  have c: "char_at (b # t) 0 = (r, length (wtf8 r))" using char_at_wtf8 [OF r, of s] by (simp add: bt)
  have "drop (length (wtf8 r)) (b # t) = s" by (simp flip: bt)
  with c show ?thesis by (simp add: bt scan.simps(2))
qed

lemma encode_simps [simp]: "encode [] = []" "encode (r # rs) = wtf8 r @ encode rs"
    "encode (rs @ qs) = encode rs @ encode qs"
  by (simp_all add: encode_def)

lemma scan_encode:
  "\<forall>r \<in> set rs. r < 0x110000 \<Longrightarrow> scan (encode rs) = map (\<lambda>r. (r, length (wtf8 r))) rs"
  by (induction rs) (auto simp: scan_wtf8)

lemma scan_decode:
  "\<forall>c \<in> set (scan s). \<not> stray c \<Longrightarrow>
   encode (map fst (scan s)) = s \<and> (\<forall>r \<in> set (map fst (scan s)). r < 0x110000)"
proof (induction s rule: scan.induct)
  case (2 b s)
  obtain r k where rk: "char_at (b # s) 0 = (r, k)" by (cases "char_at (b # s) 0")
  with 2 have r: "r < 0x110000" "take k (b # s) = wtf8 r"
    using char_at_inv [OF rk] by (auto simp: scan.simps(2) stray_def)
  with 2 rk have "encode (map fst (scan (drop k (b # s)))) = drop k (b # s)"
    "\<forall>r \<in> set (map fst (scan (drop k (b # s)))). r < 0x110000"
    by (simp_all add: scan.simps(2))
  with r rk show ?case
    by (simp add: scan.simps(2) flip: r(2))
qed simp

text \<open>The canonical strings are the encodings of code points with no two halves that pair.\<close>

lemma canonical_scan: "canonical s \<longleftrightarrow> (\<forall>c \<in> set (scan s). \<not> stray c) \<and> no_pair (map fst (scan s))"
  by (simp add: canonical_def canonical_from_scan canon_list_iff)

lemma canonical_iff:
  "canonical s \<longleftrightarrow> (\<exists>rs. s = encode rs \<and> (\<forall>r \<in> set rs. r < 0x110000) \<and> no_pair rs)"
proof
  assume "canonical s"
  then show "\<exists>rs. s = encode rs \<and> (\<forall>r \<in> set rs. r < 0x110000) \<and> no_pair rs"
    using scan_decode [of s] by (intro exI [of _ "map fst (scan s)"]) (auto simp: canonical_scan)
next
  assume "\<exists>rs. s = encode rs \<and> (\<forall>r \<in> set rs. r < 0x110000) \<and> no_pair rs"
  then show "canonical s" by (auto simp: canonical_scan scan_encode comp_def)
qed

subsection \<open>UTF-16\<close>

fun pair_up :: "unit16 list \<Rightarrow> rune list" where
  "pair_up (u # v # us) =
     (if is_high (unat u) \<and> is_low (unat v)
      then (0x10000 + (unat u - 0xD800) * 1024 + (unat v - 0xDC00)) # pair_up us
      else unat u # pair_up (v # us))"
| "pair_up us = map unat us"

definition of_units :: "unit16 list \<Rightarrow> byte list" where
  "of_units us = encode (pair_up us)"

lemma halves_less [simp]: "is_high r \<Longrightarrow> r < 65536" "is_low r \<Longrightarrow> r < 65536"
  by (simp_all add: is_high_def is_low_def)

lemma pair_value:
  assumes "is_high h" "is_low l"
  shows "0x10000 + (h - 0xD800) * 1024 + (l - 0xDC00) < 0x110000"
    and "units_of (0x10000 + (h - 0xD800) * 1024 + (l - 0xDC00)) = [word_of_nat h, word_of_nat l]"
    and "\<not> is_high (0x10000 + (h - 0xD800) * 1024 + (l - 0xDC00))"
    and "\<not> is_low (0x10000 + (h - 0xD800) * 1024 + (l - 0xDC00))"
proof -
  define a b where "a = h - 0xD800" and "b = l - 0xDC00"
  have ab: "h = 0xD800 + a" "l = 0xDC00 + b" "a < 1024" "b < 1024"
    using assms by (auto simp: a_def b_def is_high_def is_low_def)
  then have d: "(a * 1024 + b) div 1024 = a" "(a * 1024 + b) mod 1024 = b" by simp_all
  show "0x10000 + (h - 0xD800) * 1024 + (l - 0xDC00) < 0x110000" using ab by simp
  show "units_of (0x10000 + (h - 0xD800) * 1024 + (l - 0xDC00)) = [word_of_nat h, word_of_nat l]"
    using ab d by (simp add: units_of_def add.assoc del: of_nat_add)
  show "\<not> is_high (0x10000 + (h - 0xD800) * 1024 + (l - 0xDC00))"
    "\<not> is_low (0x10000 + (h - 0xD800) * 1024 + (l - 0xDC00))"
    by (simp_all add: is_high_def is_low_def)
qed

lemma pair_up_bound: "\<forall>r \<in> set (pair_up us). r < 0x110000"
proof (induction us rule: pair_up.induct [case_names two none one])
  case (two u v us)
  have "unat u < 0x110000" by (rule less_trans [OF unat_unit_less]) simp
  with two pair_value(1) show ?case by (auto simp del: is_high_def)
next
  case (one u)
  have "unat u < 0x110000" by (rule less_trans [OF unat_unit_less]) simp
  then show ?case by simp
qed simp

lemma pair_up_hd: "is_low (hd (pair_up (v # us))) \<Longrightarrow> is_low (unat v)"
  by (cases us) (auto split: if_splits simp: pair_value(4))

lemma pair_up_not_Nil [simp]: "pair_up (v # us) \<noteq> []"
  by (cases us) auto

lemma no_pair_Cons: "no_pair (r # rs) \<longleftrightarrow> \<not> (is_high r \<and> rs \<noteq> [] \<and> is_low (hd rs)) \<and> no_pair rs"
  by (cases rs) auto

lemma pair_up_no_pair: "no_pair (pair_up us)"
proof (induction us rule: pair_up.induct)
  case (1 u v us)
  then show ?case using pair_up_hd [of v us] by (auto simp: no_pair_Cons pair_value(3))
qed simp_all

lemma units_of_unit [simp]: "units_of (unat (u :: unit16)) = [u]"
  using unat_unit_less [of u] by (simp add: units_of_def not_le del: unat_unit_less)

lemma units_of_pair_up: "concat (map units_of (pair_up us)) = us"
  by (induction us rule: pair_up.induct) (auto simp: pair_value(2))

lemma units_of_cases:
  assumes "r < 0x110000"
  obtains (one) u where "units_of r = [u]" "r = unat u" "r < 0x10000"
  | (two) u v where "units_of r = [u, v]" "is_high (unat u)" "is_low (unat v)"
      "r = 0x10000 + (unat u - 0xD800) * 1024 + (unat v - 0xDC00)" "0x10000 \<le> r"
proof (cases "r < 0x10000")
  case True
  then show thesis
    by (intro one [of "word_of_nat r"]) (simp_all add: units_of_def unat_word_of_nat_unit)
next
  case False
  define q where "q = r - 0x10000"
  have q: "r = 0x10000 + q" "q < 0x100000" using False assms by (simp_all add: q_def)
  have d: "q div 1024 < 1024" using q(2) by (simp add: less_mult_imp_div_less)
  have "q mod 1024 < 1024" by simp
  with q d show thesis
    by (intro two [of "word_of_nat (0xD800 + q div 1024)" "word_of_nat (0xDC00 + q mod 1024)"])
      (simp_all add: units_of_def unat_word_of_nat_unit is_high_def is_low_def del: of_nat_add)
qed

lemma pair_up_units:
  "\<forall>r \<in> set rs. r < 0x110000 \<Longrightarrow> no_pair rs \<Longrightarrow> pair_up (concat (map units_of rs)) = rs"
proof (induction rs)
  case (Cons r rs)
  then have r: "r < 0x110000" and IH: "pair_up (concat (map units_of rs)) = rs"
    by (auto simp: no_pair_Cons)
  from r show ?case
  proof (cases rule: units_of_cases)
    case r1: (one u)
    show ?thesis
    proof (cases rs)
      case (Cons q qs)
      then have q: "q < 0x110000" and np: "\<not> (is_high r \<and> is_low q)"
        using Cons.prems by auto
      from q show ?thesis
      proof (cases rule: units_of_cases)
        case (one v)
        with Cons np IH r1 show ?thesis by auto
      next
        case (two v w)
        then have "\<not> is_low (unat v)" by (auto simp: is_high_def is_low_def)
        with two Cons IH r1 show ?thesis by simp
      qed
    qed (use r1 in simp)
  next
    case (two u v)
    with IH show ?thesis by simp
  qed
qed simp

subsection \<open>The correspondence\<close>

lemma toUnits_encode: "\<forall>r \<in> set rs. r < 0x110000 \<Longrightarrow> toUnits (encode rs) = concat (map units_of rs)"
  by (simp add: toUnits_scan scan_encode comp_def)

lemma toUnits_of_units [simp]: "toUnits (of_units us) = us"
  by (simp add: of_units_def toUnits_encode pair_up_bound units_of_pair_up)

lemma canonical_of_units [simp]: "canonical (of_units us)"
  unfolding of_units_def canonical_iff using pair_up_bound pair_up_no_pair by blast

lemma of_units_toUnits: "canonical s \<Longrightarrow> of_units (toUnits s) = s"
  by (auto simp: canonical_iff of_units_def toUnits_encode pair_up_units)

text \<open>
  The contract of a string representation: every sequence of code units has exactly one
  valid string, and equality of valid strings is equality of their units, which is what lets
  the backend compile \<open>===\<close> to Go's \<open>==\<close>.
\<close>

locale text_repr =
  fixes units :: "'s \<Rightarrow> 'u list"
    and make :: "'u list \<Rightarrow> 's"
    and valid :: "'s \<Rightarrow> bool"
  assumes units_make: "units (make us) = us"
    and valid_make: "valid (make us)"
    and make_units: "valid s \<Longrightarrow> make (units s) = s"
begin

lemma eq_iff_units: "valid s \<Longrightarrow> valid t \<Longrightarrow> s = t \<longleftrightarrow> units s = units t"
  by (metis make_units)

lemma make_inj: "make us = make vs \<longleftrightarrow> us = vs"
  by (metis units_make)

lemma valid_iff_make: "valid s \<longleftrightarrow> (\<exists>us. s = make us)"
  by (metis make_units valid_make)

lemma ex1_valid: "\<exists>!s. valid s \<and> units s = us"
  by (metis units_make valid_make make_units)

lemma make_eqI: "valid s \<Longrightarrow> units s = us \<Longrightarrow> s = make us"
  by (auto simp: make_units)

end

interpretation wtf: text_repr toUnits of_units canonical
  by unfold_locales (simp_all add: of_units_toUnits)

end
