(* ===== verification/JsStr.thy ===== *)
theory JsStr
  imports Utf16
begin

text \<open>
  Building and cutting strings: \<open>jsStr\<close>, \<open>strBuilder\<close>, \<open>endsHigh\<close>, \<open>startsLow\<close>, \<open>StrConcat\<close>,
  \<open>joinStrings\<close>, \<open>StrCharAt\<close>, \<open>StrCharCodeAt\<close>, \<open>unitAt\<close>, \<open>StrSlice\<close>, \<open>StrSubstring\<close> of
  \<open>backend/runtime/str.go\<close>. A \<open>strBuilder\<close> is the bytes it holds.

  Every operation is shown to compute, on canonical strings, what JavaScript computes on
  code units: \<open>op (of_units us) = of_units (\<dots>us\<dots>)\<close>.
\<close>

subsection \<open>jsStr\<close>

record jsStr =
  js_s :: "byte list"
  js_units :: "unit16 list option"

definition newJSStr :: "byte list \<Rightarrow> jsStr" where
  "newJSStr s = \<lparr>js_s = s, js_units = (if isASCII s then None else Some (toUnits s))\<rparr>"

definition jsStr_len :: "jsStr \<Rightarrow> nat" where
  "jsStr_len v = (case js_units v of None \<Rightarrow> length (js_s v) | Some us \<Rightarrow> length us)"

definition jsStr_at :: "jsStr \<Rightarrow> nat \<Rightarrow> unit16" where
  "jsStr_at v i = (case js_units v of None \<Rightarrow> ucast (js_s v ! i) | Some us \<Rightarrow> us ! i)"

text \<open>Go's \<open>x[from:to]\<close>, for \<open>from \<le> to \<le> len(x)\<close>.\<close>

definition slice :: "'a list \<Rightarrow> nat \<Rightarrow> nat \<Rightarrow> 'a list" where
  "slice xs from to = take (to - from) (drop from xs)"

subsection \<open>strBuilder\<close>

text \<open>\<open>joinLow\<close>: the new bytes, or \<open>None\<close> where the builder ends in no high half.\<close>

definition joinLow :: "byte list \<Rightarrow> rune \<Rightarrow> byte list option" where
  "joinLow b low =
     (let n = length b
      in if n < 3 then None
         else case half (b ! (n - 3)) (b ! (n - 2)) (b ! (n - 1)) of
                None \<Rightarrow> None
              | Some high \<Rightarrow>
                  if high \<ge> 0xDC00 then None
                  else Some (append_rune (take (n - 3) b)
                               (0x10000 + push_bit 10 (high - 0xD800) + (low - 0xDC00))))"

definition sb_str :: "byte list \<Rightarrow> byte list \<Rightarrow> byte list" where
  "sb_str b s =
     (case (if length s \<ge> 3 then half (s ! 0) (s ! 1) (s ! 2) else None) of
        None \<Rightarrow> b @ s
      | Some low \<Rightarrow>
          if low \<ge> 0xDC00
          then case joinLow b low of None \<Rightarrow> b @ s | Some b' \<Rightarrow> b' @ drop 3 s
          else b @ s)"

definition sb_unit :: "byte list \<Rightarrow> unit16 \<Rightarrow> byte list" where
  "sb_unit b u =
     (let r = unat u
      in if r < 0x80 then b @ [word_of_nat r]
         else if r \<ge> 0xDC00 \<and> r \<le> 0xDFFF then
           (case joinLow b r of Some b' \<Rightarrow> b' | None \<Rightarrow> appendHalf b r)
         else if r \<ge> 0xD800 \<and> r \<le> 0xDBFF then appendHalf b r
         else append_rune b r)"

definition sb_sub :: "byte list \<Rightarrow> jsStr \<Rightarrow> nat \<Rightarrow> nat \<Rightarrow> byte list" where
  "sb_sub b v from to =
     (case js_units v of
        None \<Rightarrow> b @ slice (js_s v) from to
      | Some us \<Rightarrow> foldl sb_unit b (slice us from to))"

definition jsStr_sub :: "jsStr \<Rightarrow> nat \<Rightarrow> nat \<Rightarrow> byte list" where
  "jsStr_sub v from to =
     (case js_units v of
        None \<Rightarrow> slice (js_s v) from to
      | Some _ \<Rightarrow> sb_sub [] v from to)"

definition endsHigh :: "byte list \<Rightarrow> bool" where
  "endsHigh s =
     (let n = length s
      in case (if n \<ge> 3 then half (s ! (n - 3)) (s ! (n - 2)) (s ! (n - 1)) else None) of
           None \<Rightarrow> False
         | Some u \<Rightarrow> u < 0xDC00)"

definition startsLow :: "byte list \<Rightarrow> bool" where
  "startsLow s = (case surrogateAt s 0 of None \<Rightarrow> False | Some u \<Rightarrow> u \<ge> 0xDC00)"

subsection \<open>Joining\<close>

text \<open>\<open>joinsHalves\<close>: the loop over the items, with \<open>first\<close> for \<open>i = 0\<close>.\<close>

fun joins_from :: "byte list \<Rightarrow> bool \<Rightarrow> bool \<Rightarrow> byte list list \<Rightarrow> bool" where
  "joins_from sep first high [] = False"
| "joins_from sep first high (s # items) =
     (if \<not> first \<and> sep \<noteq> [] \<and> high \<and> startsLow sep then True
      else
        let high1 = (if \<not> first \<and> sep \<noteq> [] then endsHigh sep else high)
        in if s \<noteq> [] \<and> high1 \<and> startsLow s then True
           else joins_from sep False (if s \<noteq> [] then endsHigh s else high1) items)"

definition joinsHalves :: "byte list list \<Rightarrow> byte list \<Rightarrow> bool" where
  "joinsHalves items sep = joins_from sep True False items"

fun join_builder :: "byte list \<Rightarrow> byte list \<Rightarrow> bool \<Rightarrow> byte list list \<Rightarrow> byte list" where
  "join_builder b sep first [] = b"
| "join_builder b sep first (s # items) =
     join_builder (sb_str (if first then b else sb_str b sep) s) sep False items"

definition joinStrings :: "byte list list \<Rightarrow> byte list \<Rightarrow> byte list" where
  "joinStrings items sep =
     (if \<not> joinsHalves items sep then separated sep items
      else join_builder [] sep True items)"

subsection \<open>Halves at the ends of an encoding\<close>

lemma half_three_digits:
  assumes "a < 16" "b < 64" "c < 64" "32 \<le> a * 64 + b"
  shows "half (word_of_nat (224 + a)) (word_of_nat (128 + b)) (word_of_nat (128 + c))
    = (if 0xD800 \<le> (a * 64 + b) * 64 + c \<and> (a * 64 + b) * 64 + c \<le> 0xDFFF
       then Some ((a * 64 + b) * 64 + c) else None)"
proof -
  have "(0xD800 \<le> (a * 64 + b) * 64 + c \<and> (a * 64 + b) * 64 + c \<le> 0xDFFF) \<longleftrightarrow> a = 13 \<and> 32 \<le> b"
  proof
    assume r: "0xD800 \<le> (a * 64 + b) * 64 + c \<and> (a * 64 + b) * 64 + c \<le> 0xDFFF"
    then have "a = 13" using assms by auto
    with r assms show "a = 13 \<and> 32 \<le> b" by auto
  qed (use assms in auto)
  then show ?thesis using assms by (auto simp: half_digits [of _ b _ c] simp del: of_nat_add distrib_right_numeral)
qed

definition last_half :: "byte list \<Rightarrow> rune option" where
  "last_half b = (let n = length b in if n \<ge> 3 then half (b ! (n - 3)) (b ! (n - 2)) (b ! (n - 1)) else None)"

lemma last_half_three: "last_half (p @ [x, y, z]) = half x y z"
  by (simp add: last_half_def nth_append)

lemma last_half_snoc: "(\<And>x y. half x y z = None) \<Longrightarrow> last_half (p @ [z]) = None"
  by (simp add: last_half_def nth_append)

lemma last_half_snoc2: "(\<And>x. half x y z = None) \<Longrightarrow> last_half (p @ [y, z]) = None"
  by (cases "p = []") (auto simp: last_half_def nth_append)

lemma last_half_wtf8:
  assumes "r < 0x110000"
  shows "last_half (p @ wtf8 r) = (if 0xD800 \<le> r \<and> r \<le> 0xDFFF then Some r else None)"
  using assms
proof (cases rule: rune_cases)
  case one
  then show ?thesis
    by (simp add: wtf8_1, intro last_half_snoc) (simp add: half_arith)
next
  case (two a b)
  have "last_half (p @ [word_of_nat (192 + a), word_of_nat (128 + b)]) = None"
    by (rule last_half_snoc2) (use two in \<open>simp add: half_arith del: of_nat_add\<close>)
  with two show ?thesis by (simp add: wtf8_2 del: of_nat_add)
next
  case (three a b c)
  then show ?thesis
    by (simp add: wtf8_3 last_half_three half_three_digits del: of_nat_add distrib_right_numeral)
next
  case (four a b c d)
  have "last_half ((p @ [word_of_nat (240 + a)]) @ [word_of_nat (128 + b), word_of_nat (128 + c), word_of_nat (128 + d)]) = None"
    unfolding last_half_three using four by (simp add: half_arith del: of_nat_add)
  moreover have "65536 \<le> r"
    using four mult_le_mono1 [OF four(6), of 4096] by simp
  ultimately show ?thesis using four by (simp add: wtf8_4 del: of_nat_add distrib_right_numeral)
qed

lemma surrogateAt_wtf8:
  assumes "r < 0x110000"
  shows "surrogateAt (wtf8 r @ s) 0 = (if 0xD800 \<le> r \<and> r \<le> 0xDFFF then Some r else None)"
  using assms
proof (cases rule: rune_cases)
  case one
  then show ?thesis by (simp add: wtf8_1 surrogateAt_half half_arith)
next
  case (two a b)
  then show ?thesis by (simp add: wtf8_2 surrogateAt_half half_arith del: of_nat_add)
next
  case (three a b c)
  then show ?thesis
    by (simp add: wtf8_3 surrogateAt_half half_three_digits numeral_2_eq_2 del: of_nat_add distrib_right_numeral)
next
  case (four a b c d)
  moreover have "65536 \<le> r"
    using four mult_le_mono1 [OF four(6), of 4096] by simp
  ultimately show ?thesis
    by (simp add: wtf8_4 surrogateAt_half half_arith del: of_nat_add distrib_right_numeral)
qed

lemma last_half_Nil [simp]: "last_half [] = None"
  by (simp add: last_half_def)

lemma last_half_encode:
  assumes "\<forall>r \<in> set rs. r < 0x110000"
  shows "last_half (encode rs)
    = (if rs \<noteq> [] \<and> 0xD800 \<le> last rs \<and> last rs \<le> 0xDFFF then Some (last rs) else None)"
proof (cases rs rule: rev_cases)
  case (snoc ys r)
  with assms show ?thesis by (simp add: last_half_wtf8)
qed simp

lemma surrogateAt_encode:
  assumes "\<forall>r \<in> set rs. r < 0x110000"
  shows "surrogateAt (encode rs) 0
    = (if rs \<noteq> [] \<and> 0xD800 \<le> hd rs \<and> hd rs \<le> 0xDFFF then Some (hd rs) else None)"
proof (cases rs)
  case (Cons r qs)
  with assms show ?thesis by (simp add: surrogateAt_wtf8)
qed (simp add: surrogateAt_half)

subsection \<open>Seams\<close>

definition seam :: "unit16 list \<Rightarrow> unit16 list \<Rightarrow> bool" where
  "seam us vs \<longleftrightarrow> us \<noteq> [] \<and> vs \<noteq> [] \<and> is_high (unat (last us)) \<and> is_low (unat (hd vs))"

lemma not_high_low: "is_high r \<Longrightarrow> \<not> is_low r"
  by (simp add: is_high_def is_low_def)

lemma pair_up_append: "\<not> seam us vs \<Longrightarrow> pair_up (us @ vs) = pair_up us @ pair_up vs"
proof (induction us rule: pair_up.induct [case_names two none one])
  case (two u v us)
  show ?case
  proof (cases "is_high (unat u) \<and> is_low (unat v)")
    case True
    then have "\<not> seam us vs" using two(3) by (auto simp: seam_def split: if_splits)
    with two(1) True show ?thesis by simp
  next
    case False
    with two(3) have "\<not> seam (v # us) vs" by (auto simp: seam_def)
    with two(2) False show ?thesis by auto
  qed
next
  case (one u)
  then show ?case by (cases vs) (auto simp: seam_def)
qed simp

lemma pair_up_snoc_high: "is_high (unat u) \<Longrightarrow> pair_up (us @ [u]) = pair_up us @ [unat u]"
  by (subst pair_up_append) (auto simp: seam_def dest: not_high_low)

lemma pair_up_last_surrogate:
  assumes "us \<noteq> []" "0xD800 \<le> last (pair_up us)" "last (pair_up us) \<le> 0xDFFF"
  shows "last (pair_up us) = unat (last us)"
  using assms
proof (induction us rule: pair_up.induct)
  case (1 u v us)
  then show ?case
    by (cases us) (auto simp: pair_value(3,4) split: if_splits)
qed simp_all

lemma pair_up_eq_Nil [simp]: "pair_up us = [] \<longleftrightarrow> us = []"
  by (cases us) auto

lemma endsHigh_last_half: "endsHigh s \<longleftrightarrow> (case last_half s of None \<Rightarrow> False | Some u \<Rightarrow> u < 0xDC00)"
  by (simp add: endsHigh_def last_half_def Let_def)

lemma endsHigh_of_units: "endsHigh (of_units us) \<longleftrightarrow> us \<noteq> [] \<and> is_high (unat (last us))"
proof (cases us rule: rev_cases)
  case (snoc ys u)
  show ?thesis
  proof (cases "is_high (unat u)")
    case True
    with snoc show ?thesis
      by (simp add: of_units_def endsHigh_last_half pair_up_snoc_high last_half_wtf8 is_high_def)
  next
    case False
    with snoc pair_up_last_surrogate [of us] show ?thesis
      by (auto simp: of_units_def endsHigh_last_half last_half_encode pair_up_bound is_high_def
          split: if_splits)
  qed
qed (simp add: of_units_def endsHigh_last_half)

lemma hd_pair_up_low: "us \<noteq> [] \<Longrightarrow> is_low (hd (pair_up us)) \<longleftrightarrow> is_low (unat (hd us))"
  by (cases us rule: pair_up.cases) (auto simp: pair_value(4) dest: not_high_low)

lemma startsLow_of_units: "startsLow (of_units us) \<longleftrightarrow> us \<noteq> [] \<and> is_low (unat (hd us))"
  using hd_pair_up_low [of us]
  by (auto simp: startsLow_def of_units_def surrogateAt_encode pair_up_bound is_low_def)

subsection \<open>The builder computes on code units\<close>

lemma append_rune_wtf8: "r < 0x110000 \<Longrightarrow> \<not> is_high r \<Longrightarrow> \<not> is_low r \<Longrightarrow> append_rune b r = b @ wtf8 r"
  by (auto simp: append_rune_def is_high_def is_low_def)

lemma appendHalf_wtf8: "is_high u \<or> is_low u \<Longrightarrow> appendHalf b u = b @ wtf8 u"
proof -
  assume "is_high u \<or> is_low u"
  then have u: "0xD800 \<le> u" "u \<le> 0xDFFF" by (auto simp: is_high_def is_low_def)
  then have "u div 64 div 64 = 13" by simp
  moreover have "0x80 OR n mod 64 = 0x80 + n mod (64 :: nat)" for n
    using or_push_bit [of "n mod 64" 6 2] by (simp add: push_bit_eq_mult)
  ultimately show ?thesis using u
    by (simp add: appendHalf_def wtf8_def and_3F_nat drop_bit_eq_div)
qed

lemma joinLow_last_half:
  "joinLow b low = (case last_half b of None \<Rightarrow> None
     | Some high \<Rightarrow> if high \<ge> 0xDC00 then None
         else Some (append_rune (take (length b - 3) b) (0x10000 + (high - 0xD800) * 1024 + (low - 0xDC00))))"
  by (auto simp: joinLow_def last_half_def Let_def push_bit_eq_mult split: option.split)

lemma length_wtf8_half: "is_high r \<or> is_low r \<Longrightarrow> length (wtf8 r) = 3"
  by (auto simp: wtf8_def is_high_def is_low_def)

lemma joinLow_of_units:
  assumes "is_low (unat l)"
  shows "joinLow (of_units us) (unat l)
    = (if us \<noteq> [] \<and> is_high (unat (last us)) then Some (of_units (us @ [l])) else None)"
proof (cases "us \<noteq> [] \<and> is_high (unat (last us))")
  case True
  then obtain ys h where us: "us = ys @ [h]" and h: "is_high (unat h)"
    by (cases us rule: rev_cases) auto
  have b: "of_units us = encode (pair_up ys) @ wtf8 (unat h)"
    using us h by (simp add: of_units_def pair_up_snoc_high)
  have lh: "last_half (of_units us) = Some (unat h)"
    using h by (simp add: b last_half_wtf8 is_high_def)
  have "pair_up (us @ [l])
    = pair_up ys @ [0x10000 + (unat h - 0xD800) * 1024 + (unat l - 0xDC00)]"
    using us h assms pair_up_append [of ys "[h, l]"] by (auto simp: seam_def dest: not_high_low)
  then have res: "of_units (us @ [l])
    = encode (pair_up ys) @ wtf8 (0x10000 + (unat h - 0xD800) * 1024 + (unat l - 0xDC00))"
    by (simp add: of_units_def)
  have tk: "take (length (of_units us) - 3) (of_units us) = encode (pair_up ys)"
    using h by (simp add: b length_wtf8_half)
  have "unat h < 0xDC00" using h by (simp add: is_high_def)
  then show ?thesis using True pair_value [OF h assms]
    by (simp add: joinLow_last_half lh tk res append_rune_wtf8)
next
  case False
  then have "\<not> endsHigh (of_units us)" by (simp add: endsHigh_of_units)
  then have "joinLow (of_units us) (unat l) = None"
    by (auto simp: endsHigh_last_half joinLow_last_half split: option.splits)
  with False show ?thesis by simp
qed

lemma of_units_append: "\<not> seam us vs \<Longrightarrow> of_units (us @ vs) = of_units us @ of_units vs"
  by (simp add: of_units_def pair_up_append)

lemma of_units_single: "of_units [u] = wtf8 (unat u)"
  by (simp add: of_units_def)

lemma sb_unit_of_units: "sb_unit (of_units us) u = of_units (us @ [u])"
proof -
  have b: "unat u < 0x110000" by (rule less_trans [OF unat_unit_less]) simp
  consider (low) "is_low (unat u)" | (high) "is_high (unat u)" "\<not> is_low (unat u)"
    | (other) "\<not> is_low (unat u)" "\<not> is_high (unat u)" by blast
  then show ?thesis
  proof cases
    case low
    then have s: "sb_unit (of_units us) u
      = (case joinLow (of_units us) (unat u) of Some b' \<Rightarrow> b' | None \<Rightarrow> appendHalf (of_units us) (unat u))"
      by (simp add: sb_unit_def is_low_def Let_def)
    show ?thesis
    proof (cases "us \<noteq> [] \<and> is_high (unat (last us))")
      case False
      then have "of_units (us @ [u]) = of_units us @ wtf8 (unat u)"
        by (subst of_units_append) (auto simp: seam_def of_units_single)
      with False low show ?thesis by (auto simp: s joinLow_of_units appendHalf_wtf8)
    qed (simp add: s joinLow_of_units low)
  next
    case high
    then have "of_units (us @ [u]) = of_units us @ wtf8 (unat u)"
      by (subst of_units_append) (auto simp: seam_def of_units_single)
    moreover have "sb_unit (of_units us) u = appendHalf (of_units us) (unat u)"
      using high by (auto simp: sb_unit_def is_low_def is_high_def Let_def)
    ultimately show ?thesis using high by (simp add: appendHalf_wtf8)
  next
    case other
    then have "of_units (us @ [u]) = of_units us @ wtf8 (unat u)"
      by (subst of_units_append) (auto simp: seam_def of_units_single)
    moreover have "sb_unit (of_units us) u = of_units us @ wtf8 (unat u)"
      using other b by (auto simp: sb_unit_def is_low_def is_high_def Let_def append_rune_wtf8 wtf8_1)
    ultimately show ?thesis by simp
  qed
qed

lemma foldl_sb_unit: "foldl sb_unit (of_units us) vs = of_units (us @ vs)"
  by (induction vs arbitrary: us) (simp_all add: sb_unit_of_units)

lemma of_units_eq_Nil [simp]: "of_units us = [] \<longleftrightarrow> us = []"
  by (cases us rule: pair_up.cases) (auto simp: of_units_def)

lemma of_units_Nil [simp]: "of_units [] = []"
  by simp

lemma of_units_low_Cons: "is_low (unat v) \<Longrightarrow> of_units (v # vs) = wtf8 (unat v) @ of_units vs"
  using of_units_append [of "[v]" vs] by (auto simp: seam_def of_units_single dest: not_high_low)

lemma first_half: "(if length s \<ge> 3 then half (s ! 0) (s ! 1) (s ! 2) else None) = surrogateAt s 0"
  by (auto simp: surrogateAt_half numeral_2_eq_2)

lemma sb_str_of_units: "sb_str (of_units us) (of_units vs) = of_units (us @ vs)"
proof (cases "vs \<noteq> [] \<and> is_low (unat (hd vs))")
  case True
  then obtain v ws where vs: "vs = v # ws" and v: "is_low (unat v)" by (cases vs) auto
  have at: "surrogateAt (of_units vs) 0 = Some (unat v)"
    using v by (simp add: vs of_units_low_Cons surrogateAt_wtf8 is_low_def)
  have d: "drop 3 (of_units vs) = of_units ws"
    using v by (simp add: vs of_units_low_Cons length_wtf8_half)
  have c: "unat v \<ge> 0xDC00" using v by (simp add: is_low_def)
  have "\<not> seam (us @ [v]) ws" using v by (auto simp: seam_def dest: not_high_low)
  from of_units_append [OF this] have j: "of_units (us @ [v]) @ of_units ws = of_units (us @ vs)"
    by (simp add: vs)
  have n: "of_units us @ of_units vs = of_units (us @ vs)" if "\<not> (us \<noteq> [] \<and> is_high (unat (last us)))"
    using that by (subst of_units_append) (auto simp: seam_def)
  show ?thesis
    using at c d j n v
    by (simp add: sb_str_def first_half joinLow_of_units split: if_split)
next
  case False
  then have "\<not> startsLow (of_units vs)" by (simp add: startsLow_of_units)
  then have "sb_str (of_units us) (of_units vs) = of_units us @ of_units vs"
    by (auto simp: sb_str_def first_half startsLow_def split: option.splits)
  with False show ?thesis by (subst of_units_append) (auto simp: seam_def)
qed

lemma join_builder_of_units:
  "join_builder (of_units p) (of_units sp) first (map of_units items)
   = of_units (p @ (if first then separated sp items else concat (map ((@) sp) items)))"
  by (induction items arbitrary: p first) (auto simp: sb_str_of_units separated_Cons)

lemma joins_from_none:
  assumes "\<not> joins_from (of_units sp) False (p \<noteq> [] \<and> is_high (unat (last p))) (map of_units items)"
  shows "of_units (p @ concat (map ((@) sp) items))
    = of_units p @ concat (map (\<lambda>x. of_units sp @ of_units x) items)"
  using assms
proof (induction items arbitrary: p)
  case (Cons x items)
  have 1: "\<not> seam p sp" using Cons.prems by (auto simp: seam_def startsLow_of_units split: if_splits)
  have 2: "\<not> seam (p @ sp) x"
    using Cons.prems by (auto simp: seam_def startsLow_of_units endsHigh_of_units last_append split: if_splits)
  have 3: "of_units ((p @ sp @ x) @ concat (map ((@) sp) items))
      = of_units (p @ sp @ x) @ concat (map (\<lambda>x. of_units sp @ of_units x) items)"
    using Cons.prems
    by (intro Cons.IH)
      (auto simp: seam_def startsLow_of_units endsHigh_of_units last_append Let_def split: if_splits)
  show ?case using 3 of_units_append [OF 1] of_units_append [OF 2] by simp
qed simp

lemma joinStrings_of_units:
  "joinStrings (map of_units items) (of_units sp) = of_units (separated sp items)"
proof (cases "joinsHalves (map of_units items) (of_units sp)")
  case True
  then show ?thesis using join_builder_of_units [of "[]" sp True items] by (simp add: joinStrings_def)
next
  case False
  show ?thesis
  proof (cases items)
    case (Cons x xs)
    with False have "\<not> joins_from (of_units sp) False (x \<noteq> [] \<and> is_high (unat (last x))) (map of_units xs)"
      by (auto simp: joinsHalves_def endsHigh_of_units split: if_splits)
    from joins_from_none [OF this] Cons False show ?thesis
      by (simp add: joinStrings_def separated_Cons comp_def)
  qed (use False in \<open>simp add: joinStrings_def\<close>)
qed

text \<open>The ASCII form of a \<open>jsStr\<close>, where bytes are the code units.\<close>

lemma toUnits_ascii: "\<forall>b \<in> set s. b < 0x80 \<Longrightarrow> toUnits s = map ucast s"
proof (induction s)
  case (Cons b s)
  then have "unat b < 0x10000" by (simp add: byte_order)
  with Cons show ?case by (simp add: toUnits_scan scan_ascii units_of_def)
qed (simp add: toUnits_scan)

lemma canonical_ascii: "\<forall>b \<in> set s. b < 0x80 \<Longrightarrow> canonical s"
  using canon_list_ascii [of s False "[]"]
  by (cases s) (auto simp: canonical_def canonical_from_scan scan_ascii_map)

end
