(* ===== verification/StrOps.thy ===== *)
theory StrOps
  imports JsStr
begin

text \<open>
  The string operations of \<open>backend/runtime/str.go\<close> and \<open>str_at.go\<close>: \<open>StrConcat\<close>,
  \<open>StrLength\<close>, \<open>StrCharAt\<close>, \<open>StrCharCodeAt\<close>, \<open>StrSlice\<close>, \<open>StrSubstring\<close>, \<open>StrAt\<close>,
  \<open>StrCodePointAt\<close>, \<open>StrIndexOrUndefined\<close>, \<open>StrIndex\<close>, with \<open>toInteger\<close>, \<open>position\<close> and
  \<open>relative\<close>, the index arithmetic they share. A \<open>Maybe\<close> the runtime only makes as a value
  or undefined is an \<open>option\<close>.
\<close>

subsection \<open>Limits and indices\<close>

definition stringLimit :: nat where
  "stringLimit = 2 ^ 29 - 24"

definition checkLength :: "f64 \<Rightarrow> unit result" where
  "checkLength units =
     (if f64_less (f64_of_nat stringLimit) units
      then Inl (Thrown ErrorRange (Text ''Invalid string length'')) else Inr ())"

definition toInteger :: "f64 \<Rightarrow> f64" where
  "toInteger f = (if f = NaN then Fin 0 else f64_add (f64_trunc f) (Fin 0))"

definition position :: "f64 \<Rightarrow> nat \<Rightarrow> nat" where
  "position pos n =
     (if \<not> f64_less (Fin 0) pos then 0
      else if f64_le (f64_of_nat n) pos then n
      else nat (f64_int pos))"

definition relative :: "f64 \<Rightarrow> nat \<Rightarrow> nat" where
  "relative pos n =
     (let t = f64_trunc pos
      in position (if f64_less t (Fin 0) then f64_add t (f64_of_nat n) else pos) n)"

subsection \<open>Operations\<close>

definition StrConcat :: "byte list list \<Rightarrow> byte list result" where
  "StrConcat parts =
     (case parts of
        [] \<Rightarrow> Inr []
      | [p] \<Rightarrow> Inr p
      | _ \<Rightarrow>
          and_then
            (if sum_list (map length parts) > stringLimit
             then checkLength (f64_of_nat (sum_list (map utf16Len parts))) else Inr ())
            (\<lambda>_. Inr (joinStrings parts [])))"

definition StrLength :: "byte list \<Rightarrow> f64" where
  "StrLength s = f64_of_nat (utf16Len s)"

text \<open>\<open>unitAt\<close>: the walk to code unit \<open>i\<close>, \<open>n\<close> units already passed.\<close>

function unit_at_from :: "byte list \<Rightarrow> nat \<Rightarrow> nat \<Rightarrow> unit16 option" where
  "unit_at_from [] i n = None"
| "unit_at_from (b # s) i n =
     (if b < 0x80 then
        if n = i then Some (ucast b) else unit_at_from s i (n + 1)
      else
        let (r, size) = char_at (b # s) 0
        in if r \<ge> 0x10000 then
             let r = r - 0x10000
             in if n = i then Some (word_of_nat (0xD800 + drop_bit 10 r))
                else if n + 1 = i then Some (word_of_nat (0xDC00 + (r AND 0x3FF)))
                else unit_at_from (drop size (b # s)) i (n + 2)
           else if n = i then Some (word_of_nat r)
           else unit_at_from (drop size (b # s)) i (n + 1))"
  by pat_completeness auto
termination
  by (relation "measure (\<lambda>(s, i, n). length s)") auto

declare unit_at_from.simps(2) [simp del]

definition unitAt :: "byte list \<Rightarrow> nat \<Rightarrow> unit16 option" where
  "unitAt s i = unit_at_from s i 0"

definition StrCharAt :: "byte list \<Rightarrow> f64 \<Rightarrow> byte list" where
  "StrCharAt s pos =
     (let i = toInteger pos
      in if f64_less i (Fin 0) \<or> f64_le (f64_of_nat (length s)) i then []
         else let n = nat (f64_int i)
           in if isASCII (take (n + 1) s) then slice s n (n + 1)
              else case unitAt s n of None \<Rightarrow> [] | Some u \<Rightarrow> sb_unit [] u)"

definition StrCharCodeAt :: "byte list \<Rightarrow> f64 \<Rightarrow> f64" where
  "StrCharCodeAt s pos =
     (let i = toInteger pos
      in if f64_less i (Fin 0) \<or> f64_le (f64_of_nat (length s)) i then NaN
         else case unitAt s (nat (f64_int i)) of None \<Rightarrow> NaN | Some u \<Rightarrow> f64_of_nat (unat u))"

definition StrSlice :: "byte list \<Rightarrow> f64 list \<Rightarrow> byte list" where
  "StrSlice s args =
     (let v = newJSStr s; n = jsStr_len v;
          from = (if length args > 0 then relative (args ! 0) n else 0);
          to = (if length args > 1 then relative (args ! 1) n else n)
      in if from \<ge> to then [] else jsStr_sub v from to)"

definition StrSubstring :: "byte list \<Rightarrow> f64 list \<Rightarrow> byte list" where
  "StrSubstring s args =
     (let v = newJSStr s; n = jsStr_len v;
          start = (if length args > 0 then position (args ! 0) n else 0);
          stop = (if length args > 1 then position (args ! 1) n else n)
      in jsStr_sub v (min start stop) (max start stop))"

text \<open>\<open>unitString\<close>: charAt's answer, or undefined where it is empty.\<close>

definition unitString :: "byte list \<Rightarrow> f64 \<Rightarrow> byte list option" where
  "unitString s i = (let c = StrCharAt s i in if c \<noteq> [] then Some c else None)"

definition StrAt :: "byte list \<Rightarrow> f64 \<Rightarrow> byte list option" where
  "StrAt s pos =
     (let i = toInteger pos
      in unitString s (if f64_less i (Fin 0) then f64_add i (f64_of_nat (utf16Len s)) else i))"

definition StrCodePointAt :: "byte list \<Rightarrow> f64 \<Rightarrow> f64 option" where
  "StrCodePointAt s pos =
     (let i = toInteger pos
      in if f64_less i (Fin 0) \<or> f64_le (f64_of_nat (length s)) i then None
         else let n = nat (f64_int i)
           in if isASCII (take (n + 1) s) then Some (f64_of_nat (unat (s ! n)))
              else case unitAt s n of
                     None \<Rightarrow> None
                   | Some first \<Rightarrow>
                       (case (if unat first \<ge> 0xD800 \<and> unat first \<le> 0xDBFF then unitAt s (n + 1) else None) of
                          None \<Rightarrow> Some (f64_of_nat (unat first))
                        | Some second \<Rightarrow>
                            if unat second \<ge> 0xDC00 \<and> unat second \<le> 0xDFFF
                            then Some (f64_of_nat (0x10000 + push_bit 10 (unat first - 0xD800)
                                                   + unat second - 0xDC00))
                            else Some (f64_of_nat (unat first))))"

definition stringIndex :: "f64 \<Rightarrow> bool" where
  "stringIndex i \<longleftrightarrow> f64_le (Fin 0) i \<and> f64_eq i (f64_trunc i) \<and> i \<noteq> PosInf"

definition StrIndexOrUndefined :: "byte list \<Rightarrow> f64 \<Rightarrow> byte list option" where
  "StrIndexOrUndefined s i = (if \<not> stringIndex i then None else unitString s i)"

definition StrIndex :: "byte list \<Rightarrow> f64 \<Rightarrow> byte list result" where
  "StrIndex s i =
     (case StrIndexOrUndefined s i of
        Some c \<Rightarrow> Inr c
      | None \<Rightarrow>
          if \<not> stringIndex i then Inl (Panic (NotAStringIndex i))
          else Inl (Panic (StringIndexOutOfRange i (utf16Len s))))"

subsection \<open>What the indices mean\<close>

text \<open>ECMAScript's ToIntegerOrInfinity of a number, as an integer or an infinity.\<close>

datatype ext_int = MinusInfinity | Integer int | PlusInfinity

fun to_integer_or_infinity :: "f64 \<Rightarrow> ext_int" where
  "to_integer_or_infinity PosInf = PlusInfinity"
| "to_integer_or_infinity NegInf = MinusInfinity"
| "to_integer_or_infinity (Fin q) = Integer (if 0 \<le> q then \<lfloor>q\<rfloor> else \<lceil>q\<rceil>)"
| "to_integer_or_infinity _ = Integer 0"

fun clamp_index :: "ext_int \<Rightarrow> nat \<Rightarrow> nat" where
  "clamp_index MinusInfinity n = 0"
| "clamp_index PlusInfinity n = n"
| "clamp_index (Integer i) n = nat (min i (int n))"

fun relative_index :: "ext_int \<Rightarrow> nat \<Rightarrow> nat" where
  "relative_index MinusInfinity n = 0"
| "relative_index PlusInfinity n = n"
| "relative_index (Integer i) n = (if i < 0 then nat (int n + i) else nat (min i (int n)))"

lemma position_clamp: "position pos n = clamp_index (to_integer_or_infinity pos) n"
proof (cases pos)
  case (Fin q)
  show ?thesis
  proof (cases "0 < q")
    case True
    then show ?thesis
      by (auto simp: Fin position_def f64_of_nat_def f64_le_def min_def le_floor_iff floor_le_iff nat_le_iff
          le_less floor_less_iff)
  qed (auto simp: Fin position_def min_def ceiling_le_iff not_less)
qed (simp_all add: position_def f64_le_def f64_of_nat_def)

lemma to_integer_of_int: "to_integer_or_infinity (Fin (of_int k)) = Integer k"
  by simp

lemma relative_clamp: "relative pos n = relative_index (to_integer_or_infinity pos) n"
proof (cases pos)
  case (Fin q)
  consider "0 \<le> q" | "-1 < q" "q < 0" | "q \<le> -1" by linarith
  then show ?thesis
  proof cases
    case 1
    then show ?thesis by (simp add: Fin relative_def position_clamp Let_def)
  next
    case 2
    then have "\<lceil>q\<rceil> = 0" by (simp add: ceiling_eq_iff)
    with 2 show ?thesis by (simp add: Fin relative_def position_def)
  next
    case 3
    define c where "c = \<lceil>q\<rceil>"
    have c: "c < 0" using 3 by (simp add: c_def ceiling_less_iff) 
    have "f64_trunc pos = Fin (of_int c)" using 3 by (simp add: Fin c_def)
    then have "relative pos n = position (Fin (of_int (c + int n))) n"
      using c by (simp add: relative_def f64_of_nat_def)
    also have "\<dots> = clamp_index (Integer (c + int n)) n"
      by (simp only: position_clamp to_integer_of_int)
    finally show ?thesis using 3 c by (simp add: Fin c_def [symmetric] min_def add.commute)
  qed
qed (simp_all add: relative_def position_def f64_le_def f64_of_nat_def)

fun f64_of_ext :: "ext_int \<Rightarrow> f64" where
  "f64_of_ext MinusInfinity = NegInf"
| "f64_of_ext PlusInfinity = PosInf"
| "f64_of_ext (Integer i) = Fin (of_int i)"

lemma toInteger_ext: "toInteger f = f64_of_ext (to_integer_or_infinity f)"
proof (cases f)
  case (Fin q)
  then show ?thesis
    by (cases "0 \<le> q"; cases "-1 < q") (auto simp: toInteger_def ceiling_eq_iff)
qed (simp_all add: toInteger_def)

text \<open>The code unit an index reads, if there is one there.\<close>

fun unit_index :: "'u list \<Rightarrow> ext_int \<Rightarrow> 'u option" where
  "unit_index us (Integer i) = (if 0 \<le> i \<and> i < int (length us) then Some (us ! nat i) else None)"
| "unit_index us _ = None"

subsection \<open>Walking to a code unit\<close>

lemma units_of_size: "char_at (b # s) 0 = (r, k) \<Longrightarrow> length (units_of r) \<le> k"
  using char_at_inv [of "b # s" r k]
  by (auto simp: length_units_of wtf8_def rune_error_def)

lemma length_toUnits_le: "length (toUnits s) \<le> length s"
proof (induction s rule: scan.induct)
  case (2 b s)
  obtain r k where rk: "char_at (b # s) 0 = (r, k)" by (cases "char_at (b # s) 0")
  have "k \<le> length (b # s)" using char_at_size(2) [of "b # s"] rk by simp
  then show ?case using 2 units_of_size [OF rk] rk
    by (simp add: toUnits_scan scan.simps(2))
qed (simp add: toUnits_scan)

lemma toUnits_ascii_Cons: "b < 0x80 \<Longrightarrow> toUnits (b # s) = ucast b # toUnits s"
  using toUnits_ascii [of "[b]"] by (simp add: toUnits_scan scan_ascii)

lemma unit_at_from_nth:
  "n \<le> i \<Longrightarrow> unit_at_from s i n
    = (if i - n < length (toUnits s) then Some (toUnits s ! (i - n)) else None)"
proof (induction s i n rule: unit_at_from.induct)
  case (2 b s i n)
  show ?case
  proof (cases "b < 0x80")
    case True
    with 2(1) [OF True] 2(4) show ?thesis
      by (cases "n = i") (auto simp: unit_at_from.simps(2) toUnits_ascii_Cons nth_Cons' le_Suc_eq)
  next
    case False
    obtain r k where rk: "char_at (b # s) 0 = (r, k)" by (cases "char_at (b # s) 0")
    show ?thesis
    proof (cases "r \<ge> 0x10000")
      case True
      then show ?thesis using False rk 2(4) 2(2) [OF False rk [symmetric] refl True refl]
        by (cases "n = i"; cases "Suc n = i")
          (auto simp: unit_at_from.simps(2) toUnits.simps(2) Let_def nth_Cons' Suc_diff_le
            simp del: of_nat_add)
    next
      case r: False
      then show ?thesis using False rk 2(4) 2(3) [OF False rk [symmetric] refl r]
        by (cases "n = i")
          (auto simp: unit_at_from.simps(2) toUnits.simps(2) Let_def nth_Cons' simp del: of_nat_add)
    qed
  qed
qed simp

lemma unitAt_nth: "unitAt s i = (if i < length (toUnits s) then Some (toUnits s ! i) else None)"
  by (simp add: unitAt_def unit_at_from_nth)

lemma toUnits_ascii_append:
  "\<forall>b \<in> set a. b < 0x80 \<Longrightarrow> toUnits (a @ s) = map ucast a @ toUnits s"
  by (induction a) (auto simp: toUnits_ascii_Cons)

lemma ascii_take_nth:
  assumes "isASCII (take (Suc n) s)" "n < length s"
  shows "n < length (toUnits s)" and "toUnits s ! n = ucast (s ! n)"
proof -
  have "toUnits s = map ucast (take (Suc n) s) @ toUnits (drop (Suc n) s)"
    using toUnits_ascii_append [of "take (Suc n) s" "drop (Suc n) s"] assms(1) by (simp add: isASCII_iff)
  with assms(2) show "n < length (toUnits s)" "toUnits s ! n = ucast (s ! n)"
    by (simp_all add: nth_append min_def)
qed

subsection \<open>jsStr on code units\<close>

lemma jsStr_len_new [str_simps]: "jsStr_len (newJSStr s) = length (toUnits s)"
  by (simp add: jsStr_len_def newJSStr_def isASCII_iff toUnits_ascii)

lemma jsStr_at_new [str_simps]: "i < length (toUnits s) \<Longrightarrow> jsStr_at (newJSStr s) i = toUnits s ! i"
  by (auto simp: jsStr_at_def newJSStr_def isASCII_iff toUnits_ascii)

lemma slice_map: "slice (map f xs) i j = map f (slice xs i j)"
  by (simp add: slice_def take_map drop_map)

lemma set_slice: "x \<in> set (slice xs i j) \<Longrightarrow> x \<in> set xs"
  by (auto simp: slice_def dest: in_set_takeD in_set_dropD)

lemma of_units_ascii: "\<forall>b \<in> set s. b < 0x80 \<Longrightarrow> of_units (map ucast s) = s"
  using of_units_toUnits [OF canonical_ascii, of s] by (simp add: toUnits_ascii)

lemma unat_ucast_byte: "unat (ucast (b :: byte) :: unit16) = unat b"
  using unat_byte_less [of b] by (simp add: unsigned_ucast_eq take_bit_nat_eq_self del: unat_byte_less)

lemma ascii_no_seam: "\<forall>b \<in> set s. b < 0x80 \<Longrightarrow> \<not> seam p (map ucast (s :: byte list))"
  by (cases s) (auto simp: seam_def unat_ucast_byte)

lemma sb_sub_new [str_simps]:
  "sb_sub (of_units p) (newJSStr s) i j = of_units (p @ slice (toUnits s) i j)"
proof (cases "isASCII s")
  case True
  then have a: "\<forall>b \<in> set (slice s i j). b < 0x80" by (auto simp: isASCII_iff dest: set_slice)
  with True show ?thesis
    by (simp add: sb_sub_def newJSStr_def isASCII_iff toUnits_ascii slice_map of_units_append
        ascii_no_seam of_units_ascii)
qed (simp add: sb_sub_def newJSStr_def foldl_sb_unit)

lemma jsStr_sub_new [str_simps]: "jsStr_sub (newJSStr s) i j = of_units (slice (toUnits s) i j)"
  using sb_sub_new [of "[]" s i j]
  by (cases "isASCII s") (auto simp: jsStr_sub_def sb_sub_def newJSStr_def)

subsection \<open>The operations on code units\<close>

lemma unit_index_past:
  "length (toUnits s) \<le> n \<Longrightarrow> int n \<le> i \<Longrightarrow> unit_index (toUnits s) (Integer i) = None"
  by simp

lemma StrCharAt_units:
  "StrCharAt s pos
   = (case unit_index (toUnits s) (to_integer_or_infinity pos) of None \<Rightarrow> [] | Some u \<Rightarrow> of_units [u])"
proof (cases "to_integer_or_infinity pos")
  case (Integer i)
  consider "i < 0" | "0 \<le> i" "int (length s) \<le> i" | n where "i = int n" "n < length s"
    by (metis linorder_not_le nonneg_int_cases of_nat_le_iff)
  then show ?thesis
  proof cases
    case 3
    have z: "sb_unit [] u = of_units [u]" for u using sb_unit_of_units [of "[]" u] by simp
    show ?thesis
    proof (cases "isASCII (take (Suc n) s)")
      case True
      have "s ! n < 0x80" using True 3(2) by (simp add: isASCII_iff take_Suc_conv_app_nth)
      then have "of_units [ucast (s ! n)] = [s ! n]" using of_units_ascii [of "[s ! n]"] by simp
      moreover have "slice s n (Suc n) = [s ! n]" using 3(2) by (simp add: slice_def take_Suc_conv_app_nth flip: hd_drop_conv_nth)
      ultimately show ?thesis using 3 Integer True ascii_take_nth [OF True 3(2)]
        by (simp add: StrCharAt_def toInteger_ext f64_of_nat_def f64_le_def)
    next
      case False
      with 3 Integer show ?thesis
        by (simp add: StrCharAt_def toInteger_ext f64_of_nat_def f64_le_def unitAt_nth z)
    qed
  qed (use Integer length_toUnits_le [of s] in
      \<open>auto simp: StrCharAt_def toInteger_ext f64_of_nat_def f64_le_def\<close>)
qed (simp_all add: StrCharAt_def toInteger_ext f64_le_def f64_of_nat_def)

lemma StrCharCodeAt_units:
  "StrCharCodeAt s pos
   = (case unit_index (toUnits s) (to_integer_or_infinity pos) of None \<Rightarrow> NaN | Some u \<Rightarrow> f64_of_nat (unat u))"
proof (cases "to_integer_or_infinity pos")
  case (Integer i)
  consider "i < 0" | "0 \<le> i" "int (length s) \<le> i" | n where "i = int n" "n < length s"
    by (metis linorder_not_le nonneg_int_cases of_nat_le_iff)
  then show ?thesis
    using Integer length_toUnits_le [of s]
    by cases (auto simp: StrCharCodeAt_def toInteger_ext f64_of_nat_def f64_le_def unitAt_nth)
qed (simp_all add: StrCharCodeAt_def toInteger_ext f64_le_def f64_of_nat_def)

text \<open>
  C3: \<open>charAt\<close> and \<open>charCodeAt\<close> read the UTF-16 code unit at ToIntegerOrInfinity of the
  position, whatever bytes the string holds and whichever of their fast paths they take:
  the unit as a string (half a pair included) or as a number, and the empty string or NaN
  where there is no such unit.
\<close>
theorem charAt_reads_unit:
  "StrCharAt s pos
     = (case unit_index (toUnits s) (to_integer_or_infinity pos) of None \<Rightarrow> [] | Some u \<Rightarrow> of_units [u])
   \<and> StrCharCodeAt s pos
     = (case unit_index (toUnits s) (to_integer_or_infinity pos) of None \<Rightarrow> NaN | Some u \<Rightarrow> f64_of_nat (unat u))"
  by (simp add: StrCharAt_units StrCharCodeAt_units)

lemma units_le_bytes: "utf16Len s \<le> length s"
  by (simp add: utf16Len_eq length_toUnits_le)

lemma sum_units_le: "sum_list (map utf16Len ss) \<le> sum_list (map length ss)"
  by (induction ss) (auto intro: add_mono units_le_bytes)

lemma utf16Len_of_units [simp]: "utf16Len (of_units us) = length us"
  by (simp add: utf16Len_eq)

text \<open>
  C1: concatenation is concatenation of code units: on canonical strings \<open>StrConcat\<close> gives
  the one canonical string whose units are theirs in order, a high half at the end of a piece
  joining a low half at the start of the next across any empty pieces; and where two or more
  pieces make more than V8's limit of units it throws \<open>RangeError: Invalid string length\<close>,
  and only there.
\<close>
theorem StrConcat_concatenates_units:
  "StrConcat (map of_units uss)
   = (if 2 \<le> length uss \<and> stringLimit < length (concat uss)
      then Inl (Thrown ErrorRange (Text ''Invalid string length''))
      else Inr (of_units (concat uss)))"
proof -
  have j: "joinStrings (map of_units uss) [] = of_units (concat uss)"
    using joinStrings_of_units [of uss "[]"] by simp
  have l: "sum_list (map utf16Len (map of_units uss)) = length (concat uss)"
    by (simp add: length_concat comp_def)
  have le: "length (concat uss) \<le> sum_list (map length (map of_units uss))"
    using sum_units_le [of "map of_units uss"] by (simp only: l)
  show ?thesis
  proof (cases uss)
    case (Cons us vss)
    then show ?thesis
    proof (cases vss)
      case (Cons vs wss)
      have "StrConcat (map of_units uss)
        = and_then (if sum_list (map length (map of_units uss)) > stringLimit
             then checkLength (f64_of_nat (sum_list (map utf16Len (map of_units uss)))) else Inr ())
            (\<lambda>_. Inr (joinStrings (map of_units uss) []))"
        by (simp add: StrConcat_def \<open>uss = us # vss\<close> Cons)
      then show ?thesis unfolding l j using le \<open>uss = us # vss\<close> Cons
        by (simp add: checkLength_def)
    qed (simp add: StrConcat_def \<open>uss = us # vss\<close>)
  qed (simp add: StrConcat_def)
qed

definition arg_index :: "(ext_int \<Rightarrow> nat \<Rightarrow> nat) \<Rightarrow> f64 list \<Rightarrow> nat \<Rightarrow> nat \<Rightarrow> nat \<Rightarrow> nat" where
  "arg_index f args k n d = (if k < length args then f (to_integer_or_infinity (args ! k)) n else d)"

text \<open>
  C4: \<open>slice\<close> and \<open>substring\<close> cut the code units at the indices ECMA-262 gives: for
  \<open>slice\<close>, negative ones count back from the end and a crossed pair is empty; for
  \<open>substring\<close>, both are clamped and swapped if the wrong way round. The cut may part a pair;
  the pieces are canonical.
\<close>
theorem slice_substring_units:
  "StrSlice s args
     = of_units (slice (toUnits s) (arg_index relative_index args 0 (length (toUnits s)) 0)
                  (arg_index relative_index args 1 (length (toUnits s)) (length (toUnits s))))
   \<and> StrSubstring s args
     = (let i = arg_index clamp_index args 0 (length (toUnits s)) 0;
            j = arg_index clamp_index args 1 (length (toUnits s)) (length (toUnits s))
        in of_units (slice (toUnits s) (min i j) (max i j)))"
  by (auto simp: StrSlice_def StrSubstring_def str_simps arg_index_def relative_clamp position_clamp
      Let_def slice_def)

text \<open>The code point at a unit, as \<open>codePointAt\<close> reads it.\<close>

definition code_point_at :: "unit16 list \<Rightarrow> nat \<Rightarrow> nat" where
  "code_point_at us n =
     (if is_high (unat (us ! n)) \<and> Suc n < length us \<and> is_low (unat (us ! Suc n))
      then 0x10000 + (unat (us ! n) - 0xD800) * 1024 + (unat (us ! Suc n) - 0xDC00)
      else unat (us ! n))"

text \<open>
  \<open>codePointAt\<close> gives the code point that starts at the unit: a pair's own at its
  lead unit, the unit itself elsewhere (a trail unit or a lone half included), and undefined
  outside the string, also for a negative position.
\<close>
theorem codePointAt_units:
  "StrCodePointAt s pos
   = (case to_integer_or_infinity pos of
        Integer i \<Rightarrow>
          if 0 \<le> i \<and> i < int (length (toUnits s))
          then Some (f64_of_nat (code_point_at (toUnits s) (nat i))) else None
      | _ \<Rightarrow> None)"
proof (cases "to_integer_or_infinity pos")
  case (Integer i)
  consider "i < 0" | "0 \<le> i" "int (length s) \<le> i" | n where "i = int n" "n < length s"
    by (metis linorder_not_le nonneg_int_cases of_nat_le_iff)
  then show ?thesis
  proof cases
    case 3
    show ?thesis
    proof (cases "isASCII (take (Suc n) s)")
      case True
      have "s ! n < 0x80" using True 3(2) by (simp add: isASCII_iff take_Suc_conv_app_nth)
      with 3 Integer True ascii_take_nth [OF True 3(2)] show ?thesis
        by (simp add: StrCodePointAt_def toInteger_ext f64_of_nat_def f64_le_def code_point_at_def
            unat_ucast_byte is_high_def byte_order)
    next
      case False
      with 3 Integer show ?thesis
        by (auto simp: StrCodePointAt_def toInteger_ext f64_of_nat_def f64_le_def unitAt_nth
            code_point_at_def is_high_def is_low_def push_bit_eq_mult)
    qed
  qed (use Integer length_toUnits_le [of s] in
      \<open>auto simp: StrCodePointAt_def toInteger_ext f64_of_nat_def f64_le_def\<close>)
qed (simp_all add: StrCodePointAt_def toInteger_ext f64_le_def f64_of_nat_def)

lemma unitString_ext:
  "unitString s (f64_of_ext e) = map_option (\<lambda>u. of_units [u]) (unit_index (toUnits s) e)"
proof -
  have "to_integer_or_infinity (f64_of_ext e) = e" by (cases e) auto
  then show ?thesis by (cases "unit_index (toUnits s) e") (auto simp: unitString_def StrCharAt_units)
qed

fun from_end :: "ext_int \<Rightarrow> nat \<Rightarrow> ext_int" where
  "from_end (Integer i) n = Integer (if i < 0 then i + int n else i)"
| "from_end e n = e"

lemma StrAt_units:
  "StrAt s pos = map_option (\<lambda>u. of_units [u])
     (unit_index (toUnits s) (from_end (to_integer_or_infinity pos) (length (toUnits s))))"
proof -
  have "(if f64_less (f64_of_ext e) (Fin 0) then f64_add (f64_of_ext e) (f64_of_nat n) else f64_of_ext e)
    = f64_of_ext (from_end e n)" for e n
    by (cases e) (auto simp: f64_of_nat_def)
  then show ?thesis by (simp add: StrAt_def toInteger_ext Let_def utf16Len_eq unitString_ext)
qed

lemma stringIndex_iff: "stringIndex i \<longleftrightarrow> (\<exists>k. 0 \<le> k \<and> f64_eq i (Fin (of_int k)))"
proof (cases i)
  case (Fin q)
  show ?thesis
  proof
    assume "stringIndex i"
    then show "\<exists>k. 0 \<le> k \<and> f64_eq i (Fin (of_int k))"
      by (intro exI [of _ "\<lfloor>q\<rfloor>"])
        (auto simp: Fin stringIndex_def f64_le_def split: if_splits)
  qed (auto simp: Fin stringIndex_def f64_le_def)
qed (auto simp: stringIndex_def f64_le_def)

text \<open>
  \<open>at\<close> counts a negative position back from the end, and \<open>s[i]\<close> reads a unit only at a
  number that is an integer inside the string (-0 is 0): anywhere else \<open>at\<close> and the checked
  \<open>s[i]\<close> give undefined, and the \<open>s[i]\<close> typed string panics, so it never returns a string
  Node would not.
\<close>
theorem at_and_index_units:
  "StrAt s pos = map_option (\<lambda>u. of_units [u])
     (unit_index (toUnits s) (from_end (to_integer_or_infinity pos) (length (toUnits s))))
   \<and> StrIndexOrUndefined s pos
     = (if (\<exists>k \<ge> 0. f64_eq pos (Fin (of_int k)))
        then map_option (\<lambda>u. of_units [u]) (unit_index (toUnits s) (to_integer_or_infinity pos)) else None)
   \<and> (case StrIndexOrUndefined s pos of
        Some c \<Rightarrow> StrIndex s pos = Inr c
      | None \<Rightarrow> \<exists>m. StrIndex s pos = Inl (Panic m))"
proof -
  have u: "unitString s pos = map_option (\<lambda>u. of_units [u]) (unit_index (toUnits s) (to_integer_or_infinity pos))"
    by (cases "unit_index (toUnits s) (to_integer_or_infinity pos)") (auto simp: unitString_def StrCharAt_units)
  have i: "stringIndex pos \<longleftrightarrow> (\<exists>k \<ge> 0. f64_eq pos (Fin (of_int k)))"
    by (auto simp: stringIndex_iff)
  show ?thesis
    by (auto simp: StrAt_units StrIndexOrUndefined_def StrIndex_def u i [symmetric] split: option.split)
qed

end
