(* ===== verification/StrCompare.thy ===== *)
theory StrCompare
  imports StrOps
begin

text \<open>
  The order of strings (\<open>backend/runtime/str_compare.go\<close>): \<open>StrCompare\<close>, which skips the bytes
  two strings share, and \<open>unitReader\<close>, which reads the rest a code unit at a time. A reader's
  place \<open>i\<close> in its string is the rest of the string.

  Proved: on canonical strings it is the lexicographic order of the code units.
\<close>

definition cmp :: "nat \<Rightarrow> nat \<Rightarrow> int" where
  "cmp a b = (if a < b then -1 else if a = b then 0 else 1)"

record unitReader =
  ur_rest :: "byte list"
  ur_low :: unit16

definition ur_next :: "unitReader \<Rightarrow> (unit16 \<times> bool) \<times> unitReader" where
  "ur_next r =
     (if ur_low r \<noteq> 0 then ((ur_low r, True), r\<lparr>ur_low := 0\<rparr>)
      else if ur_rest r = [] then ((0, False), r)
      else
        let (c, size) = char_at (ur_rest r) 0; r = r\<lparr>ur_rest := drop size (ur_rest r)\<rparr>
        in if c \<ge> 0x10000
           then let c = c - 0x10000
                in ((word_of_nat (0xD800 + drop_bit 10 c), True),
                    r\<lparr>ur_low := word_of_nat (0xDC00 + (c AND 0x3FF))\<rparr>)
           else ((word_of_nat c, True), r))"

definition boolInt :: "bool \<Rightarrow> nat" where
  "boolInt b = (if b then 1 else 0)"

definition ur_size :: "unitReader \<Rightarrow> nat" where
  "ur_size r = 2 * length (ur_rest r) + (if ur_low r \<noteq> 0 then 1 else 0)"

lemma ur_next_size: "ur_next r = ((u, True), r') \<Longrightarrow> ur_size r' < ur_size r"
  using char_at_size [of "ur_rest r"]
  by (cases r) (auto simp: ur_next_def ur_size_def Let_def split: if_splits prod.splits)

function compare_units :: "unitReader \<Rightarrow> unitReader \<Rightarrow> int" where
  "compare_units x y =
     (case ur_next x of ((u, okA), x') \<Rightarrow>
        case ur_next y of ((v, okB), y') \<Rightarrow>
          if \<not> okA \<or> \<not> okB then cmp (boolInt okA) (boolInt okB)
          else if u \<noteq> v then cmp (unat u) (unat v)
          else compare_units x' y')"
  by pat_completeness auto
termination
  by (relation "measure (\<lambda>(x, y). ur_size x)") (auto dest: ur_next_size [OF sym])

declare compare_units.simps [simp del]

text \<open>The count of bytes two strings share at the start.\<close>

fun shared :: "byte list \<Rightarrow> byte list \<Rightarrow> nat" where
  "shared (x # a) (y # b) = (if x = y then Suc (shared a b) else 0)"
| "shared _ _ = 0"

text \<open>\<open>for k := 0; k < UTFMax-1 && i > 0 && !RuneStart(a[i]); k++ { i-- }\<close>, \<open>k\<close> steps left.\<close>

fun back_up :: "nat \<Rightarrow> byte list \<Rightarrow> nat \<Rightarrow> nat" where
  "back_up 0 a i = i"
| "back_up (Suc k) a i = (if i > 0 \<and> \<not> rune_start (a ! i) then back_up k a (i - 1) else i)"

definition StrCompare :: "byte list \<Rightarrow> byte list \<Rightarrow> int" where
  "StrCompare a b =
     (let n = min (length a) (length b); i = shared a b
      in if i = n then cmp (length a) (length b)
         else if a ! i < 0x80 \<or> b ! i < 0x80 then cmp (unat (a ! i)) (unat (b ! i))
         else let i = back_up 3 a i
           in compare_units \<lparr>ur_rest = drop i a, ur_low = 0\<rparr> \<lparr>ur_rest = drop i b, ur_low = 0\<rparr>)"

subsection \<open>The specification\<close>

fun unit_order :: "unit16 list \<Rightarrow> unit16 list \<Rightarrow> int" where
  "unit_order [] [] = 0"
| "unit_order [] (v # vs) = -1"
| "unit_order (u # us) [] = 1"
| "unit_order (u # us) (v # vs) = (if u = v then unit_order us vs else cmp (unat u) (unat v))"

lemma unit_order_append [simp]: "unit_order (us @ vs) (us @ ws) = unit_order vs ws"
  by (induction us) auto

definition ur_units :: "unitReader \<Rightarrow> unit16 list" where
  "ur_units r = (if ur_low r \<noteq> 0 then [ur_low r] else []) @ toUnits (ur_rest r)"

lemma low_word_nonzero: "(word_of_nat (0xDC00 + (n AND 0x3FF)) :: unit16) \<noteq> 0"
proof
  assume "(word_of_nat (0xDC00 + (n AND 0x3FF)) :: unit16) = 0"
  then have "unat (word_of_nat (0xDC00 + n mod 1024) :: unit16) = 0" by (simp add: and_3FF_nat)
  then show False
    by (simp add: unat_word_of_nat_unit del: of_nat_add) 
qed

lemma ur_next_units:
  "ur_next r = (if ur_units r = [] then ((0, False), r) else ((hd (ur_units r), True), snd (ur_next r)))
   \<and> (ur_units r \<noteq> [] \<longrightarrow> ur_units (snd (ur_next r)) = tl (ur_units r))"
proof (cases "ur_low r = 0 \<and> ur_rest r \<noteq> []")
  case True
  then obtain b s where s: "ur_rest r = b # s" by (cases "ur_rest r") auto
  obtain c k where ck: "char_at (b # s) 0 = (c, k)" by (cases "char_at (b # s) 0")
  show ?thesis using True s ck low_word_nonzero
    by (cases r) (auto simp: ur_next_def ur_units_def toUnits.simps(2) Let_def simp del: of_nat_add)
next
  case False
  then show ?thesis by (cases r) (auto simp: ur_next_def ur_units_def)
qed

lemma compare_units_order: "compare_units x y = unit_order (ur_units x) (ur_units y)"
proof (induction x y rule: compare_units.induct)
  case (1 x y)
  obtain ux okx x' where x: "ur_next x = ((ux, okx), x')" by (metis surj_pair)
  obtain uy oky y' where y: "ur_next y = ((uy, oky), y')" by (metis surj_pair)
  show ?case
    using 1 [OF x [symmetric] refl y [symmetric] refl] x y ur_next_units [of x] ur_next_units [of y]
    by (cases "ur_units x"; cases "ur_units y")
      (auto simp: compare_units.simps [of x y] boolInt_def cmp_def split: if_splits)
qed

subsection \<open>The bytes two strings share\<close>

lemma shared_take: "take (shared a b) a = take (shared a b) b"
  by (induction a b rule: shared.induct) auto

lemma shared_le: "shared a b \<le> length a" "shared a b \<le> length b"
  by (induction a b rule: shared.induct) auto

lemma shared_differ:
  "shared a b < length a \<Longrightarrow> shared a b < length b \<Longrightarrow> a ! shared a b \<noteq> b ! shared a b"
  by (induction a b rule: shared.induct) auto

lemma toUnits_encode_append:
  "\<forall>r \<in> set rs. r < 0x110000 \<Longrightarrow> toUnits (encode rs @ t) = concat (map units_of rs) @ toUnits t"
  by (induction rs) (auto simp: toUnits_scan scan_wtf8)

text \<open>The character a byte of an encoding lies in.\<close>

lemma encode_split:
  "i < length (encode rs) \<Longrightarrow>
   \<exists>rs1 r rs2 j. rs = rs1 @ r # rs2 \<and> i = length (encode rs1) + j \<and> j < length (wtf8 r)"
proof (induction rs arbitrary: i)
  case (Cons r rs)
  show ?case
  proof (cases "i < length (wtf8 r)")
    case True
    then show ?thesis by (intro exI [of _ "[]"] exI [of _ r] exI [of _ rs] exI [of _ i]) auto
  next
    case False
    then have "i - length (wtf8 r) < length (encode rs)" using Cons.prems by simp
    from Cons.IH [OF this] obtain rs1 q rs2 j where "rs = rs1 @ q # rs2"
      "i - length (wtf8 r) = length (encode rs1) + j" "j < length (wtf8 q)" by blast
    with False show ?thesis
      by (intro exI [of _ "r # rs1"] exI [of _ q] exI [of _ rs2] exI [of _ j]) auto
  qed
qed simp

lemma wtf8_rune_start:
  assumes "r < 0x110000" "j < length (wtf8 r)"
  shows "rune_start (wtf8 r ! j) \<longleftrightarrow> j = 0" and "wtf8 r ! j < 0x80 \<longleftrightarrow> r < 0x80" and "length (wtf8 r) \<le> 4"
proof -
  have "(rune_start (wtf8 r ! j) \<longleftrightarrow> j = 0) \<and> (wtf8 r ! j < 0x80 \<longleftrightarrow> r < 0x80) \<and> length (wtf8 r) \<le> 4"
    using assms(1)
  proof (cases rule: rune_cases)
    case one
    with assms(2) show ?thesis by (simp add: wtf8_1 rune_start_def and_C0_eq_80 byte_order)
  next
    case (two a b)
    with assms(2) show ?thesis
      by (cases j; cases "j - 1") (auto simp: wtf8_2 rune_start_def and_C0_eq_80 byte_order simp del: of_nat_add)
  next
    case (three a b c)
    moreover have "\<not> r < 0x80" using three mult_le_mono1 [OF three(5), of 64] by simp
    ultimately show ?thesis using assms(2)
      by (cases j; cases "j - 1"; cases "j - 2")
        (auto simp: wtf8_3 rune_start_def and_C0_eq_80 byte_order simp del: of_nat_add distrib_right_numeral)
  next
    case (four a b c d)
    moreover have "\<not> r < 0x80" using four mult_le_mono1 [OF four(6), of 4096] by simp
    moreover have "j = 0 \<or> j = 1 \<or> j = 2 \<or> j = 3" using assms(2) four by (auto simp: wtf8_4 simp del: distrib_right_numeral)
    ultimately show ?thesis using assms(2)
      by (auto simp: wtf8_4 rune_start_def and_C0_eq_80 byte_order nth_Cons' simp del: of_nat_add distrib_right_numeral)
  qed
  then show "rune_start (wtf8 r ! j) \<longleftrightarrow> j = 0" "wtf8 r ! j < 0x80 \<longleftrightarrow> r < 0x80" "length (wtf8 r) \<le> 4"
    by blast+
qed

lemma back_up_to:
  "\<forall>j. p < j \<and> j \<le> i \<longrightarrow> \<not> rune_start (a ! j) \<Longrightarrow> rune_start (a ! p) \<Longrightarrow> p \<le> i \<Longrightarrow> i - p \<le> k \<Longrightarrow>
   back_up k a i = p"
proof (induction k a i rule: back_up.induct)
  case (2 k a i)
  show ?case
  proof (cases "i = p")
    case False
    with 2(4) have i: "0 < i" "p \<le> i - 1" "i - 1 - p \<le> k" using 2(5) by auto
    moreover have "\<not> rune_start (a ! i)" using 2(2,4) False by auto
    moreover have "\<forall>j. p < j \<and> j \<le> i - 1 \<longrightarrow> \<not> rune_start (a ! j)" using 2(2) by auto
    ultimately show ?thesis using 2(1,3) by simp
  qed (use 2(3) in simp)
qed simp

lemma toUnits_head_byte:
  "\<exists>u us. toUnits (b # s) = u # us \<and> (if b < 0x80 then unat u = unat b else 0x80 \<le> unat u)"
proof (cases "b < 0x80")
  case True
  then show ?thesis by (auto simp: toUnits_ascii_Cons unat_ucast_byte)
next
  case False
  obtain r k where rk: "char_at (b # s) 0 = (r, k)" by (cases "char_at (b # s) 0")
  have r: "r < 0x110000" "0x80 \<le> r"
    using char_at_inv [OF rk] False
    by (auto simp: rune_error_def wtf8_1 byte_order intro: ccontr split: if_splits)
  from r(1) show ?thesis
  proof (cases rule: units_of_cases)
    case (one u)
    with r rk False show ?thesis by (auto simp: toUnits_scan scan.simps(2))
  next
    case (two u v)
    with rk False show ?thesis by (auto simp: toUnits_scan scan.simps(2) is_high_def)
  qed
qed

text \<open>Where an encoding and another string part, at the character both are in.\<close>

lemma units_from_boundary:
  assumes "\<forall>r \<in> set rs. r < 0x110000" "take (length (encode rs)) s = encode rs"
  shows "toUnits s = concat (map units_of rs) @ toUnits (drop (length (encode rs)) s)"
  using toUnits_encode_append [OF assms(1), of "drop (length (encode rs)) s"] assms(2)
  by (metis append_take_drop_id)

lemma unit_order_at_byte:
  assumes rs: "\<forall>r \<in> set rs. r < 0x110000" and a: "a = encode rs"
    and i: "i < length a" "i < length b" "take i a = take i b" "a ! i \<noteq> b ! i" and asc: "a ! i < 0x80"
  shows "unit_order (toUnits a) (toUnits b) = cmp (unat (a ! i)) (unat (b ! i))"
    and "unit_order (toUnits b) (toUnits a) = cmp (unat (b ! i)) (unat (a ! i))"
proof -
  obtain rs1 r rs2 j where sp: "rs = rs1 @ r # rs2" "i = length (encode rs1) + j" "j < length (wtf8 r)"
    using encode_split [of i rs] i(1) a by blast
  have r: "r < 0x110000" and rs1: "\<forall>r \<in> set rs1. r < 0x110000" using rs sp by auto
  have "a ! i = wtf8 r ! j" using sp a by (simp add: nth_append)
  then have j: "r < 0x80" "j = 0" using wtf8_rune_start [OF r sp(3)] asc sp(3) by (auto simp: wtf8_1)
  have ta: "take (length (encode rs1)) a = encode rs1" using a sp by simp
  then have tb: "take (length (encode rs1)) b = encode rs1" using i(3) sp j by simp
  have "toUnits a = concat (map units_of rs1) @ toUnits (a ! i # drop (Suc i) a)"
    using units_from_boundary [OF rs1 ta] sp j i(1) by (simp add: Cons_nth_drop_Suc)
  moreover have "toUnits b = concat (map units_of rs1) @ toUnits (b ! i # drop (Suc i) b)"
    using units_from_boundary [OF rs1 tb] sp j i(2) by (simp add: Cons_nth_drop_Suc)
  ultimately show "unit_order (toUnits a) (toUnits b) = cmp (unat (a ! i)) (unat (b ! i))"
    and "unit_order (toUnits b) (toUnits a) = cmp (unat (b ! i)) (unat (a ! i))"
    using toUnits_head_byte [of "a ! i" "drop (Suc i) a"] toUnits_head_byte [of "b ! i" "drop (Suc i) b"] asc i(4)
    by (auto simp: byte_order cmp_def byte_eq_iff split: if_splits)
qed

lemma unit_order_prefix:
  assumes "x = encode rs" "\<forall>r \<in> set rs. r < 0x110000" "take (length x) y = x" "length x \<le> length y"
  shows "unit_order (toUnits x) (toUnits y) = cmp (length x) (length y)"
    and "unit_order (toUnits y) (toUnits x) = cmp (length y) (length x)"
proof -
  have y: "toUnits y = toUnits x @ toUnits (drop (length x) y)"
    using units_from_boundary [OF assms(2), of y] assms(1,3) by (simp add: toUnits_encode assms(2))
  have "unit_order (toUnits x) (toUnits y) = cmp (length x) (length y)
    \<and> unit_order (toUnits y) (toUnits x) = cmp (length y) (length x)"
  proof (cases "drop (length x) y")
    case Nil
    with assms(4) y show ?thesis using unit_order_append [of "toUnits x" "[]" "[]"] by (simp add: cmp_def)
  next
    case (Cons c t)
    then have "length x < length y" using assms(4) by (metis drop_eq_Nil linorder_not_le list.distinct(1))
    moreover obtain u us where "toUnits (drop (length x) y) = u # us"
      using toUnits_head_byte [of c t] Cons by auto
    ultimately show ?thesis
      using unit_order_append [of "toUnits x" "[]" "u # us"] unit_order_append [of "toUnits x" "u # us" "[]"]
      by (simp add: y cmp_def)
  qed
  then show "unit_order (toUnits x) (toUnits y) = cmp (length x) (length y)"
    and "unit_order (toUnits y) (toUnits x) = cmp (length y) (length x)" by blast+
qed

text \<open>Inside a character, backing up finds its first byte, before which the units are the same.\<close>

lemma back_up_boundary:
  assumes rs: "\<forall>r \<in> set rs. r < 0x110000" and a: "a = encode rs"
    and i: "i < length a" "take i a = take i b"
  shows "unit_order (toUnits a) (toUnits b)
    = unit_order (toUnits (drop (back_up 3 a i) a)) (toUnits (drop (back_up 3 a i) b))"
proof -
  obtain rs1 r rs2 j where sp: "rs = rs1 @ r # rs2" "i = length (encode rs1) + j" "j < length (wtf8 r)"
    using encode_split [of i rs] i(1) a by blast
  have r: "r < 0x110000" and rs1: "\<forall>r \<in> set rs1. r < 0x110000" using rs sp by auto
  define p where "p = length (encode rs1)"
  have nth: "a ! (p + k) = wtf8 r ! k" if "k < length (wtf8 r)" for k
    using that by (simp add: a sp p_def nth_append)
  have bu: "back_up 3 a i = p"
  proof (rule back_up_to)
    show "\<forall>l. p < l \<and> l \<le> i \<longrightarrow> \<not> rune_start (a ! l)"
    proof (intro allI impI)
      fix l assume l: "p < l \<and> l \<le> i"
      then have "l - p < length (wtf8 r)" "l - p \<noteq> 0" using sp p_def by auto
      with nth [of "l - p"] wtf8_rune_start(1) [OF r] l show "\<not> rune_start (a ! l)" by simp
    qed
    show "rune_start (a ! p)" using nth [of 0] wtf8_rune_start(1) [OF r, of 0] by simp
    show "p \<le> i" "i - p \<le> 3" using sp p_def wtf8_rune_start(3) [OF r sp(3)] by auto
  qed
  have ta: "take p a = encode rs1" using a sp p_def by simp
  moreover have "take p b = take p a" using i(2) sp p_def by (metis le_add1 min_absorb1 take_take)
  ultimately have "toUnits a = concat (map units_of rs1) @ toUnits (drop p a)"
    "toUnits b = concat (map units_of rs1) @ toUnits (drop p b)"
    using units_from_boundary [OF rs1, of a] units_from_boundary [OF rs1, of b] by (simp_all add: p_def)
  then show ?thesis by (simp add: bu)
qed

text \<open>
  C2: \<open>StrCompare\<close> orders strings as JavaScript does, by their UTF-16 code units: on any
  two canonical strings it gives -1, 0 or 1 as the first one's unit sequence is before, equal
  to or after the other's, although it compares bytes wherever they settle the order.
\<close>
theorem StrCompare_unit_order:
  "StrCompare (of_units us) (of_units vs) = unit_order us vs"
proof -
  define a b i where ab: "a = of_units us" "b = of_units vs" and i: "i = shared a b"
  have us: "toUnits a = us" "toUnits b = vs" by (simp_all add: ab)
  have a: "a = encode (pair_up us)" and b: "b = encode (pair_up vs)" by (simp_all add: ab of_units_def)
  note va = pair_up_bound [of us] and vb = pair_up_bound [of vs]
  have tk: "take i a = take i b" and le: "i \<le> length a" "i \<le> length b"
    using shared_take [of a b] shared_le [of a b] by (simp_all add: i)
  consider (pa) "i = length a" | (pb) "i = length b" | (inside) "i < length a" "i < length b"
    using le by linarith
  then have "StrCompare a b = unit_order (toUnits a) (toUnits b)"
  proof cases
    case pa
    then show ?thesis using unit_order_prefix(1) [OF a va, of b] tk le
      by (simp add: StrCompare_def i [symmetric])
  next
    case pb
    then show ?thesis using unit_order_prefix(2) [OF b vb, of a] tk le
      by (simp add: StrCompare_def i [symmetric])
  next
    case inside
    have ne: "a ! i \<noteq> b ! i" using shared_differ inside by (simp add: i)
    show ?thesis
      using unit_order_at_byte(1) [OF va a inside tk ne] back_up_boundary [OF va a inside(1) tk]
        unit_order_at_byte(2) [OF vb b inside(2,1) tk [symmetric] ne [symmetric]] inside
      by (auto simp: StrCompare_def i [symmetric] Let_def compare_units_order ur_units_def)
  qed
  then show ?thesis by (simp add: us ab [symmetric])
qed

end
