(* ===== verification/StrAscii.thy ===== *)
theory StrAscii
  imports StrOps
begin

text \<open>
  ASCII characters among others: an ASCII byte is a character of its own wherever it stands,
  and the code units below 80 are those bytes. First and last occurrences of one list in
  another, with which Go's \<open>strings.Index\<close> and \<open>strings.LastIndex\<close> and the specification of the
  searches are written, and how they go from bytes to code units.
\<close>

subsection \<open>Characters before an ASCII byte\<close>

lemma decode_rune_ascii_after:
  assumes "c < 0x80" shows "decode_rune ((b # s) @ c # t) = decode_rune (b # s)"
proof -
  have nc: "\<not> is_cont c" using assms by (simp add: is_cont_iff byte_order)
  have lt: "c < 0x80" "\<not> 0x80 \<le> c" "\<not> 0x90 \<le> c" "\<not> 0xA0 \<le> c" using assms by (auto simp: byte_order)
  show ?thesis
    by (cases s rule: remdups_adj.cases; cases "tl (tl s)")
       (auto simp: decode_rune.simps nc lt split: list.split)
qed

lemma half_ascii: "c < 0x80 \<Longrightarrow> half b c x = None" "c < 0x80 \<Longrightarrow> half b x c = None"
  by (auto simp: half_arith byte_order)

lemma char_at_ascii_after:
  assumes "c < 0x80" shows "char_at ((b # s) @ c # t) 0 = char_at (b # s) 0"
proof -
  have "(case s @ c # t of b1 # b2 # _ \<Rightarrow> half b b1 b2 | _ \<Rightarrow> None) = (case s of b1 # b2 # _ \<Rightarrow> half b b1 b2 | _ \<Rightarrow> None)"
    using assms half_ascii by (auto split: list.split)
  then show ?thesis using decode_rune_ascii_after [OF assms, of b s t]
    by (simp add: char_at_Cons split: option.split)
qed

lemma scan_ascii_after: "c < 0x80 \<Longrightarrow> scan (s @ c # t) = scan s @ scan (c # t)"
proof (induction s rule: scan.induct)
  case (2 b s)
  let ?k = "snd (char_at (b # s) 0)"
  have k: "?k \<le> length (b # s)" by (rule char_at_size) simp
  have "scan ((b # s) @ c # t) = char_at (b # s) 0 # scan (drop ?k ((b # s) @ c # t))"
    using char_at_ascii_after [OF 2(2), of b s t] by (simp add: scan.simps(2))
  also have "drop ?k ((b # s) @ c # t) = drop ?k (b # s) @ c # t"
    using k by (simp del: append_Cons)
  finally have "scan ((b # s) @ c # t) = char_at (b # s) 0 # scan (drop ?k (b # s)) @ scan (c # t)"
    using 2 by simp
  then show ?case unfolding scan.simps(2) [of b s] by simp
qed simp

lemma toUnits_ascii_after: "c < 0x80 \<Longrightarrow> toUnits (s @ c # t) = toUnits s @ toUnits (c # t)"
  by (simp add: toUnits_scan scan_ascii_after)

lemma wtf8_high: "0x80 \<le> r \<Longrightarrow> r < 0x110000 \<Longrightarrow> \<forall>b \<in> set (wtf8 r). \<not> b < 0x80"
proof -
  assume "0x80 \<le> r" "r < 0x110000"
  from this(2) show ?thesis
  proof (cases r rule: rune_cases)
    case one with \<open>0x80 \<le> r\<close> show ?thesis by simp
  next
    case (two a b)
    show ?thesis using two(2-) unfolding two(1) by (auto simp: wtf8_2 byte_order byte_arith simp del: of_nat_add)
  next
    case (three a b c)
    show ?thesis using three(2-) unfolding three(1)
      by (subst wtf8_3) (auto simp: byte_order byte_arith simp del: of_nat_add)
  next
    case (four a b c d)
    show ?thesis using four(2-) unfolding four(1)
      by (subst wtf8_4) (auto simp: byte_order byte_arith simp del: of_nat_add)
  qed
qed

lemma char_at_high:
  assumes "\<not> b < 0x80" "char_at (b # s) 0 = (r, k)"
  shows "0x80 \<le> r \<and> r < 0x110000 \<and> 0 < k \<and> k \<le> length (b # s) \<and> (\<forall>c \<in> set (take k (b # s)). \<not> c < 0x80)"
proof -
  have k: "0 < k" "k \<le> length (b # s)" using char_at_size [of "b # s"] assms(2) by auto
  from char_at_inv [OF assms(2)] consider "r = rune_error" "k = 1" | "r < 0x110000" "take k (b # s) = wtf8 r" by auto
  then show ?thesis
  proof cases
    case 1 with assms k show ?thesis by (auto simp: rune_error_def)
  next
    case 2
    have "0x80 \<le> r"
    proof (rule ccontr)
      assume r: "\<not> 0x80 \<le> r"
      then have "wtf8 r = [word_of_nat r]" by (simp add: wtf8_1)
      with 2(2) k have "b = word_of_nat r" by (cases k) auto
      with assms(1) r show False by (simp add: byte_order byte_arith)
    qed
    with 2 k wtf8_high show ?thesis by simp
  qed
qed

lemma units_high: "0x80 \<le> r \<Longrightarrow> r < 0x110000 \<Longrightarrow> \<forall>u \<in> set (units_of r). 0x80 \<le> unat u"
  by (auto simp: units_of_def unat_word_of_nat_unit simp del: of_nat_add)

subsection \<open>First occurrence\<close>

fun list_index :: "'a list \<Rightarrow> 'a list \<Rightarrow> nat option" where
  "list_index [] w = (if w = [] then Some 0 else None)"
| "list_index (c # s) w =
     (if take (length w) (c # s) = w then Some 0 else map_option Suc (list_index s w))"

lemma list_index_Some:
  "list_index s w = Some k \<Longrightarrow> k + length w \<le> length s \<and> take (length w) (drop k s) = w
     \<and> (\<forall>j<k. take (length w) (drop j s) \<noteq> w)"
proof (induction s arbitrary: k)
  case (Cons c s)
  show ?case
  proof (cases "take (length w) (c # s) = w")
    case True
    with Cons.prems have "k = 0" by simp
    moreover have "length w \<le> length (c # s)" using arg_cong [OF True, of length] by simp
    ultimately show ?thesis using True by simp
  next
    case False
    with Cons.prems obtain m where m: "list_index s w = Some m" "k = Suc m" by auto
    from Cons.IH [OF m(1)] False m(2) show ?thesis by (auto simp: less_Suc_eq_0_disj)
  qed
qed (simp split: if_splits)

lemma list_index_None:
  "list_index s w = None \<longleftrightarrow> (\<forall>j \<le> length s. take (length w) (drop j s) \<noteq> w)"
  unfolding less_Suc_eq_le [symmetric] by (induction s) (auto simp: All_less_Suc2)

text \<open>The places where \<open>w\<close> occurs, in order, and the last of them.\<close>

fun occurrences :: "'a list \<Rightarrow> 'a list \<Rightarrow> nat list" where
  "occurrences [] w = (if w = [] then [0] else [])"
| "occurrences (c # s) w = (if take (length w) (c # s) = w then [0] else []) @ map Suc (occurrences s w)"

lemma list_index_occurrences: "list_index s w = (case occurrences s w of [] \<Rightarrow> None | i # _ \<Rightarrow> Some i)"
  by (induction s) (auto split: list.splits)

definition list_rindex :: "'a list \<Rightarrow> 'a list \<Rightarrow> nat option" where
  "list_rindex s w = (if occurrences s w = [] then None else Some (last (occurrences s w)))"

lemma set_occurrences: "i \<in> set (occurrences s w) \<longleftrightarrow> i + length w \<le> length s \<and> take (length w) (drop i s) = w"
proof (induction s arbitrary: i)
  case (Cons c s)
  have "take (length w) (c # s) = w \<Longrightarrow> length w \<le> length (c # s)"
    by (metis length_take min.cobounded1)
  with Cons show ?case by (cases i) (auto simp: image_iff)
qed auto

lemma sorted_occurrences: "sorted_wrt (<) (occurrences s w)"
  by (induction s) (auto simp: sorted_wrt_map)

lemma occurrences_skip:
  "w \<noteq> [] \<Longrightarrow> \<forall>x \<in> set u. x \<noteq> hd w \<Longrightarrow> occurrences (u @ v) w = map ((+) (length u)) (occurrences v w)"
proof (induction u)
  case (Cons x u)
  then have "take (length w) ((x # u) @ v) \<noteq> w" by (cases w) auto
  with Cons show ?case by simp
qed (simp add: map_idI)

subsection \<open>Occurrences, in bytes and in code units\<close>

lemma ascii_char:
  "(b :: byte) < 0x80 \<Longrightarrow> unat (ucast b :: unit16) < 0x80"
  "(ucast (b :: byte) :: unit16) = ucast c \<longleftrightarrow> b = c"
  unfolding word_unat_eq_iff [where 'a = 16] word_unat_eq_iff [where 'a = 8] unat_ucast_byte byte_order by simp_all

lemma toUnits_high:
  assumes "\<not> b < 0x80"
  obtains r k where "char_at (b # s) 0 = (r, k)" "0 < k" "k \<le> length (b # s)" "\<forall>c \<in> set (take k (b # s)). \<not> c < 0x80"
    "toUnits (b # s) = units_of r @ toUnits (drop k (b # s))" "units_of r \<noteq> []" "\<forall>u \<in> set (units_of r). 0x80 \<le> unat u"
proof -
  obtain r k where rk: "char_at (b # s) 0 = (r, k)" by force
  note h = char_at_high [OF assms rk]
  have "toUnits (b # s) = units_of r @ toUnits (drop k (b # s))"
    by (simp add: toUnits_scan scan.simps(2) rk)
  moreover have "units_of r \<noteq> []" by (simp add: units_of_def)
  ultimately show thesis using that [OF rk] h units_high by blast
qed

lemma prefix_units:
  "\<forall>b \<in> set w. b < 0x80 \<Longrightarrow> take (length w) (toUnits s) = map ucast w \<longleftrightarrow> take (length w) s = w"
proof (induction w arbitrary: s)
  case (Cons a w)
  show ?case
  proof (cases s)
    case (Cons b t)
    show ?thesis
    proof (cases "b < 0x80")
      case True
      then show ?thesis using Cons Cons.IH [of t] Cons.prems by (auto simp: toUnits_ascii_Cons ascii_char)
    next
      case False
      then obtain r k where "toUnits (b # t) = units_of r @ toUnits (drop k (b # t))" "units_of r \<noteq> []"
        "\<forall>u \<in> set (units_of r). 0x80 \<le> unat u" by (rule toUnits_high)
      then obtain u us where u: "toUnits s = u # us" "0x80 \<le> unat u" using Cons by (cases "units_of r") auto
      then show ?thesis using False Cons Cons.prems ascii_char(1) [of a] by auto
    qed
  qed simp
qed simp


text \<open>An occurrence of ASCII bytes is one of their code units, and the other way round.\<close>

lemma occurrences_units:
  assumes "\<forall>b \<in> set w. b < 0x80" "w \<noteq> []"
  shows "occurrences (toUnits s) (map ucast w) = map (\<lambda>i. length (toUnits (take i s))) (occurrences s w)"
proof (induction s rule: scan.induct)
  case 1
  then show ?case using assms by simp
next
  case (2 b s)
  show ?case
  proof (cases "b < 0x80")
    case True
    then have "snd (char_at (b # s) 0) = 1" by (simp add: char_at_Cons)
    with 2 have IH: "occurrences (toUnits s) (map ucast w)
        = map (\<lambda>i. length (toUnits (take i s))) (occurrences s w)" by simp
    have "toUnits (take (Suc i) (b # s)) = ucast b # toUnits (take i s)" for i
      using True by (simp add: toUnits_ascii_Cons)
    then show ?thesis using True IH prefix_units [OF assms(1), of "b # s"]
      by (simp add: toUnits_ascii_Cons comp_def)
  next
    case False
    then obtain r k where rk: "char_at (b # s) 0 = (r, k)" and k: "0 < k" "k \<le> length (b # s)"
      and high: "\<forall>c \<in> set (take k (b # s)). \<not> c < 0x80"
      and u: "toUnits (b # s) = units_of r @ toUnits (drop k (b # s))" "\<forall>u \<in> set (units_of r). 0x80 \<le> unat u"
      by (rule toUnits_high)
    have hd: "hd w < 0x80" using assms by (cases w) auto
    have d: "b # s = take k (b # s) @ drop k (b # s)" by simp
    have bytes: "occurrences (b # s) w = map ((+) k) (occurrences (drop k (b # s)) w)"
      using high hd k(2) by (subst d, subst occurrences_skip [OF assms(2)]) auto
    have units: "occurrences (toUnits (b # s)) (map ucast w)
        = map ((+) (length (units_of r))) (occurrences (toUnits (drop k (b # s))) (map ucast w))"
      unfolding u(1) using u(2) assms(2) ascii_char(1) [OF hd]
      by (intro occurrences_skip) (auto simp: hd_map)
    have len: "length (toUnits (take (k + i) (b # s))) = length (units_of r) + length (toUnits (take i (drop k (b # s))))"
      if i: "i \<in> set (occurrences (drop k (b # s)) w)" for i
    proof -
      have at: "i + length w \<le> length (drop k (b # s))" "take (length w) (drop i (drop k (b # s))) = w"
        using i by (auto simp: set_occurrences)
      obtain c t where ct: "drop i (drop k (b # s)) = c # t" "c < 0x80"
        using at assms by (cases "drop i (drop k (b # s))"; cases w) auto
      have "drop k (b # s) = take i (drop k (b # s)) @ c # t" using ct(1) by (metis append_take_drop_id)
      then have 1: "toUnits (drop k (b # s)) = toUnits (take i (drop k (b # s))) @ toUnits (c # t)"
        using toUnits_ascii_after [OF ct(2)] by metis
      have "b # s = take (k + i) (b # s) @ c # t"
        using ct(1) by (metis append_take_drop_id drop_drop add.commute)
      then have "toUnits (b # s) = toUnits (take (k + i) (b # s)) @ toUnits (c # t)"
        using toUnits_ascii_after [OF ct(2)] by metis
      with 1 u(1) show ?thesis by simp
    qed
    show ?thesis using 2 rk units bytes len by (cases "list_index (drop k (b # s)) w") auto
  qed
qed

end
