(* ===== verification/StrSearch.thy ===== *)
theory StrSearch
  imports StrAscii
begin

text \<open>
  Searching and splitting (\<open>backend/runtime/str_search.go\<close>, \<open>str_search_ascii.go\<close>): \<open>indexOf\<close>,
  \<open>equalAt\<close>, \<open>StrIncludes\<close>, \<open>StrIndexOf\<close>, \<open>StrStartsWith\<close>, \<open>StrSplit\<close>, \<open>toUint32\<close>, and the
  forms of them that search the bytes for an ASCII pattern. Where Go's \<open>strings\<close> package
  searches bytes (\<open>strings.Index\<close>), \<open>list_index\<close> is its first occurrence.

  Proved: both forms search the UTF-16 code units, for every string and pattern.
\<close>

subsection \<open>On code units\<close>

definition equalAt :: "jsStr \<Rightarrow> jsStr \<Rightarrow> nat \<Rightarrow> bool" where
  "equalAt v w i = list_all (\<lambda>k. jsStr_at v (i + k) = jsStr_at w k) [0..<jsStr_len w]"

function index_loop :: "jsStr \<Rightarrow> jsStr \<Rightarrow> nat \<Rightarrow> int" where
  "index_loop v w i =
     (if i + jsStr_len w \<le> jsStr_len v
      then if equalAt v w i then int i else index_loop v w (i + 1)
      else -1)"
  by pat_completeness auto
termination
  by (relation "measure (\<lambda>(v, w, i). Suc (jsStr_len v) - i)") auto

declare index_loop.simps [simp del]

definition indexOf :: "jsStr \<Rightarrow> jsStr \<Rightarrow> nat \<Rightarrow> int" where
  "indexOf v w from =
     (if jsStr_len w = 0 then if from \<le> jsStr_len v then int from else -1
      else index_loop v w from)"

subsection \<open>On bytes, for an ASCII pattern\<close>

definition asciiPattern :: "byte list \<Rightarrow> bool" where
  "asciiPattern w \<longleftrightarrow> w \<noteq> [] \<and> isASCII w"

definition optPosition :: "f64 list \<Rightarrow> nat \<Rightarrow> nat" where
  "optPosition pos n = (case pos of [] \<Rightarrow> 0 | p # _ \<Rightarrow> position p n)"

text \<open>\<open>unitOffset\<close>, from byte \<open>b\<close>, which \<open>n\<close> code units come before.\<close>

function unit_offset_from :: "byte list \<Rightarrow> nat \<Rightarrow> nat \<Rightarrow> nat \<Rightarrow> nat \<times> nat" where
  "unit_offset_from [] b n u = (b, n)"
| "unit_offset_from (c # s) b n u =
     (if n < u then
        if c < 0x80 then
          let k = ascii_prefix (take (u - n) (c # s))
          in unit_offset_from (drop k (c # s)) (b + k) (n + k) u
        else
          let (r, size) = char_at (c # s) 0
          in unit_offset_from (drop size (c # s)) (b + size) (if r \<ge> 0x10000 then n + 1 + 1 else n + 1) u
      else (b, n))"
  by pat_completeness auto
termination
proof (relation "measure (\<lambda>(s, b, n, u). length s)")
  fix c :: byte and s :: "byte list" and b n u k :: nat
  assume "n < u" "c < 0x80" "k = ascii_prefix (take (u - n) (c # s))"
  moreover from this have "0 < k" by (cases "u - n") auto
  ultimately show "((drop k (c # s), b + k, n + k, u), c # s, b, n, u) \<in> measure (\<lambda>(s, b, n, u). length s)"
    by simp
qed auto

declare unit_offset_from.simps(2) [simp del]

definition unitOffset :: "byte list \<Rightarrow> nat \<Rightarrow> nat \<times> nat" where
  "unitOffset s u = unit_offset_from s 0 0 u"

definition includesASCII :: "byte list \<Rightarrow> byte list \<Rightarrow> nat \<Rightarrow> bool" where
  "includesASCII s w from = (let (b, _) = unitOffset s from in list_index (drop b s) w \<noteq> None)"

definition indexASCII :: "byte list \<Rightarrow> byte list \<Rightarrow> nat \<Rightarrow> int" where
  "indexASCII s w from =
     (let (b, n) = unitOffset s from
      in case list_index (drop b s) w of
           None \<Rightarrow> -1
         | Some i \<Rightarrow> int (n + utf16Len (slice s b (b + i))))"

definition startsWithASCII :: "byte list \<Rightarrow> byte list \<Rightarrow> nat \<Rightarrow> bool" where
  "startsWithASCII s w start =
     (let (b, n) = unitOffset s start
      in n = start \<and> take (length w) (drop b s) = w)"

text \<open>\<open>strings.HasPrefix\<close> and \<open>strings.HasSuffix\<close>.\<close>

definition has_suffix :: "'a list \<Rightarrow> 'a list \<Rightarrow> bool" where
  "has_suffix s w \<longleftrightarrow> length w \<le> length s \<and> drop (length s - length w) s = w"

definition lastIndexASCII :: "byte list \<Rightarrow> byte list \<Rightarrow> nat \<Rightarrow> int" where
  "lastIndexASCII s w start =
     (let stop = (if start < length s
          then let (b, _) = unitOffset s (start + 1) in min (length s) (b - 1 + length w)
          else length s)
      in case list_rindex (take stop s) w of
           None \<Rightarrow> -1
         | Some i \<Rightarrow> int (utf16Len (take i s)))"

definition endsWithASCII :: "byte list \<Rightarrow> byte list \<Rightarrow> nat \<Rightarrow> bool" where
  "endsWithASCII s w stop =
     (let b = (if stop < length s then fst (unitOffset s stop) else length s)
      in has_suffix (take b s) w)"

subsection \<open>The methods\<close>

definition StrIndexOf :: "byte list \<Rightarrow> byte list \<Rightarrow> f64 list \<Rightarrow> f64" where
  "StrIndexOf s search pos =
     (if asciiPattern search then Fin (of_int (indexASCII s search (optPosition pos (length s))))
      else
        let v = newJSStr s; w = newJSStr search;
            start = (if length pos > 0 then position (pos ! 0) (jsStr_len v) else 0)
        in Fin (of_int (indexOf v w start)))"

definition StrIncludes :: "byte list \<Rightarrow> byte list \<Rightarrow> f64 list \<Rightarrow> bool" where
  "StrIncludes s search pos =
     (if asciiPattern search then includesASCII s search (optPosition pos (length s))
      else f64_le (Fin 0) (StrIndexOf s search pos))"

text \<open>The loop of \<open>StrLastIndexOf\<close>, down from \<open>i\<close>.\<close>

fun last_loop :: "jsStr \<Rightarrow> jsStr \<Rightarrow> nat \<Rightarrow> int" where
  "last_loop v w 0 = (if equalAt v w 0 then 0 else -1)"
| "last_loop v w (Suc i) = (if equalAt v w (Suc i) then int (Suc i) else last_loop v w i)"

definition StrLastIndexOf :: "byte list \<Rightarrow> byte list \<Rightarrow> f64 list \<Rightarrow> f64" where
  "StrLastIndexOf s search pos =
     (if asciiPattern search
      then let start = (if length pos > 0 \<and> pos ! 0 \<noteq> NaN then position (pos ! 0) (length s) else length s)
        in Fin (of_int (lastIndexASCII s search start))
      else
        let v = newJSStr s; w = newJSStr search; n = jsStr_len v; m = jsStr_len w;
            start = (if length pos > 0 \<and> pos ! 0 \<noteq> NaN then position (pos ! 0) n else n);
            i = min (int start) (int n - int m)
        in Fin (of_int (if i < 0 then -1 else last_loop v w (nat i))))"

definition StrStartsWith :: "byte list \<Rightarrow> byte list \<Rightarrow> f64 list \<Rightarrow> bool" where
  "StrStartsWith s search pos =
     (if asciiPattern search then startsWithASCII s search (optPosition pos (length s))
      else
        let v = newJSStr s; w = newJSStr search;
            start = (if length pos > 0 then position (pos ! 0) (jsStr_len v) else 0)
        in start + jsStr_len w \<le> jsStr_len v \<and> equalAt v w start)"

definition StrEndsWith :: "byte list \<Rightarrow> byte list \<Rightarrow> f64 list \<Rightarrow> bool" where
  "StrEndsWith s search stop =
     (if asciiPattern search
      then endsWithASCII s search (if length stop > 0 then position (stop ! 0) (length s) else length s)
      else
        let v = newJSStr s; w = newJSStr search;
            e = (if length stop > 0 then position (stop ! 0) (jsStr_len v) else jsStr_len v);
            start = int e - int (jsStr_len w)
        in start \<ge> 0 \<and> equalAt v w (nat start))"

subsection \<open>On code units\<close>

text \<open>An optional index argument, clamped to \<open>n\<close>; \<open>d\<close> where there is none.\<close>

definition opt_index :: "f64 list \<Rightarrow> nat \<Rightarrow> nat \<Rightarrow> nat" where
  "opt_index pos n d = (case pos of [] \<Rightarrow> d | p # _ \<Rightarrow> clamp_index (to_integer_or_infinity p) n)"

text \<open>ECMA-262's \<open>StringIndexOf\<close>: the first occurrence at or after \<open>from\<close>.\<close>

definition string_index_of :: "'u list \<Rightarrow> 'u list \<Rightarrow> nat \<Rightarrow> int" where
  "string_index_of us ws from =
     (case filter ((\<le>) from) (occurrences us ws) of [] \<Rightarrow> -1 | i # _ \<Rightarrow> int i)"

text \<open>The last occurrence at or before \<open>start\<close>.\<close>

definition string_last_index_of :: "'u list \<Rightarrow> 'u list \<Rightarrow> nat \<Rightarrow> int" where
  "string_last_index_of us ws start =
     (let is = filter (\<lambda>i. i \<le> start) (occurrences us ws) in if is = [] then -1 else int (last is))"

lemma equalAt_units:
  assumes "i + length (toUnits w) \<le> length (toUnits s)"
  shows "equalAt (newJSStr s) (newJSStr w) i \<longleftrightarrow> i \<in> set (occurrences (toUnits s) (toUnits w))"
proof -
  have "equalAt (newJSStr s) (newJSStr w) i \<longleftrightarrow> (\<forall>k < length (toUnits w). toUnits s ! (i + k) = toUnits w ! k)"
    using assms by (auto simp: equalAt_def list_all_iff str_simps)
  also have "\<dots> \<longleftrightarrow> take (length (toUnits w)) (drop i (toUnits s)) = toUnits w"
    using assms by (simp add: list_eq_iff_nth_eq [of "take (length (toUnits w)) _"])
  finally show ?thesis using assms by (simp add: set_occurrences)
qed


lemma filter_from: "sorted_wrt (<) xs \<Longrightarrow>
    filter ((\<le>) (i :: nat)) xs = (if i \<in> set xs then [i] else []) @ filter ((\<le>) (Suc i)) xs"
  by (induction xs) (auto simp: Suc_le_eq filter_empty_conv order_le_less)

lemma filter_upto: "sorted_wrt (<) xs \<Longrightarrow>
    filter (\<lambda>j. j \<le> Suc i) xs = filter (\<lambda>j. j \<le> i) xs @ (if Suc i \<in> set xs then [Suc i] else [])"
proof (induction xs)
  case (Cons x xs)
  then have "x \<ge> Suc i \<Longrightarrow> filter (\<lambda>j. j \<le> i) xs = []" by (auto simp: filter_empty_conv)
  with Cons show ?case by (auto simp: le_Suc_eq)
qed simp

lemma string_index_of_step:
  "string_index_of us ws i =
     (if i + length ws \<le> length us
      then if i \<in> set (occurrences us ws) then int i else string_index_of us ws (i + 1)
      else -1)"
proof (cases "i + length ws \<le> length us")
  case True
  then show ?thesis
    by (simp add: string_index_of_def filter_from [OF sorted_occurrences, of i])
next
  case False
  then have "filter ((\<le>) i) (occurrences us ws) = []"
    by (auto simp: filter_empty_conv set_occurrences)
  with False show ?thesis by (simp add: string_index_of_def)
qed

lemma index_loop_units:
  "index_loop (newJSStr s) (newJSStr w) i = string_index_of (toUnits s) (toUnits w) i"
proof (induction "Suc (length (toUnits s)) - i" arbitrary: i rule: less_induct)
  case less
  have IH: "i + length (toUnits w) \<le> length (toUnits s) \<Longrightarrow>
      index_loop (newJSStr s) (newJSStr w) (i + 1) = string_index_of (toUnits s) (toUnits w) (i + 1)"
    by (rule less) arith
  show ?case
  proof (cases "i + length (toUnits w) \<le> length (toUnits s)")
    case True
    with equalAt_units [OF True] IH [OF True] show ?thesis
      by (subst index_loop.simps, subst string_index_of_step) (simp only: str_simps if_True)
  next
    case False
    then show ?thesis
      by (subst index_loop.simps, subst string_index_of_step) (simp only: str_simps if_False)
  qed
qed

lemma string_index_of_Nil: "string_index_of us [] i = (if i \<le> length us then int i else -1)"
proof (cases "i \<le> length us")
  case True
  then have "i \<in> set (occurrences us [])" by (simp add: set_occurrences)
  with True show ?thesis by (subst string_index_of_step) simp
next
  case False
  then show ?thesis by (subst string_index_of_step) simp
qed

lemma indexOf_units: "indexOf (newJSStr s) (newJSStr w) i = string_index_of (toUnits s) (toUnits w) i"
proof (cases "toUnits w = []")
  case True
  then show ?thesis unfolding indexOf_def jsStr_len_new True by (simp add: string_index_of_Nil)
next
  case False
  then show ?thesis unfolding indexOf_def jsStr_len_new index_loop_units by simp
qed

lemma last_loop_units:
  assumes "i + length (toUnits w) \<le> length (toUnits s)"
  shows "last_loop (newJSStr s) (newJSStr w) i = string_last_index_of (toUnits s) (toUnits w) i"
  using assms
proof (induction i)
  case 0
  have "filter (\<lambda>i. i \<le> 0) xs = (if 0 \<in> set xs then [0] else [])" if "sorted_wrt (<) xs" for xs :: "nat list"
    using that by (induction xs) (auto simp: filter_empty_conv)
  from this [OF sorted_occurrences [of "toUnits s" "toUnits w"]] show ?case
    using equalAt_units [OF 0] by (simp add: string_last_index_of_def Let_def)
next
  case (Suc i)
  then show ?case using equalAt_units [OF Suc.prems]
    by (simp add: string_last_index_of_def filter_upto [OF sorted_occurrences])
qed

subsection \<open>On bytes\<close>

text \<open>
  Where \<open>unitOffset\<close> lands, \<open>k\<close> bytes on, the units \<open>pre\<close> passed: between characters, at unit \<open>u\<close>,
  past a pair at \<open>u\<close>, or at the end.
\<close>

definition lands :: "byte list \<Rightarrow> nat \<Rightarrow> nat \<Rightarrow> nat \<Rightarrow> unit16 list \<Rightarrow> bool" where
  "lands s n u k pre \<longleftrightarrow> k \<le> length s \<and> (\<exists>cs. scan s = cs @ scan (drop k s)) \<and> toUnits s = pre @ toUnits (drop k s) \<and> length pre \<le> k
     \<and> (n + length pre = u \<or> n + length pre < u \<and> k = length s
        \<or> n + length pre = Suc u \<and> (\<exists>p x y. pre = p @ [x, y] \<and> 0x80 \<le> unat x \<and> 0x80 \<le> unat y)
          \<and> 0 < k \<and> \<not> s ! (k - 1) < 0x80)"

lemma lands_after:
  assumes "lands (drop k s) (n + length us) u j pre" "k \<le> length s" "length us \<le> k"
    and "toUnits s = us @ toUnits (drop k s)" and "scan s = ds @ scan (drop k s)"
  shows "lands s n u (k + j) (us @ pre)"
proof -
  from assms(1) obtain cs where "scan (drop k s) = cs @ scan (drop (k + j) s)" by (auto simp: lands_def add_ac)
  with assms(5) have "scan s = (ds @ cs) @ scan (drop (k + j) s)" by simp
  then show ?thesis using assms(1-4) by (auto simp: lands_def add_ac nth_append)
qed

lemma scan_ascii_append: "\<forall>b \<in> set a. b < 0x80 \<Longrightarrow> scan (a @ s) = map (\<lambda>b. (unat b, 1)) a @ scan s"
  by (induction a) (auto simp: scan_ascii)

lemma unit_offset_from_lands:
  "n \<le> u \<Longrightarrow> \<exists>k pre. unit_offset_from s b n u = (b + k, n + length pre) \<and> lands s n u k pre"
proof (induction s b n u rule: unit_offset_from.induct)
  case (1 b n u)
  then show ?case by (intro exI [of _ 0] exI [of _ "[]"]) (auto simp: unit_offset_from.simps lands_def)
next
  case (2 c s b n u)
  have stop: "unit_offset_from s' b' n' u = (b', n')" if "\<not> n' < u" for s' b' n'
    using that by (cases s') (simp_all add: unit_offset_from.simps)
  show ?case
  proof (cases "n < u")
    case False
    with 2(3) show ?thesis by (intro exI [of _ 0] exI [of _ "[]"]) (simp add: stop lands_def)
  next
    case nu: True
    show ?thesis
    proof (cases "c < 0x80")
      case True
      define k where "k = ascii_prefix (take (u - n) (c # s))"
      have "k \<le> length (take (u - n) (c # s))"
        unfolding k_def ascii_prefix_takeWhile by (rule length_takeWhile_le)
      then have k: "k \<le> u - n" "k \<le> length (c # s)" by simp_all
      have a: "\<forall>b \<in> set (take k (c # s)). b < 0x80"
        using take_ascii_prefix [of "take (u - n) (c # s)"] k(1) by (simp add: k_def min_absorb1 take_take)
      define us :: "unit16 list" where "us = map ucast (take k (c # s))"
      have us: "length us = k" using k(2) by (simp add: us_def)
      have "n + k \<le> u" using k(1) nu by simp
      from 2(1) [OF nu True k_def this] obtain j pre where
        "unit_offset_from (drop k (c # s)) (b + k) (n + k) u = (b + k + j, n + k + length pre)"
        "lands (drop k (c # s)) (n + k) u j pre" by blast
      moreover have "toUnits (c # s) = us @ toUnits (drop k (c # s))"
        using toUnits_ascii_append [OF a, of "drop k (c # s)"] by (simp add: us_def)
      moreover have "scan (c # s) = map (\<lambda>b. (unat b, 1)) (take k (c # s)) @ scan (drop k (c # s))"
        using a scan_ascii_append [of "take k (c # s)" "drop k (c # s)"] by simp
      moreover have "unit_offset_from (c # s) b n u = unit_offset_from (drop k (c # s)) (b + k) (n + k) u"
        using nu True by (simp add: unit_offset_from.simps(2) k_def [symmetric])
      ultimately show ?thesis using lands_after [of k "c # s" n us u j pre _] k us
        by (intro exI [of _ "k + j"] exI [of _ "us @ pre"]) simp
    next
      case False
      then obtain r k where rk: "char_at (c # s) 0 = (r, k)" "0 < k" "k \<le> length (c # s)"
          "\<forall>d \<in> set (take k (c # s)). \<not> d < 0x80"
          "toUnits (c # s) = units_of r @ toUnits (drop k (c # s))" "units_of r \<noteq> []" "\<forall>u \<in> set (units_of r). 0x80 \<le> unat u"
        by (rule toUnits_high)
      have len: "(if r \<ge> 0x10000 then n + 1 + 1 else n + 1) = n + length (units_of r)"
        by (simp add: length_units_of)
      have lk: "length (units_of r) \<le> k" using units_of_size [OF rk(1)] .
      have step: "unit_offset_from (c # s) b n u = unit_offset_from (drop k (c # s)) (b + k) (n + length (units_of r)) u"
        using nu False rk(1) len by (simp add: unit_offset_from.simps(2))
      have sc: "scan (c # s) = [(r, k)] @ scan (drop k (c # s))" using rk(1) by (simp add: scan.simps(2))
      show ?thesis
      proof (cases "n + length (units_of r) \<le> u")
        case True
        from 2(2) [OF nu False rk(1) [symmetric] refl] True obtain j pre where
          "unit_offset_from (drop k (c # s)) (b + k) (n + length (units_of r)) u
             = (b + k + j, n + length (units_of r) + length pre)"
          "lands (drop k (c # s)) (n + length (units_of r)) u j pre" unfolding len by blast
        then show ?thesis using lands_after [of k "c # s" n "units_of r" u j pre, OF _ rk(3) lk rk(5) sc] step
          by (intro exI [of _ "k + j"] exI [of _ "units_of r @ pre"]) simp
      next
        case over: False
        then have "n + length (units_of r) = Suc u" "length (units_of r) = 2"
          using nu by (auto simp: length_units_of split: if_splits)
        moreover from this(2) obtain x y where "units_of r = [] @ [x, y]"
          by (auto simp: length_Suc_conv numeral_2_eq_2)
        then have "\<exists>p x y. units_of r = p @ [x, y] \<and> 0x80 \<le> unat x \<and> 0x80 \<le> unat y" using rk(7) by fastforce
        moreover have "(c # s) ! (k - 1) \<in> set (take k (c # s))"
          using rk(2,3) by (auto simp: in_set_conv_nth intro!: exI [of _ "k - 1"])
        then have "\<not> (c # s) ! (k - 1) < 0x80" using rk(4) by blast
        ultimately show ?thesis using step rk(2,3,5,6) lk stop sc
          by (intro exI [of _ k] exI [of _ "units_of r"]) (simp add: lands_def)
      qed
    qed
  qed
qed

lemma unitOffset_lands: "\<exists>k pre. unitOffset s u = (k, length pre) \<and> lands s 0 u k pre"
  using unit_offset_from_lands [of 0 u s 0] by (simp add: unitOffset_def)


lemma sum_scan: "sum_list (map snd (scan s)) = length s"
proof (induction s rule: scan.induct)
  case (2 b s)
  have "snd (char_at (b # s) 0) \<le> length (b # s)" by (rule char_at_size) simp
  with 2 show ?case by (simp add: scan.simps(2))
qed simp

text \<open>Two places between characters with as many code units after them are one.\<close>

lemma scan_suffix_eq:
  assumes "length (toUnits a) = length (toUnits b)" "scan a = us @ scan b"
  shows "scan a = scan b"
proof (cases us)
  case (Cons c cs)
  have "length (toUnits a) = length (units_of (fst c)) + length (concat (map (units_of \<circ> fst) cs)) + length (toUnits b)"
    unfolding toUnits_scan assms(2) Cons by simp
  moreover have "0 < length (units_of (fst c))" by (simp add: length_units_of)
  ultimately show ?thesis using assms(1) by linarith
qed (use assms in simp)

lemma boundary_eq:
  assumes "scan s = cs @ scan (drop i s)" "scan s = ds @ scan (drop k s)" "i \<le> length s" "k \<le> length s"
    and "length (toUnits (drop i s)) = length (toUnits (drop k s))"
  shows "i = k"
proof -
  define A where "A = scan (drop i s)"
  define B where "B = scan (drop k s)"
  have "cs @ A = ds @ B" unfolding A_def B_def by (rule trans [OF sym [OF assms(1)] assms(2)])
  then obtain us where "A = us @ B \<or> B = us @ A"
    by (auto simp: append_eq_append_conv2)
  then have "A = B"
    using scan_suffix_eq [OF assms(5), of us] scan_suffix_eq [OF assms(5) [symmetric], of us]
    unfolding A_def B_def by (elim disjE) simp_all
  then have "sum_list (map snd (scan (drop i s))) = sum_list (map snd (scan (drop k s)))"
    by (simp only: A_def B_def)
  then have "length s - i = length s - k" by (simp only: sum_scan length_drop)
  then show ?thesis using assms(3,4) by simp
qed

text \<open>An ASCII pattern, where it occurs.\<close>

lemma asciiPattern_iff: "asciiPattern w \<longleftrightarrow> w \<noteq> [] \<and> (\<forall>b \<in> set w. b < 0x80)"
  by (simp add: asciiPattern_def isASCII_iff)

lemma pattern_units:
  assumes "asciiPattern w"
  shows "toUnits w = map ucast w" "toUnits w \<noteq> []" "length (toUnits w) = length w" "u \<in> set (toUnits w) \<Longrightarrow> unat u < 0x80"
  using assms ascii_char(1) by (auto simp: asciiPattern_iff toUnits_ascii)

lemma pattern_occ:
  "asciiPattern w \<Longrightarrow> occurrences (toUnits s) (toUnits w) = map (\<lambda>i. length (toUnits (take i s))) (occurrences s w)"
  using occurrences_units [of w s] by (simp add: asciiPattern_iff toUnits_ascii)

lemma pattern_split:
  assumes p: "asciiPattern w" and i: "i \<in> set (occurrences s w)"
  shows "toUnits s = toUnits (take i s) @ toUnits w @ toUnits (drop (i + length w) s)"
    and "\<exists>cs. scan s = cs @ scan (drop (i + length w) s)" and "i + length w \<le> length s"
proof -
  have at: "i + length w \<le> length s" "take (length w) (drop i s) = w" using i by (auto simp: set_occurrences)
  then have d: "drop i s = w @ drop (i + length w) s"
    by (metis append_take_drop_id drop_drop add.commute)
  have a: "\<forall>b \<in> set w. b < 0x80" using p by (simp add: asciiPattern_iff)
  obtain c t where ct: "w = c # t" "c < 0x80" using p by (cases w) (auto simp: asciiPattern_iff)
  have s: "s = take i s @ c # (t @ drop (i + length w) s)"
    using d ct(1) by (metis append_Cons append_take_drop_id)
  have "scan s = scan (take i s) @ scan (drop i s)"
    using scan_ascii_after [OF ct(2)] s d ct(1) by (metis append_Cons)
  moreover have "scan (drop i s) = map (\<lambda>b. (unat b, 1)) w @ scan (drop (i + length w) s)"
    using d scan_ascii_append [OF a] by metis
  ultimately show "\<exists>cs. scan s = cs @ scan (drop (i + length w) s)" by (metis append.assoc)
  have "toUnits s = toUnits (take i s) @ toUnits (drop i s)"
    using toUnits_ascii_after [OF ct(2)] s d ct(1) by (metis append_Cons)
  moreover have "toUnits (drop i s) = toUnits w @ toUnits (drop (i + length w) s)"
    using d toUnits_ascii_append [OF a] pattern_units(1) [OF p] by metis
  ultimately show "toUnits s = toUnits (take i s) @ toUnits w @ toUnits (drop (i + length w) s)" by simp
qed (use i in \<open>simp add: set_occurrences\<close>)

text \<open>No occurrence holds a unit past ASCII.\<close>

lemma pattern_high:
  assumes "asciiPattern w" "i < length us" "0x80 \<le> unat (us ! i)" "i \<le> j + (length w - 1)" "j \<le> i"
  shows "j \<notin> set (occurrences us (toUnits w))"
proof
  assume "j \<in> set (occurrences us (toUnits w))"
  then have j: "j + length (toUnits w) \<le> length us" "take (length (toUnits w)) (drop j us) = toUnits w"
    by (auto simp: set_occurrences)
  have ij: "i - j < length (toUnits w)"
    using assms(4,5) pattern_units(3) [OF assms(1)] assms(1) by (cases w) (auto simp: asciiPattern_iff)
  then have "take (length (toUnits w)) (drop j us) ! (i - j) = us ! i" using j(1) assms(2,5) by simp
  then have "us ! i = toUnits w ! (i - j)" unfolding j(2) by simp
  then show False using pattern_units(4) [OF assms(1), of "toUnits w ! (i - j)"] ij assms(3) by simp
qed


text \<open>The occurrences from where the walk to unit \<open>u\<close> lands, and those before it.\<close>

lemma filter_append_occurrences:
  "filter ((\<le>) (length p)) (occurrences (p @ v) w) = map ((+) (length p)) (occurrences v w)"
proof (induction p)
  case (Cons x p)
  have "filter ((\<le>) (Suc n)) (map Suc xs) = map Suc (filter ((\<le>) n) xs)" for n xs
    by (induction xs) auto
  with Cons show ?case by simp
qed (simp add: map_idI)

lemma filter_less_take: "sorted_wrt (<) xs \<Longrightarrow>
    filter (\<lambda>i. i < (a :: nat)) xs = take (length xs - length (filter ((\<le>) a) xs)) xs"
proof (induction xs)
  case (Cons x xs)
  show ?case
  proof (cases "a \<le> x")
    case True
    with Cons.prems have "filter ((\<le>) a) (x # xs) = x # xs" "filter (\<lambda>i. i < a) (x # xs) = []"
      by (auto simp: filter_id_conv filter_empty_conv)
    then show ?thesis by simp
  next
    case False
    have "length (filter ((\<le>) a) xs) \<le> length xs" by simp
    with False Cons show ?thesis by (simp add: Suc_diff_le)
  qed
qed simp

lemma lands_from:
  assumes p: "asciiPattern w" and l: "lands s 0 u k pre"
  shows "filter ((\<le>) u) (occurrences (toUnits s) (toUnits w))
    = map ((+) (length pre)) (occurrences (toUnits (drop k s)) (toUnits w))"
proof -
  let ?U = "toUnits s" and ?W = "toUnits w"
  have U: "?U = pre @ toUnits (drop k s)" using l by (simp add: lands_def)
  from l consider "length pre = u" | "length pre < u" "k = length s"
    | p' x y where "length pre = Suc u" "pre = p' @ [x, y]" "0x80 \<le> unat x" "0x80 \<le> unat y"
    by (auto simp: lands_def)
  then have "filter ((\<le>) u) (occurrences ?U ?W) = filter ((\<le>) (length pre)) (occurrences ?U ?W)"
  proof cases
    case 2
    then have "?U = pre" using U by simp
    with pattern_units(2) [OF p] 2(1) have "filter ((\<le>) m) (occurrences ?U ?W) = []" if "length pre \<le> m" for m
      using that by (auto simp: filter_empty_conv set_occurrences)
    with 2 show ?thesis by simp
  next
    case 3
    then have "?U ! u = y" "u < length ?U" using U by (auto simp: nth_append)
    with 3 have "u \<notin> set (occurrences ?U ?W)" by (intro pattern_high [OF p, of u]) auto
    with 3(1) show ?thesis by (simp add: filter_from [OF sorted_occurrences, of u])
  qed simp
  also have "\<dots> = map ((+) (length pre)) (occurrences (toUnits (drop k s)) ?W)"
    by (subst U) (rule filter_append_occurrences)
  finally show ?thesis .
qed

lemma lands_before:
  assumes p: "asciiPattern w" and l: "lands s 0 (Suc u) k pre"
  shows "filter (\<lambda>i. i \<le> u) (occurrences (toUnits s) (toUnits w))
    = map (\<lambda>i. length (toUnits (take i s))) (filter (\<lambda>i. i < k) (occurrences s w))"
proof -
  let ?U = "toUnits s" and ?W = "toUnits w" and ?b = "filter (\<lambda>i. i < k) (occurrences s w)"
  have k: "s = take k s @ drop k s" "length (take k s) = k" using l by (auto simp: lands_def)
  have "length (filter ((\<le>) k) (occurrences s w)) = length (occurrences (drop k s) w)"
    using filter_append_occurrences [of "take k s" "drop k s" w] k by simp
  moreover have "length (filter ((\<le>) (Suc u)) (occurrences ?U ?W)) = length (occurrences (drop k s) w)"
    unfolding lands_from [OF p l] by (simp add: pattern_occ [OF p, of "drop k s"])
  moreover have "filter (\<lambda>i. i \<le> u) (occurrences ?U ?W) = filter (\<lambda>i. i < Suc u) (occurrences ?U ?W)"
    by (simp add: less_Suc_eq_le)
  ultimately show ?thesis
    unfolding pattern_occ [OF p, of s]
    by (simp add: filter_less_take [OF sorted_occurrences] filter_less_take
        [OF sorted_occurrences [of "toUnits s" "toUnits w", unfolded pattern_occ [OF p]]] take_map)
qed

lemma indexASCII_units:
  assumes p: "asciiPattern w"
  shows "indexASCII s w u = string_index_of (toUnits s) (toUnits w) u"
    and "includesASCII s w u \<longleftrightarrow> 0 \<le> string_index_of (toUnits s) (toUnits w) u"
proof -
  obtain k pre where o: "unitOffset s u = (k, length pre)" "lands s 0 u k pre" using unitOffset_lands by blast
  note f = lands_from [OF p o(2), unfolded pattern_occ [OF p, of "drop k s"]]
  show "indexASCII s w u = string_index_of (toUnits s) (toUnits w) u"
    by (cases "occurrences (drop k s) w")
      (simp_all add: indexASCII_def string_index_of_def f o(1) list_index_occurrences utf16Len_eq slice_def)
  show "includesASCII s w u \<longleftrightarrow> 0 \<le> string_index_of (toUnits s) (toUnits w) u"
    by (cases "occurrences (drop k s) w")
      (simp_all add: includesASCII_def string_index_of_def f o(1) list_index_occurrences)
qed

lemma startsWithASCII_units:
  assumes p: "asciiPattern w"
  shows "startsWithASCII s w u \<longleftrightarrow> u \<in> set (occurrences (toUnits s) (toUnits w))"
proof -
  obtain k pre where o: "unitOffset s u = (k, length pre)" "lands s 0 u k pre" using unitOffset_lands by blast
  have "u \<in> set (occurrences (toUnits s) (toUnits w)) \<longleftrightarrow>
      u \<in> set (filter ((\<le>) u) (occurrences (toUnits s) (toUnits w)))" by simp
  also have "\<dots> \<longleftrightarrow> u \<in> (+) (length pre) ` set (occurrences (toUnits (drop k s)) (toUnits w))"
    unfolding lands_from [OF p o(2)] by simp
  also have "\<dots> \<longleftrightarrow> length pre = u \<and> take (length w) (drop k s) = w"
  proof (cases "length pre = u")
    case True
    have "0 \<in> set (occurrences (toUnits (drop k s)) (toUnits w)) \<longleftrightarrow> take (length w) (drop k s) = w"
      using prefix_units [of w "drop k s"] p pattern_units(3) [OF p]
      by (auto simp: set_occurrences asciiPattern_iff toUnits_ascii dest: arg_cong [of _ _ length])
    with True show ?thesis by (auto simp: image_iff)
  next
    case False
    with o(2) have "length pre < u \<and> k = length s \<or> u < length pre" by (auto simp: lands_def)
    then show ?thesis using pattern_units(2) [OF p] False by (auto simp: image_iff)
  qed
  finally show ?thesis using o(1) by (auto simp: startsWithASCII_def)
qed


lemma occurrences_take:
  assumes "w \<noteq> []" "0 < k"
  shows "occurrences (take (min (length s) (k - 1 + length w)) s) w = filter (\<lambda>i. i < k) (occurrences s w)"
proof (rule strict_sorted_equal)
  show "set (occurrences (take (min (length s) (k - 1 + length w)) s) w) = set (filter (\<lambda>i. i < k) (occurrences s w))"
    using assms by (cases w) (auto simp: set_occurrences drop_take min_def split: if_splits)
qed (simp_all add: sorted_occurrences sorted_wrt_filter)

lemma lastIndexASCII_units:
  assumes p: "asciiPattern w"
  shows "lastIndexASCII s w start = string_last_index_of (toUnits s) (toUnits w) start"
proof -
  define ks where "ks = (if start < length s
     then filter (\<lambda>i. i < fst (unitOffset s (start + 1))) (occurrences s w) else occurrences s w)"
  define stop where "stop = (if start < length s
     then min (length s) (fst (unitOffset s (start + 1)) - 1 + length w) else length s)"
  have "filter (\<lambda>i. i \<le> start) (occurrences (toUnits s) (toUnits w)) = map (\<lambda>i. length (toUnits (take i s))) ks
      \<and> occurrences (take stop s) w = ks"
  proof (cases "start < length s")
    case True
    obtain k pre where o: "unitOffset s (Suc start) = (k, length pre)" "lands s 0 (Suc start) k pre"
      using unitOffset_lands by blast
    have "0 < k" using o(2) True by (auto simp: lands_def)
    with lands_before [OF p o(2)] occurrences_take [of w k s] True o(1) p show ?thesis
      by (simp add: ks_def stop_def asciiPattern_iff)
  next
    case False
    have "i \<le> start" if "i \<in> set (occurrences (toUnits s) (toUnits w))" for i
      using that False length_toUnits_le [of s] by (auto simp: set_occurrences)
    then have "filter (\<lambda>i. i \<le> start) (occurrences (toUnits s) (toUnits w)) = occurrences (toUnits s) (toUnits w)"
      by (simp add: filter_id_conv)
    then show ?thesis using False by (simp add: ks_def stop_def pattern_occ [OF p])
  qed
  moreover have "lastIndexASCII s w start = (case list_rindex (take stop s) w of None \<Rightarrow> -1 | Some i \<Rightarrow> int (utf16Len (take i s)))"
    by (simp add: lastIndexASCII_def stop_def Let_def case_prod_beta)
  ultimately show ?thesis
    by (simp add: string_last_index_of_def list_rindex_def utf16Len_eq last_map Let_def)
qed

lemma has_suffix_occ:
  "k \<le> length s \<Longrightarrow> has_suffix (take k s) w \<longleftrightarrow> length w \<le> k \<and> k - length w \<in> set (occurrences s w)"
  by (auto simp: has_suffix_def set_occurrences drop_take min_absorb2)

lemma suffix_boundary:
  assumes p: "asciiPattern w" and b: "scan s = cs @ scan (drop k s)" "toUnits s = pre @ toUnits (drop k s)" "k \<le> length s"
  shows "length w \<le> k \<and> k - length w \<in> set (occurrences s w)
    \<longleftrightarrow> length w \<le> length pre \<and> length pre - length w \<in> set (occurrences (toUnits s) (toUnits w))"
proof
  assume l: "length w \<le> k \<and> k - length w \<in> set (occurrences s w)"
  then have "toUnits s = toUnits (take (k - length w) s) @ toUnits w @ toUnits (drop k s)"
    using pattern_split(1) [OF p, of "k - length w" s] by simp
  with b(2) have "pre = toUnits (take (k - length w) s) @ toUnits w" by simp
  then show "length w \<le> length pre \<and> length pre - length w \<in> set (occurrences (toUnits s) (toUnits w))"
    using l pattern_units(3) [OF p] unfolding pattern_occ [OF p] by auto
next
  assume r: "length w \<le> length pre \<and> length pre - length w \<in> set (occurrences (toUnits s) (toUnits w))"
  then obtain i where i: "i \<in> set (occurrences s w)" "length (toUnits (take i s)) = length pre - length w"
    unfolding pattern_occ [OF p] by auto
  note sp = pattern_split [OF p i(1)]
  have "length (toUnits (take i s) @ toUnits w @ toUnits (drop (i + length w) s)) = length (pre @ toUnits (drop k s))"
    using sp(1) b(2) by simp
  then have "length (toUnits (drop (i + length w) s)) = length (toUnits (drop k s))"
    using i(2) r pattern_units(3) [OF p] by simp
  then have "i + length w = k" using sp(2,3) b boundary_eq by blast
  then show "length w \<le> k \<and> k - length w \<in> set (occurrences s w)" using i(1) by auto
qed

lemma endsWithASCII_units:
  assumes p: "asciiPattern w"
  shows "endsWithASCII s w stop \<longleftrightarrow> length w \<le> min stop (length (toUnits s))
    \<and> min stop (length (toUnits s)) - length w \<in> set (occurrences (toUnits s) (toUnits w))"
proof (cases "stop < length s")
  case False
  have "endsWithASCII s w stop \<longleftrightarrow> length w \<le> length (toUnits s)
      \<and> length (toUnits s) - length w \<in> set (occurrences (toUnits s) (toUnits w))"
    using False suffix_boundary [OF p, of s "scan s" "length s" "toUnits s"] has_suffix_occ [of "length s" s w]
    by (simp add: endsWithASCII_def)
  then show ?thesis using False length_toUnits_le [of s] by (simp add: min_absorb2)
next
  case True
  obtain k pre where o: "unitOffset s stop = (k, length pre)" and l: "lands s 0 stop k pre"
    using unitOffset_lands by blast
  from l obtain cs where b: "scan s = cs @ scan (drop k s)" "toUnits s = pre @ toUnits (drop k s)" "k \<le> length s"
    by (auto simp: lands_def)
  have e: "endsWithASCII s w stop \<longleftrightarrow> length w \<le> k \<and> k - length w \<in> set (occurrences s w)"
    using True o has_suffix_occ [OF b(3)] by (simp add: endsWithASCII_def)
  from l consider "length pre = stop" | "length pre < stop" "k = length s"
    | p' x y where "length pre = Suc stop" "pre = p' @ [x, y]" "0x80 \<le> unat x" "0 < k" "\<not> s ! (k - 1) < 0x80"
    by (auto simp: lands_def)
  then show ?thesis
  proof cases
    case 1
    then have "min stop (length (toUnits s)) = length pre" using b(2) by simp
    then show ?thesis unfolding e suffix_boundary [OF p b] by simp
  next
    case 2
    then have "min stop (length (toUnits s)) = length pre" using b(2) by simp
    then show ?thesis unfolding e suffix_boundary [OF p b] by simp
  next
    case 3
    have "\<not> (length w \<le> k \<and> k - length w \<in> set (occurrences s w))"
    proof
      assume *: "length w \<le> k \<and> k - length w \<in> set (occurrences s w)"
      then have w: "take (length w) (drop (k - length w) s) = w" by (auto simp: set_occurrences)
      have "0 < length w" using p by (auto simp: asciiPattern_iff)
      then have "s ! (k - 1) = take (length w) (drop (k - length w) s) ! (length w - 1)"
proof -
        have "k - length w + (length w - 1) = k - 1" using * \<open>0 < length w\<close> by arith
        then have "drop (k - length w) s ! (length w - 1) = s ! (k - 1)" using * b(3) by (subst nth_drop) simp_all
        then show ?thesis using \<open>0 < length w\<close> by simp
      qed
      also have "\<dots> \<in> set w" unfolding w using \<open>0 < length w\<close> by simp
      finally show False using 3(5) p by (auto simp: asciiPattern_iff)
    qed
    moreover have "min stop (length (toUnits s)) = stop" using b(2) 3(1) by simp
    moreover have "stop - length w \<notin> set (occurrences (toUnits s) (toUnits w))" if "length w \<le> stop"
    proof (rule pattern_high [OF p, of "stop - 1"])
      have n: "length p' = stop - 1" "0 < length w" using 3(1,2) p by (auto simp: asciiPattern_iff)
      then show "0x80 \<le> unat (toUnits s ! (stop - 1))" "stop - 1 < length (toUnits s)"
        using b(2) 3(1,2,3) by (auto simp: nth_append)
      show "stop - 1 \<le> stop - length w + (length w - 1)" "stop - length w \<le> stop - 1"
        using that n(2) by linarith+
    qed
    ultimately show ?thesis unfolding e by auto
  qed
qed


subsection \<open>The searches are on code units\<close>

lemma clamp_le: "clamp_index e n \<le> n"
  by (cases e) auto

lemma clamp_min: "m \<le> n \<Longrightarrow> min (clamp_index e n) m = clamp_index e m"
  by (cases e) auto

lemma string_index_of_min: "ws \<noteq> [] \<Longrightarrow> string_index_of us ws (min u (length us)) = string_index_of us ws u"
  using string_index_of_step [of us ws u] string_index_of_step [of us ws "length us"]
  by (cases "u \<le> length us") (auto simp: min_absorb1 min_absorb2)

lemma string_last_index_of_min: "string_last_index_of us ws (min u (length us)) = string_last_index_of us ws u"
proof -
  have "filter (\<lambda>i. i \<le> min u (length us)) (occurrences us ws) = filter (\<lambda>i. i \<le> u) (occurrences us ws)"
    by (rule filter_cong) (auto simp: set_occurrences)
  then show ?thesis by (simp add: string_last_index_of_def)
qed

lemma occurrences_min: "ws \<noteq> [] \<Longrightarrow> min u (length us) \<in> set (occurrences us ws) \<longleftrightarrow> u \<in> set (occurrences us ws)"
  by (cases "u \<le> length us") (auto simp: set_occurrences min_absorb1 min_absorb2)

lemma optPosition_min: "min (optPosition pos (length s)) (length (toUnits s)) = opt_index pos (length (toUnits s)) 0"
  by (cases pos) (simp_all add: optPosition_def opt_index_def position_clamp clamp_min length_toUnits_le)

text \<open>
  C12: \<open>indexOf\<close>, \<open>includes\<close> and \<open>startsWith\<close> search the UTF-16 code units of any string for those of
  any other, from the position ECMA-262 clamps, whether the code searches bytes (an ASCII
  pattern) or units: the first occurrence at or after it, whether there is one, and whether
  there is one right there.
\<close>

theorem search_first_units:
  "StrIndexOf s w pos = Fin (of_int (string_index_of (toUnits s) (toUnits w) (opt_index pos (length (toUnits s)) 0)))
   \<and> (StrIncludes s w pos \<longleftrightarrow> 0 \<le> string_index_of (toUnits s) (toUnits w) (opt_index pos (length (toUnits s)) 0))
   \<and> (StrStartsWith s w pos \<longleftrightarrow> opt_index pos (length (toUnits s)) 0 \<in> set (occurrences (toUnits s) (toUnits w)))"
proof (cases "asciiPattern w")
  case True
  note ne = pattern_units(2) [OF True]
  show ?thesis
    unfolding optPosition_min [symmetric] string_index_of_min [OF ne] occurrences_min [OF ne]
    using indexASCII_units [OF True] startsWithASCII_units [OF True] True
    by (simp add: StrIndexOf_def StrIncludes_def StrStartsWith_def)
next
  case False
  define start where "start = opt_index pos (length (toUnits s)) 0"
  have p: "(if length pos > 0 then position (pos ! 0) (jsStr_len (newJSStr s)) else 0) = start"
    by (cases pos) (simp_all add: start_def opt_index_def str_simps position_clamp)
  have "StrIndexOf s w pos = Fin (of_int (string_index_of (toUnits s) (toUnits w) start))"
    unfolding StrIndexOf_def Let_def p using False by (simp add: indexOf_units)
  moreover have "f64_le (Fin 0) (Fin (of_int i)) \<longleftrightarrow> 0 \<le> i" for i
    by (auto simp: f64_le_def)
  moreover have "StrStartsWith s w pos \<longleftrightarrow> start \<in> set (occurrences (toUnits s) (toUnits w))"
    unfolding StrStartsWith_def Let_def p using False equalAt_units [of start w s]
    by (auto simp: str_simps set_occurrences)
  ultimately show ?thesis unfolding start_def [symmetric] using False by (simp add: StrIncludes_def)
qed

definition last_start :: "f64 list \<Rightarrow> nat \<Rightarrow> nat" where
  "last_start pos n = (case pos of [] \<Rightarrow> n | p # _ \<Rightarrow> if p = NaN then n else clamp_index (to_integer_or_infinity p) n)"

text \<open>
  C13: \<open>lastIndexOf\<close> gives the last occurrence at or before the position, the end for a missing or
  NaN one, and \<open>endsWith\<close> tells whether one ends at the position, counted in UTF-16 code units,
  for any string and pattern.
\<close>

theorem search_last_units:
  "StrLastIndexOf s w pos
     = Fin (of_int (string_last_index_of (toUnits s) (toUnits w) (last_start pos (length (toUnits s)))))
   \<and> (StrEndsWith s w pos \<longleftrightarrow>
        length (toUnits w) \<le> opt_index pos (length (toUnits s)) (length (toUnits s))
        \<and> opt_index pos (length (toUnits s)) (length (toUnits s)) - length (toUnits w)
            \<in> set (occurrences (toUnits s) (toUnits w)))"
proof (cases "asciiPattern w")
  case True
  let ?n = "length (toUnits s)"
  have l: "min (last_start pos (length s)) ?n = last_start pos ?n"
    "min (opt_index pos (length s) (length s)) ?n = opt_index pos ?n ?n"
    by (cases pos; simp add: last_start_def opt_index_def clamp_min length_toUnits_le min_absorb2)+
  have "(if length pos > 0 \<and> pos ! 0 \<noteq> NaN then position (pos ! 0) (length s) else length s) = last_start pos (length s)"
    "(if length pos > 0 then position (pos ! 0) (length s) else length s) = opt_index pos (length s) (length s)"
    by (cases pos; simp add: last_start_def opt_index_def position_clamp)+
  then show ?thesis
    unfolding l [symmetric] string_last_index_of_min
    using True lastIndexASCII_units [OF True] endsWithASCII_units [OF True] pattern_units(3) [OF True]
    by (simp add: StrLastIndexOf_def StrEndsWith_def Let_def)
next
  case False
  let ?n = "length (toUnits s)" and ?m = "length (toUnits w)"
  have p: "(if length pos > 0 \<and> pos ! 0 \<noteq> NaN then position (pos ! 0) ?n else ?n) = last_start pos ?n"
    "(if length pos > 0 then position (pos ! 0) ?n else ?n) = opt_index pos ?n ?n"
    by (cases pos; simp add: last_start_def opt_index_def position_clamp)+
  have last: "(if min (int i) (int ?n - int ?m) < 0 then -1
       else last_loop (newJSStr s) (newJSStr w) (nat (min (int i) (int ?n - int ?m))))
     = string_last_index_of (toUnits s) (toUnits w) i" for i
  proof (cases "?m \<le> ?n")
    case True
    have "filter (\<lambda>j. j \<le> min i (?n - ?m)) (occurrences (toUnits s) (toUnits w))
        = filter (\<lambda>j. j \<le> i) (occurrences (toUnits s) (toUnits w))"
      by (rule filter_cong) (auto simp: set_occurrences)
    then have "string_last_index_of (toUnits s) (toUnits w) (min i (?n - ?m))
        = string_last_index_of (toUnits s) (toUnits w) i" by (simp add: string_last_index_of_def)
    moreover have "nat (min (int i) (int ?n - int ?m)) = min i (?n - ?m)" "\<not> min (int i) (int ?n - int ?m) < 0"
      using True by (auto simp: min_def)
    moreover have "min i (?n - ?m) + ?m \<le> ?n" using True by auto
    ultimately show ?thesis using last_loop_units by simp
  next
    case False
    then have "occurrences (toUnits s) (toUnits w) = []"
      by (metis add_leD2 last_in_set set_occurrences)
    with False show ?thesis by (simp add: string_last_index_of_def)
  qed
  have "StrLastIndexOf s w pos = Fin (of_int (string_last_index_of (toUnits s) (toUnits w) (last_start pos ?n)))"
    using False by (simp only: StrLastIndexOf_def Let_def str_simps p last if_False)
  moreover have "StrEndsWith s w pos \<longleftrightarrow> 0 \<le> int (opt_index pos ?n ?n) - int ?m
      \<and> equalAt (newJSStr s) (newJSStr w) (nat (int (opt_index pos ?n ?n) - int ?m))"
    using False by (simp only: StrEndsWith_def Let_def str_simps p if_False)
  moreover have "opt_index pos ?n ?n \<le> ?n" by (cases pos) (simp_all add: opt_index_def clamp_le)
  ultimately show ?thesis
    using equalAt_units [of "opt_index pos ?n ?n - ?m" w s] by (auto simp: nat_diff_distrib le_diff_conv2)
qed

end
