(* ===== verification/StrSplit.thy ===== *)
theory StrSplit
  imports StrSearch
begin

text \<open>
  \<open>split\<close> (\<open>backend/runtime/str_search.go\<close>: \<open>StrSplit\<close>, \<open>toUint32\<close>; \<open>str_search_ascii.go\<close>:
  \<open>splitASCII\<close>). An \<open>*Array[string]\<close> made here is the list of its elements.

  Proved: the pieces are those of the code units, whichever way they are cut, and at most as
  many as the limit.
\<close>

text \<open>\<open>math.Mod\<close> of an integer and \<open>2^32\<close>, whose sign is the dividend's, as \<open>int64\<close>, then \<open>uint32\<close>.\<close>

definition go_mod :: "int \<Rightarrow> int \<Rightarrow> int" where
  "go_mod x y = sgn x * (\<bar>x\<bar> mod y)"

definition toUint32 :: "f64 \<Rightarrow> 32 word" where
  "toUint32 f =
     (if f = NaN \<or> f = PosInf \<or> f = NegInf then 0
      else word_of_int (go_mod (f64_int (f64_trunc f)) (2 ^ 32)))"

text \<open>
  The loop of \<open>splitASCII\<close>, with the parts found so far; \<open>StrSplit\<close> enters it with a separator
  that is not empty and fewer parts than \<open>most\<close>, Go's \<open>lim\<close>, so that \<open>==\<close> there is \<open>\<ge>\<close> here.
\<close>

function split_ascii_loop :: "byte list \<Rightarrow> byte list \<Rightarrow> nat \<Rightarrow> byte list list \<Rightarrow> byte list list" where
  "split_ascii_loop s sep most parts =
     (case list_index s sep of
        None \<Rightarrow> parts @ [s]
      | Some i \<Rightarrow>
          let parts' = parts @ [take i s]
          in if length parts' \<ge> most then parts'
             else split_ascii_loop (drop (i + length sep) s) sep most parts')"
  by pat_completeness auto
termination
  by (relation "measure (\<lambda>(s, sep, most, parts). most - length parts)") auto

declare split_ascii_loop.simps [simp del]

definition splitASCII :: "byte list \<Rightarrow> byte list \<Rightarrow> nat \<Rightarrow> byte list list" where
  "splitASCII s sep most = split_ascii_loop s sep most []"

text \<open>The loop of \<open>StrSplit\<close> on code units, from unit \<open>i\<close>.\<close>

function split_loop :: "jsStr \<Rightarrow> jsStr \<Rightarrow> nat \<Rightarrow> nat \<Rightarrow> byte list list \<Rightarrow> byte list list" where
  "split_loop v sep most i parts =
     (let j = indexOf v sep i
      in if j < 0 then parts @ [jsStr_sub v i (jsStr_len v)]
         else let parts' = parts @ [jsStr_sub v i (nat j)]
              in if length parts' \<ge> most then parts'
                 else split_loop v sep most (nat j + jsStr_len sep) parts')"
  by pat_completeness auto
termination
  by (relation "measure (\<lambda>(v, sep, most, i, parts). most - length parts)") auto

declare split_loop.simps [simp del]

definition StrSplit :: "byte list \<Rightarrow> byte list \<Rightarrow> f64 list \<Rightarrow> byte list list" where
  "StrSplit s separator limit =
     (let most = (if length limit > 0 then unat (toUint32 (limit ! 0)) else 2 ^ 32 - 1)
      in if most = 0 then []
         else if asciiPattern separator \<and> canonical s then splitASCII s separator most
         else
           let v = newJSStr s; sep = newJSStr separator; n = jsStr_len v; m = jsStr_len sep
           in if m = 0 then map (\<lambda>i. jsStr_sub v i (i + 1)) [0..<min n most]
              else if n = 0 then [s]
              else split_loop v sep most 0 [])"

subsection \<open>Pieces\<close>

text \<open>The pieces of a list between the occurrences of another, found from the left.\<close>

function pieces :: "'u list \<Rightarrow> 'u list \<Rightarrow> 'u list list" where
  "pieces us ws =
     (if ws = [] then map (\<lambda>u. [u]) us
      else case list_index us ws of
        None \<Rightarrow> [us]
      | Some i \<Rightarrow> take i us # pieces (drop (i + length ws) us) ws)"
  by pat_completeness auto
termination
proof (relation "measure (\<lambda>(us, ws). length us)")
  fix us ws :: "'u list" and i
  assume "ws \<noteq> []" "list_index us ws = Some i"
  then show "((drop (i + length ws) us, ws), us, ws) \<in> measure (\<lambda>(us, ws). length us)"
    using list_index_Some [of us ws i] by (cases ws) auto
qed simp

declare pieces.simps [simp del]

definition split_limit :: "f64 list \<Rightarrow> nat" where
  "split_limit limit = (if limit = [] then 2 ^ 32 - 1 else unat (toUint32 (hd limit)))"

lemma canonical_split:
  assumes "canonical s" "s = a @ w @ b" "asciiPattern w"
  shows "canonical a" "canonical b"
proof -
  obtain c t where w: "w = c # t" "c < 0x80" using assms(3) by (cases w) (auto simp: asciiPattern_iff)
  have "scan s = scan a @ scan (w @ b)" using scan_ascii_after [OF w(2), of a "t @ b"] assms(2) w(1) by simp
  moreover have "scan (w @ b) = map (\<lambda>b. (unat b, 1)) w @ scan b"
    by (rule scan_ascii_append) (use assms(3) in \<open>simp add: asciiPattern_iff\<close>)
  ultimately have sc: "scan s = scan a @ map (\<lambda>b. (unat b, 1)) w @ scan b" by simp
  have np: "no_pair (xs @ ys) \<Longrightarrow> no_pair xs \<and> no_pair ys" for xs ys
    by (induction xs) (auto simp: no_pair_Cons)
  have s: "\<forall>c \<in> set (scan s). \<not> stray c" "no_pair (map fst (scan s))"
    using assms(1) by (simp_all add: canonical_scan)
  have "no_pair (map fst (scan a))" "no_pair (map fst (scan b))"
    using np [of "map fst (scan a)"] np [of "map fst (scan a @ map (\<lambda>b. (unat b, 1)) w)" "map fst (scan b)"] s(2)
    unfolding sc map_append append_assoc by blast+
  moreover have "\<forall>c \<in> set (scan a). \<not> stray c" "\<forall>c \<in> set (scan b). \<not> stray c" using s(1) unfolding sc by auto
  ultimately show "canonical a" "canonical b" by (simp_all add: canonical_scan)
qed

lemma list_index_split:
  assumes "asciiPattern w"
  shows "list_index (toUnits s) (toUnits w) = map_option (\<lambda>i. length (toUnits (take i s))) (list_index s w)"
  by (simp add: list_index_occurrences pattern_occ [OF assms] split: list.split)

lemma split_ascii_loop_units:
  "asciiPattern w \<Longrightarrow> canonical s \<Longrightarrow> length parts < most \<Longrightarrow>
     split_ascii_loop s w most parts = parts @ map of_units (take (most - length parts) (pieces (toUnits s) (toUnits w)))"
proof (induction s w most parts rule: split_ascii_loop.induct)
  case (1 s w most parts)
  note p = 1(2) and ne = pattern_units(2) [OF 1(2)]
  show ?case
  proof (cases "list_index s w")
    case None
    then show ?thesis using 1(3,4) ne
      by (simp add: split_ascii_loop.simps pieces.simps [of "toUnits s"] list_index_split [OF p] of_units_toUnits Let_def)
  next
    case (Some i)
    then have i: "i \<in> set (occurrences s w)"
      by (auto simp: list_index_occurrences split: list.splits)
    then have "s = take i s @ w @ drop (i + length w) s"
      by (auto simp: set_occurrences) (metis append_take_drop_id drop_drop add.commute)
    from canonical_split [OF 1(3) this p] have c: "canonical (take i s)" "canonical (drop (i + length w) s)" .
    have "toUnits s = toUnits (take i s) @ toUnits w @ toUnits (drop (i + length w) s)"
      by (rule pattern_split(1) [OF p i])
    then have pc: "pieces (toUnits s) (toUnits w)
        = toUnits (take i s) # pieces (toUnits (drop (i + length w) s)) (toUnits w)"
    proof -
      assume u: "toUnits s = toUnits (take i s) @ toUnits w @ toUnits (drop (i + length w) s)"
      have "list_index (toUnits s) (toUnits w) = Some (length (toUnits (take i s)))"
        using Some by (simp add: list_index_split [OF p])
      moreover have "take (length (toUnits (take i s))) (toUnits s) = toUnits (take i s)"
        "drop (length (toUnits (take i s)) + length (toUnits w)) (toUnits s) = toUnits (drop (i + length w) s)"
        by (subst u, simp)+
      ultimately show ?thesis using ne by (subst pieces.simps) simp
    qed
    have n: "most - length parts = Suc (most - Suc (length parts))" using 1(4) by simp
    show ?thesis
    proof (cases "most \<le> Suc (length parts)")
      case True
      then show ?thesis using Some pc n c by (simp add: split_ascii_loop.simps [of s] of_units_toUnits)
    next
      case False
      with 1(1) [OF Some refl _ p c(2)] show ?thesis
        using Some pc n c by (simp add: split_ascii_loop.simps [of s] of_units_toUnits)
    qed
  qed
qed

lemma string_index_of_drop:
  "i \<le> length us \<Longrightarrow> string_index_of us ws i = (case list_index (drop i us) ws of None \<Rightarrow> -1 | Some k \<Rightarrow> int (i + k))"
  using filter_append_occurrences [of "take i us" "drop i us" ws]
  by (cases "occurrences (drop i us) ws") (simp_all add: string_index_of_def list_index_occurrences min_absorb2)

lemma split_loop_units:
  "toUnits w \<noteq> [] \<Longrightarrow> i \<le> length (toUnits s) \<Longrightarrow> length parts < most \<Longrightarrow>
     split_loop (newJSStr s) (newJSStr w) most i parts
       = parts @ map of_units (take (most - length parts) (pieces (drop i (toUnits s)) (toUnits w)))"
proof (induction "most - length parts" arbitrary: i parts rule: less_induct)
  case less
  let ?us = "toUnits s" and ?ws = "toUnits w"
  have n: "most - length parts = Suc (most - Suc (length parts))" using less(4) by simp
  show ?case
  proof (cases "list_index (drop i ?us) ?ws")
    case None
    then show ?thesis using less(2-4) n
      by (simp add: split_loop.simps [of _ _ _ i] indexOf_units string_index_of_drop pieces.simps [of "drop i _"]
          str_simps slice_def Let_def)
  next
    case (Some k)
    have k: "k + length ?ws \<le> length (drop i ?us)" using list_index_Some [OF Some] by simp
    have pc: "pieces (drop i ?us) ?ws = take k (drop i ?us) # pieces (drop (i + k + length ?ws) ?us) ?ws"
      using Some less(2) by (simp add: pieces.simps [of "drop i _"] add_ac)
    have step: "split_loop (newJSStr s) (newJSStr w) most i parts =
        (let parts' = parts @ [of_units (take k (drop i ?us))]
         in if length parts' \<ge> most then parts' else split_loop (newJSStr s) (newJSStr w) most (i + k + length ?ws) parts')"
      using less(3) Some
      by (simp add: split_loop.simps [of _ _ _ i] indexOf_units string_index_of_drop str_simps slice_def Let_def nat_int_add)
    show ?thesis
    proof (cases "most \<le> Suc (length parts)")
      case True
      then show ?thesis using step pc n by simp
    next
      case False
      then have "split_loop (newJSStr s) (newJSStr w) most (i + k + length ?ws) (parts @ [of_units (take k (drop i ?us))])
          = (parts @ [of_units (take k (drop i ?us))])
            @ map of_units (take (most - Suc (length parts)) (pieces (drop (i + k + length ?ws) ?us) ?ws))"
        using less(1) [of "parts @ [of_units (take k (drop i ?us))]" "i + k + length ?ws"] less(2-4) k by simp
      with False step pc n show ?thesis by simp
    qed
  qed
qed

text \<open>
  \<open>split\<close> cuts the code units of any string between the separator's occurrences, found from
  the left without overlap, into at most as many pieces as the limit says (ToUint32, all of them
  without one), an empty separator between every two units, a pair's halves too.
\<close>

theorem split_units:
  "StrSplit s w limit = map of_units (take (split_limit limit) (pieces (toUnits s) (toUnits w)))"
proof -
  define most where "most = split_limit limit"
  have l: "(if length limit > 0 then unat (toUint32 (limit ! 0)) else 2 ^ 32 - 1) = most"
    by (cases limit) (simp_all add: most_def split_limit_def)
  consider "most = 0" | "0 < most" "asciiPattern w" "canonical s"
    | "0 < most" "\<not> (asciiPattern w \<and> canonical s)" "toUnits w = []"
    | "0 < most" "\<not> (asciiPattern w \<and> canonical s)" "toUnits w \<noteq> []" by blast
  then show ?thesis
  proof cases
    case 1
    then show ?thesis unfolding StrSplit_def Let_def l most_def [symmetric] by simp
  next
    case 2
    then show ?thesis using split_ascii_loop_units [of w s "[]" most]
      unfolding StrSplit_def Let_def l most_def [symmetric] by (simp add: splitASCII_def)
  next
    case 3
    have "map (\<lambda>i. of_units (slice (toUnits s) i (i + 1))) [0..<min (length (toUnits s)) most]
        = map of_units (take most (map (\<lambda>u. [u]) (toUnits s)))"
      by (rule nth_equalityI) (auto simp: slice_def take_Suc_conv_app_nth hd_drop_conv_nth take_Suc)
    with 3 show ?thesis unfolding StrSplit_def Let_def l most_def [symmetric]
      by (auto simp: str_simps pieces.simps [of "toUnits s"])
  next
    case 4
    have "s = []" if "toUnits s = []" using that by (cases s) (auto simp: toUnits_scan scan.simps(2) units_of_def split: if_splits)
    then show ?thesis using 4 split_loop_units [of w 0 s "[]" most]
      unfolding StrSplit_def Let_def l most_def [symmetric]
      by (auto simp: str_simps pieces.simps [of "[]"] of_units_def)
  qed
qed

end
