(* ===== verification/StrReplace.thy ===== *)
theory StrReplace
  imports StrSplit
begin

text \<open>
  \<open>replace\<close> and \<open>replaceAll\<close> with a string pattern (\<open>backend/runtime/str_search.go\<close>: \<open>template\<close>,
  \<open>StrReplace\<close>, \<open>StrReplaceAll\<close>, \<open>replaceAt\<close>; \<open>str_search_ascii.go\<close>: \<open>replaceASCII\<close> and what it
  uses). Lengths are sums of \<open>float64\<close>s, exact here: past \<open>2^53\<close> the code's round, and are compared
  with a limit far below that.

  Proved: both are ECMAScript's on code units, \<open>GetSubstitution\<close> included, on either path.
\<close>

subsection \<open>Templates\<close>

record templatePart =
  tp_text :: "byte list"
  tp_kind :: byte

record template =
  t_parts :: "templatePart list"
  t_units :: nat
  t_bytes :: nat
  t_matched :: nat
  t_before :: nat
  t_after :: nat

definition template_text :: "template \<Rightarrow> byte list \<Rightarrow> template" where
  "template_text t s =
     (if s \<noteq> []
      then t\<lparr>t_parts := t_parts t @ [\<lparr>tp_text = s, tp_kind = 0\<rparr>],
             t_units := t_units t + utf16Len s, t_bytes := t_bytes t + length s\<rparr>
      else t)"

definition template_pattern :: "template \<Rightarrow> byte \<Rightarrow> template" where
  "template_pattern t c =
     (let t = t\<lparr>t_parts := t_parts t @ [\<lparr>tp_text = [], tp_kind = c\<rparr>]\<rparr>
      in if c = 0x26 then t\<lparr>t_matched := t_matched t + 1\<rparr>
         else if c = 0x60 then t\<lparr>t_before := t_before t + 1\<rparr>
         else t\<lparr>t_after := t_after t + 1\<rparr>)"

function parse_loop :: "byte list \<Rightarrow> nat \<Rightarrow> nat \<Rightarrow> template \<Rightarrow> template" where
  "parse_loop r start i t =
     (if i + 1 < length r then
        if r ! i \<noteq> 0x24 then parse_loop r start (i + 1) t
        else
          let c = r ! (i + 1)
          in if c = 0x24 then parse_loop r (i + 2) (i + 2) (template_text t (slice r start (i + 1)))
             else if c = 0x26 \<or> c = 0x60 \<or> c = 0x27
             then parse_loop r (i + 2) (i + 2) (template_pattern (template_text t (slice r start i)) c)
             else parse_loop r start (i + 1) t
      else template_text t (drop start r))"
  by pat_completeness auto
termination
  by (relation "measure (\<lambda>(r, start, i, t). length r - i)") auto

declare parse_loop.simps [simp del]

definition parseTemplate :: "byte list \<Rightarrow> template" where
  "parseTemplate r =
     parse_loop r 0 0 \<lparr>t_parts = [], t_units = 0, t_bytes = 0, t_matched = 0, t_before = 0, t_after = 0\<rparr>"

definition template_length :: "template \<Rightarrow> nat \<Rightarrow> nat \<Rightarrow> nat \<Rightarrow> f64" where
  "template_length t pos m n =
     f64_add (f64_add (f64_add (f64_of_nat (t_units t)) (f64_mul (f64_of_nat (t_matched t)) (f64_of_nat m)))
       (f64_mul (f64_of_nat (t_before t)) (f64_of_nat pos))) (f64_mul (f64_of_nat (t_after t)) (f64_of_nat (n - pos - m)))"

definition template_size :: "template \<Rightarrow> nat \<Rightarrow> nat \<Rightarrow> nat \<Rightarrow> f64" where
  "template_size t pos m n =
     f64_add (f64_add (f64_add (f64_of_nat (t_bytes t)) (f64_mul (f64_of_nat (t_matched t)) (f64_of_nat m)))
       (f64_mul (f64_of_nat (t_before t)) (f64_of_nat pos))) (f64_mul (f64_of_nat (t_after t)) (f64_of_nat (n - pos - m)))"

definition write_part :: "jsStr \<Rightarrow> nat \<Rightarrow> nat \<Rightarrow> byte list \<Rightarrow> templatePart \<Rightarrow> byte list" where
  "write_part v pos m b p =
     (if tp_kind p = 0 then sb_str b (tp_text p)
      else if tp_kind p = 0x26 then sb_sub b v pos (pos + m)
      else if tp_kind p = 0x60 then sb_sub b v 0 pos
      else sb_sub b v (pos + m) (jsStr_len v))"

definition template_write :: "template \<Rightarrow> byte list \<Rightarrow> jsStr \<Rightarrow> nat \<Rightarrow> nat \<Rightarrow> byte list" where
  "template_write t b v pos m = foldl (write_part v pos m) b (t_parts t)"

definition write_part_bytes :: "byte list \<Rightarrow> nat \<Rightarrow> nat \<Rightarrow> byte list \<Rightarrow> templatePart \<Rightarrow> byte list" where
  "write_part_bytes s pos m b p =
     (if tp_kind p = 0 then sb_str b (tp_text p)
      else if tp_kind p = 0x26 then sb_str b (slice s pos (pos + m))
      else if tp_kind p = 0x60 then sb_str b (take pos s)
      else sb_str b (drop (pos + m) s))"

definition template_writeBytes :: "template \<Rightarrow> byte list \<Rightarrow> byte list \<Rightarrow> nat \<Rightarrow> nat \<Rightarrow> byte list" where
  "template_writeBytes t b s pos m = foldl (write_part_bytes s pos m) b (t_parts t)"

subsection \<open>Replacing\<close>

fun replace_at_loop :: "jsStr \<Rightarrow> nat \<Rightarrow> template \<Rightarrow> byte list \<Rightarrow> nat \<Rightarrow> nat list \<Rightarrow> byte list" where
  "replace_at_loop v m t b end' [] = sb_sub b v end' (jsStr_len v)"
| "replace_at_loop v m t b end' (pos # positions) =
     replace_at_loop v m t (template_write t (sb_sub b v end' pos) v pos m) (pos + m) positions"

definition replaceAt :: "jsStr \<Rightarrow> nat \<Rightarrow> nat list \<Rightarrow> template \<Rightarrow> byte list result" where
  "replaceAt v m positions t =
     (let n = jsStr_len v;
          units = foldl (\<lambda>u pos. f64_add u (template_length t pos m n)) (f64_of_nat (n - m * length positions)) positions
      in and_then (checkLength units) (\<lambda>_. Inr (replace_at_loop v m t [] 0 positions)))"

fun replaced_length_loop :: "byte list \<Rightarrow> nat \<Rightarrow> template \<Rightarrow> nat \<Rightarrow> f64 \<Rightarrow> nat \<Rightarrow> nat \<Rightarrow> nat list \<Rightarrow> f64" where
  "replaced_length_loop s m t n units at' prev [] = units"
| "replaced_length_loop s m t n units at' prev (pos # positions) =
     (let at' = at' + utf16Len (slice s prev pos)
      in replaced_length_loop s m t n (f64_add units (template_length t at' m n)) at' pos positions)"

definition replacedLength :: "byte list \<Rightarrow> nat \<Rightarrow> nat list \<Rightarrow> template \<Rightarrow> f64" where
  "replacedLength s m positions t =
     (let n = utf16Len s
      in replaced_length_loop s m t n (f64_of_nat (n - m * length positions)) 0 0 positions)"

fun replace_ascii_loop :: "byte list \<Rightarrow> nat \<Rightarrow> template \<Rightarrow> byte list \<Rightarrow> nat \<Rightarrow> nat list \<Rightarrow> byte list" where
  "replace_ascii_loop s m t b end' [] = sb_str b (drop end' s)"
| "replace_ascii_loop s m t b end' (pos # positions) =
     replace_ascii_loop s m t (template_writeBytes t (sb_str b (slice s end' pos)) s pos m) (pos + m) positions"

definition replaceASCII :: "byte list \<Rightarrow> nat \<Rightarrow> nat list \<Rightarrow> template \<Rightarrow> byte list result" where
  "replaceASCII s m positions t =
     (let size = foldl (\<lambda>u pos. f64_add u (template_size t pos m (length s)))
                   (f64_of_nat (length s - m * length positions)) positions
      in and_then (if f64_less (f64_of_nat stringLimit) size then checkLength (replacedLength s m positions t) else Inr ())
           (\<lambda>_. Inr (replace_ascii_loop s m t [] 0 positions)))"

text \<open>The matches \<open>replaceAllASCII\<close> finds. It is entered with a pattern, which is not empty.\<close>

function ascii_positions :: "byte list \<Rightarrow> byte list \<Rightarrow> nat \<Rightarrow> nat list" where
  "ascii_positions s w start =
     (case list_index (drop start s) w of
        None \<Rightarrow> []
      | Some i \<Rightarrow> if w = [] then [] else (start + i) # ascii_positions s w (start + i + length w))"
  by pat_completeness auto
termination
proof (relation "measure (\<lambda>(s, w, start). length s + 1 - start)")
  fix s w :: "byte list" and start i
  assume "list_index (drop start s) w = Some i" "w \<noteq> []"
  then show "((s, w, start + i + length w), s, w, start) \<in> measure (\<lambda>(s, w, start). length s + 1 - start)"
    using list_index_Some [of "drop start s" w i] by (cases w) auto
qed simp

declare ascii_positions.simps [simp del]

definition replaceAllASCII :: "byte list \<Rightarrow> byte list \<Rightarrow> byte list \<Rightarrow> byte list result" where
  "replaceAllASCII s w replacement =
     (let positions = ascii_positions s w 0
      in if positions = [] then Inr s else replaceASCII s (length w) positions (parseTemplate replacement))"

text \<open>Where \<open>indexOf\<close> finds a match: at or after where it starts, and in the string.\<close>

lemma index_loop_bounds: "0 \<le> index_loop v w i \<Longrightarrow> int i \<le> index_loop v w i \<and> index_loop v w i \<le> int (jsStr_len v)"
  by (induction v w i rule: index_loop.induct) (subst (asm) index_loop.simps, subst (1 2) index_loop.simps, auto split: if_splits)

lemma indexOf_bounds: "0 \<le> indexOf v w i \<Longrightarrow> i \<le> nat (indexOf v w i) \<and> nat (indexOf v w i) \<le> jsStr_len v"
  using index_loop_bounds [of v w i] by (auto simp: indexOf_def Let_def split: if_splits)

definition StrReplace :: "byte list \<Rightarrow> byte list \<Rightarrow> byte list \<Rightarrow> byte list result" where
  "StrReplace s pattern replacement =
     (if asciiPattern pattern \<and> canonical s then
        case list_index s pattern of
          None \<Rightarrow> Inr s
        | Some pos \<Rightarrow> replaceASCII s (length pattern) [pos] (parseTemplate replacement)
      else
        let v = newJSStr s; w = newJSStr pattern; pos = indexOf v w 0
        in if pos < 0 then Inr s else replaceAt v (jsStr_len w) [nat pos] (parseTemplate replacement))"

function positions_loop :: "jsStr \<Rightarrow> jsStr \<Rightarrow> nat \<Rightarrow> nat \<Rightarrow> nat list" where
  "positions_loop v w m start =
     (let pos = indexOf v w start
      in if pos \<ge> 0 then nat pos # positions_loop v w m (nat pos + max m 1) else [])"
  by pat_completeness auto
termination
proof (relation "measure (\<lambda>(v, w, m, start). jsStr_len v + 1 - start)")
  fix v w m start pos
  assume "pos = indexOf v w start" "pos \<ge> 0"
  with indexOf_bounds [of v w start]
  show "((v, w, m, nat pos + max m 1), v, w, m, start) \<in> measure (\<lambda>(v, w, m, start). jsStr_len v + 1 - start)"
    by (auto simp: less_diff_conv2 max_def)
qed simp

declare positions_loop.simps [simp del]

definition StrReplaceAll :: "byte list \<Rightarrow> byte list \<Rightarrow> byte list \<Rightarrow> byte list result" where
  "StrReplaceAll s pattern replacement =
     (if asciiPattern pattern \<and> canonical s then replaceAllASCII s pattern replacement
      else
        let v = newJSStr s; w = newJSStr pattern; m = jsStr_len w;
            positions = positions_loop v w m 0
        in if positions = [] then Inr s else replaceAt v m positions (parseTemplate replacement))"

subsection \<open>ECMAScript's\<close>

text \<open>\<open>GetSubstitution\<close>: the replacement \<open>rs\<close> for a match of \<open>m\<close> units at \<open>pos\<close> in \<open>us\<close>, without captures.\<close>

fun substitution :: "unit16 list \<Rightarrow> nat \<Rightarrow> nat \<Rightarrow> unit16 list \<Rightarrow> unit16 list" where
  "substitution us pos m (d # c # rs) =
     (if d = 0x24 \<and> c = 0x24 then 0x24 # substitution us pos m rs
      else if d = 0x24 \<and> c = 0x26 then slice us pos (pos + m) @ substitution us pos m rs
      else if d = 0x24 \<and> c = 0x60 then take pos us @ substitution us pos m rs
      else if d = 0x24 \<and> c = 0x27 then drop (pos + m) us @ substitution us pos m rs
      else d # substitution us pos m (c # rs))"
| "substitution us pos m rs = rs"

text \<open>The string with each match replaced, from unit \<open>e\<close>, and the matches of \<open>replaceAll\<close>.\<close>

fun replaced :: "unit16 list \<Rightarrow> nat \<Rightarrow> unit16 list \<Rightarrow> nat \<Rightarrow> nat list \<Rightarrow> unit16 list" where
  "replaced us m rs e [] = drop e us"
| "replaced us m rs e (p # ps) = slice us e p @ substitution us p m rs @ replaced us m rs (p + m) ps"

function all_matches :: "'u list \<Rightarrow> 'u list \<Rightarrow> nat \<Rightarrow> nat list" where
  "all_matches us ws start =
     (case (if start \<le> length us then list_index (drop start us) ws else None) of
        None \<Rightarrow> []
      | Some k \<Rightarrow> (start + k) # all_matches us ws (start + k + max (length ws) 1))"
  by pat_completeness auto
termination
  by (relation "measure (\<lambda>(us, ws, start). length us + 1 - start)") (auto split: if_splits)

declare all_matches.simps [simp del]

definition js_replace :: "unit16 list \<Rightarrow> unit16 list \<Rightarrow> unit16 list \<Rightarrow> nat list \<Rightarrow> byte list result" where
  "js_replace us ws rs ps =
     (if ps = [] then Inr (of_units us)
      else if stringLimit < length (replaced us (length ws) rs 0 ps)
      then Inl (Thrown ErrorRange (Text ''Invalid string length''))
      else Inr (of_units (replaced us (length ws) rs 0 ps)))"

subsection \<open>Templates, read as code units\<close>

fun template_parse :: "template \<Rightarrow> byte list \<Rightarrow> byte list \<Rightarrow> template" where
  "template_parse t acc (b # c # r) =
     (if b = 0x24 \<and> c = 0x24 then template_parse (template_text t (acc @ [b])) [] r
      else if b = 0x24 \<and> (c = 0x26 \<or> c = 0x60 \<or> c = 0x27)
      then template_parse (template_pattern (template_text t acc) c) [] r
      else template_parse t (acc @ [b]) (c # r))"
| "template_parse t acc r = template_text t (acc @ r)"

lemma drop_two: "i + 1 < length r \<Longrightarrow> drop i r = r ! i # r ! (i + 1) # drop (i + 2) r"
  by (simp add: Cons_nth_drop_Suc)

lemma slice_more: "i < length r \<Longrightarrow> start \<le> i \<Longrightarrow> slice r start (i + 1) = slice r start i @ [r ! i]"
  unfolding slice_def by (simp add: Suc_diff_le take_Suc_conv_app_nth)

lemma slice_empty: "slice r i i = []"
  by (simp add: slice_def)

lemma parse_loop_parse:
  "start \<le> i \<Longrightarrow> i \<le> length r \<Longrightarrow> parse_loop r start i t = template_parse t (slice r start i) (drop i r)"
proof (induction r start i t rule: parse_loop.induct)
  case (1 r start i t)
  show ?case
  proof (cases "i + 1 < length r")
    case True
    have "i < length r" "i + 1 \<le> length r" "i + 2 \<le> length r" using True by simp_all
    note le = this
    have d: "r ! (i + 1) # drop (i + 2) r = drop (i + 1) r" using True by (simp add: Cons_nth_drop_Suc)
    let ?c = "r ! (i + 1)"
    consider (plain) "r ! i \<noteq> 0x24 \<or> (?c \<noteq> 0x24 \<and> \<not> (?c = 0x26 \<or> ?c = 0x60 \<or> ?c = 0x27))"
      | (dollar) "r ! i = 0x24" "?c = 0x24" | (special) "r ! i = 0x24" "?c \<noteq> 0x24" "?c = 0x26 \<or> ?c = 0x60 \<or> ?c = 0x27"
      by blast
    then show ?thesis
    proof cases
      case plain
      have "parse_loop r start (i + 1) t = template_parse t (slice r start (i + 1)) (drop (i + 1) r)"
        using plain 1(1) [OF True] 1(4) [OF True _ refl] 1(5) le by fastforce
      moreover have "parse_loop r start i t = parse_loop r start (i + 1) t"
        using plain True by (subst parse_loop.simps) (auto simp: Let_def)
      ultimately show ?thesis
        using plain unfolding drop_two [OF True] slice_more [OF le(1) 1(5)] d [symmetric] by auto
    next
      case dollar
      have "parse_loop r start i t = parse_loop r (i + 2) (i + 2) (template_text t (slice r start (i + 1)))"
        using dollar True by (subst parse_loop.simps) simp
      also have "\<dots> = template_parse (template_text t (slice r start (i + 1))) [] (drop (i + 2) r)"
        using 1(2) [OF True _ refl] dollar le by (simp add: slice_empty)
      finally show ?thesis using dollar unfolding drop_two [OF True] slice_more [OF le(1) 1(5)] by simp
    next
      case special
      have "parse_loop r start i t = parse_loop r (i + 2) (i + 2) (template_pattern (template_text t (slice r start i)) ?c)"
        using special True by (subst parse_loop.simps) (simp add: Let_def)
      also have "\<dots> = template_parse (template_pattern (template_text t (slice r start i)) ?c) [] (drop (i + 2) r)"
        using 1(3) [OF True _ refl] special le by (simp add: slice_empty)
      finally show ?thesis using special unfolding drop_two [OF True] by simp
    qed
  next
    case False
    have "drop (i - start) (drop start r) = drop i r" using 1(5) by simp
    then have "drop start r = slice r start i @ drop i r" unfolding slice_def by (metis append_take_drop_id)
    moreover have "template_parse t acc (drop i r) = template_text t (acc @ drop i r)" for acc
    proof -
      have "length (drop i r) \<le> 1" using False by simp
      then show ?thesis by (cases "drop i r" rule: remdups_adj.cases) auto
    qed
    ultimately show ?thesis using False by (subst parse_loop.simps) simp
  qed
qed

text \<open>What a template's parts write for a match of \<open>m\<close> units at \<open>pos\<close> in \<open>us\<close>, and what it counts.\<close>

definition part_units :: "unit16 list \<Rightarrow> nat \<Rightarrow> nat \<Rightarrow> templatePart \<Rightarrow> unit16 list" where
  "part_units us pos m p =
     (if tp_kind p = 0 then toUnits (tp_text p)
      else if tp_kind p = 0x26 then slice us pos (pos + m)
      else if tp_kind p = 0x60 then take pos us
      else drop (pos + m) us)"

definition parts_units :: "unit16 list \<Rightarrow> nat \<Rightarrow> nat \<Rightarrow> templatePart list \<Rightarrow> unit16 list" where
  "parts_units us pos m ps = concat (map (part_units us pos m) ps)"

lemma parts_units_simps [simp]:
  "parts_units us pos m [] = []" "parts_units us pos m (p # ps) = part_units us pos m p @ parts_units us pos m ps"
  "parts_units us pos m (ps @ qs) = parts_units us pos m ps @ parts_units us pos m qs"
  by (simp_all add: parts_units_def)

definition kinds :: "templatePart list \<Rightarrow> (byte \<Rightarrow> bool) \<Rightarrow> nat" where
  "kinds ps P = length (filter (\<lambda>p. P (tp_kind p)) ps)"

definition template_ok :: "template \<Rightarrow> bool" where
  "template_ok t \<longleftrightarrow>
     (\<forall>p \<in> set (t_parts t). canonical (tp_text p) \<and> (tp_kind p \<noteq> 0 \<longrightarrow> tp_text p = [])) \<and>
     t_units t = sum_list (map (utf16Len \<circ> tp_text) (t_parts t)) \<and>
     t_bytes t = sum_list (map (length \<circ> tp_text) (t_parts t)) \<and>
     t_matched t = kinds (t_parts t) (\<lambda>k. k = 0x26) \<and>
     t_before t = kinds (t_parts t) (\<lambda>k. k = 0x60) \<and>
     t_after t = kinds (t_parts t) (\<lambda>k. k \<noteq> 0 \<and> k \<noteq> 0x26 \<and> k \<noteq> 0x60)"

lemma template_ok_text: "template_ok t \<Longrightarrow> canonical s \<Longrightarrow> template_ok (template_text t s)"
  by (auto simp: template_ok_def template_text_def kinds_def)

lemma template_ok_pattern: "template_ok t \<Longrightarrow> c = 0x26 \<or> c = 0x60 \<or> c = 0x27 \<Longrightarrow> template_ok (template_pattern t c)"
  by (auto simp: template_ok_def template_pattern_def kinds_def Let_def canonical_ascii utf16Len_eq)

lemma toUnits_Nil [simp]: "toUnits [] = []"
  by (simp add: toUnits_scan)

lemma parts_text: "parts_units us pos m (t_parts (template_text t s)) = parts_units us pos m (t_parts t) @ toUnits s"
  by (simp add: template_text_def part_units_def)

lemma parts_pattern:
  "parts_units us pos m (t_parts (template_pattern t c)) = parts_units us pos m (t_parts t) @ part_units us pos m \<lparr>tp_text = [], tp_kind = c\<rparr>"
  by (simp add: template_pattern_def Let_def)

lemma length_parts:
  assumes "pos + m \<le> length us" "\<forall>p \<in> set ps. tp_kind p \<noteq> 0 \<longrightarrow> tp_text p = []"
  shows "length (parts_units us pos m ps)
    = sum_list (map (utf16Len \<circ> tp_text) ps) + kinds ps (\<lambda>k. k = 0x26) * m + kinds ps (\<lambda>k. k = 0x60) * pos
      + kinds ps (\<lambda>k. k \<noteq> 0 \<and> k \<noteq> 0x26 \<and> k \<noteq> 0x60) * (length us - pos - m)"
  using assms(2)
proof (induction ps)
  case (Cons p ps)
  consider "tp_kind p = 0" | "tp_kind p = 0x26" | "tp_kind p = 0x60" | "tp_kind p \<noteq> 0" "tp_kind p \<noteq> 0x26" "tp_kind p \<noteq> 0x60"
    by blast
  then show ?case
    using Cons assms(1) by cases (simp_all add: kinds_def part_units_def utf16Len_eq slice_def)
qed (simp add: kinds_def)

lemma f64_mul_of_nat [simp]: "f64_mul (f64_of_nat a) (f64_of_nat b) = f64_of_nat (a * b)"
  by (simp add: f64_mul_def f64_of_nat_def f64_is_inf_def)

lemma f64_nat_inj: "f64_of_nat a = f64_of_nat b \<longleftrightarrow> a = b"
  by (simp add: f64_of_nat_def)

lemma template_length_units:
  "template_ok t \<Longrightarrow> pos + m \<le> length us \<Longrightarrow>
     template_length t pos m (length us) = f64_of_nat (length (parts_units us pos m (t_parts t)))"
  by (subst length_parts) (simp_all add: template_ok_def template_length_def)

lemma template_length_nat:
  "template_length t pos m n = f64_of_nat (t_units t + t_matched t * m + t_before t * pos + t_after t * (n - pos - m))"
  "template_size t pos m n = f64_of_nat (t_bytes t + t_matched t * m + t_before t * pos + t_after t * (n - pos - m))"
  by (simp_all add: template_length_def template_size_def)

text \<open>Parsing, character by character.\<close>

lemma template_parse_high: "\<forall>b \<in> set a. \<not> b < 0x80 \<Longrightarrow> template_parse t acc (a @ r) = template_parse t (acc @ a) r"
proof (induction a arbitrary: acc)
  case (Cons b a)
  then have "b \<noteq> 0x24" by auto
  then have "template_parse t acc (b # a @ r) = template_parse t (acc @ [b]) (a @ r)" by (cases "a @ r") simp_all
  with Cons show ?case by simp
qed simp

lemma substitution_other: "d \<noteq> 0x24 \<Longrightarrow> substitution us pos m (d # rs) = d # substitution us pos m rs"
  by (cases rs) simp_all

lemma substitution_high:
  "\<forall>u \<in> set vs. 0x80 \<le> unat u \<Longrightarrow> substitution us pos m (vs @ rs) = vs @ substitution us pos m rs"
proof (induction vs)
  case (Cons v vs)
  then have "v \<noteq> 0x24" by auto
  with Cons show ?case by (simp add: substitution_other)
qed simp

text \<open>A character is ASCII in its first byte exactly when it is in its first unit.\<close>

lemma ascii_byte: "q < 0x80 \<Longrightarrow> (word_of_nat q :: byte) = b \<longleftrightarrow> q = unat b"
  by (auto simp: unat_word_of_nat_byte)

lemma ascii_unit: "q < 0x80 \<Longrightarrow> (word_of_nat q :: unit16) = u \<longleftrightarrow> q = unat u"
  by (auto simp: unat_word_of_nat_unit)

lemma first_byte:
  assumes "q < 0x110000" "unat b = k" "k < 0x80"
  shows "hd (wtf8 q @ xs) = (b :: byte) \<longleftrightarrow> q = k"
proof (cases "q < 0x80")
  case False
  have "\<not> b < 0x80" if "b = hd (wtf8 q)"
    using wtf8_high [of q] False assms(1) that hd_in_set [of "wtf8 q"] by (auto simp: wtf8_def split: if_splits)
  then show ?thesis using False assms by (auto simp: byte_order wtf8_def)
qed (use assms in \<open>simp add: wtf8_1 ascii_byte\<close>)

lemma first_unit:
  assumes "q < 0x110000" "unat u = k" "k < 0x80"
  shows "hd (units_of q @ us) = (u :: unit16) \<longleftrightarrow> q = k"
proof (cases "q < 0x80")
  case False
  have ne: "units_of q \<noteq> []" by (simp add: units_of_def)
  then have "0x80 \<le> unat u" if "u = hd (units_of q)"
    using units_high [of q] False assms(1) that hd_in_set [of "units_of q"] by simp
  then show ?thesis using False assms ne by auto
qed (use assms in \<open>simp add: units_of_def ascii_unit\<close>)

text \<open>A canonical template of the runes \<open>qs\<close>, after the text \<open>as\<close>.\<close>

lemma canonical_encode: "\<forall>r \<in> set rs. r < 0x110000 \<Longrightarrow> no_pair rs \<Longrightarrow> canonical (encode rs)"
  by (auto simp: canonical_iff)

lemma no_pair_parts: "no_pair (xs @ ys) \<Longrightarrow> no_pair xs \<and> no_pair ys"
  by (induction xs) (auto simp: no_pair_Cons)

lemma template_parse_units:
  assumes "\<forall>r \<in> set (as @ qs). r < 0x110000" "no_pair (as @ qs)" "template_ok t"
  shows "template_ok (template_parse t (encode as) (encode qs)) \<and>
    parts_units us pos m (t_parts (template_parse t (encode as) (encode qs)))
    = parts_units us pos m (t_parts t) @ concat (map units_of as) @ substitution us pos m (concat (map units_of qs))"
  using assms
proof (induction "length qs" arbitrary: qs as t rule: less_induct)
  case less
  have bs: "\<forall>r \<in> set as. r < 0x110000" "no_pair as" using less(2) no_pair_parts [OF less(3)] by simp_all
  have as: "canonical (encode as)" "toUnits (encode as) = concat (map units_of as)"
    using canonical_encode [OF bs] toUnits_encode [OF bs(1)] .
  show ?case
  proof (cases qs)
    case Nil
    with less(4) as show ?thesis by (simp add: parts_text template_ok_text)
  next
    case (Cons q qs')
    have step: ?thesis if "template_parse t (encode as) (encode qs) = template_parse t (encode (as @ [q])) (encode qs')"
      "substitution us pos m (units_of q @ concat (map units_of qs')) = units_of q @ substitution us pos m (concat (map units_of qs'))"
    proof -
      have "length qs' < length qs" "\<forall>r \<in> set ((as @ [q]) @ qs'). r < 0x110000" "no_pair ((as @ [q]) @ qs')"
        using less(2,3) Cons by simp_all
      from less(1) [OF this less(4)] show ?thesis
        unfolding that(1) using that(2) Cons by (simp del: encode_simps)
    qed
    show ?thesis
    proof (cases "q < 0x80")
      case False
      then have "\<forall>b \<in> set (wtf8 q). \<not> b < 0x80" "\<forall>u \<in> set (units_of q). 0x80 \<le> unat u"
        using less(2) Cons wtf8_high [of q] units_high [of q] by simp_all
      then show ?thesis
        using Cons by (intro step) (simp_all add: template_parse_high substitution_high)
    next
      case True
      then have q: "wtf8 q = [word_of_nat q]" "units_of q = [word_of_nat q]" by (simp_all add: wtf8_1 units_of_def)
      show ?thesis
      proof (cases qs')
        case Nil
        with Cons q show ?thesis by (intro step) simp_all
      next
        case more: (Cons q2 qs2)
        have q2: "q2 < 0x110000" using less(2) Cons more by simp
        obtain c r where c: "encode qs' = c # r" using more by (cases "encode qs'") (auto simp: wtf8_def split: if_splits)
        obtain u us' where u: "concat (map units_of qs') = u # us'"
          using more by (cases "concat (map units_of qs')") (auto simp: units_of_def split: if_splits)
        have ch: "c = hd (wtf8 q2 @ encode qs2)" using c more by simp
        have uh: "u = hd (units_of q2 @ concat (map units_of qs2))" using u more by simp
        have ks: "c = 0x24 \<longleftrightarrow> q2 = 0x24" "u = 0x24 \<longleftrightarrow> q2 = 0x24" "c = 0x26 \<longleftrightarrow> q2 = 0x26" "u = 0x26 \<longleftrightarrow> q2 = 0x26"
          "c = 0x60 \<longleftrightarrow> q2 = 0x60" "u = 0x60 \<longleftrightarrow> q2 = 0x60" "c = 0x27 \<longleftrightarrow> q2 = 0x27" "u = 0x27 \<longleftrightarrow> q2 = 0x27"
          unfolding ch uh by - (rule first_byte [OF q2] first_unit [OF q2]; simp)+
        have k: "(word_of_nat q :: byte) = 0x24 \<longleftrightarrow> q = 0x24" "(word_of_nat q :: unit16) = 0x24 \<longleftrightarrow> q = 0x24"
          using True by (simp_all add: ascii_byte ascii_unit)
        show ?thesis
        proof (cases "q = 0x24 \<and> (q2 = 0x24 \<or> q2 = 0x26 \<or> q2 = 0x60 \<or> q2 = 0x27)")
          case False
          with Cons q c u ks k show ?thesis by (intro step) auto
        next
          case special: True
          then have s2: "wtf8 q2 = [word_of_nat q2]" "units_of q2 = [word_of_nat q2]" by (auto simp: wtf8_1 units_of_def)
          then have cu: "c = word_of_nat q2" "r = encode qs2" "u = word_of_nat q2" "us' = concat (map units_of qs2)"
            using c u more by auto
          have qs: "encode qs = 0x24 # c # r" "concat (map units_of qs) = 0x24 # u # us'"
            using Cons q c u special by simp_all
          have IH: "template_ok t' \<Longrightarrow> template_ok (template_parse t' [] r) \<and>
              parts_units us pos m (t_parts (template_parse t' [] r))
              = parts_units us pos m (t_parts t') @ substitution us pos m us'" for t'
            using less(1) [of qs2 "[]" t'] less(2) no_pair_parts [of "as @ [q, q2]" qs2] less(3) Cons more cu by simp
          show ?thesis
          proof (cases "q2 = 0x24")
            case True
            then have "q = 0x24" using special by simp
            have "canonical (encode (as @ [q]))" "toUnits (encode (as @ [q])) = concat (map units_of as) @ [0x24]"
              using canonical_encode [of "as @ [q]"] toUnits_encode [of "as @ [q]"] less(2) no_pair_parts [of "as @ [q]" qs'] less(3) Cons q special
              by simp_all
            then have "canonical (encode as @ [0x24])" "toUnits (encode as @ [0x24]) = concat (map units_of as) @ [0x24]"
              using q special by simp_all
            with IH [OF template_ok_text [OF less(4)]] show ?thesis
              unfolding qs using True ks special by (simp add: parts_text)
          next
            case False
            then have "q2 = 0x26 \<or> q2 = 0x60 \<or> q2 = 0x27" using special by blast
            with IH [OF template_ok_pattern [OF template_ok_text [OF less(4) as(1)]], of c] show ?thesis
              unfolding qs using ks special as(2) by (auto simp: parts_text parts_pattern part_units_def)
          qed
        qed
      qed
    qed
  qed
qed

lemma parseTemplate_units:
  "template_ok (parseTemplate (of_units rs))"
  "parts_units us pos m (t_parts (parseTemplate (of_units rs))) = substitution us pos m rs"
proof -
  define t where "t = \<lparr>t_parts = [], t_units = 0, t_bytes = 0, t_matched = 0, t_before = 0, t_after = 0\<rparr>"
  have "parseTemplate (of_units rs) = template_parse t (encode []) (encode (pair_up rs))"
    by (simp add: parseTemplate_def parse_loop_parse slice_empty t_def of_units_def)
  moreover have "template_ok t" "t_parts t = []" by (simp_all add: t_def template_ok_def kinds_def)
  moreover have "concat (map units_of (pair_up rs)) = rs" by (rule units_of_pair_up)
  ultimately show "template_ok (parseTemplate (of_units rs))"
    "parts_units us pos m (t_parts (parseTemplate (of_units rs))) = substitution us pos m rs"
    using template_parse_units [of "[]" "pair_up rs" t us pos m] pair_up_bound [of rs] pair_up_no_pair [of rs] by simp_all
qed

subsection \<open>On code units\<close>

lemma write_parts:
  "\<forall>p \<in> set ps. canonical (tp_text p) \<Longrightarrow>
     foldl (write_part (newJSStr s) pos m) (of_units acc) ps = of_units (acc @ parts_units (toUnits s) pos m ps)"
proof (induction ps arbitrary: acc)
  case (Cons p ps)
  have "sb_str (of_units acc) (tp_text p) = of_units (acc @ toUnits (tp_text p))"
    using sb_str_of_units [of acc "toUnits (tp_text p)"] Cons.prems by (simp add: of_units_toUnits)
  then have "write_part (newJSStr s) pos m (of_units acc) p = of_units (acc @ part_units (toUnits s) pos m p)"
    by (simp add: write_part_def part_units_def str_simps slice_def)
  with Cons show ?case by simp
qed simp

lemma replace_at_loop_units:
  assumes t: "template_ok t" "\<And>pos. parts_units (toUnits s) pos m (t_parts t) = substitution (toUnits s) pos m rs"
  shows "replace_at_loop (newJSStr s) m t (of_units acc) e ps = of_units (acc @ replaced (toUnits s) m rs e ps)"
proof (induction ps arbitrary: acc e)
  case (Cons p ps)
  have "\<forall>p \<in> set (t_parts t). canonical (tp_text p)" using t(1) by (simp add: template_ok_def)
  then show ?case using Cons by (simp add: template_write_def str_simps write_parts t(2))
qed (simp add: str_simps slice_def)

text \<open>Matches in order, none overlapping, in a string of \<open>n\<close>.\<close>

fun matches_ok :: "nat \<Rightarrow> nat \<Rightarrow> nat \<Rightarrow> nat list \<Rightarrow> bool" where
  "matches_ok m n e [] \<longleftrightarrow> e \<le> n"
| "matches_ok m n e (p # ps) \<longleftrightarrow> e \<le> p \<and> p + m \<le> n \<and> matches_ok m n (p + m) ps"

lemma length_replaced:
  "matches_ok m (length us) e ps \<Longrightarrow>
     length (replaced us m rs e ps) + m * length ps = length us - e + sum_list (map (\<lambda>p. length (substitution us p m rs)) ps)"
proof (induction ps arbitrary: e)
  case (Cons p ps)
  then have "length (replaced us m rs (p + m) ps) + m * length ps
      = length us - (p + m) + sum_list (map (\<lambda>p. length (substitution us p m rs)) ps)" "e \<le> p" "p + m \<le> length us"
    by simp_all
  moreover have "length (slice us e p) = p - e" using Cons.prems by (auto simp: slice_def min_def)
  ultimately show ?case by simp
qed simp

lemma matches_fit: "matches_ok m n e ps \<Longrightarrow> m * length ps \<le> n - e \<and> (\<forall>p \<in> set ps. p + m \<le> n)"
proof (induction ps arbitrary: e)
  case (Cons p ps)
  then have "m * length ps \<le> n - (p + m)" "e \<le> p" "p + m \<le> n" "\<forall>p \<in> set ps. p + m \<le> n" by auto
  moreover from this have "m + m * length ps \<le> n - e" by linarith
  ultimately show ?case by simp
qed simp

lemma sum_lengths: "foldl (\<lambda>u pos. f64_add u (f64_of_nat (f pos))) (f64_of_nat a) ps = f64_of_nat (a + sum_list (map f ps))"
  by (induction ps arbitrary: a) (simp_all add: add.assoc)

lemma foldl_cong': "(\<And>a x. x \<in> set xs \<Longrightarrow> f a x = g a x) \<Longrightarrow> foldl f a xs = foldl g a xs"
  by (induction xs arbitrary: a) auto

lemma replaceAt_units:
  assumes "matches_ok (length (toUnits w)) (length (toUnits s)) 0 ps" "ps \<noteq> []"
  shows "replaceAt (newJSStr s) (length (toUnits w)) ps (parseTemplate (of_units rs)) = js_replace (toUnits s) (toUnits w) rs ps"
proof -
  let ?us = "toUnits s" and ?m = "length (toUnits w)" and ?t = "parseTemplate (of_units rs)"
  have "foldl (\<lambda>u pos. f64_add u (template_length ?t pos ?m (length ?us))) (f64_of_nat (length ?us - ?m * length ps)) ps
      = foldl (\<lambda>u pos. f64_add u (f64_of_nat (length (substitution ?us pos ?m rs)))) (f64_of_nat (length ?us - ?m * length ps)) ps"
    using matches_fit [OF assms(1)]
    by (intro foldl_cong') (simp add: template_length_units [OF parseTemplate_units(1)] parseTemplate_units(2))
  also have "\<dots> = f64_of_nat (length (replaced ?us ?m rs 0 ps))"
    using length_replaced [OF assms(1), of rs] matches_fit [OF assms(1)]
    unfolding sum_lengths by (intro arg_cong [where f = f64_of_nat]) simp
  finally have l: "foldl (\<lambda>u pos. f64_add u (template_length ?t pos ?m (length ?us))) (f64_of_nat (length ?us - ?m * length ps)) ps
      = f64_of_nat (length (replaced ?us ?m rs 0 ps))" .
  have "replace_at_loop (newJSStr s) ?m ?t [] 0 ps = of_units (replaced ?us ?m rs 0 ps)"
    using replace_at_loop_units [OF parseTemplate_units(1), of s ?m rs rs "[]" 0 ps] parseTemplate_units(2) by simp
  then show ?thesis using assms(2)
    by (simp add: replaceAt_def str_simps l checkLength_def js_replace_def)
qed

subsection \<open>On bytes, for an ASCII pattern\<close>

text \<open>Where an occurrence of the pattern starts or has ended, the string is cut between characters.\<close>

definition units_before :: "byte list \<Rightarrow> nat \<Rightarrow> nat" where
  "units_before s i = length (toUnits (take i s))"

definition match_end :: "byte list \<Rightarrow> byte list \<Rightarrow> nat \<Rightarrow> bool" where
  "match_end s w e \<longleftrightarrow> e = 0 \<or> (\<exists>p \<in> set (occurrences s w). e = p + length w)"

lemma occurrence_parts:
  assumes "asciiPattern w" "canonical s" "p \<in> set (occurrences s w)"
  shows "s = take p s @ w @ drop (p + length w) s" "canonical (take p s)" "canonical (drop (p + length w) s)"
    "toUnits s = toUnits (take p s) @ toUnits w @ toUnits (drop (p + length w) s)" "p + length w \<le> length s"
proof -
  have at: "p + length w \<le> length s" "take (length w) (drop p s) = w" using assms(3) by (simp_all add: set_occurrences)
  then have "drop p s = w @ drop (p + length w) s" by (metis append_take_drop_id drop_drop add.commute)
  then show s: "s = take p s @ w @ drop (p + length w) s" by (metis append_take_drop_id)
  show "canonical (take p s)" "canonical (drop (p + length w) s)" using canonical_split [OF assms(2) s assms(1)] .
  show "toUnits s = toUnits (take p s) @ toUnits w @ toUnits (drop (p + length w) s)"
    by (rule pattern_split(1) [OF assms(1,3)])
  show "p + length w \<le> length s" by (rule at)
qed

lemma slice_between:
  assumes "asciiPattern w" "canonical s" "match_end s w e" "p = length s \<or> p \<in> set (occurrences s w)" "e \<le> p"
  shows "canonical (slice s e p)" "toUnits (take p s) = toUnits (take e s) @ toUnits (slice s e p)"
    "slice (toUnits s) (units_before s e) (units_before s p) = toUnits (slice s e p)"
proof -
  have cp: "canonical (take p s)" "toUnits s = toUnits (take p s) @ drop (units_before s p) (toUnits s)"
    using occurrence_parts [OF assms(1,2), of p] assms(2,4) by (auto simp: units_before_def)
  have *: "canonical (slice s e p) \<and> toUnits (take p s) = toUnits (take e s) @ toUnits (slice s e p)"
  proof (cases "e = 0")
    case True
    with cp show ?thesis by (simp add: slice_def)
  next
    case False
    then obtain q where q: "q \<in> set (occurrences s w)" "e = q + length w" using assms(3) by (auto simp: match_end_def)
    note oq = occurrence_parts [OF assms(1,2) q(1)]
    have t: "take p s = take q s @ w @ slice s e p"
    proof -
      have "take p s = take e s @ slice s e p" using assms(5) by (simp add: slice_def take_add [symmetric])
      moreover have "take e s = take q s @ w"
        using arg_cong [OF oq(1), of "take e"] oq(5) by (simp add: q(2))
      ultimately show ?thesis by simp
    qed
    have te: "take e s = take q s @ w @ []" using arg_cong [OF oq(1), of "take e"] oq(5) by (simp add: q(2))
    have u: "toUnits (a @ w @ b) = toUnits a @ toUnits w @ toUnits b" for a b
      using pattern_split(1) [OF assms(1), of "length a" "a @ w @ b"] by (simp add: set_occurrences)
    have "toUnits (take p s) = toUnits (take e s) @ toUnits (slice s e p)"
      unfolding t te u by simp
    moreover have "canonical (slice s e p)" using canonical_split(2) [OF cp(1) t assms(1)] .
    ultimately show ?thesis by simp
  qed
  then show "canonical (slice s e p)" "toUnits (take p s) = toUnits (take e s) @ toUnits (slice s e p)" by simp_all
  from * show "slice (toUnits s) (units_before s e) (units_before s p) = toUnits (slice s e p)"
    by (subst cp(2)) (simp add: slice_def units_before_def)
qed

fun bytes_ok :: "byte list \<Rightarrow> byte list \<Rightarrow> nat \<Rightarrow> nat list \<Rightarrow> bool" where
  "bytes_ok s w e [] \<longleftrightarrow> match_end s w e \<and> e \<le> length s"
| "bytes_ok s w e (p # ps) \<longleftrightarrow> match_end s w e \<and> e \<le> p \<and> p \<in> set (occurrences s w) \<and> bytes_ok s w (p + length w) ps"

lemma bytes_ok_occurrences: "bytes_ok s w e ps \<Longrightarrow> p \<in> set ps \<Longrightarrow> p \<in> set (occurrences s w)"
  by (induction ps arbitrary: e) auto

lemma write_parts_bytes:
  assumes w: "asciiPattern w" and s: "canonical s" and p: "p \<in> set (occurrences s w)"
  shows "\<forall>q \<in> set ps. canonical (tp_text q) \<Longrightarrow>
     foldl (write_part_bytes s p (length w)) (of_units acc) ps
     = of_units (acc @ parts_units (toUnits s) (units_before s p) (length w) ps)"
proof (induction ps arbitrary: acc)
  case (Cons q ps)
  note o' = occurrence_parts [OF w s p]
  have str: "sb_str (of_units acc) x = of_units (acc @ toUnits x)" if "canonical x" for x
    using sb_str_of_units [of acc "toUnits x"] that by (simp add: of_units_toUnits)
  have cw: "canonical w" using w by (intro canonical_ascii) (simp add: asciiPattern_iff)
  have m: "slice s p (p + length w) = w" using p by (simp add: set_occurrences slice_def)
  have u: "slice (toUnits s) (units_before s p) (units_before s p + length w) = toUnits w"
    "take (units_before s p) (toUnits s) = toUnits (take p s)"
    "drop (units_before s p + length w) (toUnits s) = toUnits (drop (p + length w) s)"
    by (subst o'(4), simp add: units_before_def slice_def pattern_units(3) [OF w])+
  have "write_part_bytes s p (length w) (of_units acc) q
      = of_units (acc @ part_units (toUnits s) (units_before s p) (length w) q)"
    using Cons.prems o'(2,3) cw by (simp add: write_part_bytes_def part_units_def str m u)
  with Cons show ?case by simp
qed simp

lemma match_end_next: "p \<in> set (occurrences s w) \<Longrightarrow> match_end s w (p + length w)"
  by (auto simp: match_end_def)

lemma units_before_next:
  assumes "asciiPattern w" "canonical s" "p \<in> set (occurrences s w)"
  shows "units_before s (p + length w) = units_before s p + length w"
proof -
  have "take (p + length w) s = take p s @ w" using assms(3) by (simp add: set_occurrences take_add)
  moreover have "toUnits (take p s @ w) = toUnits (take p s) @ toUnits w"
    using pattern_split(1) [OF assms(1), of p "take p s @ w"] assms(3) by (simp add: set_occurrences)
  ultimately show ?thesis by (simp add: units_before_def pattern_units(3) [OF assms(1)])
qed

lemma sb_str_canonical: "canonical x \<Longrightarrow> sb_str (of_units acc) x = of_units (acc @ toUnits x)"
  using sb_str_of_units [of acc "toUnits x"] by (simp add: of_units_toUnits)

lemma replace_ascii_loop_units:
  assumes w: "asciiPattern w" and s: "canonical s"
    and t: "template_ok t" "\<And>pos. parts_units (toUnits s) pos (length w) (t_parts t) = substitution (toUnits s) pos (length w) rs"
  shows "bytes_ok s w e ps \<Longrightarrow> replace_ascii_loop s (length w) t (of_units acc) e ps
    = of_units (acc @ replaced (toUnits s) (length w) rs (units_before s e) (map (units_before s) ps))"
proof (induction ps arbitrary: acc e)
  case Nil
  note b = slice_between [OF w s, of e "length s"]
  from Nil b have "canonical (drop e s)" "drop (units_before s e) (toUnits s) = toUnits (drop e s)"
    by (simp_all add: slice_def units_before_def)
  then show ?case by (simp add: sb_str_canonical)
next
  case (Cons p ps)
  have p: "p \<in> set (occurrences s w)" "match_end s w e" "e \<le> p" "bytes_ok s w (p + length w) ps" using Cons.prems by simp_all
  note b = slice_between [OF w s p(2) disjI2 [OF p(1)] p(3)]
  have "\<forall>q \<in> set (t_parts t). canonical (tp_text q)" using t(1) by (simp add: template_ok_def)
  then show ?case
    using Cons.IH [OF p(4)] b(1)
    by (simp add: template_writeBytes_def sb_str_canonical write_parts_bytes [OF w s p(1)] t(2) b(3) units_before_next [OF w s p(1)])
qed

lemma units_before_le: "units_before s p \<le> p"
proof -
  have "units_before s p \<le> length (take p s)" unfolding units_before_def by (rule length_toUnits_le)
  then show ?thesis by simp
qed

lemma bytes_ok_matches:
  assumes w: "asciiPattern w" and s: "canonical s"
  shows "bytes_ok s w e ps \<Longrightarrow> matches_ok (length w) (length s) e ps \<and>
    matches_ok (length w) (length (toUnits s)) (units_before s e) (map (units_before s) ps)"
proof (induction ps arbitrary: e)
  case Nil
  then have "toUnits (take (length s) s) = toUnits (take e s) @ toUnits (slice s e (length s))"
    by (intro slice_between [OF w s]) auto
  then have "length (toUnits s) = units_before s e + length (toUnits (slice s e (length s)))"
    by (simp add: units_before_def)
  with Nil show ?case by simp
next
  case (Cons p ps)
  have p: "p \<in> set (occurrences s w)" "match_end s w e" "e \<le> p" "bytes_ok s w (p + length w) ps" using Cons.prems by simp_all
  have "units_before s e \<le> units_before s p"
    using slice_between(2) [OF w s p(2) disjI2 [OF p(1)] p(3)] by (simp add: units_before_def)
  moreover have "units_before s p + length w \<le> length (toUnits s)"
    using occurrence_parts(4) [OF w s p(1)] pattern_units(3) [OF w]
    by (metis units_before_def length_append le_add1 add.assoc)
  ultimately show ?case using Cons.IH [OF p(4)] p occurrence_parts(5) [OF w s p(1)]
    by (simp add: units_before_next [OF w s p(1)])
qed

text \<open>\<open>replacedLength\<close>, which walks from one match to the next.\<close>

lemma replaced_length_loop_units:
  assumes w: "asciiPattern w" and s: "canonical s"
  shows "bytes_ok s w e ps \<Longrightarrow> (prev = 0 \<and> e = 0) \<or> (prev \<in> set (occurrences s w) \<and> e = prev + length w) \<Longrightarrow>
    replaced_length_loop s (length w) t n u (units_before s prev) prev ps
    = foldl (\<lambda>u pos. f64_add u (template_length t (units_before s pos) (length w) n)) u ps"
proof (induction ps arbitrary: e prev u)
  case (Cons p ps)
  have p: "p \<in> set (occurrences s w)" "match_end s w e" "e \<le> p" "bytes_ok s w (p + length w) ps" using Cons.prems by simp_all
  note b = slice_between(2) [OF w s p(2) disjI2 [OF p(1)] p(3)]
  have "units_before s p = units_before s prev + length (toUnits (slice s prev p))"
    using Cons.prems(2)
  proof
    assume "prev = 0 \<and> e = 0"
    then show ?thesis by (simp add: units_before_def slice_def)
  next
    assume q: "prev \<in> set (occurrences s w) \<and> e = prev + length w"
    then have "drop prev s = w @ drop e s"
      by (metis append_take_drop_id drop_drop add.commute set_occurrences)
    then have "slice s prev p = w @ slice s e p"
      using p(3) q by (simp add: slice_def)
    moreover have "toUnits (w @ slice s e p) = toUnits w @ toUnits (slice s e p)"
      using toUnits_ascii_append [of w "slice s e p"] w pattern_units(1) [OF w] by (simp add: asciiPattern_iff)
    moreover have "units_before s p = units_before s e + length (toUnits (slice s e p))" using b by (simp add: units_before_def)
    ultimately show ?thesis using q units_before_next [OF w s, of prev] pattern_units(3) [OF w] by simp
  qed
  then show ?case using Cons.IH [OF p(4), of p] p(1) by (simp add: utf16Len_eq)
qed simp

lemma replaceASCII_units:
  assumes w: "asciiPattern w" and s: "canonical s" and ps: "bytes_ok s w 0 ps" "ps \<noteq> []"
  shows "replaceASCII s (length w) ps (parseTemplate (of_units rs))
    = js_replace (toUnits s) (toUnits w) rs (map (units_before s) ps)"
proof -
  let ?t = "parseTemplate (of_units rs)" and ?us = "toUnits s" and ?m = "length w"
  let ?len = "\<lambda>p. t_units ?t + t_matched ?t * ?m + t_before ?t * units_before s p + t_after ?t * (length ?us - units_before s p - ?m)"
  let ?size = "\<lambda>p. t_bytes ?t + t_matched ?t * ?m + t_before ?t * p + t_after ?t * (length s - p - ?m)"
  have z: "units_before s 0 = 0" by (simp add: units_before_def)
  have m: "length (toUnits w) = ?m" by (rule pattern_units(3) [OF w])
  note ok = bytes_ok_matches [OF w s ps(1)]
  have ok2: "matches_ok ?m (length ?us) 0 (map (units_before s) ps)" using ok z by simp
  have len: "template_length ?t (units_before s p) ?m (length ?us) = f64_of_nat (?len p)" for p
    by (rule template_length_nat)
  have size: "foldl (\<lambda>u pos. f64_add u (template_size ?t pos ?m (length s))) (f64_of_nat (length s - ?m * length ps)) ps
      = f64_of_nat (length s - ?m * length ps + sum_list (map ?size ps))"
    unfolding template_length_nat by (rule sum_lengths)
  have "?len p = length (substitution ?us (units_before s p) ?m rs)" if "p \<in> set ps" for p
  proof -
    have "units_before s p + ?m \<le> length ?us" using matches_fit [OF ok2] that by auto
    from template_length_units [OF parseTemplate_units(1) this, of rs]
    show ?thesis unfolding len parseTemplate_units(2) f64_nat_inj .
  qed
  then have sums: "sum_list (map ?len ps) = sum_list (map (\<lambda>p. length (substitution ?us p ?m rs)) (map (units_before s) ps))"
    by (simp cong: map_cong)
  have total': "length (replaced ?us ?m rs 0 (map (units_before s) ps)) = length ?us - ?m * length ps + sum_list (map ?len ps)"
    using length_replaced [OF ok2, of rs] matches_fit [OF ok2] sums by simp
  have "replacedLength s ?m ps ?t
      = foldl (\<lambda>u pos. f64_add u (f64_of_nat (?len pos))) (f64_of_nat (length ?us - ?m * length ps)) ps"
    using replaced_length_loop_units [OF w s ps(1), of 0] z
    by (simp add: replacedLength_def utf16Len_eq len Let_def)
  also have "\<dots> = f64_of_nat (length (replaced ?us ?m rs 0 (map (units_before s) ps)))"
    unfolding sum_lengths total' ..
  finally have units: "replacedLength s ?m ps ?t = f64_of_nat (length (replaced ?us ?m rs 0 (map (units_before s) ps)))" .
  have "?len p \<le> ?size p" if "p \<in> set ps" for p
  proof -
    have "p \<in> set (occurrences s w)" using bytes_ok_occurrences [OF ps(1) that] .
    note o' = occurrence_parts [OF w s this]
    have "t_units ?t \<le> t_bytes ?t"
      using parseTemplate_units(1) [of rs] by (auto simp: template_ok_def intro!: sum_list_mono units_le_bytes)
    moreover have "t_before ?t * units_before s p \<le> t_before ?t * p" by (intro mult_le_mono2 units_before_le)
    moreover have "length ?us - units_before s p - ?m = length (toUnits (drop (p + ?m) s))"
      using arg_cong [OF o'(4), of length] m by (simp add: units_before_def)
    then have "t_after ?t * (length ?us - units_before s p - ?m) \<le> t_after ?t * (length s - p - ?m)"
      using length_toUnits_le [of "drop (p + ?m) s"] by (intro mult_le_mono2) simp
    ultimately show ?thesis by linarith
  qed
  then have "sum_list (map ?len ps) \<le> sum_list (map ?size ps)" by (intro sum_list_mono) simp
  moreover have "length ?us \<le> length s" by (rule length_toUnits_le)
  ultimately have le: "length (replaced ?us ?m rs 0 (map (units_before s) ps)) \<le> length s - ?m * length ps + sum_list (map ?size ps)"
    unfolding total' by linarith
  have "replace_ascii_loop s ?m ?t [] 0 ps = of_units (replaced ?us ?m rs 0 (map (units_before s) ps))"
    using replace_ascii_loop_units [OF w s parseTemplate_units(1), of rs rs 0 ps "[]"] parseTemplate_units(2) ps(1) z by simp
  then show ?thesis using ps(2) le
    unfolding replaceASCII_def size units Let_def by (auto simp: js_replace_def checkLength_def m)
qed

subsection \<open>The matches\<close>

lemma ascii_positions_units:
  assumes w: "asciiPattern w" and s: "canonical s"
  shows "match_end s w e \<Longrightarrow> e \<le> length s \<Longrightarrow> bytes_ok s w e (ascii_positions s w e) \<and>
    map (units_before s) (ascii_positions s w e) = all_matches (toUnits s) (toUnits w) (units_before s e)"
proof (induction "length s - e" arbitrary: e rule: less_induct)
  case less
  have ne: "w \<noteq> []" using w by (simp add: asciiPattern_iff)
  have t: "toUnits s = toUnits (take e s) @ toUnits (drop e s)" and d: "canonical (drop e s)"
    using slice_between(1,2) [OF w s less(2), of "length s"] less(3) by (simp_all add: slice_def)
  have at: "units_before s e \<le> length (toUnits s)" "drop (units_before s e) (toUnits s) = toUnits (drop e s)"
    by (subst t, simp add: units_before_def)+
  have ix: "list_index (toUnits (drop e s)) (toUnits w) = map_option (\<lambda>i. length (toUnits (take i (drop e s)))) (list_index (drop e s) w)"
    by (rule list_index_split [OF w])
  show ?case
  proof (cases "list_index (drop e s) w")
    case None
    then show ?thesis using less(2,3) at ix
      by (simp add: ascii_positions.simps [of s w e] all_matches.simps [of "toUnits s" _ "units_before s e"])
  next
    case (Some i)
    then have i: "i + length w \<le> length (drop e s)" "take (length w) (drop i (drop e s)) = w" by (auto dest: list_index_Some)
    then have occ: "e + i \<in> set (occurrences s w)" using less(3) by (simp add: set_occurrences add.commute)
    have u: "units_before s (e + i) = units_before s e + length (toUnits (take i (drop e s)))"
      using slice_between(2) [OF w s less(2) disjI2 [OF occ]] by (simp add: units_before_def slice_def)
    have n: "units_before s (e + i + length w) = units_before s (e + i) + length (toUnits w)"
      using units_before_next [OF w s occ] pattern_units(3) [OF w] by simp
    have IH: "bytes_ok s w (e + i + length w) (ascii_positions s w (e + i + length w)) \<and>
        map (units_before s) (ascii_positions s w (e + i + length w))
        = all_matches (toUnits s) (toUnits w) (units_before s (e + i + length w))"
      using match_end_next [OF occ] occurrence_parts(5) [OF w s occ] ne less(3) i(1)
      by (intro less(1)) (auto simp: length_greater_0_conv [symmetric] simp del: length_greater_0_conv)
    have "max (length (toUnits w)) 1 = length (toUnits w)"
      using pattern_units(2) [OF w] by (cases "toUnits w") simp_all
    then have "all_matches (toUnits s) (toUnits w) (units_before s e)
        = units_before s (e + i) # all_matches (toUnits s) (toUnits w) (units_before s (e + i + length w))"
      using at ix Some u n by (subst all_matches.simps) simp
    with IH less(2) occ ne Some show ?thesis
      by (simp add: ascii_positions.simps [of s w e])
  qed
qed

lemma all_matches_ok:
  "e \<le> start \<Longrightarrow> e \<le> length us \<Longrightarrow> matches_ok (length ws) (length us) e (all_matches us ws start)"
proof (induction us ws start arbitrary: e rule: all_matches.induct)
  case (1 us ws start)
  show ?case
  proof (cases "if start \<le> length us then list_index (drop start us) ws else None")
    case (Some k)
    then have k: "start \<le> length us" "list_index (drop start us) ws = Some k"
      by (cases "start \<le> length us"; simp)+
    then have "k + length ws \<le> length us - start" using list_index_Some [OF k(2)] by simp
    with k(1) have "e \<le> start + k" "start + k + length ws \<le> length us" using 1(2) by simp_all
    moreover have "matches_ok (length ws) (length us) (start + k + length ws)
        (all_matches us ws (start + k + max (length ws) 1))"
      using \<open>start + k + length ws \<le> length us\<close> by (intro 1(1) [OF Some]) simp_all
    ultimately show ?thesis using Some by (subst all_matches.simps) simp
  qed (use 1(3) in \<open>simp add: all_matches.simps [of us ws start]\<close>)
qed

text \<open>The matches \<open>indexOf\<close> finds, one after another.\<close>

lemma string_index_of_all:
  "string_index_of us ws start
   = (case (if start \<le> length us then list_index (drop start us) ws else None) of None \<Rightarrow> -1 | Some k \<Rightarrow> int (start + k))"
  if "ws = [] \<or> start \<le> length us"
proof (cases "start \<le> length us")
  case True
  then show ?thesis by (simp add: string_index_of_drop)
next
  case False
  with that show ?thesis by (auto simp: string_index_of_Nil)
qed

lemma positions_loop_units:
  "toUnits w = [] \<or> start \<le> length (toUnits s) \<Longrightarrow>
     positions_loop (newJSStr s) (newJSStr w) (length (toUnits w)) start = all_matches (toUnits s) (toUnits w) start"
proof (induction "toUnits s" "toUnits w" start rule: all_matches.induct)
  case (1 start)
  let ?k = "if start \<le> length (toUnits s) then list_index (drop start (toUnits s)) (toUnits w) else None"
  have i: "indexOf (newJSStr s) (newJSStr w) start = (case ?k of None \<Rightarrow> -1 | Some k \<Rightarrow> int (start + k))"
    unfolding indexOf_units by (rule string_index_of_all [OF 1(2)])
  show ?case
  proof (cases ?k)
    case None
    then show ?thesis unfolding positions_loop.simps [of _ _ _ start] all_matches.simps [of _ _ start] i Let_def by simp
  next
    case (Some k)
    then have k: "start \<le> length (toUnits s)" "list_index (drop start (toUnits s)) (toUnits w) = Some k"
      by (cases "start \<le> length (toUnits s)"; simp)+
    then have "k + length (toUnits w) \<le> length (toUnits s) - start" using list_index_Some [OF k(2)] by simp
    with k(1) have "toUnits w = [] \<or> start + k + max (length (toUnits w)) 1 \<le> length (toUnits s)"
      by (cases "toUnits w") simp_all
    from 1(1) [OF Some this] Some show ?thesis
      unfolding positions_loop.simps [of _ _ _ start] all_matches.simps [of _ _ start] i Let_def
      by (simp add: nat_int_add)
  qed
qed

text \<open>
  C14: \<open>replace\<close> and \<open>replaceAll\<close> with a string pattern are ECMAScript's on code units, whichever
  path is taken: the first match, or each of them from the left without overlap (an empty
  pattern's before every unit and at the end), gives way to the replacement, in which \<open>$$\<close>,
  \<open>$&\<close>, \<open>$`\<close> and \<open>$'\<close> stand for a dollar, the match and what comes before and after it. Where a
  result would be longer than V8's limit they throw \<open>RangeError: Invalid string length\<close>.
\<close>

theorem replace_units:
  "StrReplace (of_units us) (of_units ws) (of_units rs)
   = js_replace us ws rs (case list_index us ws of None \<Rightarrow> [] | Some p \<Rightarrow> [p])
   \<and> StrReplaceAll (of_units us) (of_units ws) (of_units rs) = js_replace us ws rs (all_matches us ws 0)"
proof (cases "asciiPattern (of_units ws)")
  case True
  define s w where "s = of_units us" and "w = of_units ws"
  have s: "canonical s" "toUnits s = us" "toUnits w = ws" and w: "asciiPattern w" using True by (simp_all add: s_def w_def)
  have z: "units_before s 0 = 0" "match_end s w 0" by (simp_all add: units_before_def match_end_def)
  have one: "bytes_ok s w 0 [p]" "units_before s p = q" if "list_index s w = Some p" "list_index us ws = Some q" for p q
  proof -
    have p: "p \<in> set (occurrences s w)" using list_index_Some [OF that(1)] by (simp add: set_occurrences)
    then show "bytes_ok s w 0 [p]" using z(2) match_end_next [OF p] occurrence_parts(5) [OF w s(1) p] by simp
    show "units_before s p = q" using list_index_split [OF w, of s] that s by (simp add: units_before_def)
  qed
  have "StrReplace s w (of_units rs) = js_replace us ws rs (case list_index us ws of None \<Rightarrow> [] | Some p \<Rightarrow> [p])"
  proof (cases "list_index s w")
    case None
    then have "list_index us ws = None" using list_index_split [OF w, of s] s by simp
    with None show ?thesis using w s by (simp add: StrReplace_def js_replace_def s_def)
  next
    case (Some p)
    then obtain q where q: "list_index us ws = Some q" using list_index_split [OF w, of s] s by simp
    from replaceASCII_units [OF w s(1) one(1) [OF Some q], of rs] one(2) [OF Some q] Some q
    show ?thesis using w s by (simp add: StrReplace_def)
  qed
  moreover have "StrReplaceAll s w (of_units rs) = js_replace us ws rs (all_matches us ws 0)"
  proof -
    note a = ascii_positions_units [OF w s(1) z(2)]
    show ?thesis
    proof (cases "ascii_positions s w 0 = []")
      case True
      with a z s have "all_matches us ws 0 = []" by simp
      with True w s show ?thesis by (simp add: StrReplaceAll_def replaceAllASCII_def js_replace_def s_def)
    next
      case False
      with replaceASCII_units [OF w s(1), of "ascii_positions s w 0" rs] a z w s show ?thesis
        by (simp add: StrReplaceAll_def replaceAllASCII_def)
    qed
  qed
  ultimately show ?thesis by (simp add: s_def w_def)
next
  case False
  have ok: "matches_ok (length ws) (length us) 0 (all_matches us ws 0)" by (rule all_matches_ok) simp_all
  have p: "positions_loop (newJSStr (of_units us)) (newJSStr (of_units ws)) (length ws) 0 = all_matches us ws 0"
    using positions_loop_units [of "of_units ws" 0 "of_units us"] by simp
  have i: "indexOf (newJSStr (of_units us)) (newJSStr (of_units ws)) 0 = (case list_index us ws of None \<Rightarrow> -1 | Some p \<Rightarrow> int p)"
    using string_index_of_all [of ws 0 us] by (simp add: indexOf_units split: option.split)
  have "StrReplaceAll (of_units us) (of_units ws) (of_units rs) = js_replace us ws rs (all_matches us ws 0)"
    using False replaceAt_units [of "of_units ws" "of_units us" "all_matches us ws 0" rs] ok
    by (auto simp: StrReplaceAll_def str_simps p js_replace_def)
  moreover have "StrReplace (of_units us) (of_units ws) (of_units rs)
      = js_replace us ws rs (case list_index us ws of None \<Rightarrow> [] | Some p \<Rightarrow> [p])"
  proof (cases "list_index us ws")
    case None
    with False i show ?thesis by (simp add: StrReplace_def js_replace_def)
  next
    case (Some k)
    then have "matches_ok (length ws) (length us) 0 [k]" using list_index_Some [OF Some] by simp
    with False i Some replaceAt_units [of "of_units ws" "of_units us" "[k]" rs] show ?thesis
      by (simp add: StrReplace_def str_simps)
  qed
  ultimately show ?thesis by simp
qed

end
