(* ===== verification/GoStrconv.thy ===== *)
theory GoStrconv
  imports Wtf8
begin

text \<open>
  What the code uses of Go's \<open>strconv\<close>: \<open>Itoa\<close> of a value that is never negative, and \<open>Quote\<close>.
  A Go string is a list of characters here, each a byte. \<open>Quote\<close> copies a rune that Unicode
  calls printable and escapes any other, so it is written over the table \<open>strconv.IsPrint\<close>
  reads, the argument \<open>isPrint\<close>; nothing proved rests on what the table holds.

  Proved: both can be read back from the front of a longer string, so neither gives one result
  for two values.
\<close>

subsection \<open>Itoa\<close>

definition digit :: "nat \<Rightarrow> char" where
  "digit d = char_of (48 + d)"

fun Itoa :: "nat \<Rightarrow> string" where
  "Itoa n = (if n < 10 then [digit n] else Itoa (n div 10) @ [digit (n mod 10)])"

declare Itoa.simps [simp del]

definition is_digit :: "char \<Rightarrow> bool" where
  "is_digit c \<longleftrightarrow> 48 \<le> (of_char c :: nat) \<and> (of_char c :: nat) \<le> 57"

lemma of_char_digit: "d < 10 \<Longrightarrow> (of_char (digit d) :: nat) = 48 + d"
  by (simp add: digit_def)

lemma is_digit_digit [simp]: "d < 10 \<Longrightarrow> is_digit (digit d)"
  by (simp add: is_digit_def of_char_digit)

lemma digit_eq: "c < 10 \<Longrightarrow> d < 10 \<Longrightarrow> digit c = digit d \<longleftrightarrow> c = d"
  by (metis add_left_cancel of_char_digit)

lemma Itoa_digits: "\<forall>c \<in> set (Itoa n). is_digit c"
proof (induction n rule: Itoa.induct)
  case (1 n)
  then show ?case by (subst Itoa.simps) auto
qed

lemma Itoa_not_Nil [simp]: "Itoa n \<noteq> []"
  by (subst Itoa.simps) simp

lemma Itoa_inj: "Itoa m = Itoa n \<Longrightarrow> m = n"
proof (induction m arbitrary: n rule: Itoa.induct)
  case (1 m)
  note m = Itoa.simps [of m] and n = Itoa.simps [of n]
  show ?case
  proof (cases "m < 10 \<or> n < 10")
    case True
    with 1(2) m n show ?thesis
      using Itoa_not_Nil [of "m div 10"] Itoa_not_Nil [of "n div 10"]
      by (auto simp: digit_eq simp del: Itoa_not_Nil split: if_splits)
  next
    case False
    with 1(2) m n have "Itoa (m div 10) = Itoa (n div 10)" "m mod 10 = n mod 10"
      by (auto simp: digit_eq)
    with 1(1) [of "n div 10"] False show ?thesis by (metis div_mult_mod_eq)
  qed
qed

text \<open>Digits end at the first character that is not one.\<close>

definition no_digit :: "string \<Rightarrow> bool" where
  "no_digit s \<longleftrightarrow> s = [] \<or> \<not> is_digit (hd s)"

lemma digits_split:
  "\<forall>c \<in> set a. is_digit c \<Longrightarrow> \<forall>c \<in> set b. is_digit c \<Longrightarrow> no_digit x \<Longrightarrow> no_digit y
    \<Longrightarrow> a @ x = b @ y \<Longrightarrow> a = b \<and> x = y"
  by (induction a b rule: list_induct2') (auto simp: no_digit_def)

lemma Itoa_split:
  "Itoa m @ x = Itoa n @ y \<Longrightarrow> no_digit x \<Longrightarrow> no_digit y \<Longrightarrow> m = n \<and> x = y"
  using digits_split [OF Itoa_digits Itoa_digits] Itoa_inj by blast

subsection \<open>Quote\<close>

definition byte_of :: "char \<Rightarrow> byte" where
  "byte_of c = word_of_nat (of_char c)"

definition char_of_byte :: "byte \<Rightarrow> char" where
  "char_of_byte b = char_of (unat b)"

definition hex_digit :: "nat \<Rightarrow> char" where
  "hex_digit d = (if d < 10 then char_of (48 + d) else char_of (87 + d))"

text \<open>The \<open>k\<close> lowest hexadecimal digits of a number.\<close>

fun hex :: "nat \<Rightarrow> nat \<Rightarrow> string" where
  "hex 0 n = []"
| "hex (Suc k) n = hex k (n div 16) @ [hex_digit (n mod 16)]"

text \<open>An escape: the letter after the backslash, and the digits after that.\<close>

definition escape :: "rune \<Rightarrow> char \<times> nat" where
  "escape r =
     (if r = 0x07 then (CHR ''a'', 0) else if r = 0x08 then (CHR ''b'', 0)
      else if r = 0x0C then (CHR ''f'', 0) else if r = 0x0A then (CHR ''n'', 0)
      else if r = 0x0D then (CHR ''r'', 0) else if r = 0x09 then (CHR ''t'', 0)
      else if r = 0x0B then (CHR ''v'', 0)
      else if r < 0x20 \<or> r = 0x7F then (CHR ''x'', 2)
      else if r < 0x10000 then (CHR ''u'', 4)
      else (CHR ''U'', 8))"

definition escaped_rune :: "(rune \<Rightarrow> bool) \<Rightarrow> rune \<Rightarrow> string" where
  "escaped_rune isPrint r =
     (if r = 0x22 \<or> r = 0x5C then [CHR 0x5C, char_of r]
      else if isPrint r then map char_of_byte (wtf8 r)
      else let (e, k) = escape r in [CHR 0x5C, e] @ hex k r)"

lemma decode_width: "0 < snd (decode_rune (c # s))"
proof -
  obtain r k where rk: "decode_rune (c # s) = (r, k)" by (cases "decode_rune (c # s)")
  with decode_rune_inv [OF this] show ?thesis by auto
qed

function quote_rest :: "(rune \<Rightarrow> bool) \<Rightarrow> byte list \<Rightarrow> string" where
  "quote_rest isPrint [] = [CHR 0x22]"
| "quote_rest isPrint (c # s) =
     (let (r, width) = decode_rune (c # s)
      in (if width = 1 \<and> r = rune_error
          then [CHR 0x5C, CHR ''x''] @ hex 2 (unat c)
          else escaped_rune isPrint r)
         @ quote_rest isPrint (drop width (c # s)))"
  by pat_completeness auto
termination
proof (relation "measure (\<lambda>(p, s). length s)")
  fix isPrint :: "rune \<Rightarrow> bool" and c s x r width
  assume "x = decode_rune (c # s)" "(r, width) = x"
  with decode_width [of c s] have "0 < width" by (metis snd_conv)
  then show "((isPrint, drop width (c # s)), isPrint, c # s) \<in> measure (\<lambda>(p, s). length s)" by simp
qed simp

declare quote_rest.simps(2) [simp del]

definition Quote :: "(rune \<Rightarrow> bool) \<Rightarrow> string \<Rightarrow> string" where
  "Quote isPrint s = CHR 0x22 # quote_rest isPrint (map byte_of s)"

subsection \<open>Reading back\<close>

lemma byte_of_eq: "byte_of c = byte_of d \<longleftrightarrow> c = d"
proof -
  have "(of_char c :: nat) < 256" "(of_char d :: nat) < 256" by simp_all
  then show ?thesis
    by (metis byte_of_def char_of_char unat_word_of_nat_byte)
qed

lemma char_of_byte_eq: "char_of_byte b = char_of_byte c \<longleftrightarrow> b = c"
  by (metis byte_eq_iff char_of_byte_def of_char_of unat_byte_less mod_less)

lemma hex_digit_value: "d < 16 \<Longrightarrow> (of_char (hex_digit d) :: nat) = (if d < 10 then 48 + d else 87 + d)"
  by (simp add: hex_digit_def)

lemma hex_digit_eq:
  assumes "c < 16" "d < 16" shows "hex_digit c = hex_digit d \<longleftrightarrow> c = d"
proof
  assume "hex_digit c = hex_digit d"
  then have "(of_char (hex_digit c) :: nat) = of_char (hex_digit d)" by (rule arg_cong)
  then have "(if c < 10 then 48 + c else 87 + c) = (if d < 10 then 48 + d else 87 + d)"
    by (simp only: hex_digit_value assms)
  then show "c = d" using assms by (simp split: if_splits)
qed simp

lemma length_hex [simp]: "length (hex k n) = k"
  by (induction k n rule: hex.induct) auto

lemma hex_eq: "m < 16 ^ k \<Longrightarrow> n < 16 ^ k \<Longrightarrow> hex k m = hex k n \<longleftrightarrow> m = n"
proof (induction k arbitrary: m n)
  case (Suc k)
  then have "m div 16 < 16 ^ k" "n div 16 < 16 ^ k"
    by (simp_all add: less_mult_imp_div_less mult.commute)
  with Suc.IH have "hex (Suc k) m = hex (Suc k) n \<longleftrightarrow> m div 16 = n div 16 \<and> m mod 16 = n mod 16"
    by (simp add: hex_digit_eq)
  then show ?case by (metis div_mult_mod_eq)
qed simp

lemma decode_not_surrogate:
  assumes "decode_rune s = (r, k)" shows "\<not> (0xD800 \<le> r \<and> r \<le> 0xDFFF)"
proof
  assume r: "0xD800 \<le> r \<and> r \<le> 0xDFFF"
  then have "s \<noteq> []" using assms by (auto simp: decode_rune.simps rune_error_def)
  from decode_rune_inv [OF assms this] r have t: "k = length (wtf8 r)" "take k s = wtf8 r"
    by (auto simp: rune_error_def)
  have "r < 0x110000" using r by simp
  then obtain a b c where abc: "r = (a * 64 + b) * 64 + c" "a < 16" "b < 64" "c < 64" "32 \<le> a * 64 + b"
    using r by (cases rule: rune_cases) auto
  define q where "q = a * 64 + b"
  have "55296 \<le> q * 64 + c" "q * 64 + c \<le> 57343" using r abc(1) by (simp_all add: q_def)
  with abc(4) have "864 \<le> q" "q < 896" by linarith+
  with abc(3) have ab: "a = 13" "32 \<le> b" unfolding q_def by arith+
  have "wtf8 r = [0xED, word_of_nat (0x80 + b), word_of_nat (0x80 + c)]"
    using wtf8_3 [OF abc(2-5)] by (simp add: abc(1) ab(1))
  moreover have "unat (word_of_nat (0x80 + b) :: byte) = 0x80 + b" using abc(3) by (intro unat_word_of_nat_byte) simp
  ultimately have "decode_rune s = (rune_error, 1)"
    using ab(2) arg_cong [OF append_take_drop_id [of k s], of decode_rune] t
    by (simp del: of_nat_add append_take_drop_id add: decode_rune.simps byte_order)
  with assms r show False by (simp add: rune_error_def)
qed

lemma half_range:
  assumes "half b0 b1 b2 = Some u" shows "0xD800 \<le> u \<and> u \<le> 0xDFFF"
proof -
  from assms have b1: "0xA0 \<le> unat b1" "unat b1 \<le> 0xBF" and u: "u = (832 + unat b1 mod 64) * 64 + unat b2 mod 64"
    by (simp_all add: half_arith split: if_splits)
  define q where "q = unat b1 mod 64"
  have "q = unat b1 - 128" using b1 by (simp add: q_def mod_if [of "unat b1"] mod_if [of "unat b1 - 64"])
  with b1 have "32 \<le> q" "q \<le> 63" by arith+
  moreover have "unat b2 mod 64 < 64" by simp
  ultimately show ?thesis unfolding u q_def [symmetric] by simp
qed

lemma decode_rune_wtf8:
  assumes "r < 0x110000" "\<not> (0xD800 \<le> r \<and> r \<le> 0xDFFF)"
  shows "decode_rune (wtf8 r @ s) = (r, length (wtf8 r))"
proof -
  obtain c t where ct: "wtf8 r @ s = c # t" by (cases "wtf8 r @ s") auto
  have "char_at (c # t) 0 = (r, length (wtf8 r))" using char_at_wtf8 [OF assms(1), of s] ct by simp
  then have "decode_rune (c # t) = (r, length (wtf8 r))"
    using assms(2) by (auto simp: char_at_Cons decode_rune_1 byte_order dest!: half_range
      split: if_splits list.splits option.splits)
  then show ?thesis by (simp add: ct)
qed

text \<open>A backslash and the rest of an escape, the two that keep their character included.\<close>

definition escape_all :: "rune \<Rightarrow> char \<times> nat" where
  "escape_all r = (if r = 0x22 \<or> r = 0x5C then (char_of r, 0) else escape r)"

lemma escaped_rune_cases:
  "escaped_rune isPrint r =
     (if r \<noteq> 0x22 \<and> r \<noteq> 0x5C \<and> isPrint r then map char_of_byte (wtf8 r)
      else CHR 0x5C # fst (escape_all r) # hex (snd (escape_all r)) r)"
  by (auto simp: escaped_rune_def escape_all_def split: prod.split)

lemma escape_all_digits:
  "r < 0x110000 \<Longrightarrow> snd (escape_all r) =
      (if fst (escape_all r) = CHR ''x'' then 2 else if fst (escape_all r) = CHR ''u'' then 4
       else if fst (escape_all r) = CHR ''U'' then 8 else 0)
     \<and> (snd (escape_all r) \<noteq> 0 \<longrightarrow> r < 16 ^ snd (escape_all r))"
  by (simp add: escape_all_def escape_def char_of_def)

lemma escape_all_x: "fst (escape_all r) = CHR ''x'' \<Longrightarrow> r < 0x80"
  by (auto simp: escape_all_def escape_def char_of_def split: if_splits)

lemma escape_all_letter:
  assumes "fst (escape_all r) = fst (escape_all r')" "snd (escape_all r) = 0" "snd (escape_all r') = 0"
  shows "r = r'"
proof -
  have "snd (escape_all x) = 0 \<Longrightarrow> x \<in> {0x22, 0x5C, 0x07, 0x08, 0x0C, 0x0A, 0x0D, 0x09, 0x0B}" for x
    by (auto simp: escape_all_def escape_def split: if_splits)
  from this [OF assms(2)] this [OF assms(3)] assms(1) show ?thesis
    by (auto simp: escape_all_def escape_def char_of_def)
qed

lemma map_byte_of [simp]: "map byte_of (map char_of_byte bs) = bs"
proof -
  have "byte_of (char_of_byte b) = b" for b
    by (simp add: byte_of_def char_of_byte_def byte_eq_iff unat_word_of_nat_byte)
  then show ?thesis by (simp add: comp_def)
qed

lemma hd_wtf8_ascii:
  assumes "r < 0x110000" "x < 0x80" "hd (wtf8 r) = word_of_nat x" shows "r = x"
proof -
  have "char_at (wtf8 r) 0 = (r, length (wtf8 r))" using char_at_wtf8 [OF assms(1), of "[]"] by simp
  moreover obtain c t where ct: "wtf8 r = c # t" by (cases "wtf8 r") auto
  moreover have "unat c = x" using assms(2,3) ct by (simp add: unat_word_of_nat_byte)
  ultimately show ?thesis using assms(2) by (simp add: char_at_Cons byte_order split: if_splits)
qed

lemma hd_printed:
  assumes "r < 0x110000" "x < 0x80" "hd (map char_of_byte (wtf8 r) @ y) = char_of x" shows "r = x"
proof -
  obtain c t where ct: "wtf8 r = c # t" by (cases "wtf8 r") auto
  have "char_of_byte c = char_of_byte (word_of_nat x)"
    using assms(2,3) ct by (simp add: char_of_byte_def unat_word_of_nat_byte)
  then show ?thesis using hd_wtf8_ascii [OF assms(1,2)] ct by (simp add: char_of_byte_eq)
qed

lemma backslash_char: "CHR 0x5C = char_of (0x5C :: nat)" "CHR 0x22 = char_of (0x22 :: nat)"
  by (simp_all add: char_of_def bit_nat_def)

lemma escaped_rune_split:
  assumes r: "r < 0x110000" "\<not> (0xD800 \<le> r \<and> r \<le> 0xDFFF)"
    and r': "r' < 0x110000" "\<not> (0xD800 \<le> r' \<and> r' \<le> 0xDFFF)"
    and eq: "escaped_rune isPrint r @ y = escaped_rune isPrint r' @ y'"
  shows "r = r' \<and> y = y'"
proof -
  define P where "P z \<longleftrightarrow> z \<noteq> 0x22 \<and> z \<noteq> 0x5C \<and> isPrint z" for z
  have E: "escaped_rune isPrint z =
      (if P z then map char_of_byte (wtf8 z) else CHR 0x5C # fst (escape_all z) # hex (snd (escape_all z)) z)" for z
    by (simp add: escaped_rune_cases P_def)
  have ne: "hd (escaped_rune isPrint z @ w) = CHR 0x5C \<longleftrightarrow> \<not> P z" if "z < 0x110000" for z w
  proof (cases "P z")
    case True
    then show ?thesis using hd_printed [OF that, of "0x5C" w] by (auto simp: E P_def backslash_char)
  qed (simp add: E)
  have PP: "P r = P r'" using ne [OF r(1), of y] ne [OF r'(1), of y'] by (simp only: eq) blast
  show ?thesis
  proof (cases "P r")
    case True
    then have eq': "map char_of_byte (wtf8 r) @ y = map char_of_byte (wtf8 r') @ y'" using eq PP by (simp add: E)
    from arg_cong [OF this, of "map byte_of"]
    have "wtf8 r @ map byte_of y = wtf8 r' @ map byte_of y'" by (simp only: map_append map_byte_of)
    with decode_rune_wtf8 [OF r] decode_rune_wtf8 [OF r'] have "r = r'" by (metis prod.inject)
    then show ?thesis using eq' by simp
  next
    case False
    with eq PP have e: "fst (escape_all r) = fst (escape_all r')"
      and h: "hex (snd (escape_all r)) r @ y = hex (snd (escape_all r')) r' @ y'" by (simp_all add: E)
    note d = escape_all_digits [OF r(1)] and d' = escape_all_digits [OF r'(1)]
    have k: "snd (escape_all r) = snd (escape_all r')" using d d' e by simp
    with h have h': "hex (snd (escape_all r)) r = hex (snd (escape_all r)) r'" "y = y'" by simp_all
    have "r = r'"
    proof (cases "snd (escape_all r) = 0")
      case True
      then show ?thesis using escape_all_letter [OF e] k by simp
    next
      case False
      then have "r < 16 ^ snd (escape_all r)" "r' < 16 ^ snd (escape_all r)" using d d' k by auto
      with h'(1) show ?thesis by (simp add: hex_eq)
    qed
    with h'(2) show ?thesis by simp
  qed
qed

text \<open>What \<open>Quote\<close> writes for the first rune of a string, and the rune's bytes.\<close>

definition quote_token :: "(rune \<Rightarrow> bool) \<Rightarrow> byte list \<Rightarrow> string" where
  "quote_token isPrint s =
     (let (r, width) = decode_rune s
      in if width = 1 \<and> r = rune_error then [CHR 0x5C, CHR ''x''] @ hex 2 (unat (hd s))
         else escaped_rune isPrint r)"

lemma quote_rest_token:
  "s \<noteq> [] \<Longrightarrow> quote_rest isPrint s = quote_token isPrint s @ quote_rest isPrint (drop (snd (decode_rune s)) s)"
  by (cases s) (simp_all add: quote_rest.simps(2) quote_token_def split: prod.split)

lemma quote_token_cases:
  assumes "s \<noteq> []"
  obtains (stray) "take (snd (decode_rune s)) s = [hd s]" "0x80 \<le> unat (hd s)"
      "quote_token isPrint s = [CHR 0x5C, CHR ''x''] @ hex 2 (unat (hd s))"
  | (rune) r where "r < 0x110000" "\<not> (0xD800 \<le> r \<and> r \<le> 0xDFFF)"
      "take (snd (decode_rune s)) s = wtf8 r" "quote_token isPrint s = escaped_rune isPrint r"
proof -
  obtain r k where rk: "decode_rune s = (r, k)" by (cases "decode_rune s")
  show ?thesis
  proof (cases "k = 1 \<and> r = rune_error")
    case True
    then have "\<not> hd s < 0x80"
      using decode_rune_inv [OF rk assms] wtf8_def [of rune_error] by (auto simp: rune_error_def)
    moreover have "take 1 s = [hd s]" using assms by (cases s) auto
    ultimately show ?thesis using True rk stray by (simp add: quote_token_def byte_order)
  next
    case False
    with decode_rune_inv [OF rk assms] have "r < 0x110000" "take k s = wtf8 r" by auto
    moreover have "quote_token isPrint s = escaped_rune isPrint r"
      using False rk by (auto simp: quote_token_def)
    ultimately show ?thesis using rune decode_not_surrogate [OF rk] rk by simp
  qed
qed

lemma stray_not_rune:
  assumes "r < 0x110000" "0x80 \<le> unat (c :: byte)"
  shows "CHR 0x5C # CHR ''x'' # hex 2 (unat c) @ y \<noteq> escaped_rune isPrint r @ y'"
proof
  assume eq: "CHR 0x5C # CHR ''x'' # hex 2 (unat c) @ y = escaped_rune isPrint r @ y'"
  show False
  proof (cases "r \<noteq> 0x22 \<and> r \<noteq> 0x5C \<and> isPrint r")
    case True
    with eq have "hd (map char_of_byte (wtf8 r) @ y') = CHR 0x5C"
      by (metis escaped_rune_cases list.sel(1))
    with hd_printed [OF assms(1), of "0x5C" y'] True show False by (simp add: backslash_char)
  next
    case False
    with eq have e: "fst (escape_all r) = CHR ''x''"
      and h: "hex 2 (unat c) @ y = hex (snd (escape_all r)) r @ y'" by (auto simp: escaped_rune_cases)
    have "snd (escape_all r) = 2" using escape_all_digits [OF assms(1)] e by simp
    with h have "hex 2 (unat c) = hex 2 r" by simp
    moreover have "r < 16 ^ 2" "unat c < 16 ^ 2" using escape_all_x [OF e] by simp_all
    ultimately have "unat c = r" by (simp add: hex_eq del: hex.simps)
    with escape_all_x [OF e] assms(2) show False by simp
  qed
qed

lemma quote_token_split:
  assumes "s \<noteq> []" "s' \<noteq> []" "quote_token isPrint s @ y = quote_token isPrint s' @ y'"
  shows "take (snd (decode_rune s)) s = take (snd (decode_rune s')) s' \<and> y = y'"
  using assms(1)
proof (cases rule: quote_token_cases [where isPrint = isPrint])
  case stray
  note s = this
  show ?thesis using assms(2)
  proof (cases rule: quote_token_cases [where isPrint = isPrint])
    case stray
    with s assms(3) have "hex 2 (unat (hd s)) @ y = hex 2 (unat (hd s')) @ y'" by simp
    then have "hex 2 (unat (hd s)) = hex 2 (unat (hd s'))" "y = y'" by (simp_all del: hex.simps)
    moreover have "unat (hd s) < 16 ^ 2" "unat (hd s') < 16 ^ 2" by simp_all
    ultimately show ?thesis using stray s by (simp add: hex_eq byte_eq_iff del: hex.simps)
  next
    case (rune r)
    with stray_not_rune [OF rune(1) s(2)] s assms(3) show ?thesis by (simp del: hex.simps)
  qed
next
  case (rune r)
  note s = this
  show ?thesis using assms(2)
  proof (cases rule: quote_token_cases [where isPrint = isPrint])
    case stray
    with stray_not_rune [OF s(1) stray(2)] s assms(3) show ?thesis by (metis append_Cons append_Nil)
  next
    case (rune r')
    with s assms(3) have "escaped_rune isPrint r @ y = escaped_rune isPrint r' @ y'" by simp
    from escaped_rune_split [OF s(1,2) rune(1,2) this] s rune show ?thesis by simp
  qed
qed

lemma quote_token_hd:
  assumes "s \<noteq> []" shows "quote_token isPrint s @ y \<noteq> CHR 0x22 # y'"
  using assms
proof (cases rule: quote_token_cases [where isPrint = isPrint])
  case (rune r)
  show ?thesis
  proof (cases "r \<noteq> 0x22 \<and> r \<noteq> 0x5C \<and> isPrint r")
    case True
    then have "hd (map char_of_byte (wtf8 r) @ y) \<noteq> CHR 0x22"
      using hd_printed [OF rune(1), of "0x22" y] by (auto simp: backslash_char)
    with True rune(4) show ?thesis by (metis escaped_rune_cases list.sel(1))
  next
    case False
    with rune(4) show ?thesis by (auto simp: escaped_rune_cases)
  qed
qed simp_all

lemma quote_rest_split:
  "quote_rest isPrint s @ y = quote_rest isPrint s' @ y' \<Longrightarrow> s = s' \<and> y = y'"
proof (induction s arbitrary: s' rule: length_induct)
  case (1 s)
  show ?case
  proof (cases "s = [] \<or> s' = []")
    case True
    with 1(2) show ?thesis
      using quote_token_hd [of s isPrint] quote_token_hd [of s' isPrint]
      by (cases "s = []"; cases "s' = []") (auto simp: quote_rest_token dest: sym)
  next
    case False
    then have ne: "s \<noteq> []" "s' \<noteq> []" by auto
    define k k' where "k = snd (decode_rune s)" "k' = snd (decode_rune s')"
    with 1(2) ne have "quote_token isPrint s @ quote_rest isPrint (drop k s) @ y
        = quote_token isPrint s' @ quote_rest isPrint (drop k' s') @ y'"
      by (simp add: quote_rest_token)
    from quote_token_split [OF ne this] have t: "take k s = take k' s'"
      and rest: "quote_rest isPrint (drop k s) @ y = quote_rest isPrint (drop k' s') @ y'"
      by (simp_all add: k_k'_def)
    have "0 < k" using ne decode_width k_k'_def by (cases s) auto
    with ne have "length (drop k s) < length s" by simp
    with 1(1) rest have "drop k s = drop k' s' \<and> y = y'" by blast
    with t show ?thesis by (metis append_take_drop_id)
  qed
qed

lemma Quote_split: "Quote isPrint s @ y = Quote isPrint s' @ y' \<Longrightarrow> s = s' \<and> y = y'"
proof -
  assume "Quote isPrint s @ y = Quote isPrint s' @ y'"
  then have "map byte_of s = map byte_of s' \<and> y = y'" by (simp add: Quote_def quote_rest_split)
  moreover have "inj byte_of" by (rule injI) (simp add: byte_of_eq)
  ultimately show ?thesis by (simp add: inj_map_eq_map)
qed

end
