(* ===== verification/StrPad.thy ===== *)
theory StrPad
  imports StrOps GoStrconv
begin

text \<open>
  The methods that add to a string or take from its ends, of \<open>backend/runtime/str_pad.go\<close>:
  \<open>StrPadStart\<close>, \<open>StrPadEnd\<close>, \<open>StrRepeat\<close>, \<open>StrTrim\<close> and its halves, with what each computes on
  code units. The padding loop adds the filler's length each round, so it would run for ever on
  an empty filler: it is a partial function, and the theorem on it says that it returns.
\<close>

subsection \<open>padStart and padEnd\<close>

partial_function (option) pad_loop :: "byte list \<Rightarrow> jsStr \<Rightarrow> nat \<Rightarrow> nat \<Rightarrow> byte list option" where
  "pad_loop b f fillLen k =
     (if k < fillLen
      then pad_loop (sb_sub b f 0 (min (jsStr_len f) (fillLen - k))) f fillLen (k + jsStr_len f)
      else Some b)"

definition strPad :: "byte list \<Rightarrow> f64 \<Rightarrow> byte list list \<Rightarrow> bool \<Rightarrow> byte list result option" where
  "strPad s maxLength fill atStart =
     (let n = utf16Len s;
          target = f64_min (toInteger maxLength) (f64_of_nat (2 ^ 53 - 1))
      in if \<not> f64_less (f64_of_nat n) target then Some (Inr s)
         else
           let filler = (if length fill > 0 then fill ! 0 else [0x20])
           in if filler = [] then Some (Inr s)
              else case checkLength target of
                     Inl e \<Rightarrow> Some (Inl e)
                   | Inr _ \<Rightarrow>
                       let f = newJSStr filler;
                           fillLen = nat (f64_int target) - n;
                           b = (if \<not> atStart then sb_str [] s else [])
                       in map_option (\<lambda>b. Inr (if atStart then sb_str b s else b)) (pad_loop b f fillLen 0))"

definition StrPadStart :: "byte list \<Rightarrow> f64 \<Rightarrow> byte list list \<Rightarrow> byte list result option" where
  "StrPadStart s maxLength fill = strPad s maxLength fill True"

definition StrPadEnd :: "byte list \<Rightarrow> f64 \<Rightarrow> byte list list \<Rightarrow> byte list result option" where
  "StrPadEnd s maxLength fill = strPad s maxLength fill False"

subsection \<open>repeat\<close>

text \<open>
  The product \<open>float64(utf16Len(s))*k\<close> is read exactly: rounding cannot carry it across the limit,
  which is far below \<open>2^53\<close>.
\<close>

definition StrRepeat :: "byte list \<Rightarrow> f64 \<Rightarrow> byte list result" where
  "StrRepeat s count =
     (let k = toInteger count
      in if f64_less k (Fin 0) \<or> k = PosInf then Inl (Thrown ErrorRange (InvalidCount count))
         else if f64_eq k (Fin 0) \<or> s = [] then Inr []
         else
           and_then (checkLength (f64_mul (f64_of_nat (utf16Len s)) k))
             (\<lambda>_. Inr (if \<not> endsHigh s \<or> \<not> startsLow s then concat (replicate (nat (f64_int k)) s)
                       else ((\<lambda>b. sb_str b s) ^^ nat (f64_int k)) [])))"

subsection \<open>trim\<close>

definition isJSSpace :: "rune \<Rightarrow> bool" where
  "isJSSpace r \<longleftrightarrow>
     r \<in> {9, 10, 11, 12, 13, 0x20, 0xA0, 0x1680, 0x2028, 0x2029, 0x202F, 0x205F, 0x3000, 0xFEFF} \<or>
     (r \<ge> 0x2000 \<and> r \<le> 0x200A)"

text \<open>
  Go's \<open>utf8.DecodeLastRuneInString\<close>, as the standard library has it: back at most four bytes to
  one that starts a rune, which counts if it decodes right up to the end.
\<close>

fun last_start :: "byte list \<Rightarrow> nat \<Rightarrow> nat \<Rightarrow> nat" where
  "last_start s start 0 = start - 1"
| "last_start s 0 left = 0"
| "last_start s (Suc start) (Suc left) =
     (if rune_start (s ! start) then start else last_start s start left)"

definition DecodeLastRuneInString :: "byte list \<Rightarrow> rune \<times> nat" where
  "DecodeLastRuneInString s =
     (let n = length s
      in if n = 0 then (rune_error, 0)
         else if s ! (n - 1) < 0x80 then (unat (s ! (n - 1)), 1)
         else
           let start = last_start s (n - 1) 3;
               (r, size) = decode_rune (drop start s)
           in if start + size \<noteq> n then (rune_error, 1) else (r, size))"

lemma last_start_le: "last_start s i k \<le> i"
  by (induction s i k rule: last_start.induct) auto

lemma last_rune_size:
  assumes "s \<noteq> []" "DecodeLastRuneInString s = (r, k)"
  shows "0 < k"
proof -
  have "last_start s (length s - 1) 3 < length s"
    using last_start_le [of s "length s - 1" 3] assms(1) by (cases s) auto
  with assms show ?thesis
    by (auto simp: DecodeLastRuneInString_def Let_def split: if_splits prod.splits)
qed

function StrTrimStart :: "byte list \<Rightarrow> byte list" where
  "StrTrimStart [] = []"
| "StrTrimStart (b # s) =
     (let (r, size) = decode_rune (b # s)
      in if \<not> isJSSpace r then b # s else StrTrimStart (drop size (b # s)))"
  by pat_completeness auto
termination
proof (relation "measure length")
  fix b :: byte and s r size and x :: "rune \<times> nat"
  assume "x = decode_rune (b # s)" "(r, size) = x"
  with decode_width [of b s] have "0 < size" by (metis snd_conv)
  then show "(drop size (b # s), b # s) \<in> measure length" by simp
qed simp

function StrTrimEnd :: "byte list \<Rightarrow> byte list" where
  "StrTrimEnd s =
     (if s = [] then []
      else
        let (r, size) = DecodeLastRuneInString s
        in if \<not> isJSSpace r then s else StrTrimEnd (take (length s - size) s))"
  by pat_completeness auto
termination
proof (relation "measure length")
  fix s :: "byte list" and x r size
  assume "s \<noteq> []" "x = DecodeLastRuneInString s" "(r, size) = x"
  then have "s \<noteq> []" "0 < size" using last_rune_size [of s r size] by simp_all
  then show "(take (length s - size) s, s) \<in> measure length" by (cases s) auto
qed simp

declare StrTrimStart.simps(2) [simp del] StrTrimEnd.simps [simp del]

definition StrTrim :: "byte list \<Rightarrow> byte list" where
  "StrTrim s = StrTrimEnd (StrTrimStart s)"

subsection \<open>Padding on code units\<close>

text \<open>The filler's units over and over, \<open>n\<close> of them; ECMAScript's ToLength.\<close>

definition filling :: "unit16 list \<Rightarrow> nat \<Rightarrow> unit16 list" where
  "filling us n = map (\<lambda>i. us ! (i mod length us)) [0..<n]"

fun to_length :: "ext_int \<Rightarrow> nat" where
  "to_length MinusInfinity = 0"
| "to_length PlusInfinity = 2 ^ 53 - 1"
| "to_length (Integer i) = nat (min i (2 ^ 53 - 1))"

lemma target_length:
  "f64_less (f64_of_nat n) (f64_min (toInteger x) (f64_of_nat (2 ^ 53 - 1)))
     \<longleftrightarrow> n < to_length (to_integer_or_infinity x)"
  "n < to_length (to_integer_or_infinity x) \<Longrightarrow>
     f64_min (toInteger x) (f64_of_nat (2 ^ 53 - 1)) = f64_of_nat (to_length (to_integer_or_infinity x))"
  by (cases "to_integer_or_infinity x"; auto simp: toInteger_ext f64_min_def f64_of_nat_def)+

lemma slice_filling:
  assumes "us \<noteq> []" "length us dvd k" "k < n"
  shows "slice us 0 (min (length us) (n - k))
    = map (\<lambda>i. us ! (i mod length us)) [k..<min n (k + length us)]"
proof (rule nth_equalityI)
  show "length (slice us 0 (min (length us) (n - k)))
      = length (map (\<lambda>i. us ! (i mod length us)) [k..<min n (k + length us)])"
    using assms by (auto simp: slice_def min_def)
next
  fix i assume "i < length (slice us 0 (min (length us) (n - k)))"
  then have i: "i < length us" "i < n - k" by (auto simp: slice_def)
  obtain j where "k = length us * j" using assms(2) by blast
  then have "(k + i) mod length us = i" using i by simp
  moreover have "[k..<min n (k + length us)] ! i = k + i" using i by (intro nth_upt) simp
  ultimately show "slice us 0 (min (length us) (n - k)) ! i
      = map (\<lambda>i. us ! (i mod length us)) [k..<min n (k + length us)] ! i"
    using i by (simp add: slice_def)
qed

lemma pad_loop_fills:
  assumes "toUnits filler \<noteq> []" "length (toUnits filler) dvd k"
  shows "pad_loop (of_units p) (newJSStr filler) n k
    = Some (of_units (p @ map (\<lambda>i. toUnits filler ! (i mod length (toUnits filler))) [k..<n]))"
  using assms(2)
proof (induction "n - k" arbitrary: k p rule: less_induct)
  case less
  let ?us = "toUnits filler"
  let ?f = "\<lambda>i. ?us ! (i mod length ?us)"
  show ?case
  proof (cases "k < n")
    case True
    have pos: "0 < length ?us" using assms(1) by simp
    have step: "n - (k + length ?us) < n - k" using True pos by linarith
    have "[k..<n] = [k..<min n (k + length ?us)] @ [k + length ?us..<n]"
      by (metis True le_add1 less_imp_le min.absorb_iff2 min_def nat_le_linear upt_add_eq_append upt_conv_Nil self_append_conv le_Suc_ex)
    then show ?thesis
      using less.hyps [OF step, of "p @ map ?f [k..<min n (k + length ?us)]"] less.prems True
      by (subst pad_loop.simps)
        (simp add: jsStr_len_new sb_sub_new slice_filling [OF assms(1) less.prems True])
  next
    case False
    then show ?thesis by (subst pad_loop.simps) simp
  qed
qed

text \<open>ECMAScript's StringPad: what padding makes of code units.\<close>

definition string_pad :: "unit16 list \<Rightarrow> nat \<Rightarrow> unit16 list \<Rightarrow> bool \<Rightarrow> byte list result" where
  "string_pad us target filler atStart =
     (if target \<le> length us \<or> filler = [] then Inr (of_units us)
      else if target > stringLimit then Inl (Thrown ErrorRange (Text ''Invalid string length''))
      else Inr (of_units (if atStart then filling filler (target - length us) @ us
                          else us @ filling filler (target - length us))))"

lemma space_of_units: "[0x20] = of_units [0x20]"
  by (simp add: of_units_single wtf8_def)

lemma f64_of_nat_simps: "nat (f64_int (f64_of_nat n)) = n"
  by simp

lemma strPad_units:
  "strPad (of_units us) maxLength (map of_units fill) atStart
   = Some (string_pad us (to_length (to_integer_or_infinity maxLength))
       (case fill of [] \<Rightarrow> [0x20] | vs # _ \<Rightarrow> vs) atStart)"
proof -
  define t where "t = to_length (to_integer_or_infinity maxLength)"
  define vs where "vs = (case fill of [] \<Rightarrow> [0x20] | vs # _ \<Rightarrow> vs)"
  have f: "(if length (map of_units fill) > 0 then map of_units fill ! 0 else [0x20]) = of_units vs"
    by (cases fill) (simp_all add: vs_def space_of_units)
  show ?thesis
  proof (cases "length us < t")
    case True
    note m = target_length(2) [OF True [unfolded t_def]]
    have p: "pad_loop (of_units p) (newJSStr (of_units vs)) n 0 = Some (of_units (p @ filling vs n))"
      if "vs \<noteq> []" for p n
      using pad_loop_fills [of "of_units vs" 0 p n] that by (simp add: filling_def)
    show ?thesis
      using True p [of us] p [of "[]"] sb_str_of_units [of "[]" us]
      unfolding strPad_def Let_def f utf16Len_eq m t_def [symmetric] vs_def [symmetric]
      by (auto simp: string_pad_def checkLength_def sb_str_of_units)
  next
    case False
    then show ?thesis
      unfolding strPad_def Let_def utf16Len_eq target_length(1) t_def [symmetric] vs_def [symmetric]
      by (simp add: string_pad_def)
  qed
qed

subsection \<open>Repeating on code units\<close>

lemma of_units_replicate:
  assumes "\<not> seam us us"
  shows "of_units (concat (replicate n us)) = concat (replicate n (of_units us))"
proof (induction n)
  case (Suc n)
  have "\<not> seam us (concat (replicate n us))" using assms by (cases n) (auto simp: seam_def)
  with Suc show ?case by (simp add: of_units_append)
qed simp

lemma sb_str_replicate: "((\<lambda>b. sb_str b (of_units us)) ^^ n) [] = of_units (concat (replicate n us))"
proof (induction n)
  case (Suc n)
  have "concat (replicate (Suc n) us) = concat (replicate n us) @ us"
    by (simp only: replicate_Suc replicate_append_same [symmetric] concat_append) simp
  with Suc show ?case by (simp add: sb_str_of_units)
qed simp

lemma seam_halves: "seam us us \<longleftrightarrow> endsHigh (of_units us) \<and> startsLow (of_units us)"
  by (auto simp: seam_def endsHigh_of_units startsLow_of_units)

subsection \<open>Trimming on code units\<close>


lemma surrogate_digits:
  assumes "0xD800 \<le> r" "r \<le> 0xDFFF"
  obtains b c where "32 \<le> b" "b < 64" "c < 64"
    "wtf8 r = [word_of_nat (224 + 13), word_of_nat (128 + b), word_of_nat (128 + c)]"
proof -
  have "r < 0x110000" using assms by simp
  then obtain a b c where abc: "r = (a * 64 + b) * 64 + c" "a < 16" "b < 64" "c < 64" "32 \<le> a * 64 + b"
    using assms by (cases rule: rune_cases) auto
  define q where "q = a * 64 + b"
  have "0xD800 \<le> q * 64 + c" "q * 64 + c \<le> 0xDFFF" using assms abc(1) by (simp_all add: q_def)
  with abc(4) have "864 \<le> q" "q < 896" by linarith+
  then have "864 \<le> a * 64 + b" "a * 64 + b < 896" by (simp_all add: q_def)
  moreover from this abc(3) have "a = 13" by linarith
  ultimately have "a = 13" "32 \<le> b" by simp_all
  with abc wtf8_3 [OF abc(2-5)] show thesis by (intro that [of b c]) simp_all
qed

lemma decode_surrogate:
  assumes "0xD800 \<le> r" "r \<le> 0xDFFF"
  shows "decode_rune (wtf8 r @ s) = (rune_error, 1)"
  using surrogate_digits [OF assms]
  by (cases, simp add: decode_rune.simps byte_order del: of_nat_add)

lemma not_space: "0xD800 \<le> r \<Longrightarrow> r \<le> 0xDFFF \<Longrightarrow> \<not> isJSSpace r" "\<not> isJSSpace rune_error" "0x10000 \<le> r \<Longrightarrow> \<not> isJSSpace r"
  by (auto simp: isJSSpace_def rune_error_def)

lemma trim_start_rune:
  assumes "r < 0x110000"
  shows "StrTrimStart (wtf8 r @ s) = (if isJSSpace r then StrTrimStart s else wtf8 r @ s)"
proof -
  obtain b t where bt: "wtf8 r @ s = b # t" by (cases "wtf8 r @ s") auto
  show ?thesis
  proof (cases "0xD800 \<le> r \<and> r \<le> 0xDFFF")
    case True
    then have "decode_rune (b # t) = (rune_error, 1)" using decode_surrogate [of r s] bt by simp
    then show ?thesis using True bt by (simp add: StrTrimStart.simps not_space)
  next
    case False
    with bt decode_rune_wtf8 [OF assms, of s] have d: "decode_rune (b # t) = (r, length (wtf8 r))" by simp
    have "StrTrimStart (b # t) = (if isJSSpace r then StrTrimStart (drop (length (wtf8 r)) (b # t)) else b # t)"
      by (simp add: StrTrimStart.simps d)
    then show ?thesis by (simp add: bt [symmetric])
  qed
qed

lemma trim_start_encode:
  "\<forall>r \<in> set rs. r < 0x110000 \<Longrightarrow> StrTrimStart (encode rs) = encode (dropWhile isJSSpace rs)"
  by (induction rs) (simp_all add: trim_start_rune)

text \<open>The last character of a string.\<close>

lemma not_start: "b < 64 \<Longrightarrow> \<not> rune_start (word_of_nat (128 + b))"
  using is_cont_iff [of "word_of_nat (128 + b)"] by (simp add: rune_start_def is_cont_def del: of_nat_add)

lemma is_start: "192 \<le> unat b \<Longrightarrow> rune_start b"
  using is_cont_iff [of b] by (simp add: rune_start_def is_cont_def)

lemma nth_after: "(p @ s) ! (length p + i) = s ! i"
  by simp

lemma decode_last_2:
  assumes "192 \<le> unat b0" "128 \<le> unat b1"
  shows "DecodeLastRuneInString (p @ [b0, b1])
    = (let (r, k) = decode_rune [b0, b1] in if k \<noteq> 2 then (rune_error, 1) else (r, k))"
proof -
  have "last_start (p @ [b0, b1]) (Suc (length p)) 3 = length p"
    using is_start [OF assms(1)] by (simp add: numeral_3_eq_3 nth_append)
  with assms(2) show ?thesis
    by (simp add: DecodeLastRuneInString_def Let_def nth_append byte_order)
qed

lemma decode_last_3:
  assumes "192 \<le> unat b0" "\<not> rune_start b1" "128 \<le> unat b2"
  shows "DecodeLastRuneInString (p @ [b0, b1, b2])
    = (let (r, k) = decode_rune [b0, b1, b2] in if k \<noteq> 3 then (rune_error, 1) else (r, k))"
proof -
  have "last_start (p @ [b0, b1, b2]) (Suc (Suc (length p))) 3 = length p"
    using is_start [OF assms(1)] assms(2) by (simp add: numeral_3_eq_3 nth_append)
  with assms(3) show ?thesis
    by (simp add: DecodeLastRuneInString_def Let_def nth_append byte_order)
qed

lemma decode_last_4:
  assumes "192 \<le> unat b0" "\<not> rune_start b1" "\<not> rune_start b2" "128 \<le> unat b3"
  shows "DecodeLastRuneInString (p @ [b0, b1, b2, b3])
    = (let (r, k) = decode_rune [b0, b1, b2, b3] in if k \<noteq> 4 then (rune_error, 1) else (r, k))"
proof -
  have "last_start (p @ [b0, b1, b2, b3]) (Suc (Suc (Suc (length p)))) 3 = length p"
    using is_start [OF assms(1)] assms(2,3) by (simp add: numeral_3_eq_3 nth_append)
  with assms(4) show ?thesis
    by (simp add: DecodeLastRuneInString_def Let_def nth_append byte_order)
qed

lemma decode_last_rune:
  assumes "r < 0x110000"
  shows "DecodeLastRuneInString (p @ wtf8 r)
    = (if 0xD800 \<le> r \<and> r \<le> 0xDFFF then (rune_error, 1) else (r, length (wtf8 r)))"
proof -
  have d: "decode_rune (wtf8 r) = (if 0xD800 \<le> r \<and> r \<le> 0xDFFF then (rune_error, 1) else (r, length (wtf8 r)))"
    using decode_surrogate [of r "[]"] decode_rune_wtf8 [OF assms, of "[]"] by simp
  show ?thesis using assms
  proof (cases rule: rune_cases)
    case one
    then show ?thesis by (simp add: wtf8_1 DecodeLastRuneInString_def byte_order)
  next
    case (two a b)
    then have w: "wtf8 r = [word_of_nat (192 + a), word_of_nat (128 + b)]" by (simp add: wtf8_2 del: of_nat_add)
    show ?thesis using two d unfolding w by (subst decode_last_2) (auto simp: Let_def simp del: of_nat_add)
  next
    case (three a b c)
    then have w: "wtf8 r = [word_of_nat (224 + a), word_of_nat (128 + b), word_of_nat (128 + c)]" by (simp add: wtf8_3 del: of_nat_add distrib_right_numeral)
    show ?thesis using three(2-4) d not_start unfolding w
      by (subst decode_last_3) (auto simp: Let_def simp del: of_nat_add)
  next
    case (four a b c d)
    then have w: "wtf8 r = [word_of_nat (240 + a), word_of_nat (128 + b), word_of_nat (128 + c), word_of_nat (128 + d)]"
      by (simp add: wtf8_4 del: of_nat_add distrib_right_numeral)
    show ?thesis using four(2-5) \<open>decode_rune (wtf8 r) = _\<close> not_start unfolding w
      by (subst decode_last_4) (auto simp: Let_def simp del: of_nat_add)
  qed
qed

lemma trim_end_rune:
  assumes "r < 0x110000"
  shows "StrTrimEnd (p @ wtf8 r) = (if isJSSpace r then StrTrimEnd p else p @ wtf8 r)"
  using decode_last_rune [OF assms, of p] by (subst StrTrimEnd.simps) (auto simp: not_space)

definition trim_right :: "('a \<Rightarrow> bool) \<Rightarrow> 'a list \<Rightarrow> 'a list" where
  "trim_right P xs = rev (dropWhile P (rev xs))"

lemma trim_right_simps [simp]:
  "trim_right P [] = []" "trim_right P (xs @ [x]) = (if P x then trim_right P xs else xs @ [x])"
  by (simp_all add: trim_right_def)

lemma encode_append: "encode (rs @ ts) = encode rs @ encode ts"
  by (simp add: encode_def)

lemma trim_end_encode:
  "\<forall>r \<in> set rs. r < 0x110000 \<Longrightarrow> StrTrimEnd (encode rs) = encode (trim_right isJSSpace rs)"
proof (induction rs rule: rev_induct)
  case Nil
  show ?case by (subst StrTrimEnd.simps) simp
qed (auto simp: encode_append trim_end_rune)

subsection \<open>Properties\<close>

text \<open>The units trim removes.\<close>

definition space_unit :: "unit16 \<Rightarrow> bool" where
  "space_unit u = isJSSpace (unat u)"

lemma drop_spaces: "dropWhile isJSSpace (pair_up us) = pair_up (dropWhile space_unit us)"
proof (induction us rule: pair_up.induct)
  case (1 u v us)
  then show ?case by (auto simp: space_unit_def is_high_def not_space)
qed (simp_all add: space_unit_def)

lemma last_pair_space:
  "us \<noteq> [] \<Longrightarrow> isJSSpace (last (pair_up us)) \<longleftrightarrow> space_unit (last us)"
proof (induction us rule: pair_up.induct)
  case (1 u v us)
  have "\<not> space_unit v" if "is_low (unat v)"
    using that by (auto simp: space_unit_def is_low_def not_space)
  with 1 show ?case by (cases us) (auto simp: not_space)
qed (simp_all add: space_unit_def)

lemma trim_spaces: "trim_right isJSSpace (pair_up us) = pair_up (trim_right space_unit us)"
proof (induction us rule: rev_induct)
  case (snoc u us)
  show ?case
  proof (cases "space_unit u")
    case True
    then have "\<not> seam us [u]" by (auto simp: seam_def space_unit_def is_low_def not_space)
    then have "pair_up (us @ [u]) = pair_up us @ [unat u]" by (simp add: pair_up_append)
    with True snoc show ?thesis by (simp add: space_unit_def)
  next
    case False
    then have "\<not> isJSSpace (last (pair_up (us @ [u])))" by (simp add: last_pair_space)
    then have "trim_right isJSSpace (pair_up (us @ [u])) = pair_up (us @ [u])"
      by (cases "pair_up (us @ [u])" rule: rev_cases) simp_all
    with False show ?thesis by simp
  qed
qed simp

text \<open>
  C28: \<open>padStart\<close> and \<open>padEnd\<close> return, and are ECMAScript's StringPad on code units: a string at
  least as long as asked, or an empty filler, leaves it as it is; a target past V8's limit is a
  RangeError; otherwise the filler is repeated and cut, between the halves of a pair if need be,
  so that the result has exactly the length asked for.
\<close>

theorem pad_units:
  "(StrPadStart (of_units us) maxLength (map of_units fill), StrPadEnd (of_units us) maxLength (map of_units fill))
   = (let target = to_length (to_integer_or_infinity maxLength);
          filler = (case fill of [] \<Rightarrow> [0x20] | vs # _ \<Rightarrow> vs)
      in (Some (string_pad us target filler True), Some (string_pad us target filler False)))"
  by (simp add: StrPadStart_def StrPadEnd_def strPad_units Let_def)

text \<open>
  \<open>repeat\<close> is ECMAScript's on code units: a negative or infinite count, or a result longer
  than V8's limit, is a RangeError; otherwise the units are those of \<open>k\<close> copies, the halves that
  meet where two copies join included.
\<close>

theorem repeat_units:
  "StrRepeat (of_units us) count
   = (case to_integer_or_infinity count of
        Integer k \<Rightarrow>
          if k < 0 then Inl (Thrown ErrorRange (InvalidCount count))
          else if int stringLimit < int (length us) * k
          then Inl (Thrown ErrorRange (Text ''Invalid string length''))
          else Inr (of_units (concat (replicate (nat k) us)))
      | _ \<Rightarrow> Inl (Thrown ErrorRange (InvalidCount count)))"
proof (cases "to_integer_or_infinity count")
  case (Integer k)
  consider "k < 0" | "k = 0" | "us = []" "0 < k" | "us \<noteq> []" "0 < k" by fastforce
  then show ?thesis
  proof cases
    case 4
    have m: "f64_mul (f64_of_nat (length us)) (Fin (of_int k)) = Fin (of_int (int (length us) * k))"
      using 4 by (simp add: f64_mul_def f64_of_nat_def f64_is_inf_def)
    have l: "f64_less (f64_of_nat stringLimit) (Fin (of_int (int (length us) * k))) \<longleftrightarrow> int stringLimit < int (length us) * k"
      unfolding f64_of_nat_def f64_less.simps by (metis of_int_less_iff of_int_of_nat_eq)
    have c: "(if \<not> endsHigh (of_units us) \<or> \<not> startsLow (of_units us) then concat (replicate (nat k) (of_units us))
        else ((\<lambda>b. sb_str b (of_units us)) ^^ nat k) []) = of_units (concat (replicate (nat k) us))"
      using of_units_replicate [of us "nat k"] seam_halves [of us] by (auto simp: sb_str_replicate)
    have "StrRepeat (of_units us) count
      = and_then (checkLength (f64_mul (f64_of_nat (length us)) (Fin (of_int k))))
          (\<lambda>_. Inr (if \<not> endsHigh (of_units us) \<or> \<not> startsLow (of_units us) then concat (replicate (nat k) (of_units us))
            else ((\<lambda>b. sb_str b (of_units us)) ^^ nat k) []))"
      using 4 by (simp add: StrRepeat_def toInteger_ext Integer utf16Len_eq Let_def)
    then show ?thesis using 4 unfolding c m checkLength_def l by (simp add: Integer)
  qed (auto simp: StrRepeat_def toInteger_ext Integer)
qed (simp_all add: StrRepeat_def toInteger_ext)


end
