(* ===== verification/StrAcc.thy ===== *)
theory StrAcc
  imports StrOps
begin

text \<open>
  The accumulator beside a string the program appends to, \<open>backend/runtime/str_acc.go\<close>. It extends
  a string in place, through \<open>unsafe\<close>, so the model has the memory: allocations of bytes, strings
  and slices that point into them, and writes that overwrite. The theorem is that no program can
  tell: over every history of appends, to any number of bindings, of copies and substrings held
  elsewhere, every string keeps its value and an append makes what \<open>StrConcat\<close> makes.
\<close>

subsection \<open>Memory\<close>

text \<open>A string points into an allocation; a slice starts at one, and its capacity is all of it.\<close>

type_synonym memory = "byte list list"

record string_ref =
  sr_base :: nat
  sr_off :: nat
  sr_len :: nat

record byte_slice =
  bs_base :: nat
  bs_len :: nat

definition string_value :: "memory \<Rightarrow> string_ref \<Rightarrow> byte list" where
  "string_value m s = slice (m ! sr_base s) (sr_off s) (sr_off s + sr_len s)"

definition new_string :: "memory \<Rightarrow> byte list \<Rightarrow> memory \<times> string_ref" where
  "new_string m v = (m @ [v], \<lparr>sr_base = length m, sr_off = 0, sr_len = length v\<rparr>)"

definition slice_cap :: "memory \<Rightarrow> byte_slice \<Rightarrow> nat" where
  "slice_cap m b = length (m ! bs_base b)"

definition slice_value :: "memory \<Rightarrow> byte_slice \<Rightarrow> byte list" where
  "slice_value m b = take (bs_len b) (m ! bs_base b)"

text \<open>Go's \<open>make([]byte, len, cap)\<close>, and \<open>append\<close>, in place where the capacity allows.\<close>

definition make_slice :: "memory \<Rightarrow> nat \<Rightarrow> nat \<Rightarrow> memory \<times> byte_slice" where
  "make_slice m len cap = (m @ [replicate cap 0], \<lparr>bs_base = length m, bs_len = len\<rparr>)"

definition write_at :: "byte list \<Rightarrow> nat \<Rightarrow> byte list \<Rightarrow> byte list" where
  "write_at xs n ys = take n xs @ ys @ drop (n + length ys) xs"

definition go_append :: "memory \<Rightarrow> byte_slice \<Rightarrow> byte list \<Rightarrow> memory \<times> byte_slice" where
  "go_append m b v =
     (if bs_len b + length v \<le> slice_cap m b
      then (m[bs_base b := write_at (m ! bs_base b) (bs_len b) v], b\<lparr>bs_len := bs_len b + length v\<rparr>)
      else (m @ [slice_value m b @ v], \<lparr>bs_base = length m, bs_len = bs_len b + length v\<rparr>))"

subsection \<open>StrAcc\<close>

record StrAcc =
  acc_buf :: byte_slice
  acc_tip :: "nat option"
  acc_asc :: bool

definition accMin :: nat where "accMin = 256"

definition new_acc :: StrAcc where
  "new_acc = \<lparr>acc_buf = \<lparr>bs_base = 0, bs_len = 0\<rparr>, acc_tip = None, acc_asc = False\<rparr>"

definition newest :: "StrAcc \<Rightarrow> string_ref \<Rightarrow> bool" where
  "newest a s \<longleftrightarrow> acc_tip a = Some (sr_base s) \<and> sr_off s = 0 \<and> sr_len s = bs_len (acc_buf a)"

fun seam_from :: "bool \<Rightarrow> byte list list \<Rightarrow> bool" where
  "seam_from high [] = False"
| "seam_from high (p # parts) =
     (if p \<noteq> [] then if high \<and> startsLow p then True else seam_from (endsHigh p) parts
      else seam_from high parts)"

definition seamJoins :: "byte list \<Rightarrow> byte list list \<Rightarrow> bool" where
  "seamJoins s parts = seam_from (s \<noteq> [] \<and> endsHigh s) parts"

text \<open>
  The parts appended to the buffer one by one. A part may lie in the buffer itself, so each is
  read from the memory as the writes before it left it.
\<close>

fun append_parts :: "memory \<Rightarrow> StrAcc \<Rightarrow> string_ref list \<Rightarrow> memory \<times> StrAcc" where
  "append_parts m a [] = (m, a)"
| "append_parts m a (p # parts) =
     (let v = string_value m p;
          asc = (if acc_asc a \<and> \<not> isASCII v then False else acc_asc a);
          (m, buf) = go_append m (acc_buf a) v
      in append_parts m (a\<lparr>acc_asc := asc, acc_buf := buf\<rparr>) parts)"

text \<open>The buffer with the bytes of \<open>s\<close>, its own or a new one's, then with room for \<open>total_len\<close>.\<close>

definition begin_buffer :: "memory \<Rightarrow> StrAcc \<Rightarrow> string_ref \<Rightarrow> nat \<Rightarrow> memory \<times> StrAcc" where
  "begin_buffer m a s total_len =
     (if \<not> newest a s
      then let (m, buf) = make_slice m 0 (2 * total_len);
               (m, buf) = go_append m buf (string_value m s)
           in (m, a\<lparr>acc_buf := buf, acc_asc := isASCII (string_value m s)\<rparr>)
      else (m, a))"

definition grow_buffer :: "memory \<Rightarrow> StrAcc \<Rightarrow> nat \<Rightarrow> memory \<times> StrAcc" where
  "grow_buffer m a total_len =
     (if total_len > slice_cap m (acc_buf a)
      then let old = slice_value m (acc_buf a);
               (m, grown) = make_slice m (bs_len (acc_buf a)) (2 * total_len)
           in (m[bs_base grown := write_at (m ! bs_base grown) 0 old], a\<lparr>acc_buf := grown\<rparr>)
      else (m, a))"

definition Append :: "memory \<Rightarrow> StrAcc \<Rightarrow> string_ref \<Rightarrow> string_ref list
    \<Rightarrow> memory \<times> StrAcc \<times> string_ref result" where
  "Append m a s parts =
     (let total_len = sr_len s + sum_list (map sr_len parts)
      in if total_len < accMin \<or> total_len > stringLimit \<or> seamJoins (string_value m s) (map (string_value m) parts)
         then
           let a = a\<lparr>acc_tip := None\<rparr>
           in if parts = [] then (m, a, Inr s)
              else case StrConcat (map (string_value m) (s # parts)) of
                     Inl e \<Rightarrow> (m, a, Inl e)
                   | Inr v \<Rightarrow> let (m, r) = new_string m v in (m, a, Inr r)
         else
           let (m, a) = begin_buffer m a s total_len;
               (m, a) = grow_buffer m a total_len;
               (m, a) = append_parts m a parts
           in (m, a\<lparr>acc_tip := Some (bs_base (acc_buf a))\<rparr>,
               Inr \<lparr>sr_base = bs_base (acc_buf a), sr_off = 0, sr_len = bs_len (acc_buf a)\<rparr>))"

definition Length :: "memory \<Rightarrow> StrAcc \<Rightarrow> string_ref \<Rightarrow> f64" where
  "Length m a s =
     (if acc_asc a \<and> newest a s then f64_of_nat (sr_len s) else StrLength (string_value m s))"

subsection \<open>The history of a program's strings\<close>

text \<open>
  What a program can do: make a string, cut one, add a binding with an accumulator, append to a
  binding's string (any string it holds, with any parts), ask a length. \<open>Append\<close> and \<open>Length\<close>
  report to the last component. Beside it, the same on values that cannot change.
\<close>

datatype acc_op = Make "byte list" | Sub nat nat nat | Bind | App nat nat "nat list" | Len nat nat

type_synonym acc_state = "memory \<times> StrAcc list \<times> string_ref list \<times> f64 result list"
type_synonym value_state = "nat \<times> byte list list \<times> f64 result list"

fun acc_do :: "acc_op \<Rightarrow> acc_state \<Rightarrow> acc_state" where
  "acc_do (Make v) (m, accs, refs, out) =
     (let (m, r) = new_string m v in (m, accs, refs @ [r], out))"
| "acc_do (Sub k i j) (m, accs, refs, out) =
     (if k < length refs \<and> i \<le> j \<and> j \<le> sr_len (refs ! k)
      then (m, accs, refs @ [(refs ! k)\<lparr>sr_off := sr_off (refs ! k) + i, sr_len := j - i\<rparr>], out)
      else (m, accs, refs, out))"
| "acc_do Bind (m, accs, refs, out) = (m, accs @ [new_acc], refs, out)"
| "acc_do (App i k ks) (m, accs, refs, out) =
     (if i < length accs \<and> list_all (\<lambda>k. k < length refs) (k # ks)
      then case Append m (accs ! i) (refs ! k) (map ((!) refs) ks) of
             (m, a, Inl e) \<Rightarrow> (m, accs[i := a], refs, out @ [Inl e])
           | (m, a, Inr r) \<Rightarrow> (m, accs[i := a], refs @ [r], out)
      else (m, accs, refs, out))"
| "acc_do (Len i k) (m, accs, refs, out) =
     (if i < length accs \<and> k < length refs
      then (m, accs, refs, out @ [Inr (Length m (accs ! i) (refs ! k))])
      else (m, accs, refs, out))"

fun value_do :: "acc_op \<Rightarrow> value_state \<Rightarrow> value_state" where
  "value_do (Make v) (n, vs, out) = (n, vs @ [v], out)"
| "value_do (Sub k i j) (n, vs, out) =
     (if k < length vs \<and> i \<le> j \<and> j \<le> length (vs ! k) then (n, vs @ [slice (vs ! k) i j], out)
      else (n, vs, out))"
| "value_do Bind (n, vs, out) = (n + 1, vs, out)"
| "value_do (App i k ks) (n, vs, out) =
     (if i < n \<and> list_all (\<lambda>k. k < length vs) (k # ks)
      then case StrConcat (map ((!) vs) (k # ks)) of
             Inl e \<Rightarrow> (n, vs, out @ [Inl e])
           | Inr v \<Rightarrow> (n, vs @ [v], out)
      else (n, vs, out))"
| "value_do (Len i k) (n, vs, out) =
     (if i < n \<and> k < length vs then (n, vs, out @ [Inr (StrLength (vs ! k))]) else (n, vs, out))"

subsection \<open>Writes that no string can see\<close>

definition ref_ok :: "memory \<Rightarrow> string_ref \<Rightarrow> bool" where
  "ref_ok m r \<longleftrightarrow> sr_base r < length m \<and> sr_off r + sr_len r \<le> length (m ! sr_base r)"

text \<open>No string reaches past byte \<open>n\<close> of an allocation.\<close>

definition sees_upto :: "string_ref list \<Rightarrow> nat \<Rightarrow> nat \<Rightarrow> bool" where
  "sees_upto refs b n \<longleftrightarrow> (\<forall>r \<in> set refs. sr_base r = b \<longrightarrow> sr_off r + sr_len r \<le> n)"

text \<open>A buffer that holds the bytes \<open>v\<close> and that strings see no more of.\<close>

definition buffer_ok :: "memory \<Rightarrow> string_ref list \<Rightarrow> StrAcc \<Rightarrow> byte list \<Rightarrow> bool" where
  "buffer_ok m refs a v \<longleftrightarrow>
     bs_base (acc_buf a) < length m \<and> bs_len (acc_buf a) = length v \<and>
     length v \<le> slice_cap m (acc_buf a) \<and> slice_value m (acc_buf a) = v \<and>
     sees_upto refs (bs_base (acc_buf a)) (length v) \<and> (acc_asc a \<longrightarrow> isASCII v)"

definition acc_ok :: "memory \<Rightarrow> string_ref list \<Rightarrow> StrAcc \<Rightarrow> bool" where
  "acc_ok m refs a \<longleftrightarrow>
     (case acc_tip a of
        None \<Rightarrow> True
      | Some t \<Rightarrow> t = bs_base (acc_buf a) \<and> buffer_ok m refs a (slice_value m (acc_buf a)))"

lemma length_string_value [simp]: "ref_ok m r \<Longrightarrow> length (string_value m r) = sr_len r"
  by (auto simp: ref_ok_def string_value_def slice_def)

lemma string_value_append [simp]: "ref_ok m r \<Longrightarrow> string_value (m @ xs) r = string_value m r"
  by (simp add: ref_ok_def string_value_def nth_append)

lemma ref_ok_append [simp]: "ref_ok m r \<Longrightarrow> ref_ok (m @ xs) r"
  by (simp add: ref_ok_def nth_append)

lemma length_write_at [simp]: "n + length ys \<le> length xs \<Longrightarrow> length (write_at xs n ys) = length xs"
  by (simp add: write_at_def)

lemma take_write_at: "k \<le> n \<Longrightarrow> n \<le> length xs \<Longrightarrow> take k (write_at xs n ys) = take k xs"
  by (simp add: write_at_def min_def)

lemma take_write_at_end: "n \<le> length xs \<Longrightarrow> take (n + length ys) (write_at xs n ys) = take n xs @ ys"
  by (simp add: write_at_def)

lemma write_at_write_at:
  "n + length ys \<le> length xs \<Longrightarrow> write_at (write_at xs n ys) (n + length ys) zs = write_at xs n (ys @ zs)"
  by (simp add: write_at_def ac_simps)

lemma slice_take: "j \<le> n \<Longrightarrow> slice (take n xs) i j = slice xs i j"
  by (auto simp: slice_def take_drop min_def)

lemma slice_write_at: "j \<le> n \<Longrightarrow> n \<le> length xs \<Longrightarrow> slice (write_at xs n ys) i j = slice xs i j"
  by (metis slice_take take_write_at order_refl)

text \<open>A write past what the strings see of an allocation.\<close>

definition overwrite :: "memory \<Rightarrow> byte_slice \<Rightarrow> byte list \<Rightarrow> memory" where
  "overwrite m b v = m[bs_base b := write_at (m ! bs_base b) (bs_len b) v]"

lemma string_value_overwrite:
  assumes "ref_ok m r" "sr_base r = bs_base b \<longrightarrow> sr_off r + sr_len r \<le> bs_len b" "bs_len b \<le> slice_cap m b"
  shows "string_value (overwrite m b v) r = string_value m r"
  using assms by (cases "sr_base r = bs_base b")
    (simp_all add: string_value_def overwrite_def ref_ok_def slice_cap_def slice_write_at)

lemma ref_ok_overwrite [simp]:
  "ref_ok m r \<Longrightarrow> bs_len b + length v \<le> slice_cap m b \<Longrightarrow> ref_ok (overwrite m b v) r"
  by (cases "sr_base r = bs_base b") (auto simp: ref_ok_def overwrite_def slice_cap_def)

lemma overwrite_overwrite:
  assumes "bs_base b < length m" "bs_len b + length v \<le> slice_cap m b"
  shows "overwrite (overwrite m b v) (b\<lparr>bs_len := bs_len b + length v\<rparr>) w = overwrite m b (v @ w)"
  using assms by (simp add: overwrite_def slice_cap_def write_at_write_at)

lemma append_parts_overwrites:
  assumes "bs_base (acc_buf a) < length m" "list_all (ref_ok m) parts"
    "sees_upto parts (bs_base (acc_buf a)) (bs_len (acc_buf a))"
    "bs_len (acc_buf a) + sum_list (map sr_len parts) \<le> slice_cap m (acc_buf a)"
  shows "append_parts m a parts
    = (overwrite m (acc_buf a) (concat (map (string_value m) parts)),
       a\<lparr>acc_buf := (acc_buf a)\<lparr>bs_len := bs_len (acc_buf a) + sum_list (map sr_len parts)\<rparr>,
         acc_asc := acc_asc a \<and> list_all (\<lambda>p. isASCII (string_value m p)) parts\<rparr>)"
  using assms
proof (induction parts arbitrary: m a)
  case Nil
  then show ?case by (simp add: overwrite_def write_at_def)
next
  case (Cons p parts)
  define v b where "v = string_value m p" and "b = acc_buf a"
  define m1 where "m1 = overwrite m b v"
  define a1 where "a1 = a\<lparr>acc_asc := (if acc_asc a \<and> \<not> isASCII v then False else acc_asc a),
    acc_buf := b\<lparr>bs_len := bs_len b + length v\<rparr>\<rparr>"
  have p: "ref_ok m p" "length v = sr_len p" using Cons.prems(2) by (simp_all add: v_def)
  have room: "bs_len b + length v \<le> slice_cap m b" and b: "bs_base b < length m"
    using Cons.prems(1,4) p(2) by (simp_all add: b_def)
  have g: "go_append m b v = (m1, b\<lparr>bs_len := bs_len b + length v\<rparr>)"
    using room by (simp add: go_append_def m1_def overwrite_def)
  have len: "length m1 = length m" "slice_cap m1 (acc_buf a1) = slice_cap m b"
    using room b by (simp_all add: m1_def a1_def overwrite_def slice_cap_def)
  have vals: "string_value m1 q = string_value m q" if "q \<in> set parts" for q
    unfolding m1_def
    by (rule string_value_overwrite) (use that Cons.prems(2,3) room in \<open>auto simp: list_all_iff sees_upto_def b_def\<close>)
  have "append_parts m1 a1 parts
    = (overwrite m1 (acc_buf a1) (concat (map (string_value m1) parts)),
       a1\<lparr>acc_buf := (acc_buf a1)\<lparr>bs_len := bs_len (acc_buf a1) + sum_list (map sr_len parts)\<rparr>,
         acc_asc := acc_asc a1 \<and> list_all (\<lambda>p. isASCII (string_value m1 p)) parts\<rparr>)"
  proof (rule Cons.IH)
    show "list_all (ref_ok m1) parts" using Cons.prems(2) room by (auto simp: list_all_iff m1_def)
    show "sees_upto parts (bs_base (acc_buf a1)) (bs_len (acc_buf a1))"
      using Cons.prems(3) by (auto simp: sees_upto_def a1_def b_def)
  qed (use b Cons.prems(4) p(2) len in \<open>simp_all add: a1_def b_def\<close>)
  moreover have "map (string_value m1) parts = map (string_value m) parts"
    "list_all (\<lambda>p. isASCII (string_value m1 p)) parts = list_all (\<lambda>p. isASCII (string_value m p)) parts"
    using vals by (auto simp: list_all_iff)
  moreover have "overwrite m1 (acc_buf a1) w = overwrite m b (v @ w)" for w
    using overwrite_overwrite [OF b room] by (simp add: m1_def a1_def)
  ultimately show ?case
    using p(2) by (cases "acc_asc a"; cases "isASCII v") (simp_all add: g [unfolded b_def] v_def [symmetric] a1_def b_def add.assoc Let_def)
qed

text \<open>The steps to a buffer with room: strings keep their values, and none reaches past the bytes.\<close>

lemma buffer_new:
  assumes "list_all (ref_ok m) refs" "length v \<le> length xs" "take (length v) xs = v" "acc_asc a \<longrightarrow> isASCII v"
    "acc_buf a = \<lparr>bs_base = length m, bs_len = length v\<rparr>"
  shows "buffer_ok (m @ [xs]) refs a v"
  using assms by (auto simp: buffer_ok_def slice_cap_def slice_value_def sees_upto_def list_all_iff ref_ok_def)

lemma begin_buffer_ok:
  assumes refs: "list_all (ref_ok m) refs" and s: "s \<in> set refs" and a: "acc_ok m refs a"
    and total_len: "sr_len s \<le> total_len"
  obtains xs a' where "begin_buffer m a s total_len = (m @ xs, a')"
    "buffer_ok (m @ xs) refs a' (string_value m s)"
    "acc_tip a = Some (bs_base (acc_buf a')) \<or> length m \<le> bs_base (acc_buf a')"
proof -
  let ?v = "string_value m s"
  have so: "ref_ok m s" using refs s by (simp add: list_all_iff)
  show thesis
  proof (cases "newest a s")
    case True
    then have t: "acc_tip a = Some (sr_base s)" "sr_off s = 0" "sr_len s = bs_len (acc_buf a)"
      by (simp_all add: newest_def)
    then have b: "bs_base (acc_buf a) = sr_base s" "buffer_ok m refs a (slice_value m (acc_buf a))"
      using a by (simp_all add: acc_ok_def)
    have "slice_value m (acc_buf a) = ?v"
      using t b by (simp add: slice_value_def string_value_def slice_def)
    with True t b that [of "[]" a] show thesis by (simp add: begin_buffer_def)
  next
    case False
    define xs where "xs = write_at (replicate (2 * total_len) 0) 0 ?v"
    define a' where "a' = a\<lparr>acc_buf := \<lparr>bs_base = length m, bs_len = sr_len s\<rparr>, acc_asc := isASCII ?v\<rparr>"
    have len: "length ?v = sr_len s" using so by simp
    have "begin_buffer m a s total_len = (m @ [xs], a')"
      using False total_len so len
      by (simp add: begin_buffer_def make_slice_def go_append_def slice_cap_def xs_def a'_def Let_def)
    moreover have "buffer_ok (m @ [xs]) refs a' ?v"
      using refs len total_len by (intro buffer_new) (simp_all add: a'_def xs_def write_at_def)
    ultimately show thesis using that [of "[xs]" a'] by (simp add: a'_def)
  qed
qed

lemma grow_buffer_ok:
  assumes refs: "list_all (ref_ok m) refs" and b: "buffer_ok m refs a v" and total_len: "length v \<le> total_len"
  obtains xs a' where "grow_buffer m a total_len = (m @ xs, a')" "buffer_ok (m @ xs) refs a' v"
    "total_len \<le> slice_cap (m @ xs) (acc_buf a')"
    "acc_buf a' = acc_buf a \<or> length m \<le> bs_base (acc_buf a')"
proof (cases "total_len > slice_cap m (acc_buf a)")
  case True
  define xs where "xs = write_at (replicate (2 * total_len) 0) 0 v"
  define a' where "a' = a\<lparr>acc_buf := \<lparr>bs_base = length m, bs_len = length v\<rparr>\<rparr>"
  have "grow_buffer m a total_len = (m @ [xs], a')"
    using True b total_len by (simp add: grow_buffer_def make_slice_def Let_def xs_def a'_def buffer_ok_def)
  moreover have "buffer_ok (m @ [xs]) refs a' v"
    using refs b total_len by (intro buffer_new) (simp_all add: a'_def xs_def write_at_def buffer_ok_def)
  ultimately show thesis
    using that [of "[xs]" a'] total_len by (simp add: a'_def slice_cap_def xs_def write_at_def)
next
  case False
  with that [of "[]" a] b show thesis by (simp add: grow_buffer_def)
qed

text \<open>An append in place, on what the strings and the other accumulators see.\<close>

lemma isASCII_append: "isASCII (a @ b) \<longleftrightarrow> isASCII a \<and> isASCII b"
  by (auto simp: isASCII_iff)

lemma isASCII_concat: "isASCII (concat vs) \<longleftrightarrow> list_all isASCII vs"
  by (auto simp: isASCII_iff list_all_iff)

lemma StrConcat_plain:
  assumes "\<not> seamJoins v vs" "length v + sum_list (map length vs) \<le> stringLimit"
  shows "StrConcat (v # vs) = Inr (v @ concat vs)"
proof -
  have "joins_from [] first high vs = seam_from high vs" for first high
    by (induction vs arbitrary: first high) (auto simp: Let_def)
  then have "\<not> joinsHalves (v # vs) []" using assms(1)
    by (cases "v = []") (simp_all add: joinsHalves_def seamJoins_def Let_def)
  with assms(2) show ?thesis by (cases vs) (simp_all add: StrConcat_def joinStrings_def)
qed

definition accs_ok :: "memory \<Rightarrow> string_ref list \<Rightarrow> StrAcc list \<Rightarrow> bool" where
  "accs_ok m refs accs \<longleftrightarrow>
     list_all (acc_ok m refs) accs \<and>
     (\<forall>i < length accs. \<forall>j < length accs. i \<noteq> j \<longrightarrow> acc_tip (accs ! i) \<noteq> None \<longrightarrow> acc_tip (accs ! i) \<noteq> acc_tip (accs ! j))"

text \<open>
  What an append does to the rest: it reports what \<open>StrConcat\<close> makes, the memory keeps every
  string, and an accumulator with another tip keeps its buffer.
\<close>

lemma acc_ok_other:
  assumes "acc_ok m refs a" "\<And>t. acc_tip a = Some t \<Longrightarrow> t < length m \<Longrightarrow> t < length m' \<and> m' ! t = m ! t"
    "\<And>t. acc_tip a = Some t \<Longrightarrow> sees_upto new t (bs_len (acc_buf a))"
  shows "acc_ok m' (refs @ new) a"
proof (cases "acc_tip a")
  case (Some t)
  with assms(1) have "t = bs_base (acc_buf a)" "t < length m" by (simp_all add: acc_ok_def buffer_ok_def)
  with Some assms show ?thesis
    by (auto simp: acc_ok_def buffer_ok_def slice_value_def slice_cap_def sees_upto_def)
qed (simp add: acc_ok_def)

lemma acc_ok_new_string:
  assumes "acc_ok m refs a"
  shows "acc_ok (m @ [v]) (refs @ [\<lparr>sr_base = length m, sr_off = 0, sr_len = length v\<rparr>]) a"
proof (rule acc_ok_other [OF assms])
  fix t assume "acc_tip a = Some t"
  with assms show "sees_upto [\<lparr>sr_base = length m, sr_off = 0, sr_len = length v\<rparr>] t (bs_len (acc_buf a))"
    by (auto simp: sees_upto_def acc_ok_def buffer_ok_def)
qed (simp add: nth_append)

lemma Append_in_place:
  assumes refs: "list_all (ref_ok m) refs" and s: "s \<in> set refs" and parts: "set parts \<subseteq> set refs"
    and a: "acc_ok m refs a"
    and total_len: "total_len = sr_len s + sum_list (map sr_len parts)" "accMin \<le> total_len" "total_len \<le> stringLimit"
    and seam: "\<not> seamJoins (string_value m s) (map (string_value m) parts)"
  obtains m' a' r where "Append m a s parts = (m', a', Inr r)"
    "list_all (ref_ok m') (refs @ [r])" "map (string_value m') refs = map (string_value m) refs"
    "string_value m' r = string_value m s @ concat (map (string_value m) parts)"
    "acc_ok m' (refs @ [r]) a'" "acc_tip a' = Some (sr_base r)"
    "acc_tip a = Some (sr_base r) \<or> length m \<le> sr_base r"
    "\<And>t. t < length m \<Longrightarrow> t \<noteq> sr_base r \<Longrightarrow> t < length m' \<and> m' ! t = m ! t"
proof -
  let ?v = "string_value m s" and ?w = "concat (map (string_value m) parts)"
  obtain xs a1 where 1: "begin_buffer m a s total_len = (m @ xs, a1)" "buffer_ok (m @ xs) refs a1 ?v"
    "acc_tip a = Some (bs_base (acc_buf a1)) \<or> length m \<le> bs_base (acc_buf a1)"
    by (rule begin_buffer_ok [OF refs s a, of total_len]) (use total_len in simp_all)
  have ref_s: "ref_ok m s" and ref_parts: "list_all (ref_ok m) parts"
    using refs s parts by (auto simp: list_all_iff)
  have refs1: "list_all (ref_ok (m @ xs)) refs" using refs by (auto simp: list_all_iff)
  have len_v: "length ?v = sr_len s" using ref_s by simp
  obtain ys a2 where 2: "grow_buffer (m @ xs) a1 total_len = ((m @ xs) @ ys, a2)" "buffer_ok ((m @ xs) @ ys) refs a2 ?v"
    "total_len \<le> slice_cap ((m @ xs) @ ys) (acc_buf a2)"
    "acc_buf a2 = acc_buf a1 \<or> length (m @ xs) \<le> bs_base (acc_buf a2)"
    by (rule grow_buffer_ok [OF refs1 1(2), of total_len]) (use total_len len_v in simp_all)
  define m2 b where "m2 = m @ xs @ ys" and "b = acc_buf a2"
  have m2: "(m @ xs) @ ys = m2" by (simp add: m2_def)
  note 2 = 2 [unfolded m2, folded b_def]
  have refs2: "list_all (ref_ok m2) refs" using refs by (auto simp: list_all_iff m2_def)
  have vals2: "string_value m2 r = string_value m r" if "r \<in> set refs" for r
    using refs that by (simp add: list_all_iff m2_def)
  have vparts: "map (string_value m2) parts = map (string_value m) parts" using vals2 parts by auto
  have b2: "bs_base b < length m2" "bs_len b = sr_len s" "slice_value m2 b = ?v"
    "sees_upto refs (bs_base b) (sr_len s)" "acc_asc a2 \<longrightarrow> isASCII ?v"
    using 2(2) len_v by (simp_all add: buffer_ok_def b_def)
  have len_w: "length ?w = sum_list (map sr_len parts)"
    using ref_parts by (induction parts) auto
  have room: "bs_len b + length ?w \<le> slice_cap m2 b" using 2(3) total_len(1) len_w b2(2) by simp
  define m3 where "m3 = overwrite m2 b ?w"
  define a3 where "a3 = a2\<lparr>acc_buf := b\<lparr>bs_len := total_len\<rparr>, acc_asc := acc_asc a2 \<and> list_all (\<lambda>p. isASCII (string_value m2 p)) parts\<rparr>"
  have 3: "append_parts m2 a2 parts = (m3, a3)"
    using append_parts_overwrites [of a2 m2 parts] b2 refs2 parts 2(3) total_len(1)
    by (auto simp: b_def [symmetric] m3_def a3_def vparts list_all_iff sees_upto_def)
  define r where "r = \<lparr>sr_base = bs_base b, sr_off = 0, sr_len = total_len\<rparr>"
  define a' where "a' = a3\<lparr>acc_tip := Some (bs_base b)\<rparr>"
  have e: "Append m a s parts = (m3, a', Inr r)"
    using seam total_len 1(1) 2(1) 3
    by (simp add: Append_def Let_def m2 a'_def r_def a3_def)
  have cap3: "length (m3 ! bs_base b) = slice_cap m2 b" "length m3 = length m2"
    using room b2(1) by (simp_all add: m3_def overwrite_def slice_cap_def)
  have slice3: "take total_len (m3 ! bs_base b) = ?v @ ?w"
    using b2(1-3) room len_w total_len(1) take_write_at_end [of "bs_len b" "m2 ! bs_base b" ?w]
    by (simp add: m3_def overwrite_def slice_cap_def slice_value_def)
  have keeps: "string_value m3 q = string_value m q" if "q \<in> set refs" for q
  proof -
    have "string_value m3 q = string_value m2 q"
      unfolding m3_def
      by (rule string_value_overwrite) (use that refs2 b2 room in \<open>auto simp: list_all_iff sees_upto_def\<close>)
    with vals2 [OF that] show ?thesis by simp
  qed
  have cap: "total_len \<le> length (m3 ! bs_base b)" using cap3(1) 2(3) by simp
  have bound: "bs_base b < length m3" using b2(1) cap3(2) by simp
  show thesis
  proof (rule that [OF e])
    show "list_all (ref_ok m3) (refs @ [r])"
    proof -
      have "ref_ok m3 q" if "q \<in> set refs" for q
        using refs2 room that by (simp add: list_all_iff m3_def)
      moreover have "ref_ok m3 r" using cap bound by (simp add: ref_ok_def r_def)
      ultimately show ?thesis by (auto simp: list_all_iff)
    qed
    show "map (string_value m3) refs = map (string_value m) refs" using keeps by simp
    show "string_value m3 r = ?v @ ?w" using slice3 by (simp add: string_value_def r_def slice_def)
    have "acc_asc a3 \<longrightarrow> isASCII (?v @ ?w)"
      using b2(5) vparts by (auto simp: a3_def isASCII_append isASCII_concat list_all_iff)
    moreover define w where "w = ?v @ ?w"
    ultimately have asc: "acc_asc a3 \<longrightarrow> isASCII w" by simp
    have w: "length w = total_len" using len_v len_w total_len(1) by (simp add: w_def)
    have "sees_upto (refs @ [r]) (bs_base b) total_len"
      using b2(4) total_len(1) by (auto simp: sees_upto_def r_def)
    then have "buffer_ok m3 (refs @ [r]) a' w"
      using bound cap slice3 asc w by (simp add: buffer_ok_def slice_value_def slice_cap_def a'_def a3_def w_def)
    moreover have "slice_value m3 (acc_buf a') = w"
      using slice3 by (simp add: slice_value_def a'_def a3_def w_def)
    ultimately show "acc_ok m3 (refs @ [r]) a'" by (simp add: acc_ok_def a'_def a3_def)
    show "acc_tip a' = Some (sr_base r)" by (simp add: a'_def r_def)
    show "acc_tip a = Some (sr_base r) \<or> length m \<le> sr_base r"
      using 1(3) 2(4) by (auto simp: r_def b_def)
    show "t < length m3 \<and> m3 ! t = m ! t" if "t < length m" "t \<noteq> sr_base r" for t
      using that cap3(2) by (simp add: m3_def overwrite_def r_def m2_def nth_append)
  qed
qed

subsection \<open>The refinement\<close>

fun acc_rel :: "acc_state \<Rightarrow> value_state \<Rightarrow> bool" where
  "acc_rel (m, accs, refs, out) (n, vs, out') \<longleftrightarrow>
     n = length accs \<and> vs = map (string_value m) refs \<and> out' = out \<and>
     list_all (ref_ok m) refs \<and> accs_ok m refs accs"

lemma accs_ok_update:
  assumes old: "accs_ok m refs accs" and i: "i < length accs"
    and others: "\<And>b. b \<in> set accs \<Longrightarrow> acc_ok m refs b \<Longrightarrow> acc_tip b \<noteq> acc_tip a' \<or> acc_tip b = None \<Longrightarrow> acc_ok m' refs' b"
    and new: "acc_ok m' refs' a'"
    and tip: "acc_tip a' = acc_tip (accs ! i) \<or> acc_tip a' = None \<or> (\<forall>b \<in> set accs. acc_tip b \<noteq> acc_tip a')"
  shows "accs_ok m' refs' (accs[i := a'])"
proof -
  have apart: "acc_tip (accs ! j) \<noteq> acc_tip a' \<or> acc_tip (accs ! j) = None" if "j < length accs" "j \<noteq> i" for j
    using old i that tip unfolding accs_ok_def by (metis nth_mem)
  have "acc_ok m' refs' (accs[i := a'] ! j)" if "j < length accs" for j
  proof (cases "j = i")
    case False
    have "acc_ok m refs (accs ! j)" using old that by (simp add: accs_ok_def list_all_length)
    with False that others [OF nth_mem [OF that]] apart [OF that False] show ?thesis by simp
  qed (use i new in simp)
  moreover have "acc_tip (accs[i := a'] ! j) \<noteq> acc_tip (accs[i := a'] ! k)"
    if "j < length accs" "k < length accs" "j \<noteq> k" "acc_tip (accs[i := a'] ! j) \<noteq> None" for j k
    using that apart [of j] apart [of k] old i unfolding accs_ok_def
    by (cases "j = i"; cases "k = i") auto
  ultimately show ?thesis by (auto simp: accs_ok_def list_all_length)
qed

lemma accs_ok_new_string:
  assumes "accs_ok m refs accs"
  shows "accs_ok (m @ [v]) (refs @ [\<lparr>sr_base = length m, sr_off = 0, sr_len = length v\<rparr>]) accs"
  using assms acc_ok_new_string by (auto simp: accs_ok_def list_all_iff)

lemma new_string_ok:
  assumes "list_all (ref_ok m) refs"
  shows "list_all (ref_ok (m @ [v])) (refs @ [\<lparr>sr_base = length m, sr_off = 0, sr_len = length v\<rparr>])"
    "map (string_value (m @ [v])) (refs @ [\<lparr>sr_base = length m, sr_off = 0, sr_len = length v\<rparr>])
      = map (string_value m) refs @ [v]"
  using assms by (auto simp: list_all_iff ref_ok_def string_value_def slice_def nth_append)

text \<open>Another string on bytes that one already sees.\<close>

lemma accs_ok_sees:
  assumes "accs_ok m refs accs" "r \<in> set refs" "sr_base q = sr_base r" "sr_off q + sr_len q \<le> sr_off r + sr_len r"
  shows "accs_ok m (refs @ [q]) accs"
proof -
  have "acc_ok m (refs @ [q]) a" if "acc_ok m refs a" for a
  proof (rule acc_ok_other [OF that])
    fix t assume "acc_tip a = Some t"
    with that assms(2-4) show "sees_upto [q] t (bs_len (acc_buf a))"
      by (fastforce simp: acc_ok_def buffer_ok_def sees_upto_def)
  qed simp
  with assms(1) show ?thesis by (auto simp: accs_ok_def list_all_iff)
qed

lemma Length_value:
  assumes "acc_ok m refs a" "ref_ok m s"
  shows "Length m a s = StrLength (string_value m s)"
proof (cases "acc_asc a \<and> newest a s")
  case True
  then have "string_value m s = slice_value m (acc_buf a)" "isASCII (slice_value m (acc_buf a))"
    using assms(1) by (auto simp: newest_def acc_ok_def buffer_ok_def string_value_def slice_value_def slice_def)
  then have "utf16Len (string_value m s) = sr_len s"
    using assms(2) by (simp add: utf16Len_eq toUnits_ascii isASCII_iff flip: length_string_value)
  with True show ?thesis by (simp add: Length_def StrLength_def)
qed (auto simp: Length_def)

lemma accs_ok_drop:
  assumes "accs_ok m refs accs" "i < length accs"
  shows "accs_ok m refs (accs[i := (accs ! i)\<lparr>acc_tip := None\<rparr>])"
  by (rule accs_ok_update [OF assms]) (simp_all add: acc_ok_def)

lemma App_sim:
  assumes refs: "list_all (ref_ok m) refs" and accs: "accs_ok m refs accs" and i: "i < length accs"
    and s: "s \<in> set refs" and parts: "set parts \<subseteq> set refs"
  shows "case Append m (accs ! i) s parts of (m', a, res) \<Rightarrow>
    list_all (ref_ok m') refs \<and> map (string_value m') refs = map (string_value m) refs \<and>
    (case StrConcat (map (string_value m) (s # parts)) of
       Inl e \<Rightarrow> res = Inl e \<and> accs_ok m' refs (accs[i := a])
     | Inr v \<Rightarrow> \<exists>r. res = Inr r \<and> ref_ok m' r \<and> string_value m' r = v \<and> accs_ok m' (refs @ [r]) (accs[i := a]))"
    (is "case Append _ _ _ _ of (m', a, res) \<Rightarrow> ?P m' a res")
proof -
  let ?v = "string_value m s" and ?vs = "map (string_value m) parts"
  let ?a = "(accs ! i)\<lparr>acc_tip := None\<rparr>"
  define n where "n = sr_len s + sum_list (map sr_len parts)"
  have drop: "accs_ok m refs (accs[i := ?a])" by (rule accs_ok_drop [OF accs i])
  have len: "length ?v = sr_len s" "sum_list (map length ?vs) = sum_list (map sr_len parts)"
    using refs s parts by (auto simp: list_all_iff subset_iff intro!: arg_cong [of _ _ sum_list])
  show ?thesis
  proof (cases "n < accMin \<or> n > stringLimit \<or> seamJoins ?v ?vs")
    case True
    then have e: "Append m (accs ! i) s parts
      = (if parts = [] then (m, ?a, Inr s)
         else case StrConcat (?v # ?vs) of
                Inl e \<Rightarrow> (m, ?a, Inl e)
              | Inr v \<Rightarrow> (m @ [v], ?a, Inr \<lparr>sr_base = length m, sr_off = 0, sr_len = length v\<rparr>))"
      unfolding Append_def n_def by (auto simp: Let_def new_string_def split: sum.split)
    consider (same) "parts = []" | (fails) e where "parts \<noteq> []" "StrConcat (?v # ?vs) = Inl e"
      | (new) v where "parts \<noteq> []" "StrConcat (?v # ?vs) = Inr v"
      by (cases "StrConcat (?v # ?vs)") auto
    then show ?thesis
    proof cases
      case same
      moreover have "accs_ok m (refs @ [s]) (accs[i := ?a])" by (rule accs_ok_sees [OF drop s]) simp_all
      moreover have "Append m (accs ! i) s parts = (m, ?a, Inr s)" using e same by simp
      moreover have "StrConcat (?v # ?vs) = Inr ?v" using same by (simp add: StrConcat_def)
      ultimately show ?thesis using refs s by (simp add: list_all_iff)
    next
      case fails
      then show ?thesis using refs drop by (simp add: e)
    next
      case new
      with new_string_ok [OF refs, of v] accs_ok_new_string [OF drop, of v] show ?thesis by (simp add: e)
    qed
  next
    case False
    have ok: "acc_ok m refs (accs ! i)" using accs i by (simp add: accs_ok_def list_all_length)
    obtain m' a' r where A: "Append m (accs ! i) s parts = (m', a', Inr r)"
      "list_all (ref_ok m') (refs @ [r])" "map (string_value m') refs = map (string_value m) refs"
      "string_value m' r = ?v @ concat ?vs" "acc_ok m' (refs @ [r]) a'" "acc_tip a' = Some (sr_base r)"
      "acc_tip (accs ! i) = Some (sr_base r) \<or> length m \<le> sr_base r"
      "\<And>t. t < length m \<Longrightarrow> t \<noteq> sr_base r \<Longrightarrow> t < length m' \<and> m' ! t = m ! t"
      by (rule Append_in_place [OF refs s parts ok n_def]) (use False in \<open>auto simp: not_less\<close>)
    have c: "StrConcat (?v # ?vs) = Inr (?v @ concat ?vs)"
      using False len by (intro StrConcat_plain) (simp_all add: n_def del: map_map)
    have "accs_ok m' (refs @ [r]) (accs[i := a'])"
    proof (rule accs_ok_update [OF accs i _ A(5)])
      fix b assume b: "b \<in> set accs" "acc_ok m refs b" "acc_tip b \<noteq> acc_tip a' \<or> acc_tip b = None"
      show "acc_ok m' (refs @ [r]) b"
      proof (rule acc_ok_other [OF b(2)])
        fix t assume t: "acc_tip b = Some t"
        then have "t \<noteq> sr_base r" using b(3) A(6) by simp
        with A(8) show "t < length m \<Longrightarrow> t < length m' \<and> m' ! t = m ! t" by simp
        show "sees_upto [r] t (bs_len (acc_buf b))" using \<open>t \<noteq> sr_base r\<close> by (simp add: sees_upto_def)
      qed
    next
      have "acc_tip b \<noteq> acc_tip a'" if "b \<in> set accs" "length m \<le> sr_base r" for b
        using that accs A(6) by (cases "acc_tip b") (auto simp: accs_ok_def list_all_iff acc_ok_def buffer_ok_def)
      with A(6,7) show "acc_tip a' = acc_tip (accs ! i) \<or> acc_tip a' = None \<or> (\<forall>b\<in>set accs. acc_tip b \<noteq> acc_tip a')"
        by auto
    qed
    with A c show ?thesis by simp
  qed
qed

lemma acc_sim: "acc_rel s a \<Longrightarrow> acc_rel (acc_do op s) (value_do op a)"
proof -
  assume rel: "acc_rel s a"
  obtain m accs refs out where s: "s = (m, accs, refs, out)" by (cases s)
  with rel have a: "a = (length accs, map (string_value m) refs, out)"
    and refs: "list_all (ref_ok m) refs" and accs: "accs_ok m refs accs" by (cases a; simp)+
  show ?thesis
  proof (cases op)
    case (Make v)
    then show ?thesis
      using new_string_ok [OF refs, of v] accs_ok_new_string [OF accs, of v] by (simp add: s a new_string_def)
  next
    case (Sub k i j)
    show ?thesis
    proof (cases "k < length refs \<and> i \<le> j \<and> j \<le> sr_len (refs ! k)")
      case True
      define q where "q = (refs ! k)\<lparr>sr_off := sr_off (refs ! k) + i, sr_len := j - i\<rparr>"
      have k: "refs ! k \<in> set refs" "ref_ok m (refs ! k)" using True refs by (simp_all add: list_all_length)
      have "ref_ok m q" using True k(2) by (simp add: ref_ok_def q_def)
      moreover have "string_value m q = slice (string_value m (refs ! k)) i j"
        using True by (auto simp: string_value_def slice_def q_def min_def drop_take ac_simps)
      moreover have "accs_ok m (refs @ [q]) accs"
        by (rule accs_ok_sees [OF accs k(1)]) (use True in \<open>simp_all add: q_def\<close>)
      ultimately show ?thesis using True refs k(2) by (simp add: Sub s a q_def)
    next
      case False
      with refs have "\<not> (k < length refs \<and> i \<le> j \<and> j \<le> length (string_value m (refs ! k)))"
        by (auto simp: list_all_length)
      with False show ?thesis using refs accs by (auto simp: Sub s a)
    qed
  next
    case Bind
    have "acc_tip new_acc = None" by (simp add: new_acc_def)
    then have "accs_ok m refs (accs @ [new_acc])"
      using accs by (auto simp: accs_ok_def acc_ok_def nth_append less_Suc_eq)
    with refs show ?thesis by (simp add: Bind s a)
  next
    case (App i k ks)
    show ?thesis
    proof (cases "i < length accs \<and> list_all (\<lambda>k. k < length refs) (k # ks)")
      case True
      define ps where "ps = map ((!) refs) ks"
      have v: "map ((!) (map (string_value m) refs)) (k # ks) = map (string_value m) (refs ! k # ps)"
        using True by (auto simp: list_all_iff ps_def)
      have "set ps \<subseteq> set refs" "refs ! k \<in> set refs" "i < length accs"
        using True by (auto simp: list_all_iff ps_def)
      note sim = App_sim [OF refs accs this(3,2,1)]
      define w where "w = map (string_value m) (refs ! k # ps)"
      have "acc_do op s = (case Append m (accs ! i) (refs ! k) ps of
             (m, a, Inl e) \<Rightarrow> (m, accs[i := a], refs, out @ [Inl e])
           | (m, a, Inr r) \<Rightarrow> (m, accs[i := a], refs @ [r], out))"
        using True by (simp add: App s ps_def)
      moreover have "value_do op a = (case StrConcat (map (string_value m) (refs ! k # ps)) of
             Inl e \<Rightarrow> (length accs, map (string_value m) refs, out @ [Inl e])
           | Inr v \<Rightarrow> (length accs, map (string_value m) refs @ [v], out))"
        using True unfolding v [symmetric] by (simp add: App a)
      ultimately show ?thesis using sim
        unfolding w_def [symmetric] by (auto split: prod.splits sum.splits)
    next
      case False
      then show ?thesis using refs accs by (auto simp: App s a)
    qed
  next
    case (Len i k)
    then show ?thesis
      using refs accs Length_value [of m refs "accs ! i" "refs ! k"]
      by (auto simp: s a accs_ok_def list_all_length)
  qed
qed

interpretation accumulators: simulation acc_rel acc_do value_do
  by unfold_locales (rule acc_sim)

subsection \<open>Properties\<close>

text \<open>
  C27: Whatever strings a program makes, cuts and holds, and however it appends to whichever of
  its bindings, what it can observe is what it would with strings that never change: each string
  it ever got keeps its value, each append makes what \<open>StrConcat\<close> makes or throws what it throws,
  and each length is \<open>StrLength\<close>'s, though appends write into memory that earlier strings share.
\<close>

theorem appends_keep_strings:
  "(case fold acc_do ops ([], [], [], []) of (m, accs, refs, out) \<Rightarrow> (length accs, map (string_value m) refs, out))
   = fold value_do ops (0, [], [])"
proof -
  have "acc_rel (fold acc_do ops ([], [], [], [])) (fold value_do ops (0, [], []))"
    by (rule accumulators.history) (simp add: accs_ok_def)
  then show ?thesis by (cases "fold value_do ops (0, [], [])") (auto split: prod.splits)
qed

end
