(* ===== verification/Arr.thy ===== *)
theory Arr
  imports StrOps "HOL-Library.Multiset"
begin

text \<open>
  Arrays (\<open>backend/runtime/array.go\<close>, \<open>array_methods.go\<close>). An \<open>*Array[T]\<close> is a reference to its
  elements, so an operation takes the elements it finds and gives those it leaves.

  A callback runs the program's own code, which may change the array it is called on. It is a
  parameter: from the element, the index and the state of the program, the array's elements
  among it, to its result, or the failure that ends it, and the state it leaves. \<open>'s\<close> is the
  rest of the state.

  Proved: every index reads, writes, removes or fails as JavaScript's does; the iteration
  methods are the list functions of their name over the elements of the start, where the
  callback leaves the array alone; they never see an element pushed by the callback, and fail
  exactly when they reach one it removed; \<open>sort\<close> is stable and keeps the elements.
\<close>

subsection \<open>Indices\<close>

text \<open>\<open>arrayIndex\<close>: an integer from 0 to \<open>2^32 - 2\<close>.\<close>

definition maxUint32 :: nat where
  "maxUint32 = 2 ^ 32 - 1"

definition arrayIndex :: "f64 \<Rightarrow> int option" where
  "arrayIndex i =
     (if f64_less i (Fin 0) \<or> f64_less (f64_of_nat (maxUint32 - 1)) i \<or> \<not> f64_eq i (f64_trunc i) then None
      else Some (f64_int i))"

definition Get :: "'a list \<Rightarrow> f64 \<Rightarrow> 'a result" where
  "Get items i =
     (case arrayIndex i of
        None \<Rightarrow> Inl (Panic (NotAnArrayIndex i))
      | Some n \<Rightarrow>
          if n \<ge> int (length items) then Inl (Panic (IndexOutOfRange n (length items)))
          else Inr (items ! nat n))"

definition Set :: "'a list \<Rightarrow> f64 \<Rightarrow> 'a \<Rightarrow> 'a list result" where
  "Set items i v =
     (case arrayIndex i of
        None \<Rightarrow> Inl (Panic (NotAnArrayIndexToSet i))
      | Some n \<Rightarrow>
          if n > int (length items) then Inl (Panic (WouldLeaveHole n (length items)))
          else if n = int (length items) then Inr (items @ [v])
          else Inr (items[nat n := v]))"

definition SetLength :: "'a list \<Rightarrow> f64 \<Rightarrow> 'a list result" where
  "SetLength items len =
     (case (case arrayIndex len of
              None \<Rightarrow> if f64_eq len (f64_of_nat maxUint32) then Some (int maxUint32) else None
            | Some n \<Rightarrow> Some n) of
        None \<Rightarrow> Inl (Thrown ErrorRange (Text ''Invalid array length''))
      | Some n \<Rightarrow>
          if n > int (length items) then Inl (Panic (SetLengthHoles (length items) n))
          else Inr (take (nat n) items))"

definition Push :: "'a list \<Rightarrow> 'a list \<Rightarrow> f64 \<times> 'a list" where
  "Push items vs = (f64_of_nat (length (items @ vs)), items @ vs)"

text \<open>A result with \<open>ok\<close> is an option: None where \<open>ok\<close> is false.\<close>

definition Lookup :: "'a list \<Rightarrow> f64 \<Rightarrow> 'a option" where
  "Lookup items i =
     (case arrayIndex i of
        Some n \<Rightarrow> if n < int (length items) then Some (items ! nat n) else None
      | None \<Rightarrow> None)"

definition RelativeAt :: "'a list \<Rightarrow> f64 \<Rightarrow> 'a option" where
  "RelativeAt items i =
     (let k = toInteger i;
          k = (if f64_less k (Fin 0) then f64_add k (f64_of_nat (length items)) else k)
      in if f64_less k (Fin 0) \<or> f64_le (f64_of_nat (length items)) k then None
         else Some (items ! nat (f64_int k)))"

definition Pop :: "'a list \<Rightarrow> 'a option \<times> 'a list" where
  "Pop items =
     (let n = length items
      in if n = 0 then (None, items) else (Some (items ! (n - 1)), take (n - 1) items))"

definition Shift :: "'a list \<Rightarrow> 'a option \<times> 'a list" where
  "Shift items = (if length items = 0 then (None, items) else (Some (items ! 0), drop 1 items))"

text \<open>Go's builtin \<open>max\<close> of two numbers that are not NaN.\<close>

definition f64_max :: "f64 \<Rightarrow> f64 \<Rightarrow> f64" where
  "f64_max a b = (if f64_less a b then b else a)"

definition relativeIndex :: "f64 \<Rightarrow> nat \<Rightarrow> nat" where
  "relativeIndex bound n =
     (let i = f64_trunc bound
      in if i = NaN then 0
         else if f64_less i (Fin 0) then nat (f64_int (f64_max (f64_add (f64_of_nat n) i) (Fin 0)))
         else nat (f64_int (f64_min i (f64_of_nat n))))"

definition Slice :: "'a list \<Rightarrow> f64 list \<Rightarrow> 'a list" where
  "Slice items bounds =
     (let n = length items;
          start = (if length bounds > 0 then relativeIndex (bounds ! 0) n else 0);
          stop = (if length bounds > 1 then relativeIndex (bounds ! 1) n else n)
      in if start \<ge> stop then [] else slice items start stop)"

text \<open>
  \<open>Includes\<close> and \<open>IndexOf\<close> compare with Go's \<open>==\<close>, \<open>eq\<close>; \<open>isNaN\<close> is the value not equal to
  itself.
\<close>

definition isNaN :: "('a \<Rightarrow> 'a \<Rightarrow> bool) \<Rightarrow> 'a \<Rightarrow> bool" where
  "isNaN eq v \<longleftrightarrow> \<not> eq v v"

definition Includes :: "('a \<Rightarrow> 'a \<Rightarrow> bool) \<Rightarrow> 'a list \<Rightarrow> 'a \<Rightarrow> bool" where
  "Includes eq items v = (if isNaN eq v then list_ex (isNaN eq) items else list_ex (\<lambda>x. eq x v) items)"

fun index_eq :: "('a \<Rightarrow> 'a \<Rightarrow> bool) \<Rightarrow> 'a list \<Rightarrow> 'a \<Rightarrow> nat \<Rightarrow> int" where
  "index_eq eq [] v i = -1"
| "index_eq eq (x # xs) v i = (if eq v x then int i else index_eq eq xs v (i + 1))"

definition IndexOf :: "('a \<Rightarrow> 'a \<Rightarrow> bool) \<Rightarrow> 'a list \<Rightarrow> 'a \<Rightarrow> f64" where
  "IndexOf eq items v = Fin (of_int (index_eq eq items v 0))"

subsection \<open>Iteration\<close>

type_synonym ('s, 'a) state = "'s \<times> 'a list"
type_synonym ('s, 'a, 'b) callback = "'a \<Rightarrow> nat \<Rightarrow> ('s, 'a) state \<Rightarrow> 'b result \<times> ('s, 'a) state"

definition visit_elem :: "'a list \<Rightarrow> nat \<Rightarrow> nat \<Rightarrow> string \<Rightarrow> 'a result" where
  "visit_elem items k n name =
     (if k \<ge> length items then Inl (Panic (ArrayShrank (length items) name n)) else Inr (items ! k))"

text \<open>
  The loop every method runs, over the indices \<open>ks\<close>: \<open>f\<close> takes what the method has gathered, the
  element, the index and the callback's result to what it gathers next (Inl) or to the result
  the method returns with at once (Inr).
\<close>

fun iterate :: "string \<Rightarrow> nat \<Rightarrow> ('s, 'a, 'b) callback \<Rightarrow> ('acc \<Rightarrow> 'a \<Rightarrow> nat \<Rightarrow> 'b \<Rightarrow> 'acc + 'r) \<Rightarrow> nat list
    \<Rightarrow> 'acc \<Rightarrow> ('s, 'a) state \<Rightarrow> ('acc + 'r) result \<times> ('s, 'a) state" where
  "iterate name n fn f [] acc st = (Inr (Inl acc), st)"
| "iterate name n fn f (k # ks) acc st =
     (case visit_elem (snd st) k n name of
        Inl e \<Rightarrow> (Inl e, st)
      | Inr v \<Rightarrow>
         (case fn v k st of
            (Inl e, st') \<Rightarrow> (Inl e, st')
          | (Inr b, st') \<Rightarrow>
             (case f acc v k b of
                Inr r \<Rightarrow> (Inr (Inr r), st')
              | Inl acc' \<Rightarrow> iterate name n fn f ks acc' st')))"

text \<open>What the method returns: early, or at the end of the loop.\<close>

definition finish_with :: "('acc \<Rightarrow> 'r) \<Rightarrow> ('acc + 'r) result \<times> 't \<Rightarrow> 'r result \<times> 't" where
  "finish_with g x = (case x of (Inl e, st) \<Rightarrow> (Inl e, st) | (Inr (Inr r), st) \<Rightarrow> (Inr r, st)
     | (Inr (Inl acc), st) \<Rightarrow> (Inr (g acc), st))"

definition Map :: "('s, 'a, 'b) callback \<Rightarrow> ('s, 'a) state \<Rightarrow> 'b list result \<times> ('s, 'a) state" where
  "Map fn st = (let n = length (snd st) in
     finish_with id (iterate ''map'' n fn (\<lambda>mapped v k b. Inl (mapped @ [b])) [0..<n] [] st))"

definition Filter :: "('s, 'a, bool) callback \<Rightarrow> ('s, 'a) state \<Rightarrow> 'a list result \<times> ('s, 'a) state" where
  "Filter fn st = (let n = length (snd st) in
     finish_with id (iterate ''filter'' n fn (\<lambda>kept v k b. Inl (if b then kept @ [v] else kept)) [0..<n] [] st))"

definition ForEach :: "('s, 'a, unit) callback \<Rightarrow> ('s, 'a) state \<Rightarrow> unit result \<times> ('s, 'a) state" where
  "ForEach fn st = (let n = length (snd st) in
     finish_with id (iterate ''forEach'' n fn (\<lambda>acc v k b. Inl ()) [0..<n] () st))"

definition Array_Some :: "('s, 'a, bool) callback \<Rightarrow> ('s, 'a) state \<Rightarrow> bool result \<times> ('s, 'a) state" where
  "Array_Some fn st = (let n = length (snd st) in
     finish_with (\<lambda>_. False) (iterate ''some'' n fn (\<lambda>acc v k b. if b then Inr True else Inl ()) [0..<n] () st))"

definition Every :: "('s, 'a, bool) callback \<Rightarrow> ('s, 'a) state \<Rightarrow> bool result \<times> ('s, 'a) state" where
  "Every fn st = (let n = length (snd st) in
     finish_with (\<lambda>_. True) (iterate ''every'' n fn (\<lambda>acc v k b. if \<not> b then Inr False else Inl ()) [0..<n] () st))"

definition FindIndex :: "('s, 'a, bool) callback \<Rightarrow> ('s, 'a) state \<Rightarrow> f64 result \<times> ('s, 'a) state" where
  "FindIndex fn st = (let n = length (snd st) in
     finish_with (\<lambda>_. Fin (-1))
       (iterate ''findIndex'' n fn (\<lambda>acc v k b. if b then Inr (f64_of_nat k) else Inl ()) [0..<n] () st))"

definition Find :: "('s, 'a, bool) callback \<Rightarrow> ('s, 'a) state \<Rightarrow> 'a option result \<times> ('s, 'a) state" where
  "Find fn st = (let n = length (snd st) in
     finish_with (\<lambda>_. None) (iterate ''find'' n fn (\<lambda>acc v k b. if b then Inr (Some v) else Inl ()) [0..<n] () st))"

definition FindLast :: "('s, 'a, bool) callback \<Rightarrow> ('s, 'a) state \<Rightarrow> 'a option result \<times> ('s, 'a) state" where
  "FindLast fn st = (let n = length (snd st) in
     finish_with (\<lambda>_. None)
       (iterate ''findLast'' n fn (\<lambda>acc v k b. if b then Inr (Some v) else Inl ()) (rev [0..<n]) () st))"

text \<open>\<open>Reduce\<close>, whose callback takes what is gathered too.\<close>

fun reduce_loop :: "nat \<Rightarrow> ('u \<Rightarrow> ('s, 'a, 'u) callback) \<Rightarrow> nat list \<Rightarrow> 'u \<Rightarrow> ('s, 'a) state
    \<Rightarrow> 'u result \<times> ('s, 'a) state" where
  "reduce_loop n fn [] acc st = (Inr acc, st)"
| "reduce_loop n fn (k # ks) acc st =
     (case visit_elem (snd st) k n ''reduce'' of
        Inl e \<Rightarrow> (Inl e, st)
      | Inr v \<Rightarrow> (case fn acc v k st of (Inl e, st') \<Rightarrow> (Inl e, st') | (Inr acc', st') \<Rightarrow> reduce_loop n fn ks acc' st'))"

definition Reduce :: "('u \<Rightarrow> ('s, 'a, 'u) callback) \<Rightarrow> 'u \<Rightarrow> ('s, 'a) state \<Rightarrow> 'u result \<times> ('s, 'a) state" where
  "Reduce fn init st = (let n = length (snd st) in reduce_loop n fn [0..<n] init st)"


subsection \<open>Sorting\<close>

text \<open>
  \<open>slices.SortStableFunc\<close>, by insertion: for a comparator that is consistent the stable sort of
  a list is one list, whichever way it is found.
\<close>

fun insert_by :: "('a \<Rightarrow> 'a \<Rightarrow> int) \<Rightarrow> 'a \<Rightarrow> 'a list \<Rightarrow> 'a list" where
  "insert_by cmp x [] = [x]"
| "insert_by cmp x (y # ys) = (if cmp x y \<le> 0 then x # y # ys else y # insert_by cmp x ys)"

definition SortStableFunc :: "('a \<Rightarrow> 'a \<Rightarrow> int) \<Rightarrow> 'a list \<Rightarrow> 'a list" where
  "SortStableFunc cmp xs = foldr (insert_by cmp) xs []"

text \<open>The comparator Sort gives it: NaN counts as 0.\<close>

definition SortCompare :: "('a \<Rightarrow> 'a \<Rightarrow> f64) \<Rightarrow> 'a \<Rightarrow> 'a \<Rightarrow> int" where
  "SortCompare cmp x y = (let v = cmp x y in if f64_less v (Fin 0) then -1 else if f64_less (Fin 0) v then 1 else 0)"

text \<open>\<open>Sort\<close>: \<open>after\<close> is what the comparator's calls make of the array meanwhile.\<close>

definition Sort :: "('a \<Rightarrow> 'a \<Rightarrow> f64) \<Rightarrow> ('a list \<Rightarrow> 'a list) \<Rightarrow> 'a list \<Rightarrow> 'a list" where
  "Sort cmp after items =
     (let sorted = SortStableFunc (SortCompare cmp) items;
          items' = after items;
          n = min (length items') (length sorted)
      in (take n sorted @ drop n items') @ drop n sorted)"

text \<open>A comparator in the sense of ECMA-262: a total preorder.\<close>

definition consistent :: "('a \<Rightarrow> 'a \<Rightarrow> int) \<Rightarrow> bool" where
  "consistent cmp \<longleftrightarrow> (\<forall>x y. sgn (cmp x y) = - sgn (cmp y x))
     \<and> (\<forall>x y z. cmp x y \<le> 0 \<and> cmp y z \<le> 0 \<longrightarrow> cmp x z \<le> 0)"

lemma consistent_sgn: "consistent cmp \<Longrightarrow> sgn (cmp x y) = - sgn (cmp y x)"
  unfolding consistent_def by blast

lemma consistent_trans: "consistent cmp \<Longrightarrow> cmp x y \<le> 0 \<Longrightarrow> cmp y z \<le> 0 \<Longrightarrow> cmp x z \<le> 0"
  unfolding consistent_def by blast

lemma consistent_total: "consistent cmp \<Longrightarrow> \<not> cmp x y \<le> 0 \<Longrightarrow> cmp y x \<le> 0"
  using consistent_sgn [of cmp x y] by (auto simp: sgn_if split: if_splits)

lemma mset_insert_by [simp]: "mset (insert_by cmp x ys) = add_mset x (mset ys)"
  by (induction ys) auto

lemma mset_SortStableFunc [simp]: "mset (SortStableFunc cmp xs) = mset xs"
  unfolding SortStableFunc_def by (induction xs) auto

lemma set_insert_by: "set (insert_by cmp x ys) = insert x (set ys)"
  by (induction ys) auto

lemma sorted_insert_by:
  "consistent cmp \<Longrightarrow> sorted_wrt (\<lambda>x y. cmp x y \<le> 0) ys \<Longrightarrow> sorted_wrt (\<lambda>x y. cmp x y \<le> 0) (insert_by cmp x ys)"
  by (induction ys) (auto simp: set_insert_by intro: consistent_trans consistent_total)

lemma sorted_SortStableFunc: "consistent cmp \<Longrightarrow> sorted_wrt (\<lambda>x y. cmp x y \<le> 0) (SortStableFunc cmp xs)"
  unfolding SortStableFunc_def by (induction xs) (auto intro: sorted_insert_by)

lemma consistent_equal:
  assumes "consistent cmp" "cmp z x = 0" "cmp z y = 0" shows "cmp x y \<le> 0"
proof -
  have "cmp x z \<le> 0" using consistent_sgn [OF assms(1), of x z] assms(2) by (auto simp: sgn_if split: if_splits)
  then show ?thesis using consistent_trans [OF assms(1)] assms(3) by (metis order_refl)
qed

lemma stable_insert_by:
  assumes "consistent cmp"
  shows "filter (\<lambda>y. cmp z y = 0) (insert_by cmp x ys) = filter (\<lambda>y. cmp z y = 0) (x # ys)"
  by (induction ys) (use consistent_equal [OF assms, of z x] in auto)

lemma stable_SortStableFunc:
  "consistent cmp \<Longrightarrow> filter (\<lambda>y. cmp z y = 0) (SortStableFunc cmp xs) = filter (\<lambda>y. cmp z y = 0) xs"
  unfolding SortStableFunc_def by (induction xs) (auto simp: stable_insert_by)

lemma length_SortStableFunc [simp]: "length (SortStableFunc cmp xs) = length xs"
  by (metis mset_SortStableFunc size_mset)


lemma consistent_minus: "consistent (SortCompare (\<lambda>x y. Fin (of_int (x div 10 - y div 10))))"
  by (auto simp: consistent_def SortCompare_def Let_def sgn_if)


subsection \<open>The indices are JavaScript's\<close>

lemma arrayIndex_iff: "arrayIndex i = Some n \<longleftrightarrow> 0 \<le> n \<and> n \<le> 2 ^ 32 - 2 \<and> f64_eq i (Fin (of_int n))"
proof (cases i)
  case (Fin q)
  have "q = of_int \<lfloor>q\<rfloor> \<longleftrightarrow> (\<exists>m. q = of_int m)" by (metis floor_of_int)
  show ?thesis
  proof (cases "0 \<le> q \<and> q = of_int \<lfloor>q\<rfloor>")
    case True
    then obtain m where m: "q = of_int m" "0 \<le> m" by (metis of_int_0_le_iff)
    then show ?thesis using Fin by (auto simp: arrayIndex_def maxUint32_def f64_of_nat_def)
  next
    case False
    then show ?thesis using Fin by (auto simp: arrayIndex_def f64_of_nat_def)
  qed
next
  case NegZero
  then show ?thesis by (auto simp: arrayIndex_def f64_of_nat_def)
qed (auto simp: arrayIndex_def f64_of_nat_def)

lemma relativeIndex_relative: "relativeIndex bound n = relative_index (to_integer_or_infinity bound) n"
proof (cases bound)
  case (Fin q)
  consider "0 \<le> q" | "-1 < q" "q < 0" | "q \<le> -1" by linarith
  then show ?thesis
  proof cases
    case 1
    then show ?thesis using Fin
      by (auto simp: relativeIndex_def Let_def f64_min_def f64_of_nat_def min_def)
  next
    case 2
    then have "\<lceil>q\<rceil> = 0" by (simp add: ceiling_eq_iff)
    with 2 Fin show ?thesis by (auto simp: relativeIndex_def Let_def f64_min_def f64_of_nat_def)
  next
    case 3
    then have c: "\<lceil>q\<rceil> \<le> -1" by (simp add: ceiling_le_iff)
    with 3 Fin show ?thesis
      by (auto simp: relativeIndex_def Let_def f64_max_def f64_of_nat_def)
  qed
qed (auto simp: relativeIndex_def Let_def f64_min_def f64_max_def f64_of_nat_def)


lemma f64_eq_of_nat: "f64_eq i (f64_of_nat m) \<Longrightarrow> f64_eq i (f64_of_nat n) \<longleftrightarrow> m = n"
  by (cases i) (auto simp: f64_of_nat_def)

lemma arrayIndex_Some:
  assumes "arrayIndex i = Some k"
  obtains n where "k = int n" "int n \<le> 2 ^ 32 - 2" "f64_eq i (f64_of_nat n)"
proof
  show "k = int (nat k)" "int (nat k) \<le> 2 ^ 32 - 2" "f64_eq i (f64_of_nat (nat k))"
    using assms by (simp_all add: arrayIndex_iff f64_of_nat_def of_nat_nat)
qed

lemma arrayIndex_None: "arrayIndex i = None \<longleftrightarrow> (\<nexists>n. int n \<le> 2 ^ 32 - 2 \<and> f64_eq i (f64_of_nat n))"
proof
  assume "arrayIndex i = None"
  then have "\<not> (int n \<le> 2 ^ 32 - 2 \<and> f64_eq i (f64_of_nat n))" for n
    using arrayIndex_iff [of i "int n"] by (simp add: f64_of_nat_def)
  then show "\<nexists>n. int n \<le> 2 ^ 32 - 2 \<and> f64_eq i (f64_of_nat n)" by blast
next
  assume "\<nexists>n. int n \<le> 2 ^ 32 - 2 \<and> f64_eq i (f64_of_nat n)"
  then show "arrayIndex i = None" by (meson arrayIndex_Some option.exhaust)
qed

text \<open>
  C15: an index of the array, an integer from 0 to \<open>2^32 - 2\<close> whatever its sign of zero, reads and
  writes that element; the length appends; anything else gives undefined to \<open>Lookup\<close> and is a
  panic of \<open>Get\<close> and \<open>Set\<close>; and a length may be cut to any uint32 no larger.
\<close>

theorem array_indices:
  "(Get xs i = Inr v \<longleftrightarrow> Lookup xs i = Some v)
   \<and> (Lookup xs i = Some v \<longleftrightarrow> (\<exists>n. n < length xs \<and> int n \<le> 2 ^ 32 - 2 \<and> f64_eq i (f64_of_nat n) \<and> v = xs ! n))
   \<and> (Set xs i v = Inr ys \<longleftrightarrow> (\<exists>n. n \<le> length xs \<and> int n \<le> 2 ^ 32 - 2 \<and> f64_eq i (f64_of_nat n)
        \<and> ys = take n xs @ v # drop (Suc n) xs))
   \<and> (SetLength xs i = Inr ys \<longleftrightarrow> (\<exists>n. n \<le> length xs \<and> int n \<le> 2 ^ 32 - 1 \<and> f64_eq i (f64_of_nat n) \<and> ys = take n xs))"
proof (cases "arrayIndex i")
  case None
  then have no: "\<not> (int n \<le> 2 ^ 32 - 2 \<and> f64_eq i (f64_of_nat n))" for n by (auto simp: arrayIndex_None)
  have "int n \<le> 2 ^ 32 - 1 \<and> f64_eq i (f64_of_nat n) \<longleftrightarrow> n = maxUint32 \<and> f64_eq i (f64_of_nat maxUint32)" for n
  proof -
    have "int n \<le> 2 ^ 32 - 1 \<longleftrightarrow> int n \<le> 2 ^ 32 - 2 \<or> n = maxUint32" by (auto simp: maxUint32_def)
    then show ?thesis using no [of n] by blast
  qed
  moreover have "SetLength xs i = Inr ys \<longleftrightarrow>
      f64_eq i (f64_of_nat maxUint32) \<and> maxUint32 \<le> length xs \<and> ys = take maxUint32 xs"
    using None by (auto simp: SetLength_def)
  ultimately have "SetLength xs i = Inr ys \<longleftrightarrow>
      (\<exists>n. n \<le> length xs \<and> int n \<le> 2 ^ 32 - 1 \<and> f64_eq i (f64_of_nat n) \<and> ys = take n xs)" by metis
  then show ?thesis using None no by (auto simp: Get_def Lookup_def Set_def)
next
  case (Some k)
  then obtain n where n: "k = int n" "int n \<le> 2 ^ 32 - 2" "f64_eq i (f64_of_nat n)" by (rule arrayIndex_Some)
  have only: "f64_eq i (f64_of_nat m) \<longleftrightarrow> m = n" for m using f64_eq_of_nat [OF n(3), of m] by auto
  have "Set xs i v = Inr ys \<longleftrightarrow> n \<le> length xs \<and> ys = take n xs @ v # drop (Suc n) xs"
    using Some n(1) by (auto simp: Set_def upd_conv_take_nth_drop)
  moreover have "SetLength xs i = Inr ys \<longleftrightarrow> n \<le> length xs \<and> ys = take n xs"
    using Some n(1) by (auto simp: SetLength_def)
  ultimately show ?thesis using Some n by (auto simp: Get_def Lookup_def only)
qed

text \<open>
  \<open>at\<close> counts a negative index from the end, \<open>slice\<close> takes its bounds as ECMA-262 makes
  relative indices of them (NaN the start, infinities the ends), for every number, and \<open>push\<close>,
  \<open>pop\<close> and \<open>shift\<close> add and remove at the ends.
\<close>

theorem array_ends:
  "RelativeAt xs i = unit_index xs (case to_integer_or_infinity i of
      Integer k \<Rightarrow> Integer (if k < 0 then k + int (length xs) else k) | e \<Rightarrow> e)
   \<and> Slice xs bounds = slice xs (arg_index relative_index bounds 0 (length xs) 0)
        (arg_index relative_index bounds 1 (length xs) (length xs))
   \<and> Push xs ys = (f64_of_nat (length xs + length ys), xs @ ys)
   \<and> Pop (xs @ [x]) = (Some x, xs) \<and> Pop ([] :: 'a list) = (None, [])
   \<and> Shift (x # xs) = (Some x, xs) \<and> Shift ([] :: 'a list) = (None, [])"
proof -
  have "RelativeAt xs i = unit_index xs (case to_integer_or_infinity i of
      Integer k \<Rightarrow> Integer (if k < 0 then k + int (length xs) else k) | e \<Rightarrow> e)"
  proof (cases "to_integer_or_infinity i")
    case (Integer k)
    have "f64_add (Fin (of_int k)) (f64_of_nat (length xs)) = Fin (of_int (k + int (length xs)))"
      by (simp add: f64_of_nat_def)
    moreover have "f64_less (Fin (of_int j)) (Fin 0) \<longleftrightarrow> j < 0"
      "f64_le (f64_of_nat m) (Fin (of_int j)) \<longleftrightarrow> int m \<le> j" for j m
      by (auto simp: f64_le_def f64_of_nat_def)
    moreover have "\<not> f64_le (f64_of_nat m) (Fin (of_int k + of_nat m))" if "k < 0" for m
      using that by (auto simp: f64_le_def f64_of_nat_def)
    ultimately show ?thesis using Integer by (simp add: RelativeAt_def toInteger_ext Let_def)
  qed (simp_all add: RelativeAt_def toInteger_ext f64_of_nat_def f64_le_def)
  moreover have "slice xs a b = []" if "b \<le> a" for a b using that by (simp add: slice_def)
  then have "Slice xs bounds = slice xs (arg_index relative_index bounds 0 (length xs) 0)
        (arg_index relative_index bounds 1 (length xs) (length xs))"
    by (auto simp: Slice_def Let_def arg_index_def relativeIndex_relative)
  ultimately show ?thesis by (simp add: Push_def Pop_def Shift_def)
qed

subsection \<open>What the iteration methods see\<close>

text \<open>A callback that returns \<open>g\<close>, and leaves the array alone.\<close>

definition leaves :: "('a \<Rightarrow> nat \<Rightarrow> 'b) \<Rightarrow> ('a \<Rightarrow> nat \<Rightarrow> 's \<Rightarrow> 's) \<Rightarrow> ('s, 'a, 'b) callback" where
  "leaves g h = (\<lambda>v k (s, xs). (Inr (g v k), h v k s, xs))"

text \<open>The elements in order, with their indices, as the calls are made.\<close>

definition calls :: "('a \<Rightarrow> nat \<Rightarrow> 's \<Rightarrow> 's) \<Rightarrow> 'a list \<Rightarrow> nat list \<Rightarrow> 's \<Rightarrow> 's" where
  "calls h xs ks s = fold (\<lambda>k. h (xs ! k) k) ks s"

lemma iterate_all:
  assumes "\<And>acc k. k \<in> set ks \<Longrightarrow> f acc (xs ! k) k (g (xs ! k) k) = Inl (step acc k)" "set ks \<subseteq> {..<length xs}"
  shows "iterate name n (leaves g h) f ks acc (s, xs) = (Inr (Inl (fold (\<lambda>k acc. step acc k) ks acc)), calls h xs ks s, xs)"
  using assms by (induction ks arbitrary: acc s) (auto simp: leaves_def visit_elem_def calls_def)

text \<open>The loops that stop at the first index where \<open>p\<close> holds.\<close>

lemma iterate_until:
  assumes "\<And>k. k \<in> set ks \<Longrightarrow> f () (xs ! k) k (g (xs ! k) k) = (if p k then Inr (r k) else Inl ())"
    and "set ks \<subseteq> {..<length xs}"
  shows "fst (iterate name n (leaves g h) f ks () (s, xs))
    = Inr (case List.find p ks of Some k \<Rightarrow> Inr (r k) | None \<Rightarrow> Inl ())"
  using assms by (induction ks arbitrary: s) (auto simp: leaves_def visit_elem_def)

lemma fold_snoc: "fold (\<lambda>k acc. acc @ [f k]) ks acc = acc @ map f ks"
  by (induction ks arbitrary: acc) auto

lemma fold_filter: "fold (\<lambda>k acc. if p k then acc @ [f k] else acc) ks acc = acc @ map f (filter p ks)"
  by (induction ks arbitrary: acc) auto

lemma fst_finish_with: "fst (finish_with g x)
    = (case fst x of Inl e \<Rightarrow> Inl e | Inr (Inr r) \<Rightarrow> Inr r | Inr (Inl acc) \<Rightarrow> Inr (g acc))"
  by (auto simp: finish_with_def split: prod.split sum.split)

lemma reduce_loop_all:
  assumes "set ks \<subseteq> {..<length xs}"
  shows "fst (reduce_loop n (\<lambda>acc. leaves (g acc) h) ks acc (s, xs)) = Inr (fold (\<lambda>k acc. g acc (xs ! k) k) ks acc)"
  using assms by (induction ks arbitrary: acc s) (auto simp: leaves_def visit_elem_def)

text \<open>
  C16: where the callback leaves the array alone, \<open>map\<close>, \<open>filter\<close>, \<open>some\<close>, \<open>every\<close>, \<open>findIndex\<close>,
  \<open>find\<close>, \<open>findLast\<close> and \<open>reduce\<close> are what they are on the list of the elements and their indices.
\<close>

theorem iteration_methods:
  "fst (Map (leaves g h) (s, xs)) = Inr (map (\<lambda>k. g (xs ! k) k) [0..<length xs])
   \<and> fst (Filter (leaves p h) (s, xs)) = Inr (map ((!) xs) (filter (\<lambda>k. p (xs ! k) k) [0..<length xs]))
   \<and> fst (Array_Some (leaves p h) (s, xs)) = Inr (list_ex (\<lambda>k. p (xs ! k) k) [0..<length xs])
   \<and> fst (Every (leaves p h) (s, xs)) = Inr (list_all (\<lambda>k. p (xs ! k) k) [0..<length xs])
   \<and> fst (FindIndex (leaves p h) (s, xs))
      = Inr (case List.find (\<lambda>k. p (xs ! k) k) [0..<length xs] of Some k \<Rightarrow> f64_of_nat k | None \<Rightarrow> Fin (-1))
   \<and> fst (Find (leaves p h) (s, xs)) = Inr (map_option ((!) xs) (List.find (\<lambda>k. p (xs ! k) k) [0..<length xs]))
   \<and> fst (FindLast (leaves p h) (s, xs)) = Inr (map_option ((!) xs) (List.find (\<lambda>k. p (xs ! k) k) (rev [0..<length xs])))
   \<and> fst (Reduce (\<lambda>acc. leaves (r acc) h) init (s, xs)) = Inr (fold (\<lambda>k acc. r acc (xs ! k) k) [0..<length xs] init)"
proof -
  let ?n = "length xs"
  have sub: "set [0..<?n] \<subseteq> {..<length xs}" "set (rev [0..<?n]) \<subseteq> {..<length xs}" by auto
  have ex: "(case List.find P ks of Some k \<Rightarrow> True | None \<Rightarrow> False) \<longleftrightarrow> list_ex P ks" for P and ks :: "nat list"
    by (induction ks) auto
  have all: "(case List.find (\<lambda>k. \<not> P k) ks of Some k \<Rightarrow> False | None \<Rightarrow> True) \<longleftrightarrow> list_all P ks" for P and ks :: "nat list"
    by (induction ks) auto
  have 1: "fst (Map (leaves g h) (s, xs)) = Inr (map (\<lambda>k. g (xs ! k) k) [0..<?n])"
    by (simp add: Map_def Let_def fst_finish_with fold_snoc
        iterate_all [OF _ sub(1), where step = "\<lambda>acc k. acc @ [g (xs ! k) k]"])
  have 2: "fst (Filter (leaves p h) (s, xs)) = Inr (map ((!) xs) (filter (\<lambda>k. p (xs ! k) k) [0..<?n]))"
    by (simp add: Filter_def Let_def fst_finish_with fold_filter
        iterate_all [OF _ sub(1), where step = "\<lambda>acc k. if p (xs ! k) k then acc @ [xs ! k] else acc"])
  have 3: "fst (Array_Some (leaves p h) (s, xs)) = Inr (list_ex (\<lambda>k. p (xs ! k) k) [0..<?n])"
    by (simp add: Array_Some_def Let_def fst_finish_with ex [symmetric]
        iterate_until [OF _ sub(1), where p = "\<lambda>k. p (xs ! k) k" and r = "\<lambda>_. True"] split: option.split)
  have 4: "fst (Every (leaves p h) (s, xs)) = Inr (list_all (\<lambda>k. p (xs ! k) k) [0..<?n])"
    by (simp add: Every_def Let_def fst_finish_with all [symmetric]
        iterate_until [OF _ sub(1), where p = "\<lambda>k. \<not> p (xs ! k) k" and r = "\<lambda>_. False"] split: option.split)
  have 5: "fst (FindIndex (leaves p h) (s, xs))
      = Inr (case List.find (\<lambda>k. p (xs ! k) k) [0..<?n] of Some k \<Rightarrow> f64_of_nat k | None \<Rightarrow> Fin (-1))"
    by (simp add: FindIndex_def Let_def fst_finish_with
        iterate_until [OF _ sub(1), where p = "\<lambda>k. p (xs ! k) k" and r = f64_of_nat] split: option.split)
  have 6: "fst (Find (leaves p h) (s, xs)) = Inr (map_option ((!) xs) (List.find (\<lambda>k. p (xs ! k) k) [0..<?n]))"
    by (simp add: Find_def Let_def fst_finish_with
        iterate_until [OF _ sub(1), where p = "\<lambda>k. p (xs ! k) k" and r = "\<lambda>k. Some (xs ! k)"] split: option.split)
  have 7: "fst (FindLast (leaves p h) (s, xs)) = Inr (map_option ((!) xs) (List.find (\<lambda>k. p (xs ! k) k) (rev [0..<?n])))"
    by (simp add: FindLast_def Let_def fst_finish_with
        iterate_until [OF _ sub(2), where p = "\<lambda>k. p (xs ! k) k" and r = "\<lambda>k. Some (xs ! k)"] split: option.split)
  have 8: "fst (Reduce (\<lambda>acc. leaves (r acc) h) init (s, xs)) = Inr (fold (\<lambda>k acc. r acc (xs ! k) k) [0..<?n] init)"
    by (simp add: Reduce_def Let_def reduce_loop_all [OF sub(1)])
  from 1 2 3 4 5 6 7 8 show ?thesis by blast
qed


text \<open>
  A callback that may change the array: it returns \<open>g\<close> of the element, the index and the state,
  and leaves the state \<open>h\<close>. The state after the first \<open>k\<close> calls:
\<close>

definition changes :: "('a \<Rightarrow> nat \<Rightarrow> ('s, 'a) state \<Rightarrow> 'b) \<Rightarrow> ('a \<Rightarrow> nat \<Rightarrow> ('s, 'a) state \<Rightarrow> ('s, 'a) state)
    \<Rightarrow> ('s, 'a, 'b) callback" where
  "changes g h = (\<lambda>v k st. (Inr (g v k st), h v k st))"

fun after_calls :: "('a \<Rightarrow> nat \<Rightarrow> ('s, 'a) state \<Rightarrow> ('s, 'a) state) \<Rightarrow> nat \<Rightarrow> ('s, 'a) state \<Rightarrow> ('s, 'a) state" where
  "after_calls h 0 st = st"
| "after_calls h (Suc k) st = (let st' = after_calls h k st in h (snd st' ! k) k st')"

text \<open>The first of the \<open>n\<close> indices the array no longer has when the loop reaches it.\<close>

definition shrunk_at :: "('a \<Rightarrow> nat \<Rightarrow> ('s, 'a) state \<Rightarrow> ('s, 'a) state) \<Rightarrow> nat \<Rightarrow> ('s, 'a) state \<Rightarrow> nat option" where
  "shrunk_at h n st = List.find (\<lambda>k. length (snd (after_calls h k st)) \<le> k) [0..<n]"

lemma iterate_changes:
  assumes "j \<le> n"
  shows "iterate name n (changes g h) (\<lambda>acc v k b. Inl (acc @ [b])) [j..<n] acc (after_calls h j st) =
    (case List.find (\<lambda>k. length (snd (after_calls h k st)) \<le> k) [j..<n] of
       None \<Rightarrow> (Inr (Inl (acc @ map (\<lambda>k. let st' = after_calls h k st in g (snd st' ! k) k st') [j..<n])), after_calls h n st)
     | Some k \<Rightarrow> (Inl (Panic (ArrayShrank (length (snd (after_calls h k st))) name n)), after_calls h k st))"
  using assms
proof (induction "n - j" arbitrary: j acc)
  case (Suc d)
  then have j: "[j..<n] = j # [Suc j..<n]" "Suc j \<le> n" "d = n - Suc j" by (auto simp: upt_conv_Cons)
  show ?case
  proof (cases "length (snd (after_calls h j st)) \<le> j")
    case True
    then show ?thesis by (simp add: j(1) visit_elem_def)
  next
    case False
    let ?b = "g (snd (after_calls h j st) ! j) j (after_calls h j st)"
    have step: "iterate name n (changes g h) (\<lambda>acc v k b. Inl (acc @ [b])) [j..<n] acc (after_calls h j st)
        = iterate name n (changes g h) (\<lambda>acc v k b. Inl (acc @ [b])) [Suc j..<n] (acc @ [?b]) (after_calls h (Suc j) st)"
      using False by (simp add: j(1) visit_elem_def changes_def Let_def del: upt_Suc)
    show ?thesis unfolding step Suc(1) [OF j(3,2), of "acc @ [?b]"]
      using False by (simp add: j(1) Let_def del: after_calls.simps split: option.split)
  qed
qed simp

text \<open>
  \<open>map\<close> with a callback that changes the array reads the length once and each element as it is
  when it is reached: elements the callback pushes are not visited, and the first index it has
  removed by the time it is reached ends the method with a panic, after the calls before it.
\<close>

theorem Map_changing_callback:
  "Map (changes g h) st =
     (case shrunk_at h (length (snd st)) st of
        None \<Rightarrow> (Inr (map (\<lambda>k. let st' = after_calls h k st in g (snd st' ! k) k st') [0..<length (snd st)]),
                 after_calls h (length (snd st)) st)
      | Some k \<Rightarrow> (Inl (Panic (ArrayShrank (length (snd (after_calls h k st))) ''map'' (length (snd st)))),
                 after_calls h k st))"
proof -
  have "finish_with id (iterate ''map'' (length (snd st)) (changes g h) (\<lambda>mapped v k b. Inl (mapped @ [b])) [0..<length (snd st)] [] st)
      = (case shrunk_at h (length (snd st)) st of
        None \<Rightarrow> (Inr (map (\<lambda>k. let st' = after_calls h k st in g (snd st' ! k) k st') [0..<length (snd st)]),
                 after_calls h (length (snd st)) st)
      | Some k \<Rightarrow> (Inl (Panic (ArrayShrank (length (snd (after_calls h k st))) ''map'' (length (snd st)))),
                 after_calls h k st))"
    by (subst iterate_changes [of 0 _ _ _ _ _ st, unfolded after_calls.simps(1)])
      (simp_all add: finish_with_def shrunk_at_def split: option.split)
  then show ?thesis by (simp only: Map_def Let_def)
qed

end
