(* ===== verification/IrTypes.thy ===== *)
theory IrTypes
  imports Complex_Main "HOL-Library.Char_ord" "HOL-Library.List_Lexorder"
begin

text \<open>
  The type surface of the IR (\<open>ir/types.go\<close>, and \<open>Unknown\<close> and \<open>Error\<close> of \<open>ir/errors.go\<close>):
  \<open>Kind\<close>, \<open>HostType\<close>, \<open>Type\<close> and \<open>Signature\<close>, their constructors, \<open>Equal\<close>, \<open>IsExtension\<close>,
  \<open>IsNumeric\<close> and \<open>String\<close>.

  A \<open>Type\<close> is a datatype with a constructor per \<open>Kind\<close>, which carries the one field that kind
  gives meaning to. A pointer that the code tests against nil is an \<open>option\<close>: \<open>Elem\<close> and
  \<open>Sig\<close> point to values never written after they are made, so they are those values, and
  \<open>Shape\<close> points to a shape the interner writes, so it is the shape's address.

  Proved: \<open>Equal\<close> decides equality, though it follows pointers.
\<close>

named_theorems ir_simps

subsection \<open>Kinds and host types\<close>

datatype Kind =
    KindInvalid | KindNumber | KindString | KindBoolean | KindVoid | KindNull | KindUndefined
  | KindInt32 | KindInt64 | KindUint32 | KindUint64 | KindFloat32 | KindBase64
  | KindFunc | KindHost | KindPromise | KindObject | KindArray | KindMaybe | KindUnknown | KindError

definition kinds :: "Kind list" where
  "kinds = [KindInvalid, KindNumber, KindString, KindBoolean, KindVoid, KindNull, KindUndefined,
    KindInt32, KindInt64, KindUint32, KindUint64, KindFloat32, KindBase64,
    KindFunc, KindHost, KindPromise, KindObject, KindArray, KindMaybe, KindUnknown, KindError]"

text \<open>The value \<open>iota\<close> gives each, which \<open>IsExtension\<close> and a shape's key read.\<close>

fun kind_int :: "Kind \<Rightarrow> nat" where
  "kind_int KindInvalid = 0" | "kind_int KindNumber = 1" | "kind_int KindString = 2"
| "kind_int KindBoolean = 3" | "kind_int KindVoid = 4" | "kind_int KindNull = 5"
| "kind_int KindUndefined = 6" | "kind_int KindInt32 = 7" | "kind_int KindInt64 = 8"
| "kind_int KindUint32 = 9" | "kind_int KindUint64 = 10" | "kind_int KindFloat32 = 11"
| "kind_int KindBase64 = 12" | "kind_int KindFunc = 13" | "kind_int KindHost = 14"
| "kind_int KindPromise = 15" | "kind_int KindObject = 16" | "kind_int KindArray = 17"
| "kind_int KindMaybe = 18" | "kind_int KindUnknown = 19" | "kind_int KindError = 20"

datatype HostType = HostNone | HostHTTPServer | HostIncomingMessage | HostServerResponse

fun host_int :: "HostType \<Rightarrow> nat" where
  "host_int HostNone = 0" | "host_int HostHTTPServer = 1"
| "host_int HostIncomingMessage = 2" | "host_int HostServerResponse = 3"

fun HostType_String :: "HostType \<Rightarrow> string" where
  "HostType_String HostHTTPServer = ''Server''"
| "HostType_String HostIncomingMessage = ''IncomingMessage''"
| "HostType_String HostServerResponse = ''ServerResponse''"
| "HostType_String HostNone = ''host''"

subsection \<open>Types\<close>

type_synonym shape_ref = nat

datatype ty =
    TInvalid | TNumber | TString | TBoolean | TVoid | TNull | TUndefined
  | TInt32 | TInt64 | TUint32 | TUint64 | TFloat32 | TBase64
  | TFunc "(ty list \<times> ty) option"
  | THost HostType
  | TPromise "ty option"
  | TObject "shape_ref option"
  | TArray "ty option"
  | TMaybe "ty option"
  | TUnknown
  | TError

type_synonym signature = "ty list \<times> ty"

fun Kind_of :: "ty \<Rightarrow> Kind" where
  "Kind_of TInvalid = KindInvalid" | "Kind_of TNumber = KindNumber" | "Kind_of TString = KindString"
| "Kind_of TBoolean = KindBoolean" | "Kind_of TVoid = KindVoid" | "Kind_of TNull = KindNull"
| "Kind_of TUndefined = KindUndefined" | "Kind_of TInt32 = KindInt32" | "Kind_of TInt64 = KindInt64"
| "Kind_of TUint32 = KindUint32" | "Kind_of TUint64 = KindUint64" | "Kind_of TFloat32 = KindFloat32"
| "Kind_of TBase64 = KindBase64" | "Kind_of (TFunc _) = KindFunc" | "Kind_of (THost _) = KindHost"
| "Kind_of (TPromise _) = KindPromise" | "Kind_of (TObject _) = KindObject"
| "Kind_of (TArray _) = KindArray" | "Kind_of (TMaybe _) = KindMaybe"
| "Kind_of TUnknown = KindUnknown" | "Kind_of TError = KindError"

definition FuncType :: "ty list \<Rightarrow> ty \<Rightarrow> ty" where
  "FuncType params result = TFunc (Some (params, result))"

definition HostOf :: "HostType \<Rightarrow> ty" where "HostOf h = THost h"
definition PromiseOf :: "ty \<Rightarrow> ty" where "PromiseOf elem = TPromise (Some elem)"
definition ArrayOf :: "ty \<Rightarrow> ty" where "ArrayOf elem = TArray (Some elem)"
definition MaybeOf :: "ty \<Rightarrow> ty" where "MaybeOf elem = TMaybe (Some elem)"
definition ObjectOf :: "shape_ref \<Rightarrow> ty" where "ObjectOf s = TObject (Some s)"

lemmas type_makers [ir_simps] =
  FuncType_def HostOf_def PromiseOf_def ArrayOf_def MaybeOf_def ObjectOf_def

definition ResolveType :: "ty \<Rightarrow> ty" where
  "ResolveType elem = (if elem = TVoid then FuncType [] TVoid else FuncType [elem] TVoid)"

definition RejectType :: ty where
  "RejectType = FuncType [TUnknown] TVoid"

definition ExecutorType :: "ty \<Rightarrow> ty" where
  "ExecutorType elem = FuncType [ResolveType elem, RejectType] TVoid"

definition OrUndefined :: "ty \<Rightarrow> ty" where
  "OrUndefined t = (if Kind_of t = KindMaybe \<or> t = TUnknown then t else MaybeOf t)"

text \<open>The fields \<open>t.Host\<close>, \<open>t.Sig\<close>, \<open>t.Elem\<close> and \<open>t.Shape\<close>, zero where the kind has none.\<close>

fun Host_of :: "ty \<Rightarrow> HostType" where
  "Host_of (THost h) = h" | "Host_of _ = HostNone"

fun Sig_of :: "ty \<Rightarrow> signature option" where
  "Sig_of (TFunc s) = s" | "Sig_of _ = None"

fun Elem_of :: "ty \<Rightarrow> ty option" where
  "Elem_of (TPromise e) = e" | "Elem_of (TArray e) = e" | "Elem_of (TMaybe e) = e" | "Elem_of _ = None"

fun Shape_of :: "ty \<Rightarrow> shape_ref option" where
  "Shape_of (TObject s) = s" | "Shape_of _ = None"

lemma ty_fields:
  "t = u \<longleftrightarrow> Kind_of t = Kind_of u \<and> Host_of t = Host_of u \<and> Sig_of t = Sig_of u
     \<and> Elem_of t = Elem_of u \<and> Shape_of t = Shape_of u"
  by (cases t; cases u; simp)

subsection \<open>Equality\<close>

text \<open>
  \<open>Type.Equal\<close> and \<open>Signature.Equal\<close>: the kinds first, then what the kind selects. The
  loop over the parameters is \<open>params_equal\<close>, whose lists \<open>Signature.Equal\<close> has found to be
  of one length.
\<close>

lemma size_Elem_of: "Elem_of t = Some e \<Longrightarrow> size e < size t"
  by (cases t) auto

lemma size_Sig_of: "Sig_of t = Some (ps, r) \<Longrightarrow> size_list size ps + size r < size t"
  by (cases t) auto

function Type_Equal :: "ty \<Rightarrow> ty \<Rightarrow> bool"
and Signature_Equal :: "ty list \<Rightarrow> ty \<Rightarrow> ty list \<Rightarrow> ty \<Rightarrow> bool"
and params_equal :: "ty list \<Rightarrow> ty list \<Rightarrow> bool" where
  "Type_Equal t u =
     (if Kind_of t \<noteq> Kind_of u then False
      else if Kind_of t = KindHost then Host_of t = Host_of u
      else if Kind_of t = KindFunc then
        (case Sig_of t of
           None \<Rightarrow> Sig_of u = None
         | Some (ps, r) \<Rightarrow> (case Sig_of u of None \<Rightarrow> False | Some (ps', r') \<Rightarrow> Signature_Equal ps r ps' r'))
      else if Kind_of t \<in> {KindPromise, KindArray, KindMaybe} then
        (case Elem_of t of
           None \<Rightarrow> Elem_of u = None
         | Some e \<Rightarrow> (case Elem_of u of None \<Rightarrow> False | Some e' \<Rightarrow> Type_Equal e e'))
      else if Kind_of t = KindObject then Shape_of t = Shape_of u
      else True)"
| "Signature_Equal ps r ps' r' =
     (if length ps \<noteq> length ps' \<or> \<not> Type_Equal r r' then False else params_equal ps ps')"
| "params_equal [] qs = True"
| "params_equal (p # ps) [] = False"
| "params_equal (p # ps) (q # qs) = (if Type_Equal p q then params_equal ps qs else False)"
  by pat_completeness auto
termination
  by (relation "measure (\<lambda>x. case x of Inl (t, u) \<Rightarrow> 2 * size t
      | Inr (Inl (ps, r, ps', r')) \<Rightarrow> 2 * (size_list size ps + size r) + 1
      | Inr (Inr (ps, qs)) \<Rightarrow> 2 * size_list size ps)")
    (auto dest!: size_Elem_of size_Sig_of)

declare Type_Equal.simps [simp del]

lemma Type_Equal_eq:
  "Type_Equal t u \<longleftrightarrow> t = u"
  "Signature_Equal ps r ps' r' \<longleftrightarrow> ps = ps' \<and> r = r'"
  "length xs = length ys \<Longrightarrow> params_equal xs ys \<longleftrightarrow> xs = ys"
proof (induction t u and ps r ps' r' and xs ys rule: Type_Equal_Signature_Equal_params_equal.induct)
  case (1 t u)
  then show ?case
    by (subst Type_Equal.simps) (cases t; cases u; auto split: option.split)
qed auto

lemmas Type_Equal_simp [simp, ir_simps] = Type_Equal_eq(1)

subsection \<open>Families\<close>

definition IsExtension :: "ty \<Rightarrow> bool" where
  "IsExtension t \<longleftrightarrow> kind_int (Kind_of t) \<ge> kind_int KindInt32 \<and> kind_int (Kind_of t) \<le> kind_int KindBase64"

definition IsNumeric :: "ty \<Rightarrow> bool" where
  "IsNumeric t \<longleftrightarrow> Kind_of t = KindNumber \<or> (IsExtension t \<and> Kind_of t \<noteq> KindBase64)"

lemma IsExtension_iff [ir_simps]: "IsExtension t \<longleftrightarrow> t \<in> {TInt32, TInt64, TUint32, TUint64, TFloat32, TBase64}"
  by (cases t) (simp_all add: IsExtension_def)

lemma IsNumeric_iff [ir_simps]: "IsNumeric t \<longleftrightarrow> t \<in> {TNumber, TInt32, TInt64, TUint32, TUint64, TFloat32}"
  by (cases t) (simp_all add: IsNumeric_def IsExtension_def)

lemma kind_int_eq [simp]: "kind_int k = kind_int l \<longleftrightarrow> k = l"
  by (cases k; cases l) simp_all

lemma host_int_eq [simp]: "host_int k = host_int l \<longleftrightarrow> k = l"
  by (cases k; cases l) simp_all

subsection \<open>Spelling\<close>

text \<open>\<open>strings.Join\<close>.\<close>

fun Join :: "string list \<Rightarrow> string \<Rightarrow> string" where
  "Join [] sep = ''''"
| "Join [x] sep = x"
| "Join (x # y # ys) sep = x @ sep @ Join (y # ys) sep"

text \<open>
  \<open>Type.String\<close> and \<open>Signature.String\<close>. \<open>Shape.String\<close>, which is in \<open>IrShape\<close>, reads a
  type's fields and so comes back here: it is the argument \<open>S\<close>, which may not return.
\<close>

fun Type_String :: "(shape_ref option \<Rightarrow> string option) \<Rightarrow> ty \<Rightarrow> string option" where
  "Type_String S TNumber = Some ''number''"
| "Type_String S TString = Some ''string''"
| "Type_String S TBoolean = Some ''boolean''"
| "Type_String S TVoid = Some ''void''"
| "Type_String S TNull = Some ''null''"
| "Type_String S TUndefined = Some ''undefined''"
| "Type_String S TInt32 = Some ''i32''"
| "Type_String S TInt64 = Some ''i64''"
| "Type_String S TUint32 = Some ''u32''"
| "Type_String S TUint64 = Some ''u64''"
| "Type_String S TFloat32 = Some ''f32''"
| "Type_String S TBase64 = Some ''base64''"
| "Type_String S (TFunc None) = Some ''() => invalid''"
| "Type_String S (TFunc (Some (ps, r))) =
     (case those (map (Type_String S) ps) of
        None \<Rightarrow> None
      | Some params \<Rightarrow> map_option (\<lambda>res. ''('' @ Join params '', '' @ '') => '' @ res) (Type_String S r))"
| "Type_String S (THost h) = Some (HostType_String h)"
| "Type_String S (TPromise None) = Some ''Promise<invalid>''"
| "Type_String S (TPromise (Some e)) = map_option (\<lambda>s. ''Promise<'' @ s @ ''>'') (Type_String S e)"
| "Type_String S (TArray None) = Some ''invalid[]''"
| "Type_String S (TArray (Some e)) =
     map_option (\<lambda>s. if Kind_of e = KindFunc \<or> Kind_of e = KindMaybe then ''('' @ s @ '')[]'' else s @ ''[]'')
       (Type_String S e)"
| "Type_String S (TObject s) = S s"
| "Type_String S (TMaybe None) = Some ''invalid | null | undefined''"
| "Type_String S (TMaybe (Some e)) =
     map_option (\<lambda>s. if Kind_of e = KindFunc then ''('' @ s @ '') | null | undefined'' else s @ '' | null | undefined'')
       (Type_String S e)"
| "Type_String S TUnknown = Some ''unknown''"
| "Type_String S TError = Some ''Error''"
| "Type_String S TInvalid = Some ''invalid''"

text \<open>The shapes a type mentions.\<close>

fun shapes_of :: "ty \<Rightarrow> shape_ref set" where
  "shapes_of (TFunc (Some (ps, r))) = (\<Union>p \<in> set ps. shapes_of p) \<union> shapes_of r"
| "shapes_of (TPromise (Some e)) = shapes_of e"
| "shapes_of (TArray (Some e)) = shapes_of e"
| "shapes_of (TMaybe (Some e)) = shapes_of e"
| "shapes_of (TObject (Some s)) = {s}"
| "shapes_of _ = {}"

lemma finite_shapes_of [simp]: "finite (shapes_of t)"
  by (induction t rule: shapes_of.induct) auto

lemma those_Some: "\<forall>x \<in> set xs. \<exists>y. f x = Some y \<Longrightarrow> \<exists>ys. those (map f xs) = Some ys"
  by (induction xs) auto

lemma Type_String_total:
  "\<forall>s \<in> shapes_of t. \<exists>y. S (Some s) = Some y \<Longrightarrow> \<exists>y. S None = Some y \<Longrightarrow> \<exists>y. Type_String S t = Some y"
proof (induction S t rule: Type_String.induct)
  case (14 S ps r)
  have "\<exists>ys. those (map (Type_String S) ps) = Some ys"
  proof (intro those_Some ballI)
    fix p assume p: "p \<in> set ps"
    with 14(3) have "\<forall>s \<in> shapes_of p. \<exists>y. S (Some s) = Some y" by auto
    from 14(1) [OF p this 14(4)] show "\<exists>y. Type_String S p = Some y" .
  qed
  then obtain ys where ys: "those (map (Type_String S) ps) = Some ys" by blast
  with 14(2) [OF this] 14(3,4) show ?case by fastforce
next
  case (20 S s)
  then show ?case by (cases s) auto
qed auto

end
