(* ===== verification/IrShape.thy ===== *)
theory IrShape
  imports IrTypes GoStrconv "HOL-Library.Multiset"
begin

text \<open>
  Object shapes and the interner that makes one structure one shape (\<open>ir/shape.go\<close>).

  A \<open>*Shape\<close> is an address into the heap of the interner that made it, since \<open>Define\<close> and
  \<open>addName\<close> write through the pointer and the code compares pointers. \<open>slices.BinarySearchFunc\<close>
  is written out; \<open>slices.SortStableFunc\<close> is the library's stable \<open>sort_key\<close>.

  Proved: a shape's key determines its fields (\<open>shapeKey_eq\<close>), \<open>Index\<close> finds the field of a
  name, spelling a shape ends where each cycle of types has a name in it, and interning is
  canonical.
\<close>

subsection \<open>Shapes\<close>

record Field =
  f_Name :: string
  f_Type :: ty
  f_Optional :: bool

record Shape =
  sh_ID :: nat
  sh_Fields :: "Field list"
  sh_Names :: "string list"
  sh_pending :: bool

text \<open>\<open>strings.Compare\<close>.\<close>

definition Compare :: "string \<Rightarrow> string \<Rightarrow> int" where
  "Compare a b = (if a < b then -1 else if a = b then 0 else 1)"

text \<open>
  \<open>slices.BinarySearchFunc\<close>: the search between \<open>i\<close> and \<open>j\<close> for the first element that does
  not compare below the target.
\<close>

function search_from :: "'a list \<Rightarrow> ('a \<Rightarrow> int) \<Rightarrow> nat \<Rightarrow> nat \<Rightarrow> nat" where
  "search_from xs cmp i j =
     (if i < j then
        let h = (i + j) div 2
        in if cmp (xs ! h) < 0 then search_from xs cmp (h + 1) j else search_from xs cmp i h
      else i)"
  by pat_completeness auto
termination
  by (relation "measure (\<lambda>(xs, cmp, i, j). j - i)") auto

declare search_from.simps [simp del]

definition BinarySearchFunc :: "'a list \<Rightarrow> ('a \<Rightarrow> int) \<Rightarrow> nat \<times> bool" where
  "BinarySearchFunc xs cmp =
     (let i = search_from xs cmp 0 (length xs)
      in (i, i < length xs \<and> cmp (xs ! i) = 0))"

definition Shape_Index :: "Shape \<Rightarrow> string \<Rightarrow> int" where
  "Shape_Index s name =
     (let (i, ok) = BinarySearchFunc (sh_Fields s) (\<lambda>f. Compare (f_Name f) name)
      in if \<not> ok then -1 else int i)"

definition addName :: "Shape \<Rightarrow> string \<Rightarrow> Shape" where
  "addName s name =
     (if name \<noteq> '''' \<and> name \<notin> set (sh_Names s) then s\<lparr>sh_Names := sh_Names s @ [name]\<rparr> else s)"

definition sortedFields :: "Field list \<Rightarrow> Field list" where
  "sortedFields fs = sort_key f_Name fs"

text \<open>
  \<open>Shape.String\<close>. The code recurses into the types of a shape's fields, and into their
  shapes; \<open>n\<close> is how many shapes deep it may go, and None that it went deeper.
\<close>

definition field_string :: "(shape_ref option \<Rightarrow> string option) \<Rightarrow> Field \<Rightarrow> string option" where
  "field_string S f =
     (if f_Optional f \<and> Kind_of (f_Type f) = KindMaybe \<and> Elem_of (f_Type f) \<noteq> None
      then map_option (\<lambda>t. f_Name f @ ''?: '' @ t) (Type_String S (the (Elem_of (f_Type f))))
      else if f_Optional f \<and> f_Type f = TUnknown
      then map_option (\<lambda>t. f_Name f @ ''?: '' @ t) (Type_String S (f_Type f))
      else map_option (\<lambda>t. f_Name f @ '': '' @ t) (Type_String S (f_Type f)))"

fun Shape_String :: "nat \<Rightarrow> Shape list \<Rightarrow> shape_ref option \<Rightarrow> string option" where
  "Shape_String n h None = Some ''{ invalid }''"
| "Shape_String n h (Some a) =
     (if sh_Names (h ! a) \<noteq> [] then Some (hd (sh_Names (h ! a)))
      else if sh_Fields (h ! a) = [] then Some ''{}''
      else case n of
        0 \<Rightarrow> None
      | Suc m \<Rightarrow>
          map_option (\<lambda>parts. ''{ '' @ Join parts ''; '' @ '' }'')
            (those (map (field_string (Shape_String m h)) (sh_Fields (h ! a)))))"

subsection \<open>Keys\<close>

fun TypeKey :: "ty \<Rightarrow> string" where
  "TypeKey t =
     Itoa (kind_int (Kind_of t)) @
     (case t of
        THost h \<Rightarrow> ''h'' @ Itoa (host_int h)
      | TObject None \<Rightarrow> ''#nil''
      | TObject (Some s) \<Rightarrow> ''#'' @ Itoa s
      | TPromise e \<Rightarrow> ''<'' @ (case e of None \<Rightarrow> '''' | Some e \<Rightarrow> TypeKey e) @ ''>''
      | TArray e \<Rightarrow> ''<'' @ (case e of None \<Rightarrow> '''' | Some e \<Rightarrow> TypeKey e) @ ''>''
      | TMaybe e \<Rightarrow> ''<'' @ (case e of None \<Rightarrow> '''' | Some e \<Rightarrow> TypeKey e) @ ''>''
      | TFunc s \<Rightarrow> ''('' @ (case s of None \<Rightarrow> ''''
          | Some (ps, r) \<Rightarrow> concat (map (\<lambda>p. TypeKey p @ '','') ps) @ '')'' @ TypeKey r)
      | _ \<Rightarrow> '''')"

declare TypeKey.simps [simp del]

definition field_key :: "(rune \<Rightarrow> bool) \<Rightarrow> Field \<Rightarrow> string" where
  "field_key isPrint f =
     Quote isPrint (f_Name f) @ (if f_Optional f then ''?'' else '''') @ '':'' @ TypeKey (f_Type f) @ '';''"

definition shapeKey :: "(rune \<Rightarrow> bool) \<Rightarrow> Field list \<Rightarrow> string" where
  "shapeKey isPrint fs = concat (map (field_key isPrint) fs)"

subsection \<open>The interner\<close>

record Shapes =
  heap :: "Shape list"
  slist :: "shape_ref list"
  byKey :: "string \<rightharpoonup> shape_ref"

definition Shapes_empty :: Shapes where
  "Shapes_empty = \<lparr>heap = [], slist = [], byKey = Map.empty\<rparr>"

text \<open>\<open>Shapes.add\<close>: allocates a shape, whose ID is its place in the list.\<close>

definition Shapes_add :: "Shapes \<Rightarrow> string \<Rightarrow> Shapes \<times> shape_ref" where
  "Shapes_add S name =
     (let sh = addName \<lparr>sh_ID = length (slist S), sh_Fields = [], sh_Names = [], sh_pending = False\<rparr> name;
          a = length (heap S)
      in (S\<lparr>heap := heap S @ [sh], slist := slist S @ [a]\<rparr>, a))"

definition Intern :: "(rune \<Rightarrow> bool) \<Rightarrow> Shapes \<Rightarrow> string \<Rightarrow> Field list \<Rightarrow> Shapes \<times> shape_ref" where
  "Intern isPrint S name fs =
     (let sorted = sortedFields fs;
          key = shapeKey isPrint sorted
      in case byKey S key of
           Some a \<Rightarrow> (S\<lparr>heap := (heap S)[a := addName (heap S ! a) name]\<rparr>, a)
         | None \<Rightarrow>
             let (S', a) = Shapes_add S name;
                 S'' = S'\<lparr>heap := (heap S')[a := (heap S' ! a)\<lparr>sh_Fields := sorted\<rparr>]\<rparr>
             in (S''\<lparr>byKey := (byKey S'')(key \<mapsto> a)\<rparr>, a))"

definition Reserve :: "Shapes \<Rightarrow> string \<Rightarrow> Shapes \<times> shape_ref" where
  "Reserve S name =
     (let (S', a) = Shapes_add S name
      in (S'\<lparr>heap := (heap S')[a := (heap S' ! a)\<lparr>sh_pending := True\<rparr>]\<rparr>, a))"

text \<open>\<open>Define\<close>: Inl is the panic of a shape that is not reserved.\<close>

definition Define :: "(rune \<Rightarrow> bool) \<Rightarrow> Shapes \<Rightarrow> shape_ref \<Rightarrow> Field list \<Rightarrow> string + Shapes \<times> shape_ref option" where
  "Define isPrint S a fs =
     (if \<not> sh_pending (heap S ! a)
      then Inl ''ir: Define of a shape that is not reserved, or defined twice''
      else
        let S' = S\<lparr>heap := (heap S)[a := (heap S ! a)\<lparr>sh_Fields := sortedFields fs, sh_pending := False\<rparr>]\<rparr>;
            key = shapeKey isPrint (sh_Fields (heap S' ! a))
        in case byKey S' key of
             Some other \<Rightarrow> Inr (S', Some other)
           | None \<Rightarrow> Inr (S'\<lparr>byKey := (byKey S')(key \<mapsto> a)\<rparr>, None))"

definition Shapes_All :: "Shapes \<Rightarrow> shape_ref list" where
  "Shapes_All S = slist S"

subsection \<open>Keys determine fields\<close>

text \<open>What may follow a type's key inside a shape's.\<close>

definition delim :: "string \<Rightarrow> bool" where
  "delim s \<longleftrightarrow> s \<noteq> [] \<and> hd s \<in> {CHR '','', CHR ''>'', CHR '';''}"

lemma delim_Cons [simp]: "delim (c # s) \<longleftrightarrow> c \<in> {CHR '','', CHR ''>'', CHR '';''}"
  by (simp add: delim_def)

lemma not_digits: "\<not> is_digit CHR ''h''" "\<not> is_digit CHR ''#''" "\<not> is_digit CHR ''<''" "\<not> is_digit CHR ''(''"
  "\<not> is_digit CHR '',''" "\<not> is_digit CHR ''>''" "\<not> is_digit CHR '';''" "\<not> is_digit CHR '')''"
  "\<not> is_digit CHR ''n''"
  by (simp_all add: is_digit_def)

lemma delim_no_digit: "delim s \<Longrightarrow> no_digit s"
  by (auto simp: delim_def no_digit_def not_digits)

lemma TypeKey_hd: "\<exists>d k. TypeKey t = d # k \<and> is_digit d"
proof -
  have "Itoa n = d # k \<Longrightarrow> is_digit d" for n d k
    using Itoa_digits [of n] by auto
  then show ?thesis using Itoa_not_Nil [of "kind_int (Kind_of t)"]
    by (cases "Itoa (kind_int (Kind_of t))") (auto simp: TypeKey.simps [of t])
qed

lemma no_digit_Cons [simp]: "no_digit (c # s) \<longleftrightarrow> \<not> is_digit c"
  by (simp add: no_digit_def)

lemma params_key_split:
  assumes "\<And>p q x y. p \<in> set ps \<Longrightarrow> TypeKey p @ x = TypeKey q @ y \<Longrightarrow> delim x \<Longrightarrow> delim y \<Longrightarrow> p = q \<and> x = y"
    and "concat (map (\<lambda>p. TypeKey p @ '','') ps) @ '')'' @ x = concat (map (\<lambda>p. TypeKey p @ '','') qs) @ '')'' @ y"
  shows "ps = qs \<and> x = y"
  using assms
proof (induction ps arbitrary: qs)
  case Nil
  then show ?case using TypeKey_hd [of "hd qs"] by (cases qs) (auto simp: not_digits)
next
  case (Cons p ps)
  show ?case
  proof (cases qs)
    case Nil
    with Cons.prems(2) TypeKey_hd [of p] show ?thesis by (auto simp: not_digits)
  next
    case q: (Cons q qs')
    have "p = q \<and> '','' @ concat (map (\<lambda>p. TypeKey p @ '','') ps) @ '')'' @ x
        = '','' @ concat (map (\<lambda>p. TypeKey p @ '','') qs') @ '')'' @ y"
      by (rule Cons.prems(1)) (use Cons.prems(2) q in simp_all)
    moreover from this have "ps = qs' \<and> x = y"
      by (intro Cons.IH) (rule Cons.prems(1); simp; fail | simp)+
    ultimately show ?thesis using q by simp
  qed
qed

lemma elem_key_split:
  assumes "\<And>t q x y. e = Some t \<Longrightarrow> TypeKey t @ x = TypeKey q @ y \<Longrightarrow> delim x \<Longrightarrow> delim y \<Longrightarrow> t = q \<and> x = y"
    and "(case e of None \<Rightarrow> '''' | Some t \<Rightarrow> TypeKey t) @ CHR ''>'' # x
       = (case e' of None \<Rightarrow> '''' | Some t \<Rightarrow> TypeKey t) @ CHR ''>'' # y"
  shows "e = e' \<and> x = y"
proof (cases e; cases e')
  fix t assume "e = Some t" "e' = None"
  with assms(2) TypeKey_hd [of t] show ?thesis by (auto simp: not_digits)
next
  fix t assume "e = None" "e' = Some t"
  with assms(2) TypeKey_hd [of t] show ?thesis by (auto simp: not_digits)
next
  fix t q assume "e = Some t" "e' = Some q"
  with assms(1) [of t "CHR ''>'' # x" q "CHR ''>'' # y"] assms(2) show ?thesis by simp
qed (use assms(2) in simp)

definition type_rest :: "ty \<Rightarrow> string" where
  "type_rest t = drop (length (Itoa (kind_int (Kind_of t)))) (TypeKey t)"

lemma type_rest:
  "TypeKey t = Itoa (kind_int (Kind_of t)) @ type_rest t"
  by (simp add: type_rest_def TypeKey.simps [of t])

lemma type_rest_simps [simp]:
  "type_rest (THost h) = CHR ''h'' # Itoa (host_int h)"
  "type_rest (TObject None) = ''#nil''"
  "type_rest (TObject (Some s)) = CHR ''#'' # Itoa s"
  "type_rest (TPromise e) = CHR ''<'' # (case e of None \<Rightarrow> '''' | Some e \<Rightarrow> TypeKey e) @ ''>''"
  "type_rest (TArray e) = CHR ''<'' # (case e of None \<Rightarrow> '''' | Some e \<Rightarrow> TypeKey e) @ ''>''"
  "type_rest (TMaybe e) = CHR ''<'' # (case e of None \<Rightarrow> '''' | Some e \<Rightarrow> TypeKey e) @ ''>''"
  "type_rest (TFunc None) = ''(''"
  "type_rest (TFunc (Some (ps, r))) = CHR ''('' # concat (map (\<lambda>p. TypeKey p @ '','') ps) @ '')'' @ TypeKey r"
  by (simp_all add: type_rest_def TypeKey.simps)

lemma type_rest_plain [simp]:
  "Kind_of t \<notin> {KindHost, KindObject, KindPromise, KindArray, KindMaybe, KindFunc} \<Longrightarrow> type_rest t = ''''"
  by (cases t) (simp_all add: type_rest_def TypeKey.simps)

lemma no_digit_rest: "delim x \<Longrightarrow> no_digit (type_rest t @ x)"
proof (cases t)
  case (TFunc s) then show ?thesis by (cases s) (auto simp: not_digits split: prod.split)
next
  case (TObject s) then show ?thesis by (cases s) (auto simp: not_digits)
qed (auto simp: not_digits delim_no_digit)

lemma params_not_delim: "\<not> delim (concat (map (\<lambda>p. TypeKey p @ '','') ps) @ CHR '')'' # w)"
  using TypeKey_hd [of "hd ps"] by (cases ps) (auto simp: not_digits)

lemma size_list_member: "p \<in> set ps \<Longrightarrow> size p \<le> size_list size ps"
  by (induction ps) auto

lemma TypeKey_split:
  "TypeKey t @ x = TypeKey u @ y \<Longrightarrow> delim x \<Longrightarrow> delim y \<Longrightarrow> t = u \<and> x = y"
proof (induction "size t" arbitrary: t u x y rule: less_induct)
  case less
  have "kind_int (Kind_of t) = kind_int (Kind_of u) \<and> type_rest t @ x = type_rest u @ y"
    using less.prems by (intro Itoa_split no_digit_rest) (simp_all add: type_rest)
  then have k: "Kind_of t = Kind_of u" and rest: "type_rest t @ x = type_rest u @ y" by simp_all
  have IH: "p = q \<and> v = w"
    if "size p < size t" "TypeKey p @ v = TypeKey q @ w" "delim v" "delim w" for p q v w
    using less.hyps that by blast
  show ?case
  proof (cases t)
    case (THost h)
    with k obtain h' where u: "u = THost h'" by (cases u) auto
    have "host_int h = host_int h' \<and> x = y"
      by (rule Itoa_split) (use rest THost u less.prems in \<open>simp_all add: delim_no_digit\<close>)
    then show ?thesis using THost u by simp
  next
    case (TObject s)
    with k obtain s' where u: "u = TObject s'" by (cases u) auto
    have "s = s' \<and> x = y"
    proof (cases s; cases s')
      fix a b assume ab: "s = Some a" "s' = Some b"
      have "a = b \<and> x = y"
        by (rule Itoa_split) (use rest TObject u ab less.prems in \<open>simp_all add: delim_no_digit\<close>)
      with ab show ?thesis by simp
    next
      fix a assume "s = Some a" "s' = None"
      with rest TObject u have "Itoa a @ x = ''nil'' @ y" by simp
      with Itoa_digits [of a] have False by (cases "Itoa a") (auto simp: not_digits)
      then show ?thesis ..
    next
      fix a assume "s = None" "s' = Some a"
      with rest TObject u have "Itoa a @ y = ''nil'' @ x" by simp
      with Itoa_digits [of a] have False by (cases "Itoa a") (auto simp: not_digits)
      then show ?thesis ..
    qed (use rest TObject u in simp)
    with TObject u show ?thesis by simp
  next
    case (TFunc s)
    with k obtain s' where u: "u = TFunc s'" by (cases u) auto

    have "s = s' \<and> x = y"
    proof (cases s; cases s')
      fix a b assume ab: "s = Some a" "s' = Some b"
      obtain ps r qs r' where pr: "a = (ps, r)" "b = (qs, r')" by (cases a; cases b)
      have "ps = qs \<and> TypeKey r @ x = TypeKey r' @ y"
        by (rule params_key_split, rule IH)
          (use rest TFunc u ab pr in \<open>auto simp: less_Suc_eq_le intro: le_SucI trans_le_add1 size_list_member\<close>)
      moreover have "r = r' \<and> x = y" if "TypeKey r @ x = TypeKey r' @ y"
        by (rule IH) (use that less.prems TFunc ab pr in auto)
      ultimately show ?thesis using ab pr by simp
    next
      fix b assume ab: "s = None" "s' = Some b"
      obtain ps r where "b = (ps, r)" by (cases b)
      with ab rest TFunc u have "x = concat (map (\<lambda>p. TypeKey p @ '','') ps) @ CHR '')'' # TypeKey r @ y" by simp
      with params_not_delim less.prems(2) have False by metis
      then show ?thesis ..
    next
      fix b assume ab: "s = Some b" "s' = None"
      obtain ps r where "b = (ps, r)" by (cases b)
      with ab rest TFunc u have "y = concat (map (\<lambda>p. TypeKey p @ '','') ps) @ CHR '')'' # TypeKey r @ x" by simp
      with params_not_delim less.prems(3) have False by metis
      then show ?thesis ..
    qed (use rest TFunc u in simp)
    with TFunc u show ?thesis by simp
  next
    case (TPromise e)
    with k obtain e' where u: "u = TPromise e'" by (cases u) auto
    have "e = e' \<and> x = y"
      by (rule elem_key_split, rule IH) (use rest TPromise u in auto)
    with TPromise u show ?thesis by simp
  next
    case (TArray e)
    with k obtain e' where u: "u = TArray e'" by (cases u) auto
    have "e = e' \<and> x = y"
      by (rule elem_key_split, rule IH) (use rest TArray u in auto)
    with TArray u show ?thesis by simp
  next
    case (TMaybe e)
    with k obtain e' where u: "u = TMaybe e'" by (cases u) auto
    have "e = e' \<and> x = y"
      by (rule elem_key_split, rule IH) (use rest TMaybe u in auto)
    with TMaybe u show ?thesis by simp
  qed (use k rest in \<open>cases u; simp\<close>)+
qed

lemma field_key_split:
  assumes "field_key isPrint f @ x = field_key isPrint g @ y" shows "f = g \<and> x = y"
proof -
  define tail :: "Field \<Rightarrow> string \<Rightarrow> string" where
    "tail h z = (if f_Optional h then ''?'' else '''') @ '':'' @ TypeKey (f_Type h) @ '';'' @ z" for h z
  have "Quote isPrint (f_Name f) @ tail f x = Quote isPrint (f_Name g) @ tail g y"
    using assms by (simp add: field_key_def tail_def)
  from Quote_split [OF this] have n: "f_Name f = f_Name g" and t: "tail f x = tail g y" by simp_all
  from t have o: "f_Optional f = f_Optional g" by (auto simp: tail_def split: if_splits)
  have "f_Type f = f_Type g \<and> '';'' @ x = '';'' @ y"
    by (rule TypeKey_split) (use t o in \<open>simp_all add: tail_def\<close>)
  with n o show ?thesis by (simp add: Field.equality)
qed

theorem shapeKey_eq: "shapeKey isPrint fs = shapeKey isPrint gs \<longleftrightarrow> fs = gs"
proof
  assume "shapeKey isPrint fs = shapeKey isPrint gs"
  then show "fs = gs"
  proof (induction fs arbitrary: gs)
    case Nil
    then show ?case by (cases gs) (auto simp: shapeKey_def field_key_def)
  next
    case (Cons f fs)
    then obtain g gs' where gs: "gs = g # gs'" by (cases gs) (auto simp: shapeKey_def field_key_def)
    with Cons.prems have "field_key isPrint f @ shapeKey isPrint fs = field_key isPrint g @ shapeKey isPrint gs'"
      by (simp add: shapeKey_def)
    from field_key_split [OF this] Cons.IH gs show ?case by simp
  qed
qed simp

subsection \<open>Finding a field\<close>

lemma search_from_spec:
  assumes "sorted_wrt (\<lambda>x y. cmp y < 0 \<longrightarrow> cmp x < (0 :: int)) xs" "i \<le> j" "j \<le> length xs"
    and "\<forall>k < i. cmp (xs ! k) < 0" "\<forall>k. j \<le> k \<and> k < length xs \<longrightarrow> 0 \<le> cmp (xs ! k)"
  shows "search_from xs cmp i j \<le> length xs
    \<and> (\<forall>k < search_from xs cmp i j. cmp (xs ! k) < 0)
    \<and> (\<forall>k. search_from xs cmp i j \<le> k \<and> k < length xs \<longrightarrow> 0 \<le> cmp (xs ! k))"
  using assms
proof (induction xs cmp i j rule: search_from.induct)
  case (1 xs cmp i j)
  show ?case
  proof (cases "i < j")
    case True
    define h where "h = (i + j) div 2"
    have h: "i \<le> h" "h < j" "h < length xs" using True 1(5) by (auto simp: h_def)
    have mono: "cmp (xs ! l) < 0 \<Longrightarrow> k < l \<Longrightarrow> l < length xs \<Longrightarrow> cmp (xs ! k) < 0" for k l
      using sorted_wrt_nth_less [OF 1(3), of k l] by auto
    note eq = search_from.simps [of xs cmp i j, unfolded Let_def, folded h_def]
    show ?thesis
    proof (cases "cmp (xs ! h) < 0")
      case c: True
      then have "\<forall>k < h + 1. cmp (xs ! k) < 0" using mono [OF c] h by (auto simp: less_Suc_eq)
      with 1(1) [OF True h_def c 1(3)] 1(5,7) h c True show ?thesis by (simp add: eq)
    next
      case c: False
      then have "\<forall>k. h \<le> k \<and> k < length xs \<longrightarrow> 0 \<le> cmp (xs ! k)"
        using mono [of _ h] by (metis le_neq_implies_less linorder_not_less mono)
      with 1(2) [OF True h_def c 1(3)] 1(5,6) h c True show ?thesis by (simp add: eq)
    qed
  next
    case False
    with 1(4-7) show ?thesis by (subst (1 2 3) search_from.simps) auto
  qed
qed

lemma Index_sorted:
  assumes "sorted (map f_Name (sh_Fields s))"
  shows "Shape_Index s name =
    (if name \<in> f_Name ` set (sh_Fields s)
     then int (LEAST i. i < length (sh_Fields s) \<and> f_Name (sh_Fields s ! i) = name) else -1)"
proof -
  define fs where "fs = sh_Fields s"
  define cmp where "cmp f = Compare (f_Name f) name" for f :: Field
  define i where "i = search_from fs cmp 0 (length fs)"
  have neg: "cmp f < 0 \<longleftrightarrow> f_Name f < name" and zero: "cmp f = 0 \<longleftrightarrow> f_Name f = name" for f
    by (auto simp: cmp_def Compare_def)
  have "sorted_wrt (\<lambda>x y. cmp y < 0 \<longrightarrow> cmp x < 0) fs"
    using assms unfolding fs_def [symmetric] sorted_map
    by (rule sorted_wrt_mono_rel [rotated]) (auto simp: neg)
  from search_from_spec [OF this, of 0 "length fs"]
  have i: "i \<le> length fs" "\<And>k. k < i \<Longrightarrow> f_Name (fs ! k) < name"
      "\<And>k. i \<le> k \<Longrightarrow> k < length fs \<Longrightarrow> \<not> f_Name (fs ! k) < name"
    unfolding i_def [symmetric] by (auto simp: neg [symmetric])
  have val: "Shape_Index s name = (if i < length fs \<and> f_Name (fs ! i) = name then int i else -1)"
    by (simp add: Shape_Index_def BinarySearchFunc_def Let_def fs_def [symmetric] cmp_def [symmetric]
      i_def [symmetric] zero)
  show ?thesis
  proof (cases "name \<in> f_Name ` set fs")
    case True
    then obtain k where k: "k < length fs" "f_Name (fs ! k) = name" by (metis imageE in_set_conv_nth)
    then have ik: "i \<le> k" using i(2) by (metis less_irrefl linorder_not_less)
    have "f_Name (fs ! i) \<le> f_Name (fs ! k)"
      using assms k(1) ik by (simp add: fs_def sorted_iff_nth_mono)
    with i(3) [of i] ik k have fi: "i < length fs" "f_Name (fs ! i) = name" by auto
    have "(LEAST i. i < length fs \<and> f_Name (fs ! i) = name) = i"
      by (rule Least_equality) (use fi i(2) in \<open>auto simp flip: not_less\<close>, metis less_irrefl)
    with True fi show ?thesis by (simp add: val fs_def)
  next
    case False
    then have "\<not> (i < length fs \<and> f_Name (fs ! i) = name)" by auto
    with False show ?thesis by (simp add: val fs_def)
  qed
qed

subsection \<open>Canonical order\<close>

lemma filter_key_single:
  "distinct (map f xs) \<Longrightarrow> k \<in> set xs \<Longrightarrow> filter (\<lambda>x. f k = f x) xs = [k]"
  by (induction xs) (auto simp: filter_empty_conv image_iff)

lemma sortedFields_mset:
  assumes "distinct (map f_Name fs)"
  shows "sortedFields fs = sortedFields gs \<longleftrightarrow> mset fs = mset gs"
proof
  assume "sortedFields fs = sortedFields gs"
  from arg_cong [OF this, of mset] show "mset fs = mset gs" by (simp add: sortedFields_def)
next
  assume m: "mset fs = mset gs"
  from arg_cong [OF this, of "image_mset f_Name"] have "mset (map f_Name fs) = mset (map f_Name gs)" by simp
  with assms have gs: "distinct (map f_Name gs)" by (metis mset_eq_imp_distinct_iff)
  have set: "set gs = set fs" using m by (metis set_mset_mset)
  have d: "distinct (map f_Name (sort_key f_Name gs))"
    by (metis gs mset_eq_imp_distinct_iff mset_map mset_sort)
  have "sort_key f_Name fs = sort_key f_Name gs"
    by (rule properties_for_sort_key)
      (use m set assms d in \<open>auto simp: filter_key_single set_sort\<close>)
  then show "sortedFields fs = sortedFields gs" by (simp add: sortedFields_def)
qed

lemma sorted_sortedFields [simp]: "sorted (map f_Name (sortedFields fs))"
  by (simp add: sortedFields_def)

lemma set_sortedFields [simp]: "set (sortedFields fs) = set fs"
  by (simp add: sortedFields_def)

subsection \<open>Interning\<close>

text \<open>
  The contract of an interner, over its states \<open>'s\<close>, requests \<open>'q\<close>, references \<open>'r\<close> and
  contents \<open>'c\<close>: what a reference holds for good (\<open>content\<close>), and that no two references
  hold the same. From it, requests give one reference exactly when they ask for one content,
  whatever happens between them.
\<close>

locale interning =
  fixes request :: "'s \<Rightarrow> 'q \<Rightarrow> 's \<times> 'r"
    and wanted :: "'q \<Rightarrow> 'c"
    and content :: "'s \<Rightarrow> 'r \<Rightarrow> 'c option"
    and inv :: "'s \<Rightarrow> bool"
    and step :: "'s \<Rightarrow> 's \<Rightarrow> bool"
  assumes inv_step: "inv s \<Longrightarrow> step s s' \<Longrightarrow> inv s'"
    and request_step: "request s q = (s', r) \<Longrightarrow> step s s'"
    and request_content: "inv s \<Longrightarrow> request s q = (s', r) \<Longrightarrow> content s' r = Some (wanted q)"
    and content_step: "inv s \<Longrightarrow> step s s' \<Longrightarrow> content s r = Some c \<Longrightarrow> content s' r = Some c"
    and content_inj: "inv s \<Longrightarrow> content s r = Some c \<Longrightarrow> content s r' = Some c \<Longrightarrow> r = r'"
begin

lemma inv_steps: "step\<^sup>*\<^sup>* s s' \<Longrightarrow> inv s \<Longrightarrow> inv s'"
  by (induction rule: rtranclp_induct) (auto intro: inv_step)

lemma content_steps: "step\<^sup>*\<^sup>* s s' \<Longrightarrow> inv s \<Longrightarrow> content s r = Some c \<Longrightarrow> content s' r = Some c"
  by (induction rule: rtranclp_induct) (auto intro: content_step inv_steps)

lemma request_again:
  assumes "inv s" "request s q = (s1, r)" "step\<^sup>*\<^sup>* s1 s2" "request s2 q' = (s3, r')"
  shows "content s3 r = Some (wanted q)" "r = r' \<longleftrightarrow> wanted q = wanted q'"
proof -
  have inv: "inv s1" "inv s2" "inv s3"
    using assms inv_step request_step inv_steps by blast+
  have "content s2 r = Some (wanted q)"
    using content_steps [OF assms(3) inv(1)] request_content [OF assms(1,2)] .
  then show r: "content s3 r = Some (wanted q)"
    by (rule content_step [OF inv(2) request_step [OF assms(4)]])
  have "content s3 r' = Some (wanted q')" by (rule request_content [OF inv(2) assms(4)])
  with r content_inj [OF inv(3)] show "r = r' \<longleftrightarrow> wanted q = wanted q'" by auto
qed

end

inductive shapes_step :: "(rune \<Rightarrow> bool) \<Rightarrow> Shapes \<Rightarrow> Shapes \<Rightarrow> bool" for isPrint where
  step_Intern: "Intern isPrint S name fs = (S', a) \<Longrightarrow> shapes_step isPrint S S'"
| step_Reserve: "Reserve S name = (S', a) \<Longrightarrow> shapes_step isPrint S S'"
| step_Define: "a < length (heap S) \<Longrightarrow> Define isPrint S a fs = Inr (S', other) \<Longrightarrow> shapes_step isPrint S S'"

inductive_cases shapes_stepE: "shapes_step isPrint S S'"

text \<open>
  The interner's invariant: the list is every shape in order, each at its own ID; the fields
  of a defined shape are sorted; and the keys are those of the defined shapes.
\<close>

definition shapes_inv :: "(rune \<Rightarrow> bool) \<Rightarrow> Shapes \<Rightarrow> bool" where
  "shapes_inv isPrint S \<longleftrightarrow>
     slist S = [0..<length (heap S)]
   \<and> (\<forall>a < length (heap S). sh_ID (heap S ! a) = a \<and> sorted (map f_Name (sh_Fields (heap S ! a)))
        \<and> (\<not> sh_pending (heap S ! a) \<longrightarrow> byKey S (shapeKey isPrint (sh_Fields (heap S ! a))) \<noteq> None))
   \<and> (\<forall>k a. byKey S k = Some a \<longrightarrow> a < length (heap S) \<and> \<not> sh_pending (heap S ! a)
        \<and> shapeKey isPrint (sh_Fields (heap S ! a)) = k)"

text \<open>The fields a key leads to: what a defined shape is, for good.\<close>

definition shape_content :: "(rune \<Rightarrow> bool) \<Rightarrow> Shapes \<Rightarrow> shape_ref \<Rightarrow> Field list option" where
  "shape_content isPrint S a =
     (if a < length (heap S) \<and> byKey S (shapeKey isPrint (sh_Fields (heap S ! a))) = Some a
      then Some (sh_Fields (heap S ! a)) else None)"

lemma addName_simps [simp]:
  "sh_ID (addName s name) = sh_ID s" "sh_Fields (addName s name) = sh_Fields s"
  "sh_pending (addName s name) = sh_pending s"
  by (simp_all add: addName_def)

lemma shapes_inv_empty: "shapes_inv isPrint Shapes_empty"
  by (simp add: shapes_inv_def Shapes_empty_def)

lemma shapes_inv_Intern:
  "shapes_inv isPrint S \<Longrightarrow> Intern isPrint S name fs = (S', a) \<Longrightarrow> shapes_inv isPrint S'"
  by (auto simp: Intern_def Let_def Shapes_add_def shapes_inv_def nth_append nth_list_update
      split: option.splits if_splits) (metis less_SucI)+

lemma shapes_inv_Reserve:
  "shapes_inv isPrint S \<Longrightarrow> Reserve S name = (S', a) \<Longrightarrow> shapes_inv isPrint S'"
  by (auto simp: Reserve_def Let_def Shapes_add_def shapes_inv_def nth_append nth_list_update
      split: option.splits if_splits) (metis less_SucI)+

lemma shapes_inv_Define:
  "shapes_inv isPrint S \<Longrightarrow> a < length (heap S) \<Longrightarrow> Define isPrint S a fs = Inr (S', r) \<Longrightarrow> shapes_inv isPrint S'"
  by (auto simp: Define_def Let_def shapes_inv_def nth_list_update split: option.splits if_splits)
    (metis option.distinct(1))?

text \<open>A step never moves or rewrites a defined shape, and never takes a key away.\<close>

lemma nth_update_if: "xs[i := x] ! j = (if i = j \<and> i < length xs then x else xs ! j)"
  by (cases "i < length xs") (simp_all add: nth_list_update list_update_beyond not_less)

lemmas shapes_ops = Intern_def Reserve_def Define_def Shapes_add_def Let_def nth_append nth_update_if

lemma step_keeps_key:
  "shapes_step isPrint S S' \<Longrightarrow> byKey S k = Some a \<Longrightarrow> byKey S' k = Some a"
  by (erule shapes_stepE) (auto simp: shapes_ops split: option.splits if_splits)

lemma step_keeps_length: "shapes_step isPrint S S' \<Longrightarrow> length (heap S) \<le> length (heap S')"
  by (erule shapes_stepE) (auto simp: shapes_ops split: option.splits if_splits)

lemma step_keeps_fields:
  "shapes_step isPrint S S' \<Longrightarrow> a < length (heap S) \<Longrightarrow> \<not> sh_pending (heap S ! a)
    \<Longrightarrow> sh_Fields (heap S' ! a) = sh_Fields (heap S ! a) \<and> \<not> sh_pending (heap S' ! a)"
  by (erule shapes_stepE) (auto simp: shapes_ops split: option.splits if_splits)

lemma shape_content_step:
  assumes "shapes_inv isPrint S" "shapes_step isPrint S S'" "shape_content isPrint S a = Some c"
  shows "shape_content isPrint S' a = Some c"
proof -
  from assms(3) have a: "a < length (heap S)" "byKey S (shapeKey isPrint c) = Some a" "c = sh_Fields (heap S ! a)"
    by (auto simp: shape_content_def split: if_splits)
  then have "\<not> sh_pending (heap S ! a)" using assms(1) by (auto simp: shapes_inv_def)
  with a step_keeps_key [OF assms(2)] step_keeps_length [OF assms(2)] step_keeps_fields [OF assms(2)]
  show ?thesis by (simp add: shape_content_def)
qed

lemma Intern_content:
  assumes "shapes_inv isPrint S" "Intern isPrint S name fs = (S', a)"
  shows "shape_content isPrint S' a = Some (sortedFields fs)"
proof (cases "byKey S (shapeKey isPrint (sortedFields fs))")
  case None
  with assms(2) show ?thesis
    by (auto simp: Intern_def Let_def Shapes_add_def shape_content_def nth_append)
next
  case (Some b)
  with assms(1) have "b < length (heap S)" "shapeKey isPrint (sh_Fields (heap S ! b)) = shapeKey isPrint (sortedFields fs)"
    unfolding shapes_inv_def by blast+
  with Some assms(2) show ?thesis
    by (auto simp: Intern_def Let_def shape_content_def shapeKey_eq)
qed

interpretation shapes: interning
  "\<lambda>S (name, fs). Intern isPrint S name fs" "\<lambda>(name, fs). sortedFields fs"
  "shape_content isPrint" "shapes_inv isPrint" "shapes_step isPrint"
proof (unfold_locales, goal_cases)
  case (1 S S')
  from 1(2) show ?case
    by (cases rule: shapes_step.cases)
      (use 1(1) in \<open>blast intro: shapes_inv_Intern shapes_inv_Reserve shapes_inv_Define\<close>)+
next
  case (2 S q S' a) then show ?case by (cases q) (auto intro: step_Intern)
next
  case (3 S q S' a) then show ?case by (cases q) (auto dest: Intern_content)
next
  case (4 S S' a c) then show ?case by (rule shape_content_step)
next
  case (5 S a c a') then show ?case by (auto simp: shape_content_def split: if_splits)
qed

lemma content_fields: "shape_content isPrint S a = Some c \<Longrightarrow> sh_Fields (heap S ! a) = c"
  by (simp add: shape_content_def split: if_splits)

text \<open>
  C5: interning makes one structure one shape. Whatever else is interned, reserved or defined
  before, between and after, two requests return the same \<open>*Shape\<close> exactly when they list the
  same fields (name, type and optionality), in whatever order, and the shape keeps those
  fields, sorted by name.
\<close>
theorem Intern_canonical:
  assumes "(shapes_step isPrint)\<^sup>*\<^sup>* Shapes_empty S"
    and "Intern isPrint S name fs = (S1, a)"
    and "(shapes_step isPrint)\<^sup>*\<^sup>* S1 S2"
    and "Intern isPrint S2 name' gs = (S3, b)"
    and "distinct (map f_Name fs)"
  shows "(a = b \<longleftrightarrow> mset fs = mset gs) \<and> sh_Fields (heap S3 ! a) = sort_key f_Name fs"
proof -
  have "shapes_inv isPrint S" using shapes.inv_steps [OF assms(1) shapes_inv_empty] .
  note again = shapes.request_again [OF this _ assms(3), of "(name, fs)" a "(name', gs)" S3 b]
  from again assms(2,4) have "shape_content isPrint S3 a = Some (sortedFields fs)"
    and "a = b \<longleftrightarrow> sortedFields fs = sortedFields gs" by simp_all
  then show ?thesis using sortedFields_mset [OF assms(5)] content_fields by (simp add: sortedFields_def)
qed

lemma Intern_canonical_witness:
  "let p = (\<lambda>r. 32 \<le> r \<and> r < 127);
       x = \<lparr>f_Name = ''x'', f_Type = TNumber, f_Optional = False\<rparr>;
       y = \<lparr>f_Name = ''y'', f_Type = MaybeOf TString, f_Optional = True\<rparr>;
       (S1, a) = Intern p Shapes_empty ''Point'' [y, x];
       (S2, b) = Intern p S1 ''Vec'' [x, y];
       (S3, c) = Intern p S2 ''Only'' [y]
   in a = b \<and> sh_Fields (heap S2 ! a) = [x, y] \<and> b \<noteq> c"
proof -
  define p where "p = (\<lambda>r :: rune. 32 \<le> r \<and> r < 127)"
  define x where "x = \<lparr>f_Name = ''x'', f_Type = TNumber, f_Optional = False\<rparr>"
  define y where "y = \<lparr>f_Name = ''y'', f_Type = MaybeOf TString, f_Optional = True\<rparr>"
  obtain S1 a where 1: "Intern p Shapes_empty ''Point'' [y, x] = (S1, a)" by (metis surj_pair)
  obtain S2 b where 2: "Intern p S1 ''Vec'' [x, y] = (S2, b)" by (metis surj_pair)
  obtain S3 c where 3: "Intern p S2 ''Only'' [y] = (S3, c)" by (metis surj_pair)
  have d: "distinct (map f_Name [y, x])" "distinct (map f_Name [x, y])" by (simp_all add: x_def y_def)
  have s: "(shapes_step p)\<^sup>*\<^sup>* Shapes_empty S1" using step_Intern [OF 1] by blast
  have srt: "sort_key f_Name [y, x] = [x, y]" by (simp add: x_def y_def)
  have ab: "a = b \<and> sh_Fields (heap S2 ! a) = [x, y]"
    using Intern_canonical [OF rtranclp.rtrancl_refl 1 rtranclp.rtrancl_refl 2 d(1), unfolded srt]
    by (auto simp: add_mset_commute)
  have "b \<noteq> c" using Intern_canonical [OF s 2 rtranclp.rtrancl_refl 3 d(2)] by simp
  then show ?thesis
    using ab unfolding p_def [symmetric] x_def [symmetric] y_def [symmetric] Let_def 1 2 3 prod.case by blast
qed

subsection \<open>Spelling ends\<close>

text \<open>A shape spelled by its fields, whose types mention another.\<close>

definition spells :: "Shape list \<Rightarrow> shape_ref \<Rightarrow> shape_ref \<Rightarrow> bool" where
  "spells h a b \<longleftrightarrow> a < length h \<and> sh_Names (h ! a) = []
     \<and> (\<exists>f \<in> set (sh_Fields (h ! a)). b \<in> shapes_of (f_Type f))"

declare Shape_String.simps [simp del]

lemma shapes_of_Elem: "Elem_of t = Some e \<Longrightarrow> shapes_of e = shapes_of t"
  by (cases t) auto

lemma Shape_String_step:
  assumes "a < length h" "\<And>b. spells h a b \<Longrightarrow> \<exists>s. Shape_String n h (Some b) = Some s"
  shows "\<exists>s. Shape_String (Suc n) h (Some a) = Some s"
proof (cases "sh_Names (h ! a) = []")
  case True
  have "\<exists>s. field_string (Shape_String n h) f = Some s" if f: "f \<in> set (sh_Fields (h ! a))" for f
  proof -
    have "\<forall>b \<in> shapes_of (f_Type f). \<exists>s. Shape_String n h (Some b) = Some s"
      using assms True f by (auto simp: spells_def)
    then have "\<exists>s. Type_String (Shape_String n h) (f_Type f) = Some s"
      and "\<And>e. Elem_of (f_Type f) = Some e \<Longrightarrow> \<exists>s. Type_String (Shape_String n h) e = Some s"
      by (auto intro!: Type_String_total simp: shapes_of_Elem Shape_String.simps(1))
    then show ?thesis by (auto simp: field_string_def)
  qed
  then have "\<exists>parts. those (map (field_string (Shape_String n h)) (sh_Fields (h ! a))) = Some parts"
    by (intro those_Some) blast
  then show ?thesis by (auto simp: Shape_String.simps)
qed (simp add: Shape_String.simps)

definition spelled_from :: "Shape list \<Rightarrow> shape_ref \<Rightarrow> shape_ref set" where
  "spelled_from h a = {b. (spells h)\<^sup>+\<^sup>+ a b}"

lemma Shape_String_depth:
  assumes "\<And>a. a < length h \<Longrightarrow> finite (spelled_from h a) \<and> spelled_from h a \<subseteq> {..<length h}"
    and "acyclicP (spells h)"
  shows "a < length h \<Longrightarrow> card (spelled_from h a) < n \<Longrightarrow> \<exists>s. Shape_String n h (Some a) = Some s"
proof (induction n arbitrary: a)
  case (Suc n)
  show ?case
  proof (rule Shape_String_step [OF Suc.prems(1)])
    fix b assume b: "spells h a b"
    have "b \<notin> spelled_from h b" using assms(2) by (auto simp: spelled_from_def acyclic_def tranclp_unfold)
    moreover have "b \<in> spelled_from h a" "spelled_from h b \<subseteq> spelled_from h a"
      using b by (auto simp: spelled_from_def intro: tranclp_into_tranclp2)
    ultimately have "spelled_from h b \<subset> spelled_from h a" by blast
    with assms(1) [OF Suc.prems(1)] have "card (spelled_from h b) < card (spelled_from h a)"
      by (intro psubset_card_mono) auto
    moreover have "b < length h" using \<open>b \<in> spelled_from h a\<close> assms(1) [OF Suc.prems(1)] by blast
    ultimately show "\<exists>s. Shape_String n h (Some b) = Some s" using Suc by simp
  qed
qed simp

text \<open>
  C6: spelling a type ends. In a heap whose fields mention only its own shapes and where no
  shape spelled by its fields reaches itself through such shapes (each recursive type has a
  name), \<open>Shape.String\<close> returns for every shape, never deeper than there are shapes.
\<close>
theorem Shape_String_ends:
  assumes "\<forall>a < length h. \<forall>f \<in> set (sh_Fields (h ! a)). shapes_of (f_Type f) \<subseteq> {..<length h}"
    and "acyclicP (spells h)" "a < length h"
  shows "\<exists>s. Shape_String (length h) h (Some a) = Some s"
proof -
  have inside: "(spells h)\<^sup>+\<^sup>+ c b \<Longrightarrow> b < length h" for c b
    by (induction rule: tranclp_induct) (use assms(1) in \<open>fastforce simp: spells_def\<close>)+
  have sub: "spelled_from h c \<subseteq> {..<length h}" for c using inside by (auto simp: spelled_from_def)
  then have fin: "finite (spelled_from h c)" for c by (rule finite_subset) simp
  have "a \<notin> spelled_from h a" using assms(2) by (auto simp: spelled_from_def acyclic_def tranclp_unfold)
  with sub [of a] assms(3) have "spelled_from h a \<subset> {..<length h}" by blast
  then have "card (spelled_from h a) < length h" by (metis card_lessThan finite_lessThan psubset_card_mono)
  then show ?thesis using Shape_String_depth [OF _ assms(2,3)] sub fin by blast
qed

lemma Shape_String_ends_witness:
  "let tree = \<lparr>sh_ID = 0, sh_Fields = [\<lparr>f_Name = ''kids'', f_Type = ArrayOf (ObjectOf 0), f_Optional = False\<rparr>],
         sh_Names = [''Tree''], sh_pending = False\<rparr>;
       pair = \<lparr>sh_ID = 1, sh_Fields = [\<lparr>f_Name = ''root'', f_Type = ObjectOf 0, f_Optional = False\<rparr>],
         sh_Names = [], sh_pending = False\<rparr>
   in (\<exists>s. Shape_String 2 [tree, pair] (Some 1) = Some s)
     \<and> Shape_String 2 [tree, pair] (Some 1) = Some ''{ root: Tree }''"
proof -
  define tree where "tree = \<lparr>sh_ID = 0, sh_Fields = [\<lparr>f_Name = ''kids'', f_Type = ArrayOf (ObjectOf 0), f_Optional = False\<rparr>],
         sh_Names = [''Tree''], sh_pending = False\<rparr>"
  define pair where "pair = \<lparr>sh_ID = 1, sh_Fields = [\<lparr>f_Name = ''root'', f_Type = ObjectOf 0, f_Optional = False\<rparr>],
         sh_Names = [], sh_pending = False\<rparr>"
  have sp: "spells [tree, pair] a b \<Longrightarrow> a = 1 \<and> b = 0" for a b
    by (auto simp: spells_def tree_def pair_def less_Suc_eq numeral_2_eq_2 ir_simps)
  have "(spells [tree, pair])\<^sup>+\<^sup>+ a b \<Longrightarrow> a = 1 \<and> b = 0" for a b
    by (induction rule: tranclp_induct) (use sp in fastforce)+
  then have "acyclicP (spells [tree, pair])" by (auto simp: acyclic_def tranclp_unfold [symmetric])
  then have "\<exists>s. Shape_String (length [tree, pair]) [tree, pair] (Some 1) = Some s"
    by (intro Shape_String_ends) (auto simp: tree_def pair_def less_Suc_eq numeral_2_eq_2 ir_simps)
  moreover have "Shape_String 2 [tree, pair] (Some 1) = Some ''{ root: Tree }''"
    by (simp add: Shape_String.simps field_string_def tree_def pair_def ir_simps numeral_2_eq_2)
  ultimately show ?thesis unfolding tree_def [symmetric] pair_def [symmetric] Let_def by simp
qed

end
