(* ===== verification/IrNodes.thy ===== *)
theory IrNodes
  imports IrTypes GoStrconv
begin

text \<open>
  The nodes of the IR: expressions (\<open>ir/expr.go\<close>, \<open>aggregate.go\<close>, \<open>maybe.go\<close>, \<open>errors.go\<close>,
  \<open>builtin.go\<close>, \<open>host.go\<close>, \<open>json.go\<close>, \<open>truthy.go\<close>), statements (\<open>stmt.go\<close>, \<open>append.go\<close>) and
  modules (\<open>ir.go\<close>), with the enums they hold, \<open>ExprType\<close>, \<open>ExprSpan\<close> and \<open>StmtSpan\<close>, the
  builtins' signatures, \<open>StringParts\<close>, and the traversal \<open>Inspect\<close> (\<open>inspect.go\<close>).

  An \<open>Expr\<close> or \<open>Stmt\<close> is a datatype with a constructor per node type, its fields in the
  order the struct has them. A field the code documents or tests as nil is an \<open>option\<close>. Enums
  that the checks range-test are the integers they are in Go; the others are datatypes.

  Proved: \<open>Inspect\<close> visits every node of a module, each before its children, in source order.
\<close>

subsection \<open>Places\<close>

record Pos =
  po_Line :: nat
  po_Col :: nat

record Span =
  sp_File :: string
  sp_Start :: nat
  sp_End :: nat
  sp_Line :: nat
  sp_Col :: nat
  sp_Caret :: Pos

subsection \<open>Enums\<close>

datatype BinaryOp = OpAdd | OpSub | OpMul | OpDiv | OpMod | OpLess | OpLessEq | OpGreater | OpGreaterEq
  | OpEqual | OpNotEqual | OpAnd | OpOr

fun BinaryOp_String :: "BinaryOp \<Rightarrow> string" where
  "BinaryOp_String OpAdd = ''+''" | "BinaryOp_String OpSub = ''-''" | "BinaryOp_String OpMul = ''*''"
| "BinaryOp_String OpDiv = ''/''" | "BinaryOp_String OpMod = ''%''" | "BinaryOp_String OpLess = ''<''"
| "BinaryOp_String OpLessEq = ''<=''" | "BinaryOp_String OpGreater = ''>''"
| "BinaryOp_String OpGreaterEq = ''>=''" | "BinaryOp_String OpEqual = ''===''"
| "BinaryOp_String OpNotEqual = ''!==''" | "BinaryOp_String OpAnd = ''&&''" | "BinaryOp_String OpOr = ''||''"

datatype UnaryOp = OpNeg | OpNot

fun UnaryOp_String :: "UnaryOp \<Rightarrow> string" where
  "UnaryOp_String OpNeg = ''-''" | "UnaryOp_String OpNot = ''!''"

datatype ArrayMethod = ArrayMethodInvalid | ArrayLength | ArraySetLength | ArrayPush | ArrayPop
  | ArrayMap | ArrayFilter | ArrayJoin | ArrayIncludes | ArraySlice | ArraySort | ArraySome | ArrayEvery
  | ArrayForEach | ArrayReduce | ArrayFindIndex | ArrayIndexOf | ArrayFind | ArrayFindLast | ArrayAt
  | ArrayShift

fun ArrayMethod_String :: "ArrayMethod \<Rightarrow> string" where
  "ArrayMethod_String ArrayLength = ''length''" | "ArrayMethod_String ArraySetLength = ''length =''"
| "ArrayMethod_String ArrayPush = ''push''" | "ArrayMethod_String ArrayPop = ''pop''"
| "ArrayMethod_String ArrayMap = ''map''" | "ArrayMethod_String ArrayFilter = ''filter''"
| "ArrayMethod_String ArrayJoin = ''join''" | "ArrayMethod_String ArrayIncludes = ''includes''"
| "ArrayMethod_String ArraySlice = ''slice''" | "ArrayMethod_String ArraySort = ''sort''"
| "ArrayMethod_String ArraySome = ''some''" | "ArrayMethod_String ArrayEvery = ''every''"
| "ArrayMethod_String ArrayForEach = ''forEach''" | "ArrayMethod_String ArrayReduce = ''reduce''"
| "ArrayMethod_String ArrayFindIndex = ''findIndex''" | "ArrayMethod_String ArrayIndexOf = ''indexOf''"
| "ArrayMethod_String ArrayFind = ''find''" | "ArrayMethod_String ArrayFindLast = ''findLast''"
| "ArrayMethod_String ArrayAt = ''at''" | "ArrayMethod_String ArrayShift = ''shift''"
| "ArrayMethod_String ArrayMethodInvalid = ''invalid array method''"

text \<open>\<open>ErrorKind\<close>, \<open>ErrorProp\<close> and \<open>TypeTag\<close> are ints, which the checks hold to their range.\<close>

type_synonym ErrorKind = int
type_synonym ErrorProp = int
type_synonym TypeTag = int

definition errorKindNames :: "string list" where
  "errorKindNames = [''Error'', ''TypeError'', ''RangeError'', ''URIError'', ''SyntaxError'', ''ReferenceError'', ''EvalError'']"

definition typeTagNames :: "string list" where
  "typeTagNames = [''undefined'', ''object'', ''boolean'', ''number'', ''string'', ''function'', ''symbol'', ''bigint'']"

text \<open>\<open>slices.Index\<close>.\<close>

fun slices_Index :: "'a list \<Rightarrow> 'a \<Rightarrow> int" where
  "slices_Index [] v = -1"
| "slices_Index (x # xs) v = (if x = v then 0 else let i = slices_Index xs v in if i < 0 then -1 else i + 1)"

definition ErrorKindNamed :: "string \<Rightarrow> ErrorKind \<times> bool" where
  "ErrorKindNamed name = (let i = slices_Index errorKindNames name in (i, i \<ge> 0))"

definition TypeTagNamed :: "string \<Rightarrow> TypeTag \<times> bool" where
  "TypeTagNamed name = (let i = slices_Index typeTagNames name in (i, i \<ge> 0))"

text \<open>\<open>fmt.Sprintf("%s(%d)", name, n)\<close>, for a value outside its table.\<close>

definition unnamed :: "string \<Rightarrow> int \<Rightarrow> string" where
  "unnamed name n = name @ ''('' @ (if n < 0 then ''-'' else '''') @ Itoa (nat \<bar>n\<bar>) @ '')''"

definition ErrorKind_String :: "ErrorKind \<Rightarrow> string" where
  "ErrorKind_String k =
     (if k < 0 \<or> k \<ge> int (length errorKindNames) then unnamed ''ErrorKind'' k else errorKindNames ! nat k)"

definition TypeTag_String :: "TypeTag \<Rightarrow> string" where
  "TypeTag_String t =
     (if t < 0 \<or> t \<ge> int (length typeTagNames) then unnamed ''TypeTag'' t else typeTagNames ! nat t)"

definition ErrorProp_String :: "ErrorProp \<Rightarrow> string" where
  "ErrorProp_String p =
     (if p = 0 then ''message'' else if p = 1 then ''name'' else if p = 2 then ''stack''
      else if p = 3 then ''cause'' else unnamed ''ErrorProp'' p)"

definition errorPropType :: "ErrorProp \<Rightarrow> ty" where
  "errorPropType p =
     (if p = 0 \<or> p = 1 then TString else if p = 2 then MaybeOf TString else if p = 3 then TUnknown else TInvalid)"

datatype HostOp = HostOpInvalid | HostCreateServer | HostListen | HostSetHeader | HostWriteHead | HostEnd
  | HostSetTimeout | HostClearTimeout | HostSpawn

fun HostOp_String :: "HostOp \<Rightarrow> string" where
  "HostOp_String HostCreateServer = ''createServer''" | "HostOp_String HostListen = ''Server.listen''"
| "HostOp_String HostSetHeader = ''ServerResponse.setHeader''"
| "HostOp_String HostWriteHead = ''ServerResponse.writeHead''" | "HostOp_String HostEnd = ''ServerResponse.end''"
| "HostOp_String HostSetTimeout = ''setTimeout''" | "HostOp_String HostClearTimeout = ''clearTimeout''"
| "HostOp_String HostSpawn = ''spawn''" | "HostOp_String HostOpInvalid = ''invalid host operation''"

definition IsTimer :: "HostOp \<Rightarrow> bool" where
  "IsTimer o' \<longleftrightarrow> o' = HostSetTimeout \<or> o' = HostClearTimeout"

datatype HostProperty = HostPropInvalid | HostURL | HostMethod

fun HostProperty_String :: "HostProperty \<Rightarrow> string" where
  "HostProperty_String HostURL = ''IncomingMessage.url''"
| "HostProperty_String HostMethod = ''IncomingMessage.method''"
| "HostProperty_String HostPropInvalid = ''invalid host property''"

datatype Builtin = BuiltinInvalid
  | BStrLength | BStrCharAt | BStrCharCodeAt | BStrIncludes | BStrStartsWith | BStrEndsWith | BStrIndexOf
  | BStrLastIndexOf | BStrSlice | BStrSubstring | BStrToLowerCase | BStrToUpperCase | BStrTrim | BStrTrimStart
  | BStrTrimEnd | BStrSplit | BStrReplace | BStrReplaceAll | BStrPadStart | BStrPadEnd | BStrRepeat | BStrAt
  | BStrCodePointAt | BStrIndex | BStrIndexOrUndefined
  | ToString | ToStringMethod | NumToFixed | NumFromStr | NumParseInt | NumParseFlt | NumIsFinite
  | NumIsNaN | NumIsInteger | URIEncode | URIDecode

subsection \<open>Nodes\<close>

record Ident =
  id_Name :: string
  id_Module :: string
  id_Stable :: bool
  id_Appended :: bool
  id_Typ :: ty
  id_Span :: Span

record Param =
  p_Name :: string
  p_Type :: ty
  p_Appended :: bool
  p_Span :: Span

record Capture =
  c_Name :: string
  c_Module :: string
  c_Type :: ty
  c_Mutable :: bool

datatype (plugins only: size code) expr =
    NumberLit f64 Span
  | StringLit string Span
  | BoolLit bool Span
  | NullLit Span
  | UndefinedLit Span
  | EIdent Ident
  | Binary BinaryOp expr expr ty Span
  | Unary UnaryOp expr ty Span
  | Call string string "expr list" ty Span
  | FuncLit "Param list" ty "stmt list" "Capture list" bool bool ty Span
  | Await expr ty Span
  | NewPromise expr ty Span
  | ConsoleLog "expr list" bool Span
  | Convert expr ty Span
  | ObjectLit "(int \<times> expr \<times> Span) list" ty Span
  | ArrayLit "expr list" ty Span
  | FieldGet expr int ty Span
  | IndexGet expr expr ty bool Span
  | ArrayOp ArrayMethod expr "expr list" ty Span
  | HasField expr int Span
  | Wrap expr ty Span
  | Unwrap expr ty bool Span
  | ELet string expr expr Span
  | Empty bool ty Span
  | IsEmpty expr bool bool Span
  | Cond expr expr expr ty Span
  | NewError ErrorKind "expr option" Span
  | ErrorGet expr ErrorProp Span
  | Box expr Span
  | Unbox expr ty Span
  | InstanceOf expr ErrorKind Span
  | TypeOf expr TypeTag Span
  | BuiltinCall Builtin "expr list" ty Span
  | Concat "expr list" Span
  | HostCall HostOp "expr option" "expr list" ty Span
  | HostProp HostProperty expr ty Span
  | JSONStringify expr "expr option" Span
  | Truthy expr Span
and stmt =
    VarDecl string ty "expr option" bool bool Span
  | Assign string string expr Span
  | IfStmt expr "stmt list" "stmt list" Span
  | While expr "stmt list" Span
  | For "stmt list" "expr option" "stmt list" "stmt list" Span
  | Break Span
  | Continue Span
  | Return "expr option" Span
  | ExprStmt expr Span
  | FieldSet expr int expr Span
  | FieldDelete expr int Span
  | IndexSet expr expr expr Span
  | ForOf string ty bool expr "stmt list" Span
  | Throw "expr option" Span
  | Try "stmt list" "(string \<times> stmt list \<times> Span) option" "stmt list option" Span
  | Append "Ident option" "expr list" Span

text \<open>\<open>ExprType\<close>, \<open>ExprSpan\<close> and \<open>StmtSpan\<close> of each node.\<close>

primrec ExprType :: "expr \<Rightarrow> ty" where
  "ExprType (NumberLit v s) = TNumber"
| "ExprType (StringLit v s) = TString"
| "ExprType (BoolLit v s) = TBoolean"
| "ExprType (NullLit s) = TNull"
| "ExprType (UndefinedLit s) = TUndefined"
| "ExprType (EIdent x) = id_Typ x"
| "ExprType (Binary op l r t s) = t"
| "ExprType (Unary op x t s) = t"
| "ExprType (Call f m xs t s) = t"
| "ExprType (FuncLit ps r b cs c a t s) = t"
| "ExprType (Await v t s) = t"
| "ExprType (NewPromise e t s) = t"
| "ExprType (ConsoleLog xs e s) = TVoid"
| "ExprType (Convert v t s) = t"
| "ExprType (ObjectLit fs t s) = t"
| "ExprType (ArrayLit xs t s) = t"
| "ExprType (FieldGet x f t s) = t"
| "ExprType (IndexGet x i t u s) = t"
| "ExprType (ArrayOp m x xs t s) = t"
| "ExprType (HasField x f s) = TBoolean"
| "ExprType (Wrap v t s) = t"
| "ExprType (Unwrap v t a s) = t"
| "ExprType (ELet n v b s) = ExprType b"
| "ExprType (Empty n t s) = t"
| "ExprType (IsEmpty v u n s) = TBoolean"
| "ExprType (Cond c a b t s) = t"
| "ExprType (NewError k m s) = TError"
| "ExprType (ErrorGet e p s) = errorPropType p"
| "ExprType (Box v s) = TUnknown"
| "ExprType (Unbox v t s) = t"
| "ExprType (InstanceOf v k s) = TBoolean"
| "ExprType (TypeOf v t s) = TBoolean"
| "ExprType (BuiltinCall f xs t s) = t"
| "ExprType (Concat ps s) = TString"
| "ExprType (HostCall op r xs t s) = t"
| "ExprType (HostProp p r t s) = t"
| "ExprType (JSONStringify v sp s) = TString"
| "ExprType (Truthy v s) = TBoolean"

primrec ExprSpan :: "expr \<Rightarrow> Span" where
  "ExprSpan (NumberLit v s) = s"
| "ExprSpan (StringLit v s) = s"
| "ExprSpan (BoolLit v s) = s"
| "ExprSpan (NullLit s) = s"
| "ExprSpan (UndefinedLit s) = s"
| "ExprSpan (EIdent x) = id_Span x"
| "ExprSpan (Binary op l r t s) = s"
| "ExprSpan (Unary op x t s) = s"
| "ExprSpan (Call f m xs t s) = s"
| "ExprSpan (FuncLit ps r b cs c a t s) = s"
| "ExprSpan (Await v t s) = s"
| "ExprSpan (NewPromise e t s) = s"
| "ExprSpan (ConsoleLog xs e s) = s"
| "ExprSpan (Convert v t s) = s"
| "ExprSpan (ObjectLit fs t s) = s"
| "ExprSpan (ArrayLit xs t s) = s"
| "ExprSpan (FieldGet x f t s) = s"
| "ExprSpan (IndexGet x i t u s) = s"
| "ExprSpan (ArrayOp m x xs t s) = s"
| "ExprSpan (HasField x f s) = s"
| "ExprSpan (Wrap v t s) = s"
| "ExprSpan (Unwrap v t a s) = s"
| "ExprSpan (ELet n v b s) = s"
| "ExprSpan (Empty n t s) = s"
| "ExprSpan (IsEmpty v u n s) = s"
| "ExprSpan (Cond c a b t s) = s"
| "ExprSpan (NewError k m s) = s"
| "ExprSpan (ErrorGet e p s) = s"
| "ExprSpan (Box v s) = s"
| "ExprSpan (Unbox v t s) = s"
| "ExprSpan (InstanceOf v k s) = s"
| "ExprSpan (TypeOf v t s) = s"
| "ExprSpan (BuiltinCall f xs t s) = s"
| "ExprSpan (Concat ps s) = s"
| "ExprSpan (HostCall op r xs t s) = s"
| "ExprSpan (HostProp p r t s) = s"
| "ExprSpan (JSONStringify v sp s) = s"
| "ExprSpan (Truthy v s) = s"

primrec StmtSpan :: "stmt \<Rightarrow> Span" where
  "StmtSpan (VarDecl n t i m a s) = s"
| "StmtSpan (Assign n m v s) = s"
| "StmtSpan (IfStmt c t e s) = s"
| "StmtSpan (While c b s) = s"
| "StmtSpan (For i c p b s) = s"
| "StmtSpan (Break s) = s"
| "StmtSpan (Continue s) = s"
| "StmtSpan (Return v s) = s"
| "StmtSpan (ExprStmt e s) = s"
| "StmtSpan (FieldSet x f v s) = s"
| "StmtSpan (FieldDelete x f s) = s"
| "StmtSpan (IndexSet x i v s) = s"
| "StmtSpan (ForOf n t m x b s) = s"
| "StmtSpan (Throw v s) = s"
| "StmtSpan (Try b c f s) = s"
| "StmtSpan (Append t ps s) = s"

subsection \<open>Modules\<close>

record Func =
  fn_Name :: string
  fn_Params :: "Param list"
  fn_Result :: ty
  fn_Body :: "stmt list"
  fn_Async :: bool
  fn_Span :: Span

record Module =
  m_Name :: string
  m_File :: string
  m_Funcs :: "Func list"
  m_Main :: "stmt list"
  m_Async :: bool
  m_Imports :: "string list"
  m_Lines :: "string list"

subsection \<open>Builtins\<close>

record BuiltinSig =
  bs_Name :: string
  bs_Params :: "ty list"
  bs_Optional :: "ty list"
  bs_Result :: ty

definition sig :: "string \<Rightarrow> ty list \<Rightarrow> ty list \<Rightarrow> ty \<Rightarrow> BuiltinSig option" where
  "sig n ps opt r = Some \<lparr>bs_Name = n, bs_Params = ps, bs_Optional = opt, bs_Result = r\<rparr>"

primrec builtinSigs :: "Builtin \<Rightarrow> BuiltinSig option" where
  "builtinSigs BuiltinInvalid = None"
| "builtinSigs BStrLength = sig ''length'' [TString] [] TNumber"
| "builtinSigs BStrCharAt = sig ''charAt'' [TString, TNumber] [] TString"
| "builtinSigs BStrCharCodeAt = sig ''charCodeAt'' [TString, TNumber] [] TNumber"
| "builtinSigs BStrIncludes = sig ''includes'' [TString, TString] [TNumber] TBoolean"
| "builtinSigs BStrStartsWith = sig ''startsWith'' [TString, TString] [TNumber] TBoolean"
| "builtinSigs BStrEndsWith = sig ''endsWith'' [TString, TString] [TNumber] TBoolean"
| "builtinSigs BStrIndexOf = sig ''indexOf'' [TString, TString] [TNumber] TNumber"
| "builtinSigs BStrLastIndexOf = sig ''lastIndexOf'' [TString, TString] [TNumber] TNumber"
| "builtinSigs BStrSlice = sig ''slice'' [TString] [TNumber, TNumber] TString"
| "builtinSigs BStrSubstring = sig ''substring'' [TString, TNumber] [TNumber] TString"
| "builtinSigs BStrToLowerCase = sig ''toLowerCase'' [TString] [] TString"
| "builtinSigs BStrToUpperCase = sig ''toUpperCase'' [TString] [] TString"
| "builtinSigs BStrTrim = sig ''trim'' [TString] [] TString"
| "builtinSigs BStrTrimStart = sig ''trimStart'' [TString] [] TString"
| "builtinSigs BStrTrimEnd = sig ''trimEnd'' [TString] [] TString"
| "builtinSigs BStrSplit = sig ''split'' [TString, TString] [TNumber] (ArrayOf TString)"
| "builtinSigs BStrReplace = sig ''replace'' [TString, TString, TString] [] TString"
| "builtinSigs BStrReplaceAll = sig ''replaceAll'' [TString, TString, TString] [] TString"
| "builtinSigs BStrPadStart = sig ''padStart'' [TString, TNumber] [TString] TString"
| "builtinSigs BStrPadEnd = sig ''padEnd'' [TString, TNumber] [TString] TString"
| "builtinSigs BStrRepeat = sig ''repeat'' [TString, TNumber] [] TString"
| "builtinSigs BStrAt = sig ''at'' [TString, TNumber] [] (MaybeOf TString)"
| "builtinSigs BStrCodePointAt = sig ''codePointAt'' [TString, TNumber] [] (MaybeOf TNumber)"
| "builtinSigs BStrIndex = sig ''[i]'' [TString, TNumber] [] TString"
| "builtinSigs BStrIndexOrUndefined = sig ''[i]'' [TString, TNumber] [] (MaybeOf TString)"
| "builtinSigs ToString = sig ''String'' [] [] TString"
| "builtinSigs ToStringMethod = sig ''toString'' [] [] TString"
| "builtinSigs NumToFixed = sig ''toFixed'' [TNumber, TNumber] [] TString"
| "builtinSigs NumFromStr = sig ''Number'' [TString] [] TNumber"
| "builtinSigs NumParseInt = sig ''parseInt'' [TString] [TNumber] TNumber"
| "builtinSigs NumParseFlt = sig ''parseFloat'' [TString] [] TNumber"
| "builtinSigs NumIsFinite = sig ''isFinite'' [TNumber] [] TBoolean"
| "builtinSigs NumIsNaN = sig ''isNaN'' [TNumber] [] TBoolean"
| "builtinSigs NumIsInteger = sig ''isInteger'' [TNumber] [] TBoolean"
| "builtinSigs URIEncode = sig ''encodeURIComponent'' [TString] [] TString"
| "builtinSigs URIDecode = sig ''decodeURIComponent'' [TString] [] TString"

definition stringLike :: "ty \<Rightarrow> bool" where
  "stringLike t \<longleftrightarrow> t = TString \<or> t = TBase64"

definition IsPrimitive :: "ty \<Rightarrow> bool" where
  "IsPrimitive t \<longleftrightarrow> t = TString \<or> t = TNumber \<or> t = TBoolean \<or> IsExtension t"

definition primitiveOf :: "ty \<Rightarrow> ty" where
  "primitiveOf t = (if Kind_of t = KindMaybe \<and> Elem_of t \<noteq> None then the (Elem_of t) else t)"

definition ToStringable :: "ty \<Rightarrow> bool" where
  "ToStringable t \<longleftrightarrow> IsPrimitive (primitiveOf t) \<or> primitiveOf t = TError \<or> t = TUnknown"

text \<open>\<open>StringParts\<close>, of \<open>append.go\<close>.\<close>

fun StringParts :: "expr \<Rightarrow> expr list" where
  "StringParts (Binary op l r t s) =
     (if op = OpAdd \<and> stringLike (ExprType l) \<and> stringLike (ExprType r)
      then StringParts l @ StringParts r else [Binary op l r t s])"
| "StringParts (Concat ps s) = concat (map StringParts ps)"
| "StringParts x = [x]"

end
