(* ===== verification/IrInspect.thy ===== *)
theory IrInspect
  imports IrNodes
begin

text \<open>
  The traversal of a module (\<open>ir/inspect.go\<close>). \<open>visit\<close> is called on nodes in order, so the
  model is the list of the nodes it is called on.

  An \<open>Append\<close> holds its target as an \<open>*Ident\<close>. A nil one passed as an \<open>Expr\<close> is not nil to
  \<open>inspectExpr\<close>, which visits it: the node \<open>NilIdent\<close>.
\<close>

datatype node = NExpr expr | NStmt stmt | NilIdent

fun inspectExpr :: "expr \<Rightarrow> node list"
and inspectStmt :: "stmt \<Rightarrow> node list" where
  "inspectExpr (NumberLit v s) = [NExpr (NumberLit v s)]"
| "inspectExpr (StringLit v s) = [NExpr (StringLit v s)]"
| "inspectExpr (BoolLit v s) = [NExpr (BoolLit v s)]"
| "inspectExpr (NullLit s) = [NExpr (NullLit s)]"
| "inspectExpr (UndefinedLit s) = [NExpr (UndefinedLit s)]"
| "inspectExpr (EIdent x) = [NExpr (EIdent x)]"
| "inspectExpr (Binary op l r t s) = NExpr (Binary op l r t s) # inspectExpr l @ inspectExpr r"
| "inspectExpr (Unary op x t s) = NExpr (Unary op x t s) # inspectExpr x"
| "inspectExpr (Call f m xs t s) = NExpr (Call f m xs t s) # concat (map inspectExpr xs)"
| "inspectExpr (FuncLit ps r b cs c a t s) = NExpr (FuncLit ps r b cs c a t s) # concat (map inspectStmt b)"
| "inspectExpr (Await v t s) = NExpr (Await v t s) # inspectExpr v"
| "inspectExpr (NewPromise e t s) = NExpr (NewPromise e t s) # inspectExpr e"
| "inspectExpr (ConsoleLog xs e s) = NExpr (ConsoleLog xs e s) # concat (map inspectExpr xs)"
| "inspectExpr (Convert v t s) = NExpr (Convert v t s) # inspectExpr v"
| "inspectExpr (ObjectLit fs t s) =
     NExpr (ObjectLit fs t s) # concat (map (\<lambda>(i, v, sp). inspectExpr v) fs)"
| "inspectExpr (ArrayLit xs t s) = NExpr (ArrayLit xs t s) # concat (map inspectExpr xs)"
| "inspectExpr (FieldGet x f t s) = NExpr (FieldGet x f t s) # inspectExpr x"
| "inspectExpr (IndexGet x i t u s) = NExpr (IndexGet x i t u s) # inspectExpr x @ inspectExpr i"
| "inspectExpr (ArrayOp m x xs t s) = NExpr (ArrayOp m x xs t s) # inspectExpr x @ concat (map inspectExpr xs)"
| "inspectExpr (HasField x f s) = NExpr (HasField x f s) # inspectExpr x"
| "inspectExpr (Wrap v t s) = NExpr (Wrap v t s) # inspectExpr v"
| "inspectExpr (Unwrap v t a s) = NExpr (Unwrap v t a s) # inspectExpr v"
| "inspectExpr (ELet n v b s) = NExpr (ELet n v b s) # inspectExpr v @ inspectExpr b"
| "inspectExpr (Empty n t s) = [NExpr (Empty n t s)]"
| "inspectExpr (IsEmpty v u n s) = NExpr (IsEmpty v u n s) # inspectExpr v"
| "inspectExpr (Cond c a b t s) = NExpr (Cond c a b t s) # inspectExpr c @ inspectExpr a @ inspectExpr b"
| "inspectExpr (NewError k m s) =
     NExpr (NewError k m s) # (case m of None \<Rightarrow> [] | Some e \<Rightarrow> inspectExpr e)"
| "inspectExpr (ErrorGet e p s) = NExpr (ErrorGet e p s) # inspectExpr e"
| "inspectExpr (Box v s) = NExpr (Box v s) # inspectExpr v"
| "inspectExpr (Unbox v t s) = NExpr (Unbox v t s) # inspectExpr v"
| "inspectExpr (InstanceOf v k s) = NExpr (InstanceOf v k s) # inspectExpr v"
| "inspectExpr (TypeOf v g s) = NExpr (TypeOf v g s) # inspectExpr v"
| "inspectExpr (BuiltinCall f xs t s) = NExpr (BuiltinCall f xs t s) # concat (map inspectExpr xs)"
| "inspectExpr (Concat ps s) = NExpr (Concat ps s) # concat (map inspectExpr ps)"
| "inspectExpr (HostCall op r xs t s) =
     NExpr (HostCall op r xs t s) # (case r of None \<Rightarrow> [] | Some e \<Rightarrow> inspectExpr e) @ concat (map inspectExpr xs)"
| "inspectExpr (HostProp p r t s) = NExpr (HostProp p r t s) # inspectExpr r"
| "inspectExpr (JSONStringify v sp s) =
     NExpr (JSONStringify v sp s) # inspectExpr v @ (case sp of None \<Rightarrow> [] | Some e \<Rightarrow> inspectExpr e)"
| "inspectExpr (Truthy v s) = NExpr (Truthy v s) # inspectExpr v"

| "inspectStmt (VarDecl n t i m a s) =
     NStmt (VarDecl n t i m a s) # (case i of None \<Rightarrow> [] | Some e \<Rightarrow> inspectExpr e)"
| "inspectStmt (Assign n m v s) = NStmt (Assign n m v s) # inspectExpr v"
| "inspectStmt (Append g ps s) =
     NStmt (Append g ps s) # (case g of None \<Rightarrow> [NilIdent] | Some x \<Rightarrow> [NExpr (EIdent x)])
       @ concat (map inspectExpr ps)"
| "inspectStmt (IfStmt c t e s) =
     NStmt (IfStmt c t e s) # inspectExpr c @ concat (map inspectStmt t) @ concat (map inspectStmt e)"
| "inspectStmt (While c b s) = NStmt (While c b s) # inspectExpr c @ concat (map inspectStmt b)"
| "inspectStmt (Return v s) = NStmt (Return v s) # (case v of None \<Rightarrow> [] | Some e \<Rightarrow> inspectExpr e)"
| "inspectStmt (ExprStmt e s) = NStmt (ExprStmt e s) # inspectExpr e"
| "inspectStmt (For i c p b s) =
     NStmt (For i c p b s) # concat (map inspectStmt i) @ (case c of None \<Rightarrow> [] | Some e \<Rightarrow> inspectExpr e)
       @ concat (map inspectStmt p) @ concat (map inspectStmt b)"
| "inspectStmt (Break s) = [NStmt (Break s)]"
| "inspectStmt (Continue s) = [NStmt (Continue s)]"
| "inspectStmt (FieldSet x f v s) = NStmt (FieldSet x f v s) # inspectExpr x @ inspectExpr v"
| "inspectStmt (FieldDelete x f s) = NStmt (FieldDelete x f s) # inspectExpr x"
| "inspectStmt (IndexSet x i v s) = NStmt (IndexSet x i v s) # inspectExpr x @ inspectExpr i @ inspectExpr v"
| "inspectStmt (ForOf n t m x b s) =
     NStmt (ForOf n t m x b s) # inspectExpr x @ concat (map inspectStmt b)"
| "inspectStmt (Throw v s) = NStmt (Throw v s) # (case v of None \<Rightarrow> [] | Some e \<Rightarrow> inspectExpr e)"
| "inspectStmt (Try b c f s) =
     NStmt (Try b c f s) # concat (map inspectStmt b)
       @ (case c of None \<Rightarrow> [] | Some (n, cb, cs) \<Rightarrow> concat (map inspectStmt cb))
       @ (case f of None \<Rightarrow> [] | Some fb \<Rightarrow> concat (map inspectStmt fb))"

end
