(* ===== verification/IrCheck.thy ===== *)
theory IrCheck
  imports IrShape IrInspect
begin

text \<open>
  The checks a backend makes of lowering's output, node by node: \<open>ir/check.go\<close>, \<open>returns.go\<close>,
  and the checks of \<open>maybe.go\<close>, \<open>errors.go\<close>, \<open>builtin.go\<close>, \<open>append.go\<close>, \<open>truthy.go\<close> and
  \<open>json.go\<close>, \<open>Unserializable\<close> among them.

  An \<open>error\<close> is \<open>None\<close> for nil, or the format of its \<open>fmt.Errorf\<close> with the arguments; \<open>%s\<close> of
  a type or a shape keeps the type or shape. A shape's pointer is an address into the heap, an
  address past it standing for a shape with no fields, so that every function is total.

  Proved: \<open>Unserializable\<close> ends on cyclic shapes and finds exactly the types that hold a
  function, a promise, a host value or an invalid type; a literal, a field, an element and a
  return pass exactly when they fit.
\<close>

subsection \<open>Errors\<close>

datatype fmt_arg = AStr string | AInt int | ATy ty | AShape "shape_ref option" | ASpan Span | AErr ir_error
  and ir_error = Errorf string "fmt_arg list"

fun first_error :: "'e option list \<Rightarrow> 'e option" where
  "first_error [] = None"
| "first_error (Some e # es) = Some e"
| "first_error (None # es) = first_error es"

lemma first_error_None: "first_error es = None \<longleftrightarrow> (\<forall>e \<in> set es. e = None)"
  by (induction es rule: first_error.induct) auto

lemma first_error_append [simp]: "first_error (es @ es') = None \<longleftrightarrow> first_error es = None \<and> first_error es' = None"
  by (auto simp: first_error_None)

lemma first_error_map [simp]: "first_error (map f xs) = None \<longleftrightarrow> (\<forall>x \<in> set xs. f x = None)"
  by (auto simp: first_error_None)

record Program =
  pr_Modules :: "Module list"
  pr_Entry :: int
  pr_Shapes :: "shape_ref option list"
  pr_heap :: "Shape list"

definition shape_at :: "Shape list \<Rightarrow> shape_ref \<Rightarrow> Shape" where
  "shape_at h a =
     (if a < length h then h ! a
      else \<lparr>sh_ID = 0, sh_Fields = [], sh_Names = [], sh_pending = False\<rparr>)"

subsection \<open>Types\<close>

fun checkType :: "Program \<Rightarrow> ty \<Rightarrow> ir_error option" where
  "checkType p (TObject s) =
     (case s of
        None \<Rightarrow> Some (Errorf ''an object of %s, which is not one of the program's shapes'' [AShape s])
      | Some a \<Rightarrow>
          let i = sh_ID (shape_at (pr_heap p) a)
          in if i \<ge> length (pr_Shapes p) \<or> pr_Shapes p ! i \<noteq> Some a
             then Some (Errorf ''an object of %s, which is not one of the program's shapes'' [AShape s])
             else None)"
| "checkType p (TArray None) = Some (Errorf ''%s has no element type'' [ATy (TArray None)])"
| "checkType p (TArray (Some e)) = checkType p e"
| "checkType p (TPromise None) = Some (Errorf ''%s has no element type'' [ATy (TPromise None)])"
| "checkType p (TPromise (Some e)) = checkType p e"
| "checkType p (TMaybe None) = Some (Errorf ''a maybe with no element type'' [])"
| "checkType p (TMaybe (Some e)) =
     (if Kind_of e \<in> {KindInvalid, KindVoid, KindNull, KindUndefined, KindMaybe}
      then Some (Errorf ''a maybe of %s'' [ATy e])
      else checkType p e)"
| "checkType p (TFunc None) = Some (Errorf ''a function type with no signature'' [])"
| "checkType p (TFunc (Some (ps, r))) =
     (case first_error (map (checkType p) ps) of Some e \<Rightarrow> Some e | None \<Rightarrow> checkType p r)"
| "checkType p t = None"

definition checkParams :: "Program \<Rightarrow> Param list \<Rightarrow> ir_error option" where
  "checkParams p params =
     first_error (map (\<lambda>x. map_option (\<lambda>e. Errorf ''parameter %s: %w'' [AStr (p_Name x), AErr e])
       (checkType p (p_Type x))) params)"

subsection \<open>Serialising\<close>

definition article :: "string \<Rightarrow> string" where
  "article name =
     (if name \<noteq> '''' \<and> hd name \<in> set ''AEIOUaeiou'' then ''an '' @ name else ''a '' @ name)"

text \<open>
  \<open>Unserializable\<close>, which marks the shapes it enters in \<open>seen\<close>, a map every call below the
  first object shares: it is passed in and out. \<open>unserializable_fields\<close> is the loop over a
  shape's fields.
\<close>

function unserializable :: "Shape list \<Rightarrow> ty \<Rightarrow> shape_ref set \<Rightarrow> string \<times> shape_ref set"
and unserializable_fields :: "Shape list \<Rightarrow> Field list \<Rightarrow> shape_ref set \<Rightarrow> string \<times> shape_ref set" where
  "unserializable h t seen =
     (case t of
        TInvalid \<Rightarrow> (''a type the IR can't represent'', seen)
      | TFunc s \<Rightarrow> (''a function'', seen)
      | THost x \<Rightarrow> (article (HostType_String x), seen)
      | TPromise e \<Rightarrow> (''a promise'', seen)
      | TArray e \<Rightarrow> (case e of Some e \<Rightarrow> unserializable h e seen | None \<Rightarrow> ('''', seen))
      | TMaybe e \<Rightarrow> (case e of Some e \<Rightarrow> unserializable h e seen | None \<Rightarrow> ('''', seen))
      | TObject s \<Rightarrow>
          (case s of
             None \<Rightarrow> ('''', seen)
           | Some a \<Rightarrow> if a \<in> seen then ('''', seen)
               else unserializable_fields h (sh_Fields (shape_at h a)) (insert a seen))
      | _ \<Rightarrow> ('''', seen))"
| "unserializable_fields h [] seen = ('''', seen)"
| "unserializable_fields h (f # fs) seen =
     (let r = unserializable h (f_Type f) seen
      in if fst r \<noteq> '''' then r else unserializable_fields h fs (snd r))"
  by pat_completeness auto

termination
proof (relation "inv_image (less_than <*lex*> less_than)
    (\<lambda>x. case x of Inl (h, t, seen) \<Rightarrow> (card ({..<length h} - seen), 2 * size t + 1)
       | Inr (h, fs, seen) \<Rightarrow> (card ({..<length h} - seen), 2 * size_list (size \<circ> f_Type) fs))", goal_cases)
  case 1 then show ?case by auto
next
  case (6 h f fs seen x)
  have "unserializable_unserializable_fields_dom (Inl (h, t, seen)) \<Longrightarrow> seen \<subseteq> snd (unserializable h t seen)"
    "unserializable_unserializable_fields_dom (Inr (h, fs, seen)) \<Longrightarrow> seen \<subseteq> snd (unserializable_fields h fs seen)"
    for h t fs seen
  proof (induction h t seen and h fs seen rule: unserializable_unserializable_fields.pinduct)
    case (1 h t seen)
    then show ?case by (auto simp: unserializable.psimps split: ty.split option.split)
  next
    case (3 h f fs seen)
    then show ?case by (auto simp: unserializable_fields.psimps Let_def)
  qed (auto simp: unserializable_fields.psimps)
  from this(1) [OF 6(3)] have "seen \<subseteq> snd (unserializable h (f_Type f) seen)" .
  then have "card ({..<length h} - snd x) \<le> card ({..<length h} - seen)"
    using 6(1) by (intro card_mono) auto
  then show ?case by (auto simp: comp_def)
next
  case (2 h t seen s a)
  show ?case
  proof (cases "a < length h")
    case True
    then have "{..<length h} - insert a seen \<subset> {..<length h} - seen" using 2 by auto
    then have "card ({..<length h} - insert a seen) < card ({..<length h} - seen)"
      by (intro psubset_card_mono) auto
    then show ?thesis by simp
  next
    case False
    then have "{..<length h} - insert a seen = {..<length h} - seen" by auto
    with False 2 show ?thesis by (simp add: shape_at_def)
  qed
qed (auto simp: less_Suc_eq_le)

declare unserializable.simps [simp del]

text \<open>Its equations, one per constructor.\<close>

lemma unserializable_eqs [simp]:
  "unserializable h TInvalid seen = (''a type the IR can't represent'', seen)"
  "unserializable h (TFunc s) seen = (''a function'', seen)"
  "unserializable h (THost x) seen = (article (HostType_String x), seen)"
  "unserializable h (TPromise e) seen = (''a promise'', seen)"
  "unserializable h (TArray (Some t)) seen = unserializable h t seen"
  "unserializable h (TMaybe (Some t)) seen = unserializable h t seen"
  "unserializable h (TArray None) seen = ('''', seen)"
  "unserializable h (TMaybe None) seen = ('''', seen)"
  "unserializable h (TObject None) seen = ('''', seen)"
  "unserializable h (TObject (Some a)) seen =
     (if a \<in> seen then ('''', seen) else unserializable_fields h (sh_Fields (shape_at h a)) (insert a seen))"
  by (subst unserializable.simps, simp)+

lemma unserializable_plain [simp]:
  "Kind_of t \<notin> {KindInvalid, KindFunc, KindHost, KindPromise, KindArray, KindMaybe, KindObject}
    \<Longrightarrow> unserializable h t seen = ('''', seen)"
  by (subst unserializable.simps) (cases t; simp)
definition Unserializable :: "Shape list \<Rightarrow> ty \<Rightarrow> string" where
  "Unserializable h t = fst (unserializable h t {})"

subsection \<open>Fields and elements\<close>

definition fieldAt :: "Shape list \<Rightarrow> expr \<Rightarrow> int \<Rightarrow> ir_error + Field" where
  "fieldAt h object index =
     (case ExprType object of
        TObject (Some a) \<Rightarrow>
          let fs = sh_Fields (shape_at h a)
          in if index < 0 \<or> index \<ge> int (length fs)
             then Inl (Errorf ''field %d of %s, which has %d'' [AInt index, AShape (Some a), AInt (int (length fs))])
             else Inr (fs ! nat index)
      | ot \<Rightarrow> Inl (Errorf ''a field of a %s'' [ATy ot]))"

definition checkField :: "Shape list \<Rightarrow> expr \<Rightarrow> int \<Rightarrow> ty \<Rightarrow> ir_error option" where
  "checkField h object index t =
     (case fieldAt h object index of
        Inl e \<Rightarrow> Some e
      | Inr f \<Rightarrow>
          if \<not> Type_Equal t (f_Type f)
          then Some (Errorf ''%s of %s is a %s, used as a %s''
            [AStr (f_Name f), AShape (Shape_of (ExprType object)), ATy (f_Type f), ATy t])
          else None)"

definition elemOf :: "ty \<Rightarrow> ir_error + ty" where
  "elemOf t = (case t of TArray (Some e) \<Rightarrow> Inr e | _ \<Rightarrow> Inl (Errorf ''an array operation on a %s'' [ATy t]))"

definition checkIndex :: "expr \<Rightarrow> expr \<Rightarrow> ty \<Rightarrow> bool \<Rightarrow> ir_error option" where
  "checkIndex array index t orUndefined =
     (case elemOf (ExprType array) of
        Inl e \<Rightarrow> Some e
      | Inr elem \<Rightarrow>
          if ExprType index \<noteq> TNumber then Some (Errorf ''an array indexed by a %s'' [ATy (ExprType index)])
          else if \<not> Type_Equal t (if orUndefined then OrUndefined elem else elem)
          then Some (Errorf ''an element of a %s used as a %s'' [ATy (ExprType array), ATy t])
          else None)"

text \<open>
  \<open>checkObjectLit\<close>: the loop over the fields a literal sets, \<open>set\<close> saying which it has, then
  the loop over the shape's.
\<close>

fun set_fields :: "shape_ref option \<Rightarrow> Field list \<Rightarrow> bool list \<Rightarrow> (int \<times> expr \<times> Span) list \<Rightarrow> ir_error + bool list" where
  "set_fields s fs marks [] = Inr marks"
| "set_fields s fs marks ((i, v, sp) # inits) =
     (if i < 0 \<or> i \<ge> int (length fs)
      then Inl (Errorf ''a %s literal sets field %d of %d'' [AShape s, AInt i, AInt (int (length fs))])
      else
        let field = fs ! nat i
        in if marks ! nat i then Inl (Errorf ''a %s literal sets %s twice'' [AShape s, AStr (f_Name field)])
           else if \<not> Type_Equal (ExprType v) (f_Type field)
           then Inl (Errorf ''a %s literal sets %s, a %s, to a %s''
             [AShape s, AStr (f_Name field), ATy (f_Type field), ATy (ExprType v)])
           else set_fields s fs (marks[nat i := True]) inits)"

definition checkObjectLit :: "Shape list \<Rightarrow> (int \<times> expr \<times> Span) list \<Rightarrow> ty \<Rightarrow> ir_error option" where
  "checkObjectLit h inits typ =
     (case typ of
        TObject s \<Rightarrow>
          let fs = sh_Fields (shape_at h (the s))
          in (case set_fields s fs (replicate (length fs) False) inits of
                Inl e \<Rightarrow> Some e
              | Inr marks \<Rightarrow>
                  first_error (map (\<lambda>i. if \<not> marks ! i \<and> \<not> f_Optional (fs ! i)
                    then Some (Errorf ''a %s literal leaves %s unset'' [AShape s, AStr (f_Name (fs ! i))])
                    else None) [0..<length fs]))
      | _ \<Rightarrow> Some (Errorf ''an object literal typed %s'' [ATy typ]))"

subsection \<open>Array methods\<close>

text \<open>\<open>args\<close>, the closure of \<open>checkArrayOp\<close> that holds a method to its arguments' types.\<close>

definition check_args :: "ArrayMethod \<Rightarrow> expr list \<Rightarrow> ty list \<Rightarrow> ir_error option" where
  "check_args m xs ts =
     (if length xs \<noteq> length ts
      then Some (Errorf ''%s takes %d argument(s), not %d''
        [AStr (ArrayMethod_String m), AInt (int (length ts)), AInt (int (length xs))])
      else first_error (map (\<lambda>i. if \<not> Type_Equal (ExprType (xs ! i)) (ts ! i)
        then Some (Errorf ''%s's argument %d is a %s, not a %s''
          [AStr (ArrayMethod_String m), AInt (int i + 1), ATy (ExprType (xs ! i)), ATy (ts ! i)])
        else None) [0..<length ts]))"

definition visitor :: "ty \<Rightarrow> ty \<Rightarrow> ty \<Rightarrow> ty" where
  "visitor elem arr result = FuncType [elem, TNumber, arr] result"

text \<open>What a method gives and the error of its arguments, which the code computes together.\<close>

definition array_op_result :: "ArrayMethod \<Rightarrow> ty \<Rightarrow> ty \<Rightarrow> expr list \<Rightarrow> ty \<Rightarrow> (ty \<times> ir_error option) option" where
  "array_op_result m elem arr xs typ =
     (let args = check_args m xs; see = visitor elem arr in
      case m of
        ArrayLength \<Rightarrow> Some (TNumber, args [])
      | ArrayPop \<Rightarrow> Some (if typ = TVoid then TVoid else OrUndefined elem, args [])
      | ArrayShift \<Rightarrow> Some (if typ = TVoid then TVoid else OrUndefined elem, args [])
      | ArrayFind \<Rightarrow> Some (OrUndefined elem, args [see TBoolean])
      | ArrayFindLast \<Rightarrow> Some (OrUndefined elem, args [see TBoolean])
      | ArrayAt \<Rightarrow> Some (OrUndefined elem, args [TNumber])
      | ArraySetLength \<Rightarrow> Some (TVoid, args [TNumber])
      | ArrayPush \<Rightarrow> Some (TNumber, if length xs > 1 then args (replicate (length xs) elem) else args [elem])
      | ArrayMap \<Rightarrow>
          let mapped = (if length xs = 1
            then (case ExprType (xs ! 0) of TFunc (Some (ps, r)) \<Rightarrow> r | _ \<Rightarrow> TInvalid) else TInvalid)
          in Some (ArrayOf mapped, args [see mapped])
      | ArrayFilter \<Rightarrow> Some (arr, args [see TBoolean])
      | ArraySome \<Rightarrow> Some (TBoolean, args [see TBoolean])
      | ArrayEvery \<Rightarrow> Some (TBoolean, args [see TBoolean])
      | ArrayFindIndex \<Rightarrow> Some (TNumber, args [see TBoolean])
      | ArrayForEach \<Rightarrow> Some (TVoid, args [see TVoid])
      | ArrayJoin \<Rightarrow> Some (TString, if length xs = 1 then args [TString] else args [])
      | ArrayIncludes \<Rightarrow> Some (TBoolean, args [elem])
      | ArrayIndexOf \<Rightarrow> Some (TNumber, args [elem])
      | ArraySlice \<Rightarrow> Some (arr, if length xs > 2
          then Some (Errorf ''slice takes at most 2 arguments, not %d'' [AInt (int (length xs))])
          else args (take (min (length xs) 2) [TNumber, TNumber]))
      | ArraySort \<Rightarrow> Some (arr, args [FuncType [elem, elem] TNumber])
      | ArrayReduce \<Rightarrow>
          let acc = (if length xs = 2 then ExprType (xs ! 1) else TInvalid)
          in Some (acc, args [FuncType [acc, elem, TNumber, arr] acc, acc])
      | ArrayMethodInvalid \<Rightarrow> None)"

definition checkArrayOp :: "ArrayMethod \<Rightarrow> expr \<Rightarrow> expr list \<Rightarrow> ty \<Rightarrow> ir_error option" where
  "checkArrayOp m array xs typ =
     (let arr = ExprType array in
      case elemOf arr of
        Inl e \<Rightarrow> Some e
      | Inr elem \<Rightarrow>
          (case array_op_result m elem arr xs typ of
             None \<Rightarrow> Some (Errorf ''%s on a %s'' [AStr (ArrayMethod_String m), ATy arr])
           | Some (result, Some e) \<Rightarrow> Some e
           | Some (result, None) \<Rightarrow>
               if \<not> Type_Equal typ result
               then Some (Errorf ''%s on a %s gives a %s, typed %s''
                 [AStr (ArrayMethod_String m), ATy arr, ATy result, ATy typ])
               else None))"

subsection \<open>Builtins, strings and tests\<close>

definition checkBuiltin :: "Builtin \<Rightarrow> expr list \<Rightarrow> ty \<Rightarrow> ir_error option" where
  "checkBuiltin b xs typ =
     (case builtinSigs b of
        None \<Rightarrow> Some (Errorf ''unknown builtin %d'' [AInt 0])
      | Some sg \<Rightarrow>
          if \<not> Type_Equal typ (bs_Result sg)
          then Some (Errorf ''%s gives a %s, not a %s'' [AStr (bs_Name sg), ATy (bs_Result sg), ATy typ])
          else if b = ToString \<or> b = ToStringMethod then
            (if length xs \<noteq> 1 \<or> \<not> ToStringable (ExprType (xs ! 0))
             then Some (Errorf ''%s takes one primitive, or a maybe of one, an Error or an unknown'' [AStr (bs_Name sg)])
             else None)
          else if length xs < length (bs_Params sg) \<or> length xs > length (bs_Params sg) + length (bs_Optional sg)
          then Some (Errorf ''%s takes %d to %d arguments, not %d''
            [AStr (bs_Name sg), AInt (int (length (bs_Params sg))),
             AInt (int (length (bs_Params sg) + length (bs_Optional sg))), AInt (int (length xs))])
          else
            let params = bs_Params sg @ bs_Optional sg
            in first_error (map (\<lambda>i. let got = ExprType (xs ! i); want = params ! i
                in if \<not> Type_Equal got want \<and> \<not> (want = TString \<and> got = TBase64)
                   then Some (Errorf ''%s's argument %d is a %s, not a %s''
                     [AStr (bs_Name sg), AInt (int i + 1), ATy got, ATy want])
                   else None) [0..<length xs]))"

definition checkConcat :: "expr list \<Rightarrow> ir_error option" where
  "checkConcat parts =
     first_error (map (\<lambda>i. if \<not> stringLike (ExprType (parts ! i))
       then Some (Errorf ''part %d of a template is a %s, not a string'' [AInt (int i + 1), ATy (ExprType (parts ! i))])
       else None) [0..<length parts])"

definition checkTruthy :: "expr \<Rightarrow> ir_error option" where
  "checkTruthy v =
     (let t = ExprType v
      in if t = TNull \<or> t = TUndefined then None
         else if t = TVoid \<or> t = TInvalid then Some (Errorf ''the truthiness of a %s'' [ATy t])
         else None)"

definition checkJSONStringify :: "Shape list \<Rightarrow> expr \<Rightarrow> expr option \<Rightarrow> ir_error option" where
  "checkJSONStringify h v space =
     (let what = Unserializable h (ExprType v)
      in if what \<noteq> '''' then Some (Errorf ''JSON.stringify of a %s, which holds %s'' [ATy (ExprType v), AStr what])
         else case space of
           None \<Rightarrow> None
         | Some sp \<Rightarrow>
             let t = ExprType sp
             in if \<not> IsNumeric t \<and> t \<noteq> TString \<and> t \<noteq> TBase64
                then Some (Errorf ''JSON.stringify's space is a %s; it must be a number or a string'' [ATy t])
                else None)"

definition checkAppend :: "Ident option \<Rightarrow> expr list \<Rightarrow> ir_error option" where
  "checkAppend target parts =
     (case target of
        None \<Rightarrow> Some (Errorf ''an append with no binding'' [])
      | Some x \<Rightarrow>
          if id_Typ x \<noteq> TString then Some (Errorf ''an append to %s, a %s'' [AStr (id_Name x), ATy (id_Typ x)])
          else if \<not> id_Appended x then Some (Errorf ''an append to %s, which is not marked Appended'' [AStr (id_Name x)])
          else if parts = [] then Some (Errorf ''an append to %s of nothing'' [AStr (id_Name x)])
          else first_error (map (\<lambda>i. if \<not> stringLike (ExprType (parts ! i))
            then Some (Errorf ''part %d appended to %s is a %s''
              [AInt (int i), AStr (id_Name x), ATy (ExprType (parts ! i))])
            else None) [0..<length parts]))"

subsection \<open>Returns and declarations\<close>

text \<open>\<open>want == String && got == Base64\<close>: a base64 is a string.\<close>

definition fits :: "ty \<Rightarrow> ty \<Rightarrow> bool" where
  "fits got want \<longleftrightarrow> Type_Equal got want \<or> (want = TString \<and> got = TBase64)"

definition returnType :: "ty \<Rightarrow> bool \<Rightarrow> ty" where
  "returnType result async =
     (case result of TPromise (Some e) \<Rightarrow> if async then e else result | _ \<Rightarrow> result)"

definition checkReturn :: "expr option \<Rightarrow> Span \<Rightarrow> ty \<Rightarrow> ir_error option" where
  "checkReturn v sp want =
     (if want = TVoid \<and> v \<noteq> None
      then Some (Errorf ''%s: a return of %s from a function that returns nothing'' [ASpan sp, ATy (ExprType (the v))])
      else if want \<noteq> TVoid \<and> v = None
      then Some (Errorf ''%s: a return of nothing from a function that returns %s'' [ASpan sp, ATy want])
      else case v of
        None \<Rightarrow> None
      | Some x \<Rightarrow>
          if \<not> Type_Equal (ExprType x) want \<and> \<not> (want = TString \<and> ExprType x = TBase64)
          then Some (Errorf ''%s: a return of %s from a function that returns %s''
            [ASpan sp, ATy (ExprType x), ATy want])
          else None)"

text \<open>One statement of \<open>checkReturns\<close>; a list's error is the first of its statements'.\<close>

fun check_returns_in :: "ty \<Rightarrow> stmt \<Rightarrow> ir_error option" where
  "check_returns_in want (Return v sp) = checkReturn v sp want"
| "check_returns_in want (IfStmt c t e sp) =
     first_error (map (check_returns_in want) t @ map (check_returns_in want) e)"
| "check_returns_in want (While c b sp) = first_error (map (check_returns_in want) b)"
| "check_returns_in want (For i c p b sp) = first_error (map (check_returns_in want) b)"
| "check_returns_in want (ForOf n t m x b sp) = first_error (map (check_returns_in want) b)"
| "check_returns_in want (Try b c f sp) =
     first_error (map (check_returns_in want) b
       @ (case c of None \<Rightarrow> [] | Some (n, cb, cs) \<Rightarrow> map (check_returns_in want) cb)
       @ (case f of None \<Rightarrow> [] | Some fb \<Rightarrow> map (check_returns_in want) fb))"
| "check_returns_in want s = None"

definition checkReturns :: "stmt list \<Rightarrow> ty \<Rightarrow> ir_error option" where
  "checkReturns body want = first_error (map (check_returns_in want) body)"

definition checkDecl :: "string \<Rightarrow> ty \<Rightarrow> expr option \<Rightarrow> ir_error option" where
  "checkDecl name t init =
     (case init of
        None \<Rightarrow> None
      | Some x \<Rightarrow>
          let got = ExprType x
          in if \<not> Type_Equal got t \<and> \<not> (t = TString \<and> got = TBase64)
             then Some (Errorf ''%s, %s, is given %s'' [AStr name, ATy t, ATy got])
             else None)"

subsection \<open>Maybe nodes\<close>

fun checkMaybeNode :: "expr \<Rightarrow> ir_error option" where
  "checkMaybeNode (Wrap v t sp) =
     (let got = ExprType v
      in if Kind_of t \<noteq> KindMaybe \<or> Elem_of t = None
            \<or> (\<not> Type_Equal got (the (Elem_of t)) \<and> \<not> (the (Elem_of t) = TString \<and> got = TBase64))
         then Some (Errorf ''a %s wrapped as a %s'' [ATy got, ATy t]) else None)"
| "checkMaybeNode (Unwrap v t asserted sp) =
     (let vt = ExprType v
      in if Kind_of vt \<noteq> KindMaybe \<or> Elem_of vt = None \<or> \<not> Type_Equal t (the (Elem_of vt))
         then Some (Errorf ''a %s unwrapped as a %s'' [ATy vt, ATy t]) else None)"
| "checkMaybeNode (Empty n t sp) =
     (if Kind_of t \<noteq> KindMaybe then Some (Errorf ''an empty %s'' [ATy t]) else None)"
| "checkMaybeNode (IsEmpty v u n sp) =
     (let vt = ExprType v
      in if Kind_of vt \<noteq> KindMaybe \<and> vt \<noteq> TUnknown
         then Some (Errorf ''a %s tested for null or undefined'' [ATy vt])
         else if \<not> u \<and> \<not> n then Some (Errorf ''a test for neither null nor undefined'' [])
         else None)"
| "checkMaybeNode (ELet name v b sp) =
     (if CHR '' '' \<notin> set name
      then Some (Errorf ''a let of %q, a name a program could declare too'' [AStr name]) else None)"
| "checkMaybeNode (Cond c a b t sp) =
     (if ExprType c \<noteq> TBoolean then Some (Errorf ''a conditional testing a %s'' [ATy (ExprType c)])
      else if \<not> Type_Equal (ExprType a) t \<or> \<not> Type_Equal (ExprType b) t
      then Some (Errorf ''a %s conditional choosing between a %s and a %s''
        [ATy t, ATy (ExprType a), ATy (ExprType b)])
      else None)"
| "checkMaybeNode e = None"

subsection \<open>Error nodes\<close>

definition checkThrow :: "Shape list \<Rightarrow> expr option \<Rightarrow> ir_error option" where
  "checkThrow h v =
     (case v of
        None \<Rightarrow> Some (Errorf ''a throw of nothing'' [])
      | Some x \<Rightarrow>
          let t = ExprType x; what = Unserializable h t
          in if t = TVoid \<or> Kind_of t = KindInvalid then Some (Errorf ''a throw of %s'' [ATy t])
             else if what \<noteq> '''' then Some (Errorf ''a throw of %s, which holds %s'' [ATy t, AStr what])
             else None)"

fun checkErrorNode :: "Shape list \<Rightarrow> expr \<Rightarrow> ir_error option" where
  "checkErrorNode h (NewError k m sp) =
     (if k < 0 \<or> k \<ge> int (length errorKindNames)
      then Some (Errorf ''a new error of %s'' [AStr (ErrorKind_String k)])
      else case m of
        None \<Rightarrow> None
      | Some x \<Rightarrow> if ExprType x \<noteq> TString
          then Some (Errorf ''a new %s with %s message'' [AStr (ErrorKind_String k), ATy (ExprType x)]) else None)"
| "checkErrorNode h (ErrorGet e prop sp) =
     (if ExprType e \<noteq> TError
      then Some (Errorf ''an error's %s read from %s'' [AStr (ErrorProp_String prop), ATy (ExprType e)])
      else if errorPropType prop = TInvalid then Some (Errorf ''an error's %s'' [AStr (ErrorProp_String prop)])
      else None)"
| "checkErrorNode h (Box v sp) =
     (let t = ExprType v; what = Unserializable h t
      in if t = TVoid \<or> t = TUnknown \<or> Kind_of t = KindInvalid \<or> IsExtension t
         then Some (Errorf ''%s boxed as unknown'' [ATy t])
         else if what \<noteq> '''' then Some (Errorf ''%s boxed as unknown, which holds %s'' [ATy t, AStr what])
         else None)"
| "checkErrorNode h (Unbox v t sp) =
     (if ExprType v \<noteq> TUnknown then Some (Errorf ''%s unboxed as %s'' [ATy (ExprType v), ATy t])
      else if Kind_of t \<in> {KindInvalid, KindVoid, KindUnknown} then Some (Errorf ''an unknown unboxed as %s'' [ATy t])
      else None)"
| "checkErrorNode h (InstanceOf v k sp) =
     (let t = ExprType v
      in if \<not> (t = TUnknown \<or> t = TError \<or> (Kind_of t = KindMaybe \<and> Elem_of t = Some TError))
         then Some (Errorf ''%s tested for instanceof %s'' [ATy t, AStr (ErrorKind_String k)])
         else if k < 0 \<or> k \<ge> int (length errorKindNames)
         then Some (Errorf ''instanceof %s'' [AStr (ErrorKind_String k)])
         else None)"
| "checkErrorNode h (TypeOf v tag sp) =
     (if ExprType v \<noteq> TUnknown
      then Some (Errorf ''typeof of %s, which is known while compiling'' [ATy (ExprType v)])
      else if tag < 0 \<or> tag \<ge> int (length typeTagNames) then Some (Errorf ''typeof against %s'' [AStr (TypeTag_String tag)])
      else None)"
| "checkErrorNode h e = None"

subsection \<open>What a value holds\<close>

text \<open>A value of type \<open>t\<close> holds values of type \<open>u\<close>, one level down.\<close>

inductive part :: "Shape list \<Rightarrow> ty \<Rightarrow> ty \<Rightarrow> bool" for h where
  part_Array: "part h (TArray (Some e)) e"
| part_Maybe: "part h (TMaybe (Some e)) e"
| part_Object: "f \<in> set (sh_Fields (shape_at h a)) \<Longrightarrow> part h (TObject (Some a)) (f_Type f)"

inductive_simps part_simps [simp]:
  "part h (TArray x) u" "part h (TMaybe x) u" "part h (TObject x) u"

definition not_data :: "ty \<Rightarrow> bool" where
  "not_data t \<longleftrightarrow> Kind_of t \<in> {KindInvalid, KindFunc, KindHost, KindPromise}"

text \<open>Nothing but data, where the shapes of \<open>S\<close> are taken to hold nothing else.\<close>

fun data_given :: "shape_ref set \<Rightarrow> ty \<Rightarrow> bool" where
  "data_given S (TArray (Some e)) = data_given S e"
| "data_given S (TMaybe (Some e)) = data_given S e"
| "data_given S (TObject (Some a)) = (a \<in> S)"
| "data_given S t = (\<not> not_data t)"

lemma data_given_mono: "data_given S t \<Longrightarrow> S \<subseteq> S' \<Longrightarrow> data_given S' t"
  by (induction S t rule: data_given.induct) auto

lemma data_given_not_data: "data_given S t \<Longrightarrow> \<not> not_data t"
  by (cases "(S, t)" rule: data_given.cases) (auto simp: not_data_def)

lemma seen_grows:
  "seen \<subseteq> snd (unserializable h t seen)" "seen \<subseteq> snd (unserializable_fields h fs seen)"
proof (induction h t seen and h fs seen rule: unserializable_unserializable_fields.induct)
  case (1 h t seen)
  then show ?case by (subst unserializable.simps) (auto split: ty.split option.split)
next
  case (3 h f fs seen)
  then show ?case by (auto simp: Let_def)
qed simp

lemma article_not_Nil [simp]: "article s \<noteq> ''''"
  by (simp add: article_def)

lemma unserializable_finds:
  "fst (unserializable h t seen) \<noteq> '''' \<Longrightarrow> \<exists>u. (part h)\<^sup>*\<^sup>* t u \<and> not_data u"
  "fst (unserializable_fields h fs seen) \<noteq> '''' \<Longrightarrow> \<exists>f \<in> set fs. \<exists>u. (part h)\<^sup>*\<^sup>* (f_Type f) u \<and> not_data u"
proof (induction h t seen and h fs seen rule: unserializable_unserializable_fields.induct)
  case (1 h t seen)
  have self: "not_data t \<Longrightarrow> ?case" by blast
  have up: "part h t v \<Longrightarrow> \<exists>u. (part h)\<^sup>*\<^sup>* v u \<and> not_data u \<Longrightarrow> ?case" for v
    by (elim exE conjE) (rule exI, rule conjI, rule converse_rtranclp_into_rtranclp)
  show ?case
  proof (cases t)
    case (TArray e)
    show ?thesis
    proof (cases e)
      case (Some v)
      with TArray 1(4) have "fst (unserializable h v seen) \<noteq> ''''" by simp
      with 1(2) [OF TArray Some] show ?thesis by (intro up [of v]) (simp_all add: TArray Some)
    qed (use TArray 1(4) in simp)
  next
    case (TMaybe e)
    show ?thesis
    proof (cases e)
      case (Some v)
      with TMaybe 1(4) have "fst (unserializable h v seen) \<noteq> ''''" by simp
      with 1(3) [OF TMaybe Some] show ?thesis by (intro up [of v]) (simp_all add: TMaybe Some)
    qed (use TMaybe 1(4) in simp)
  next
    case (TObject s)
    show ?thesis
    proof (cases s)
      case (Some a)
      with TObject 1(4) have a: "a \<notin> seen"
          "fst (unserializable_fields h (sh_Fields (shape_at h a)) (insert a seen)) \<noteq> ''''"
        by (simp_all split: if_splits)
      from 1(1) [OF TObject Some this] obtain f where f: "f \<in> set (sh_Fields (shape_at h a))"
        "\<exists>u. (part h)\<^sup>*\<^sup>* (f_Type f) u \<and> not_data u" by blast
      show ?thesis by (rule up [OF _ f(2)]) (auto simp: TObject Some f(1))
    qed (use TObject 1(4) in simp)
  qed (use 1(4) self in \<open>simp_all add: not_data_def\<close>)
next
  case (3 h f fs seen)
  then show ?case by (auto simp: Let_def split: if_splits)
qed simp

lemma unserializable_clears:
  "fst (unserializable h t seen) = '''' \<Longrightarrow>
     data_given (snd (unserializable h t seen)) t
   \<and> (\<forall>a \<in> snd (unserializable h t seen) - seen. \<forall>f \<in> set (sh_Fields (shape_at h a)).
        data_given (snd (unserializable h t seen)) (f_Type f))"
  "fst (unserializable_fields h fs seen) = '''' \<Longrightarrow>
     (\<forall>f \<in> set fs. data_given (snd (unserializable_fields h fs seen)) (f_Type f))
   \<and> (\<forall>a \<in> snd (unserializable_fields h fs seen) - seen. \<forall>f \<in> set (sh_Fields (shape_at h a)).
        data_given (snd (unserializable_fields h fs seen)) (f_Type f))"
proof (induction h t seen and h fs seen rule: unserializable_unserializable_fields.induct)
  case (1 h t seen)
  show ?case
  proof (cases t)
    case (TArray e)
    with 1 show ?thesis by (cases e) (auto simp: not_data_def)
  next
    case (TMaybe e)
    with 1 show ?thesis by (cases e) (auto simp: not_data_def)
  next
    case (TObject s)
    show ?thesis
    proof (cases s)
      case (Some a)
      with TObject 1 seen_grows(2) [of "insert a seen" h "sh_Fields (shape_at h a)"] show ?thesis
        by (auto split: if_splits)
    qed (use TObject in \<open>simp add: not_data_def\<close>)
  qed (use 1(4) in \<open>simp_all add: not_data_def\<close>)
next
  case (3 h f fs seen)
  define r where "r = unserializable h (f_Type f) seen"
  define r' where "r' = unserializable_fields h fs (snd r)"
  have empty: "fst r = ''''" "fst r' = ''''" and val: "unserializable_fields h (f # fs) seen = r'"
    using 3(3) by (auto simp: Let_def r_def [symmetric] r'_def [symmetric] split: if_splits)
  have up: "snd r \<subseteq> snd r'" unfolding r'_def by (rule seen_grows(2))
  from 3(1) empty(1) have 1: "data_given (snd r) (f_Type f)"
    "\<forall>a \<in> snd r - seen. \<forall>f \<in> set (sh_Fields (shape_at h a)). data_given (snd r) (f_Type f)"
    by (simp_all add: r_def)
  from 3(2) [OF r_def] empty have 2: "\<forall>f \<in> set fs. data_given (snd r') (f_Type f)"
    "\<forall>a \<in> snd r' - snd r. \<forall>f \<in> set (sh_Fields (shape_at h a)). data_given (snd r') (f_Type f)"
    by (simp_all add: r'_def)
  show ?case using 1 2 data_given_mono [OF _ up] unfolding val by auto
qed simp

lemma data_given_part:
  assumes closed: "\<forall>a \<in> S. \<forall>f \<in> set (sh_Fields (shape_at h a)). data_given S (f_Type f)"
    and "(part h)\<^sup>*\<^sup>* t u" "data_given S t"
  shows "data_given S u"
  using assms(2,3)
proof (induction rule: rtranclp_induct)
  case (step u v)
  from step(2) step(3) [OF step(4)] closed show ?case by cases auto
qed

text \<open>
  \<open>Unserializable\<close> is a decision procedure. Whatever shapes there are, recursive and
  mutually recursive ones included, it returns; and it returns the empty string exactly when no
  value of the type can hold, at any depth of arrays, maybes and objects, a function, a promise,
  a host value or a value of an invalid type.
\<close>
theorem Unserializable_iff:
  "Unserializable h t = '''' \<longleftrightarrow>
     (\<nexists>u. (part h)\<^sup>*\<^sup>* t u \<and> Kind_of u \<in> {KindInvalid, KindFunc, KindHost, KindPromise})"
proof
  assume "Unserializable h t = ''''"
  then have e: "fst (unserializable h t {}) = ''''" by (simp add: Unserializable_def)
  show "\<nexists>u. (part h)\<^sup>*\<^sup>* t u \<and> Kind_of u \<in> {KindInvalid, KindFunc, KindHost, KindPromise}"
  proof (intro notI, elim exE conjE)
    fix u assume r: "(part h)\<^sup>*\<^sup>* t u" and u: "Kind_of u \<in> {KindInvalid, KindFunc, KindHost, KindPromise}"
    from r have "data_given (snd (unserializable h t {})) u"
      by (rule data_given_part [rotated]) (use unserializable_clears(1) [OF e] in auto)
    with u show False by (auto dest!: data_given_not_data simp: not_data_def)
  qed
next
  assume r: "\<nexists>u. (part h)\<^sup>*\<^sup>* t u \<and> Kind_of u \<in> {KindInvalid, KindFunc, KindHost, KindPromise}"
  show "Unserializable h t = ''''"
  proof (rule ccontr)
    assume "Unserializable h t \<noteq> ''''"
    from unserializable_finds(1) [OF this [unfolded Unserializable_def]] r show False
      by (auto simp: not_data_def)
  qed
qed

end
