(* ===== verification/IrFit.thy ===== *)
theory IrFit
  imports IrCheck
begin

text \<open>
  \<open>checkNode\<close> (\<open>ir/check.go\<close>), which gives each node the check of its kind, and what passing
  one means, stated without the checks: which fields a literal sets, which element an index
  reads, which signature an array method or a builtin is called at, and which values a function
  returns.
\<close>

subsection \<open>checkNode\<close>

text \<open>The switch on an expression, after the check of its own type, and the one on a statement.\<close>

definition check_expr :: "Program \<Rightarrow> expr \<Rightarrow> ir_error option" where
  "check_expr p x =
     (let h = pr_heap p in
      case x of
        FuncLit params result body captures conc async t sp \<Rightarrow>
          (case checkParams p params of Some e \<Rightarrow> Some e | None \<Rightarrow> checkReturns body (returnType result async))
      | ObjectLit inits t sp \<Rightarrow> checkObjectLit h inits t
      | ArrayLit elems t sp \<Rightarrow>
          (case elemOf t of
             Inl e \<Rightarrow> Some e
           | Inr elem \<Rightarrow> first_error (map (\<lambda>i. if \<not> Type_Equal (ExprType (elems ! i)) elem
               then Some (Errorf ''element %d of a %s literal is a %s'' [AInt (int i), ATy t, ATy (ExprType (elems ! i))])
               else None) [0..<length elems]))
      | FieldGet obj f t sp \<Rightarrow> checkField h obj f t
      | HasField obj f sp \<Rightarrow> (case fieldAt h obj f of Inl e \<Rightarrow> Some e | Inr _ \<Rightarrow> None)
      | IndexGet a i t orUndefined sp \<Rightarrow> checkIndex a i t orUndefined
      | ArrayOp m a xs t sp \<Rightarrow> checkArrayOp m a xs t
      | JSONStringify v space sp \<Rightarrow> checkJSONStringify h v space
      | BuiltinCall b xs t sp \<Rightarrow> checkBuiltin b xs t
      | Concat parts sp \<Rightarrow> checkConcat parts
      | Truthy v sp \<Rightarrow> checkTruthy v
      | Wrap v t sp \<Rightarrow> checkMaybeNode x
      | Unwrap v t asserted sp \<Rightarrow> checkMaybeNode x
      | Empty n t sp \<Rightarrow> checkMaybeNode x
      | IsEmpty v u n sp \<Rightarrow> checkMaybeNode x
      | Cond c a b t sp \<Rightarrow> checkMaybeNode x
      | ELet n v b sp \<Rightarrow> checkMaybeNode x
      | NewError k m sp \<Rightarrow> checkErrorNode h x
      | ErrorGet e q sp \<Rightarrow> checkErrorNode h x
      | Box v sp \<Rightarrow> checkErrorNode h x
      | Unbox v t sp \<Rightarrow> checkErrorNode h x
      | InstanceOf v k sp \<Rightarrow> checkErrorNode h x
      | TypeOf v tag sp \<Rightarrow> checkErrorNode h x
      | _ \<Rightarrow> None)"

definition check_stmt :: "Program \<Rightarrow> stmt \<Rightarrow> ir_error option" where
  "check_stmt p s =
     (let h = pr_heap p in
      case s of
        VarDecl n t init mutable appended sp \<Rightarrow>
          (case checkType p t of Some e \<Rightarrow> Some e | None \<Rightarrow> checkDecl n t init)
      | FieldSet obj f v sp \<Rightarrow> checkField h obj f (ExprType v)
      | FieldDelete obj f sp \<Rightarrow>
          (case fieldAt h obj f of
             Inl e \<Rightarrow> Some e
           | Inr fld \<Rightarrow> if \<not> f_Optional fld
               then Some (Errorf ''delete of %s, a required field'' [AStr (f_Name fld)]) else None)
      | IndexSet a i v sp \<Rightarrow> checkIndex a i (ExprType v) False
      | Throw v sp \<Rightarrow> checkThrow h v
      | Try b c f sp \<Rightarrow>
          (if c = None \<and> f = None then Some (Errorf ''a try with neither a catch nor a finally'' []) else None)
      | Append target parts sp \<Rightarrow> checkAppend target parts
      | ForOf n t mutable a b sp \<Rightarrow>
          (case elemOf (ExprType a) of
             Inl e \<Rightarrow> Some e
           | Inr elem \<Rightarrow> if \<not> Type_Equal t elem
               then Some (Errorf ''for...of over a %s binds %s as a %s'' [ATy (ExprType a), AStr n, ATy t]) else None)
      | _ \<Rightarrow> None)"

text \<open>\<open>checkNode\<close>. Asked for the type of a nil identifier, Go panics: Inl.\<close>

definition checkNode :: "Program \<Rightarrow> node \<Rightarrow> failure + ir_error option" where
  "checkNode p node =
     (case node of
        NilIdent \<Rightarrow> Inl (Panic (Text ''invalid memory address or nil pointer dereference''))
      | NExpr x \<Rightarrow> Inr (case checkType p (ExprType x) of Some e \<Rightarrow> Some e | None \<Rightarrow> check_expr p x)
      | NStmt s \<Rightarrow> Inr (check_stmt p s))"

subsection \<open>What fits\<close>

lemma fits_iff: "fits got want \<longleftrightarrow> got = want \<or> (want = TString \<and> got = TBase64)"
  by (simp add: fits_def)

text \<open>The fields of the object a type is of.\<close>

definition fields_of :: "Shape list \<Rightarrow> ty \<Rightarrow> Field list option" where
  "fields_of h t = (case t of TObject (Some a) \<Rightarrow> Some (sh_Fields (shape_at h a)) | _ \<Rightarrow> None)"

lemma fieldAt_iff:
  "fieldAt h x i = Inr f \<longleftrightarrow>
     (\<exists>fs. fields_of h (ExprType x) = Some fs \<and> 0 \<le> i \<and> nat i < length fs \<and> f = fs ! nat i)"
  by (auto simp: fieldAt_def fields_of_def Let_def split: ty.splits option.splits)

lemma fieldAt_error: "(\<exists>e. fieldAt h x i = Inl e) \<longleftrightarrow> \<not> (\<exists>f. fieldAt h x i = Inr f)"
  by (cases "fieldAt h x i") auto

lemma checkField_iff:
  "checkField h x i t = None \<longleftrightarrow>
     (\<exists>fs. fields_of h (ExprType x) = Some fs \<and> 0 \<le> i \<and> nat i < length fs \<and> t = f_Type (fs ! nat i))"
  by (auto simp: checkField_def fieldAt_def fields_of_def Let_def split: ty.splits option.splits)

lemma elemOf_iff: "elemOf t = Inr e \<longleftrightarrow> t = TArray (Some e)"
  by (auto simp: elemOf_def split: ty.splits option.splits)

lemma checkIndex_iff:
  "checkIndex a i t orUndefined = None \<longleftrightarrow>
     (\<exists>e. ExprType a = TArray (Some e) \<and> ExprType i = TNumber \<and> t = (if orUndefined then OrUndefined e else e))"
  by (auto simp: checkIndex_def elemOf_def split: ty.splits option.splits)


definition init_field :: "int \<times> expr \<times> Span \<Rightarrow> nat" where
  "init_field x = nat (fst x)"

lemma init_field_simp [simp]: "init_field (i, v, sp) = nat i"
  by (simp add: init_field_def)

lemma set_fields_iff:
  assumes "length marks = length fs"
  shows "set_fields s fs marks inits = Inr marks' \<longleftrightarrow>
      (\<forall>(i, v, sp) \<in> set inits. 0 \<le> i \<and> nat i < length fs \<and> ExprType v = f_Type (fs ! nat i))
    \<and> distinct (map init_field inits) \<and> (\<forall>i \<in> set (map init_field inits). \<not> marks ! i)
    \<and> marks' = map (\<lambda>j. marks ! j \<or> j \<in> init_field ` set inits) [0..<length fs]"
  using assms
proof (induction s fs marks inits rule: set_fields.induct)
  case (1 s fs marks)
  then show ?case by (auto intro!: nth_equalityI)
next
  case (2 s fs marks i v sp inits)
  show ?case
  proof (cases "0 \<le> i \<and> nat i < length fs \<and> \<not> marks ! nat i \<and> ExprType v = f_Type (fs ! nat i)")
    case True
    then have step: "set_fields s fs marks ((i, v, sp) # inits) = set_fields s fs (marks[nat i := True]) inits"
      by (auto simp: Let_def)
    have m: "map (\<lambda>j. marks[nat i := True] ! j \<or> j \<in> init_field ` set inits) [0..<length fs]
        = map (\<lambda>j. marks ! j \<or> j \<in> init_field ` set ((i, v, sp) # inits)) [0..<length fs]"
      using 2(2) True by (auto simp: nth_list_update)
    have u: "(\<forall>j \<in> set (map init_field inits). \<not> marks[nat i := True] ! j)
        \<longleftrightarrow> nat i \<notin> set (map init_field inits) \<and> (\<forall>j \<in> set (map init_field inits). \<not> marks ! j)"
      using 2(2) True by (auto simp: nth_update_if)
    have IH: "set_fields s fs (marks[nat i := True]) inits = Inr marks' \<longleftrightarrow>
        (\<forall>(i, v, sp) \<in> set inits. 0 \<le> i \<and> nat i < length fs \<and> ExprType v = f_Type (fs ! nat i))
      \<and> distinct (map init_field inits) \<and> (\<forall>j \<in> set (map init_field inits). \<not> marks[nat i := True] ! j)
      \<and> marks' = map (\<lambda>j. marks[nat i := True] ! j \<or> j \<in> init_field ` set inits) [0..<length fs]"
      by (rule 2(1)) (use True 2(2) in auto)
    show ?thesis unfolding step IH m u using True by auto
  next
    case False
    then show ?thesis by (auto simp: Let_def)
  qed
qed

text \<open>
  C7: an object literal passes exactly when it is one of its shape: each value it writes goes
  to a field the shape has and is of that field's type, no field is written twice, and every
  field it leaves out is optional.
\<close>
theorem checkObjectLit_iff:
  "checkObjectLit h inits (TObject (Some a)) = None \<longleftrightarrow>
     (let fs = sh_Fields (shape_at h a) in
        list_all (\<lambda>(i, v, sp). 0 \<le> i \<and> nat i < length fs \<and> ExprType v = f_Type (fs ! nat i)) inits
      \<and> distinct (map (\<lambda>(i, v, sp). nat i) inits)
      \<and> {j. j < length fs \<and> \<not> f_Optional (fs ! j)} \<subseteq> (\<lambda>(i, v, sp). nat i) ` set inits)"
proof -
  define fs where "fs = sh_Fields (shape_at h a)"
  have idx: "(\<lambda>(i, v, sp). nat i) = init_field" by (auto simp: init_field_def)
  have val: "checkObjectLit h inits (TObject (Some a)) =
      (case set_fields (Some a) fs (replicate (length fs) False) inits of
         Inl e \<Rightarrow> Some e
       | Inr marks \<Rightarrow> first_error (map (\<lambda>i. if \<not> marks ! i \<and> \<not> f_Optional (fs ! i)
           then Some (Errorf ''a %s literal leaves %s unset'' [AShape (Some a), AStr (f_Name (fs ! i))])
           else None) [0..<length fs]))"
    unfolding checkObjectLit_def fs_def Let_def ty.case option.sel by (rule refl)
  note iff = set_fields_iff [of "replicate (length fs) False" fs "Some a" inits]
  show ?thesis
  proof (cases "set_fields (Some a) fs (replicate (length fs) False) inits")
    case (Inl e)
    with iff show ?thesis
      unfolding val Let_def fs_def [symmetric] idx by (fastforce simp: nth_replicate list_all_iff)
  next
    case (Inr marks)
    with iff [of marks] have m: "marks = map (\<lambda>j. replicate (length fs) False ! j \<or> j \<in> init_field ` set inits) [0..<length fs]"
      and wf: "\<forall>(i, v, sp) \<in> set inits. 0 \<le> i \<and> nat i < length fs \<and> ExprType v = f_Type (fs ! nat i)"
        "distinct (map init_field inits)"
      by auto
    have "\<forall>j < length fs. marks ! j \<longleftrightarrow> j \<in> init_field ` set inits" by (simp add: m)
    with Inr wf show ?thesis
      unfolding val Let_def fs_def [symmetric] idx by (auto simp: list_all_iff)
  qed
qed

text \<open>The returns of a function's own body: those in its statements, not in its literals.\<close>

inductive returns_in :: "stmt list \<Rightarrow> expr option \<Rightarrow> Span \<Rightarrow> bool" where
  returns_here: "Return v sp \<in> set b \<Longrightarrow> returns_in b v sp"
| returns_then: "IfStmt c t e s \<in> set b \<Longrightarrow> returns_in t v sp \<Longrightarrow> returns_in b v sp"
| returns_else: "IfStmt c t e s \<in> set b \<Longrightarrow> returns_in e v sp \<Longrightarrow> returns_in b v sp"
| returns_while: "While c w s \<in> set b \<Longrightarrow> returns_in w v sp \<Longrightarrow> returns_in b v sp"
| returns_for: "For i c p w s \<in> set b \<Longrightarrow> returns_in w v sp \<Longrightarrow> returns_in b v sp"
| returns_forof: "ForOf n t m x w s \<in> set b \<Longrightarrow> returns_in w v sp \<Longrightarrow> returns_in b v sp"
| returns_try: "Try w c f s \<in> set b \<Longrightarrow> returns_in w v sp \<Longrightarrow> returns_in b v sp"
| returns_catch: "Try w (Some (n, cb, cs)) f s \<in> set b \<Longrightarrow> returns_in cb v sp \<Longrightarrow> returns_in b v sp"
| returns_finally: "Try w c (Some fb) s \<in> set b \<Longrightarrow> returns_in fb v sp \<Longrightarrow> returns_in b v sp"

lemma returns_mono: "returns_in b v sp \<Longrightarrow> set b \<subseteq> set b' \<Longrightarrow> returns_in b' v sp"
  by (induction rule: returns_in.induct) (blast intro: returns_in.intros)+

lemma checkReturns_elem: "checkReturns b want = None \<Longrightarrow> s \<in> set b \<Longrightarrow> check_returns_in want s = None"
  by (simp add: checkReturns_def)

lemma checkReturns_sound:
  "returns_in b v sp \<Longrightarrow> checkReturns b want = None \<Longrightarrow> checkReturn v sp want = None"
  by (induction rule: returns_in.induct) (drule (1) checkReturns_elem, simp add: checkReturns_def)+

lemma returns_elem: "s \<in> set b \<Longrightarrow> returns_in [s] v sp \<Longrightarrow> returns_in b v sp"
  by (erule returns_mono) simp

lemma returns_lift:
  "s \<in> set t \<Longrightarrow> returns_in [s] v q \<Longrightarrow> returns_in [IfStmt c t e sp] v q"
  "s \<in> set e \<Longrightarrow> returns_in [s] v q \<Longrightarrow> returns_in [IfStmt c t e sp] v q"
  "s \<in> set b \<Longrightarrow> returns_in [s] v q \<Longrightarrow> returns_in [While c b sp] v q"
  "s \<in> set b \<Longrightarrow> returns_in [s] v q \<Longrightarrow> returns_in [For i cc p b sp] v q"
  "s \<in> set b \<Longrightarrow> returns_in [s] v q \<Longrightarrow> returns_in [ForOf n ty m x b sp] v q"
  "s \<in> set b \<Longrightarrow> returns_in [s] v q \<Longrightarrow> returns_in [Try b ct f sp] v q"
  "s \<in> set cb \<Longrightarrow> returns_in [s] v q \<Longrightarrow> returns_in [Try b (Some (n, cb, cs)) f sp] v q"
  "s \<in> set fb \<Longrightarrow> returns_in [s] v q \<Longrightarrow> returns_in [Try b ct (Some fb) sp] v q"
         apply (rule returns_then [OF list.set_intros(1)], erule (1) returns_elem)
        apply (rule returns_else [OF list.set_intros(1)], erule (1) returns_elem)
       apply (rule returns_while [OF list.set_intros(1)], erule (1) returns_elem)
      apply (rule returns_for [OF list.set_intros(1)], erule (1) returns_elem)
     apply (rule returns_forof [OF list.set_intros(1)], erule (1) returns_elem)
    apply (rule returns_try [OF list.set_intros(1)], erule (1) returns_elem)
   apply (rule returns_catch [OF list.set_intros(1)], erule (1) returns_elem)
  apply (rule returns_finally [OF list.set_intros(1)], erule (1) returns_elem)
  done

lemma checkReturns_complete:
  "\<forall>v sp. returns_in [s] v sp \<longrightarrow> checkReturn v sp want = None \<Longrightarrow> check_returns_in want s = None"
proof (induction want s rule: check_returns_in.induct)
  case (1 want v sp)
  then show ?case by (simp add: returns_here)
next
  case (6 want b c f sp)
  have "check_returns_in want s = None" if "s \<in> set b" for s
    using that 6(1) 6(4) by (simp add: returns_lift)
  moreover have "check_returns_in want s = None" if "c = Some (n, cb, cs)" "s \<in> set cb" for n cb cs s
    using that 6(2) [of "(n, cb, cs)" n "(cb, cs)" cb cs s] 6(4) by (simp add: returns_lift)
  moreover have "check_returns_in want s = None" if "f = Some fb" "s \<in> set fb" for fb s
    using that 6(3) [of fb s] 6(4) by (simp add: returns_lift)
  ultimately show ?case by (auto split: option.split)
qed (auto simp: returns_lift)

text \<open>
  a function's body passes exactly when each return in it, at whatever depth of branches,
  loops and try clauses but not inside a function literal, carries what the function gives: no
  value where that is void, and otherwise a value of the very type (a base64 passes for a
  string).
\<close>
theorem checkReturns_iff:
  "checkReturns body want = None \<longleftrightarrow>
     {v. \<exists>sp. returns_in body v sp} \<subseteq>
       (if want = TVoid then {None}
        else Some ` {x. ExprType x = want \<or> (want = TString \<and> ExprType x = TBase64)})"
proof -
  have one: "checkReturn v sp want = None \<longleftrightarrow>
      (if want = TVoid then v = None
       else \<exists>x. v = Some x \<and> (ExprType x = want \<or> (want = TString \<and> ExprType x = TBase64)))" for v sp
    by (auto simp: checkReturn_def split: option.split)
  have "checkReturns body want = None \<longleftrightarrow> (\<forall>v sp. returns_in body v sp \<longrightarrow> checkReturn v sp want = None)"
  proof
    assume "\<forall>v sp. returns_in body v sp \<longrightarrow> checkReturn v sp want = None"
    then have "check_returns_in want s = None" if "s \<in> set body" for s
      using that by (intro checkReturns_complete) (blast intro: returns_elem)
    then show "checkReturns body want = None" by (simp add: checkReturns_def)
  qed (blast intro: checkReturns_sound)
  also have "\<dots> \<longleftrightarrow> {v. \<exists>sp. returns_in body v sp} \<subseteq> {v. checkReturn v sp want = None}" for sp
    by (auto simp: one)
  also have "{v. checkReturn v sp want = None} =
      (if want = TVoid then {None}
       else Some ` {x. ExprType x = want \<or> (want = TString \<and> ExprType x = TBase64)})" for sp
    by (auto simp: one)
  finally show ?thesis .
qed

subsection \<open>Calls of array methods and builtins\<close>

text \<open>
  What each array method takes and gives on a \<open>T[]\<close>, as the code's comments and TypeScript's
  libs have it: \<open>takes elem m args result\<close>.
\<close>

inductive method_type :: "ty \<Rightarrow> ArrayMethod \<Rightarrow> ty list \<Rightarrow> ty \<Rightarrow> bool" for elem where
  "method_type elem ArrayLength [] TNumber"
| "method_type elem ArrayPop [] (OrUndefined elem)"
| "method_type elem ArrayPop [] TVoid"
| "method_type elem ArrayShift [] (OrUndefined elem)"
| "method_type elem ArrayShift [] TVoid"
| "method_type elem ArrayFind [visitor elem (ArrayOf elem) TBoolean] (OrUndefined elem)"
| "method_type elem ArrayFindLast [visitor elem (ArrayOf elem) TBoolean] (OrUndefined elem)"
| "method_type elem ArrayAt [TNumber] (OrUndefined elem)"
| "method_type elem ArraySetLength [TNumber] TVoid"
| "n \<ge> 1 \<Longrightarrow> method_type elem ArrayPush (replicate n elem) TNumber"
| "method_type elem ArrayMap [visitor elem (ArrayOf elem) u] (ArrayOf u)"
| "method_type elem ArrayFilter [visitor elem (ArrayOf elem) TBoolean] (ArrayOf elem)"
| "method_type elem ArraySome [visitor elem (ArrayOf elem) TBoolean] TBoolean"
| "method_type elem ArrayEvery [visitor elem (ArrayOf elem) TBoolean] TBoolean"
| "method_type elem ArrayFindIndex [visitor elem (ArrayOf elem) TBoolean] TNumber"
| "method_type elem ArrayForEach [visitor elem (ArrayOf elem) TVoid] TVoid"
| "method_type elem ArrayJoin [] TString"
| "method_type elem ArrayJoin [TString] TString"
| "method_type elem ArrayIncludes [elem] TBoolean"
| "method_type elem ArrayIndexOf [elem] TNumber"
| "n \<le> 2 \<Longrightarrow> method_type elem ArraySlice (replicate n TNumber) (ArrayOf elem)"
| "method_type elem ArraySort [FuncType [elem, elem] TNumber] (ArrayOf elem)"
| "method_type elem ArrayReduce [FuncType [u, elem, TNumber, ArrayOf elem] u, u] u"

inductive_simps method_type_simps:
  "method_type elem ArrayMethodInvalid as r" "method_type elem ArrayLength as r"
  "method_type elem ArrayPop as r" "method_type elem ArrayShift as r" "method_type elem ArrayFind as r"
  "method_type elem ArrayFindLast as r" "method_type elem ArrayAt as r" "method_type elem ArraySetLength as r"
  "method_type elem ArrayPush as r" "method_type elem ArrayMap as r" "method_type elem ArrayFilter as r"
  "method_type elem ArraySome as r" "method_type elem ArrayEvery as r" "method_type elem ArrayFindIndex as r"
  "method_type elem ArrayForEach as r" "method_type elem ArrayJoin as r" "method_type elem ArrayIncludes as r"
  "method_type elem ArrayIndexOf as r" "method_type elem ArraySlice as r" "method_type elem ArraySort as r"
  "method_type elem ArrayReduce as r"

lemma check_args_iff: "check_args m xs ts = None \<longleftrightarrow> map ExprType xs = ts"
proof (cases "length xs = length ts")
  case True
  then have "check_args m xs ts = None \<longleftrightarrow> (\<forall>i < length ts. ExprType (xs ! i) = ts ! i)"
    by (auto simp: check_args_def)
  with True show ?thesis by (simp add: list_eq_iff_nth_eq [of "map ExprType xs"])
next
  case False
  then show ?thesis by (auto simp: check_args_def)
qed

lemma replicate_all: "map ExprType xs = replicate n t \<longleftrightarrow> length xs = n \<and> (\<forall>x \<in> set xs. ExprType x = t)"
proof
  assume eq: "map ExprType xs = replicate n t"
  from arg_cong [OF eq, of length] arg_cong [OF eq, of set]
  show "length xs = n \<and> (\<forall>x \<in> set xs. ExprType x = t)" by (auto split: if_splits)
qed (auto intro: nth_equalityI)

lemma push_args:
  "check_args m xs (if length xs > 1 then replicate (length xs) elem else [elem]) = None
    \<longleftrightarrow> length xs \<ge> 1 \<and> (\<forall>x \<in> set xs. ExprType x = elem)"
proof (cases xs)
  case (Cons x ys)
  then show ?thesis by (cases ys) (simp_all add: check_args_iff map_replicate_const [symmetric] replicate_all [of ys "length ys" elem, simplified])
qed (simp add: check_args_iff)

text \<open>
  a call of an array member passes exactly when the array is one, and the types of its
  arguments and its result are ones the member has there; every other arity, callback and
  result type is an error.
\<close>
theorem checkArrayOp_iff:
  "checkArrayOp m array xs typ = None \<longleftrightarrow>
     (\<exists>elem. ExprType array = ArrayOf elem \<and> method_type elem m (map ExprType xs) typ)"
proof (cases "elemOf (ExprType array)")
  case (Inl e)
  then show ?thesis by (auto simp: checkArrayOp_def ArrayOf_def elemOf_def split: ty.splits option.splits)
next
  case (Inr elem)
  then have arr: "ExprType array = ArrayOf elem" by (simp add: elemOf_iff ArrayOf_def)
  have el: "elemOf (ArrayOf elem) = Inr elem" by (simp add: elemOf_def ArrayOf_def)
  have eq: "checkArrayOp m array xs typ = None \<longleftrightarrow>
      (\<exists>result. array_op_result m elem (ArrayOf elem) xs typ = Some (result, None) \<and> typ = result)"
    by (auto simp: checkArrayOp_def el arr Let_def split: option.splits)
  have inj: "ArrayOf elem = ArrayOf e \<longleftrightarrow> e = elem" for e by (auto simp: ArrayOf_def)
  have "(\<exists>result. array_op_result m elem (ArrayOf elem) xs typ = Some (result, None) \<and> typ = result)
      \<longleftrightarrow> method_type elem m (map ExprType xs) typ"
  proof (cases m)
    case ArrayPush
    have "(\<exists>result. array_op_result ArrayPush elem (ArrayOf elem) xs typ = Some (result, None) \<and> typ = result)
        \<longleftrightarrow> typ = TNumber \<and> check_args ArrayPush xs (if length xs > 1 then replicate (length xs) elem else [elem]) = None"
      by (auto simp: array_op_result_def Let_def)
    also have "\<dots> \<longleftrightarrow> typ = TNumber \<and> length xs \<ge> 1 \<and> (\<forall>x \<in> set xs. ExprType x = elem)"
      by (simp only: push_args)
    also have "\<dots> \<longleftrightarrow> method_type elem ArrayPush (map ExprType xs) typ"
      by (simp add: method_type_simps replicate_all) blast
    finally show ?thesis by (simp only: ArrayPush)
  next
    case ArrayMap
    show ?thesis
    proof (cases "length xs = 1")
      case True
      then obtain x where xs: "xs = [x]" by (auto simp: length_Suc_conv)
      show ?thesis unfolding ArrayMap
        by (cases "ExprType x") (auto simp: xs array_op_result_def check_args_iff method_type_simps Let_def
          visitor_def FuncType_def split: option.splits)
    next
      case False
      then show ?thesis unfolding ArrayMap
        by (auto simp: array_op_result_def check_args_iff method_type_simps Let_def)
    qed
  next
    case ArraySlice
    have "length xs > 2 \<or> length xs = 2 \<or> length xs = 1 \<or> length xs = 0" by arith
    then show ?thesis unfolding ArraySlice
      by (elim disjE) (auto simp: array_op_result_def check_args_iff method_type_simps Let_def
        replicate_all length_Suc_conv numeral_2_eq_2)
  next
    case ArrayReduce
    show ?thesis
    proof (cases "length xs = 2")
      case True
      then obtain f x where "xs = [f, x]" by (auto simp: length_Suc_conv numeral_2_eq_2)
      then show ?thesis unfolding ArrayReduce
        by (auto simp: array_op_result_def check_args_iff method_type_simps Let_def)
    next
      case False
      then show ?thesis unfolding ArrayReduce
        by (auto simp: array_op_result_def check_args_iff method_type_simps Let_def)
    qed
  next
    case ArrayJoin
    then show ?thesis
      by (auto simp: array_op_result_def check_args_iff method_type_simps Let_def)
  qed (auto simp: array_op_result_def check_args_iff method_type_simps Let_def)
  with eq arr inj show ?thesis by simp
qed

end
