(* ===== verification/IrOrder.thy ===== *)
theory IrOrder
  imports IrFit
begin

text \<open>
  Programs of several modules (\<open>ir/program.go\<close>): \<open>ProgramOf\<close>, \<open>EntryModule\<close>, \<open>Module\<close> and
  \<open>EvaluationOrder\<close>, the depth-first walk of the import graph from the entry. The closure
  \<open>visit\<close> and its loop over a module's imports are two functions of the state they write,
  \<open>visited\<close> (the indices set in the slice) and \<open>order\<close>.

  Proved: the order lists the modules the entry reaches, each once, the entry last, and each
  after every module it imports that does not lead back to it.
\<close>

definition ProgramOf :: "Module \<Rightarrow> Program" where
  "ProgramOf m = \<lparr>pr_Modules = [m], pr_Entry = 0, pr_Shapes = [], pr_heap = []\<rparr>"

definition index_panic :: "int \<Rightarrow> nat \<Rightarrow> failure" where
  "index_panic i n = Panic (IndexOutOfRange i n)"

definition EntryModule :: "Program \<Rightarrow> Module result" where
  "EntryModule p =
     (if pr_Entry p < 0 \<or> pr_Entry p \<ge> int (length (pr_Modules p))
      then Inl (index_panic (pr_Entry p) (length (pr_Modules p)))
      else Inr (pr_Modules p ! nat (pr_Entry p)))"

text \<open>\<open>Program.Module\<close>: the first module of a file.\<close>

definition Program_Module :: "Program \<Rightarrow> string \<Rightarrow> Module option" where
  "Program_Module p file = List.find (\<lambda>m. m_File m = file) (pr_Modules p)"

text \<open>The map \<open>index\<close>, which the loop writes in order, so the last module of a file is in it.\<close>

definition file_index :: "Module list \<Rightarrow> string \<rightharpoonup> nat" where
  "file_index ms = fold (\<lambda>i index. index(m_File (ms ! i) \<mapsto> i)) [0..<length ms] Map.empty"

definition imports_of :: "Module list \<Rightarrow> nat \<Rightarrow> string list" where
  "imports_of ms i = (if i < length ms then m_Imports (ms ! i) else [])"

function visit :: "Module list \<Rightarrow> nat \<Rightarrow> nat set \<times> nat list \<Rightarrow> nat set \<times> nat list"
and visit_imports :: "Module list \<Rightarrow> string list \<Rightarrow> nat set \<times> nat list \<Rightarrow> nat set \<times> nat list" where
  "visit ms i st =
     (if i \<in> fst st then st
      else let st' = visit_imports ms (imports_of ms i) (insert i (fst st), snd st)
           in (fst st', snd st' @ [i]))"
| "visit_imports ms [] st = st"
| "visit_imports ms (file # files) st =
     (case file_index ms file of
        None \<Rightarrow> visit_imports ms files st
      | Some j \<Rightarrow> visit_imports ms files (visit ms j st))"
  by pat_completeness auto
termination
proof (relation "inv_image (less_than <*lex*> less_than)
    (\<lambda>x. case x of Inl (ms, i, st) \<Rightarrow> (card ({..<length ms} - fst st), 1)
       | Inr (ms, files, st) \<Rightarrow> (card ({..<length ms} - fst st), 2 * length files))", goal_cases)
  case 1 then show ?case by auto
next
  case (2 ms i st)
  show ?case
  proof (cases "i < length ms")
    case True
    then have "{..<length ms} - insert i (fst st) \<subset> {..<length ms} - fst st" using 2 by auto
    then have "card ({..<length ms} - insert i (fst st)) < card ({..<length ms} - fst st)"
      by (intro psubset_card_mono) auto
    then show ?thesis by simp
  next
    case False
    then have "{..<length ms} - insert i (fst st) = {..<length ms} - fst st" by auto
    with False show ?thesis by (simp add: imports_of_def)
  qed
next
  case (5 ms f files st j)
  have "visit_visit_imports_dom (Inl (ms, i, st)) \<Longrightarrow> fst st \<subseteq> fst (visit ms i st)"
    "visit_visit_imports_dom (Inr (ms, fs, st)) \<Longrightarrow> fst st \<subseteq> fst (visit_imports ms fs st)" for ms i st fs
  proof (induction ms i st and ms fs st rule: visit_visit_imports.pinduct)
    case (1 ms i st)
    then show ?case by (auto simp: visit.psimps Let_def)
  next
    case (3 ms f files st)
    then show ?case by (auto simp: visit_imports.psimps split: option.split) (meson subsetD)
  qed (auto simp: visit_imports.psimps)
  from this(1) [OF 5(2)] have "card ({..<length ms} - fst (visit ms j st)) \<le> card ({..<length ms} - fst st)"
    by (intro card_mono) auto
  then show ?case by auto
qed auto

declare visit.simps [simp del]

text \<open>An entry out of range is Go's panic of an index, in the first visit.\<close>

definition EvaluationOrder :: "Program \<Rightarrow> nat list result" where
  "EvaluationOrder p =
     (if pr_Entry p < 0 \<or> pr_Entry p \<ge> int (length (pr_Modules p))
      then Inl (index_panic (pr_Entry p) (length (pr_Modules p)))
      else Inr (snd (visit (pr_Modules p) (nat (pr_Entry p)) ({}, []))))"

subsection \<open>The walk\<close>

text \<open>Module \<open>i\<close> imports module \<open>j\<close>.\<close>

definition loads :: "Module list \<Rightarrow> nat \<Rightarrow> nat \<Rightarrow> bool" where
  "loads ms i j \<longleftrightarrow> (\<exists>file \<in> set (imports_of ms i). file_index ms file = Some j)"

text \<open>
  What a walk from \<open>i\<close> adds to the order, entered with \<open>V\<close> visited and \<open>O'\<close> listed: the
  modules not visited before, each listed after its imports or part of a cycle with them.
\<close>

definition walked :: "Module list \<Rightarrow> nat \<Rightarrow> nat set \<times> nat list \<Rightarrow> nat set \<times> nat list \<Rightarrow> bool" where
  "walked ms i st st' \<longleftrightarrow>
     (\<exists>ys. snd st' = snd st @ ys \<and> fst st' = fst st \<union> set ys \<and> set ys \<inter> fst st = {} \<and> distinct ys
       \<and> (\<forall>y \<in> set ys. (loads ms)\<^sup>*\<^sup>* i y)
       \<and> (\<forall>xs y zs j. ys = xs @ y # zs \<longrightarrow> loads ms y j \<longrightarrow>
            j \<in> set (snd st) \<union> set xs \<or> (j \<in> fst st' \<and> (loads ms)\<^sup>*\<^sup>* j y)))"

lemma walked_refl: "walked ms i st st"
  by (auto simp: walked_def)

lemma walked_trans:
  assumes "walked ms i st st'" "walked ms i st' st''"
  shows "walked ms i st st''"
proof -
  obtain ys where ys: "snd st' = snd st @ ys" "fst st' = fst st \<union> set ys" "set ys \<inter> fst st = {}" "distinct ys"
      "\<forall>y \<in> set ys. (loads ms)\<^sup>*\<^sup>* i y"
      "\<And>xs y zs j. ys = xs @ y # zs \<Longrightarrow> loads ms y j \<Longrightarrow>
         j \<in> set (snd st) \<union> set xs \<or> (j \<in> fst st' \<and> (loads ms)\<^sup>*\<^sup>* j y)"
    using assms(1) unfolding walked_def by blast
  obtain zs where zs: "snd st'' = snd st' @ zs" "fst st'' = fst st' \<union> set zs" "set zs \<inter> fst st' = {}" "distinct zs"
      "\<forall>y \<in> set zs. (loads ms)\<^sup>*\<^sup>* i y"
      "\<And>xs y ws j. zs = xs @ y # ws \<Longrightarrow> loads ms y j \<Longrightarrow>
         j \<in> set (snd st') \<union> set xs \<or> (j \<in> fst st'' \<and> (loads ms)\<^sup>*\<^sup>* j y)"
    using assms(2) unfolding walked_def by blast
  have "j \<in> set (snd st) \<union> set xs \<or> (j \<in> fst st'' \<and> (loads ms)\<^sup>*\<^sup>* j y)"
    if "ys @ zs = xs @ y # ws" "loads ms y j" for xs y ws j
  proof -
    from that(1) consider us where "ys = xs @ y # us" | us where "xs = ys @ us" "zs = us @ y # ws"
      by (auto simp: append_eq_append_conv2 append_eq_Cons_conv)
    then show ?thesis
    proof cases
      case 1
      with ys(6) [OF 1 that(2)] zs(2) show ?thesis by auto
    next
      case 2
      with zs(6) [OF 2(2) that(2)] ys(1) show ?thesis by auto
    qed
  qed
  moreover have "set (ys @ zs) \<inter> fst st = {}" "distinct (ys @ zs)" using ys zs by auto
  ultimately show ?thesis unfolding walked_def
    using ys zs by (intro exI [of _ "ys @ zs"]) auto
qed

lemma walkedE:
  assumes "walked ms i st st'"
  obtains ys where "snd st' = snd st @ ys" "fst st' = fst st \<union> set ys" "set ys \<inter> fst st = {}" "distinct ys"
    "\<And>y. y \<in> set ys \<Longrightarrow> (loads ms)\<^sup>*\<^sup>* i y"
    "\<And>xs y zs j. ys = xs @ y # zs \<Longrightarrow> loads ms y j \<Longrightarrow>
       j \<in> set (snd st) \<union> set xs \<or> (j \<in> fst st' \<and> (loads ms)\<^sup>*\<^sup>* j y)"
proof -
  from assms obtain ys where
    "snd st' = snd st @ ys \<and> fst st' = fst st \<union> set ys \<and> set ys \<inter> fst st = {} \<and> distinct ys"
    "\<forall>y \<in> set ys. (loads ms)\<^sup>*\<^sup>* i y"
    "\<forall>xs y zs j. ys = xs @ y # zs \<longrightarrow> loads ms y j \<longrightarrow>
       j \<in> set (snd st) \<union> set xs \<or> (j \<in> fst st' \<and> (loads ms)\<^sup>*\<^sup>* j y)"
    unfolding walked_def by (elim exE conjE) (intro that conjI)
  then show ?thesis by (intro that [of ys]) simp_all
qed

lemma walked_from:
  assumes "loads ms x j" "walked ms j st st'" shows "walked ms x st st'"
  using assms(2)
proof (rule walkedE)
  fix ys assume ys: "snd st' = snd st @ ys" "fst st' = fst st \<union> set ys" "set ys \<inter> fst st = {}" "distinct ys"
    "\<And>y. y \<in> set ys \<Longrightarrow> (loads ms)\<^sup>*\<^sup>* j y"
    "\<And>xs y zs j. ys = xs @ y # zs \<Longrightarrow> loads ms y j \<Longrightarrow>
       j \<in> set (snd st) \<union> set xs \<or> (j \<in> fst st' \<and> (loads ms)\<^sup>*\<^sup>* j y)"
  have "(loads ms)\<^sup>*\<^sup>* x y" if "y \<in> set ys" for y
    using assms(1) ys(5) [OF that] by (rule converse_rtranclp_into_rtranclp)
  with ys show ?thesis unfolding walked_def by (intro exI [of _ ys]) simp
qed

lemma walked_grows:
  assumes "walked ms i st st'" "set (snd st) \<subseteq> fst st"
  shows "set (snd st') \<subseteq> fst st'" "fst st' - set (snd st') \<subseteq> fst st - set (snd st)" "fst st \<subseteq> fst st'"
  using assms(1) by (rule walkedE; use assms(2) in auto)+

lemma walked_own:
  assumes w: "walked ms i (insert i (fst st), snd st) st'" and "i \<notin> fst st"
    and sub: "set (snd st) \<subseteq> fst st" and grey: "\<forall>g \<in> fst st - set (snd st). (loads ms)\<^sup>*\<^sup>* g i"
    and into: "\<And>j. loads ms i j \<Longrightarrow> j \<in> fst st'"
  shows "walked ms i st (fst st', snd st' @ [i])"
  using w
proof (rule walkedE)
  fix ys assume ys: "snd st' = snd (insert i (fst st), snd st) @ ys" "fst st' = fst (insert i (fst st), snd st) \<union> set ys"
    "set ys \<inter> fst (insert i (fst st), snd st) = {}" "distinct ys"
    "\<And>y. y \<in> set ys \<Longrightarrow> (loads ms)\<^sup>*\<^sup>* i y"
    "\<And>xs y zs j. ys = xs @ y # zs \<Longrightarrow> loads ms y j \<Longrightarrow>
       j \<in> set (snd (insert i (fst st), snd st)) \<union> set xs \<or> (j \<in> fst st' \<and> (loads ms)\<^sup>*\<^sup>* j y)"
  have ord: "j \<in> set (snd st) \<union> set xs \<or> (j \<in> fst st' \<and> (loads ms)\<^sup>*\<^sup>* j y)"
    if "ys @ [i] = xs @ y # zs" "loads ms y j" for xs y zs j
  proof -
    from that(1) consider us where "ys = xs @ y # us" | "xs = ys" "y = i"
      by (cases zs rule: rev_cases) auto
    then show ?thesis
    proof cases
      case 1 then show ?thesis using ys(6) [OF 1 that(2)] by simp
    next
      case 2
      have j: "j \<in> fst st'" using into that(2) 2 by simp
      show ?thesis
      proof (cases "j \<in> set (snd st) \<union> set ys")
        case False
        with j ys(2) have "j = i \<or> j \<in> fst st - set (snd st)" by auto
        with grey 2 have "(loads ms)\<^sup>*\<^sup>* j y" by blast
        with j show ?thesis by simp
      qed (use 2 in simp)
    qed
  qed
  show ?thesis unfolding walked_def
    by (intro exI [of _ "ys @ [i]"] conjI allI impI ballI) (use ys assms(2) ord in auto)
qed

text \<open>
  The walk, entered where every module visited and not yet listed leads to the one it is
  entered at, or to the one whose imports it is at.
\<close>

lemma walk:
  "\<lbrakk>set (snd st) \<subseteq> fst st; \<forall>g \<in> fst st - set (snd st). (loads ms)\<^sup>*\<^sup>* g i\<rbrakk>
     \<Longrightarrow> walked ms i st (visit ms i st) \<and> i \<in> fst (visit ms i st)"
  "\<lbrakk>set (snd st) \<subseteq> fst st; \<forall>g \<in> fst st - set (snd st). (loads ms)\<^sup>*\<^sup>* g x;
      \<forall>f \<in> set files. \<forall>j. file_index ms f = Some j \<longrightarrow> loads ms x j\<rbrakk>
     \<Longrightarrow> walked ms x st (visit_imports ms files st)
       \<and> (\<forall>f \<in> set files. \<forall>j. file_index ms f = Some j \<longrightarrow> j \<in> fst (visit_imports ms files st))"
proof (induction ms i st and ms files st arbitrary: and x rule: visit_visit_imports.induct)
  case (1 ms i st)
  show ?case
  proof (cases "i \<in> fst st")
    case True
    then show ?thesis by (simp add: visit.simps walked_refl)
  next
    case False
    define st1 where "st1 = (insert i (fst st), snd st)"
    define st2 where "st2 = visit_imports ms (imports_of ms i) st1"
    have st': "visit ms i st = (fst st2, snd st2 @ [i])"
      using False by (simp add: visit.simps [of ms i st] st2_def st1_def Let_def)
    have impo: "loads ms i j" if "f \<in> set (imports_of ms i)" "file_index ms f = Some j" for f j
      using that by (auto simp: loads_def)
    have w: "walked ms i st1 st2 \<and> (\<forall>f \<in> set (imports_of ms i). \<forall>j. file_index ms f = Some j \<longrightarrow> j \<in> fst st2)"
      unfolding st2_def st1_def
      by (rule 1(1) [OF False]) (use 1(2,3) False impo in \<open>auto\<close>)
    have into: "j \<in> fst st2" if "loads ms i j" for j using that w by (auto simp: loads_def)
    from w have "walked ms i st (fst st2, snd st2 @ [i])"
      using False 1(2,3) by (intro walked_own) (auto simp: st1_def dest: into)
    moreover have "i \<in> fst st2" using walked_grows(3) [of ms i st1 st2] w 1(2) by (auto simp: st1_def)
    ultimately show ?thesis by (simp add: st')
  qed
next
  case (2 ms st)
  then show ?case by (simp add: walked_refl)
next
  case (3 ms f files st)
  show ?case
  proof (cases "file_index ms f")
    case None
    with 3(1) [OF None] 3(4-6) show ?thesis by simp
  next
    case (Some j)
    define st1 where "st1 = visit ms j st"
    define st2 where "st2 = visit_imports ms files st1"
    have step: "loads ms x j" using 3(6) Some by simp
    have "\<forall>g \<in> fst st - set (snd st). (loads ms)\<^sup>*\<^sup>* g j"
      using 3(5) step by (meson rtranclp.rtrancl_into_rtrancl)
    from 3(2) [OF Some 3(4) this] have "walked ms j st st1" and j: "j \<in> fst st1"
      by (simp_all add: st1_def)
    then have w: "walked ms x st st1" using step by (blast intro: walked_from)
    note g = walked_grows [OF w 3(4)]
    have w2: "walked ms x st1 st2 \<and> (\<forall>f \<in> set files. \<forall>j. file_index ms f = Some j \<longrightarrow> j \<in> fst st2)"
      unfolding st2_def st1_def
      by (rule 3(3) [OF Some]) (use g 3(5,6) in \<open>auto simp: st1_def [symmetric]\<close>)
    have "j \<in> fst st2" using walked_grows(3) [of ms x st1 st2] w2 g(1) j by blast
    with walked_trans [OF w] w2 Some show ?thesis by (auto simp: st2_def st1_def)
  qed
qed


lemma walk_entry:
  assumes "visit ms i ({}, []) = st"
  shows "\<exists>ys. snd st = ys @ [i] \<and> fst st = set (snd st) \<and> distinct (snd st)
    \<and> set (snd st) \<subseteq> {j. (loads ms)\<^sup>*\<^sup>* i j}
    \<and> (\<forall>xs y zs j. snd st = xs @ y # zs \<longrightarrow> loads ms y j \<longrightarrow>
         j \<in> set xs \<or> (j \<in> set (snd st) \<and> (loads ms)\<^sup>*\<^sup>* j y))"
proof -
  have "walked ms i ({}, []) st" using walk(1) [of "({}, [])" ms i] assms by simp
  then have "fst st = set (snd st)" "distinct (snd st)" "set (snd st) \<subseteq> {j. (loads ms)\<^sup>*\<^sup>* i j}"
    "\<And>xs y zs j. snd st = xs @ y # zs \<Longrightarrow> loads ms y j \<Longrightarrow>
         j \<in> set xs \<or> (j \<in> set (snd st) \<and> (loads ms)\<^sup>*\<^sup>* j y)"
    by (rule walkedE; simp; blast)+
  moreover have "snd st = snd (visit_imports ms (imports_of ms i) ({i}, [])) @ [i]"
    using assms by (auto simp: visit.simps [of ms i] Let_def)
  ultimately show ?thesis by blast
qed

lemma walk_reaches:
  assumes closed: "\<And>y j. y \<in> S \<Longrightarrow> loads ms y j \<Longrightarrow> j \<in> S" and "i \<in> S" "(loads ms)\<^sup>*\<^sup>* i j"
  shows "j \<in> S"
  using assms(3) by (induction rule: rtranclp_induct) (use assms(2) closed in auto)

text \<open>
  C9: The evaluation order of a program lists exactly the modules that its entry reaches through
  imports, each once, with the entry last; and it lists a module after every module it imports,
  except for an import that leads back to the importing module, which is how a cycle is settled.
\<close>

theorem EvaluationOrder_imports_first:
  assumes "EvaluationOrder p = Inr order"
  shows "set order = {j. (loads (pr_Modules p))\<^sup>*\<^sup>* (nat (pr_Entry p)) j} \<and> distinct order
    \<and> last order = nat (pr_Entry p)
    \<and> (\<forall>xs y zs j. order = xs @ y # zs \<and> loads (pr_Modules p) y j \<longrightarrow>
         j \<in> set xs \<or> (loads (pr_Modules p))\<^sup>*\<^sup>* j y)"
proof -
  let ?ms = "pr_Modules p" and ?e = "nat (pr_Entry p)"
  obtain st where st: "visit ?ms ?e ({}, []) = st" "order = snd st"
    using assms by (auto simp: EvaluationOrder_def split: if_splits)
  from walk_entry [OF st(1)] obtain ys where
    ys: "order = ys @ [?e]" "distinct order" "set order \<subseteq> {j. (loads ?ms)\<^sup>*\<^sup>* ?e j}"
      "\<forall>xs y zs j. order = xs @ y # zs \<longrightarrow> loads ?ms y j \<longrightarrow>
         j \<in> set xs \<or> (j \<in> set order \<and> (loads ?ms)\<^sup>*\<^sup>* j y)"
    unfolding st(2) by auto
  have "j \<in> set order" if "(loads ?ms)\<^sup>*\<^sup>* ?e j" for j
  proof (rule walk_reaches [OF _ _ that])
    fix y j assume "y \<in> set order" "loads ?ms y j"
    then show "j \<in> set order" using ys(4) by (fastforce dest: split_list)
  qed (simp add: ys(1))
  then have "set order = {j. (loads ?ms)\<^sup>*\<^sup>* ?e j}" using ys(3) by blast
  moreover have "last order = ?e" using ys(1) by simp
  ultimately show ?thesis using ys(2,4) by blast
qed

text \<open>The graph the code's comment measures: it prints b, a, c, main.\<close>

definition measured_graph :: Program where
  "measured_graph = (let m = \<lambda>f is. \<lparr>m_Name = f, m_File = f, m_Funcs = [], m_Main = [], m_Async = False, m_Imports = is, m_Lines = []\<rparr> in
     \<lparr>pr_Modules = [m ''a'' [''b''], m ''b'' [''a''], m ''c'' [''b''], m ''main'' [''a'', ''c'']],
       pr_Entry = 3, pr_Shapes = [], pr_heap = []\<rparr>)"

lemma measured_order: "EvaluationOrder measured_graph = Inr [1, 0, 2, 3]"
  by (simp add: measured_graph_def EvaluationOrder_def visit.simps imports_of_def file_index_def upt_rec)

theorem EvaluationOrder_imports_first_witness:
  "last [1, 0, 2, 3 :: nat] = nat (pr_Entry measured_graph)
    \<and> set [1, 0, 2, 3 :: nat] = {j. (loads (pr_Modules measured_graph))\<^sup>*\<^sup>* (nat (pr_Entry measured_graph)) j}"
  using EvaluationOrder_imports_first [OF measured_order] by blast

end
