(* ===== verification/IrValidate.thy ===== *)
theory IrValidate
  imports IrOrder
begin

text \<open>
  \<open>Program.Validate\<close> (\<open>ir/program.go\<close>): the shapes' checks of \<open>ir/check.go\<close>, the modules and
  their imports, every node, and every reference into a module's top level. Its result is the
  panic (Inl) or the list that \<open>errors.Join\<close> joins, empty for nil.

  Proved: a program passes exactly when it keeps the invariants its documentation names,
  \<open>sound_program\<close>; and an \<open>Append\<close> without a target panics before \<open>checkAppend\<close> can report it.
\<close>

subsection \<open>Shapes\<close>

definition id_errors :: "nat \<Rightarrow> shape_ref \<Rightarrow> Shape \<Rightarrow> ir_error list" where
  "id_errors i a s =
     (if sh_ID s \<noteq> i then [Errorf ''shape %d (%s) has ID %d'' [AInt (int i), AShape (Some a), AInt (int (sh_ID s))]]
      else if sh_pending s then [Errorf ''shape %d (%s) was reserved and never defined'' [AInt (int i), AShape (Some a)]]
      else [])"

definition field_errors :: "Program \<Rightarrow> shape_ref \<Rightarrow> Field list \<Rightarrow> nat \<Rightarrow> ir_error list" where
  "field_errors p a fs j =
     (let f = fs ! j in
      (if j > 0 \<and> f_Name (fs ! (j - 1)) \<ge> f_Name f
       then [Errorf ''shape %s has fields %q and %q out of order, or one twice''
         [AShape (Some a), AStr (f_Name (fs ! (j - 1))), AStr (f_Name f)]] else [])
      @ (case checkType p (f_Type f) of
           Some e \<Rightarrow> [Errorf ''field %s of %s: %w'' [AStr (f_Name f), AShape (Some a), AErr e]] | None \<Rightarrow> [])
      @ (if f_Optional f \<and> Kind_of (f_Type f) \<noteq> KindMaybe \<and> f_Type f \<noteq> TUnknown
         then [Errorf ''optional field %s of %s is a %s, where an optional property is a maybe or an unknown''
           [AStr (f_Name f), AShape (Some a), ATy (f_Type f)]] else []))"

text \<open>\<open>validateShapes\<close> from the \<open>i\<close>th shape on; \<open>seen\<close> maps a structure's key to its last ID.\<close>

fun validate_shapes :: "(rune \<Rightarrow> bool) \<Rightarrow> Program \<Rightarrow> nat \<Rightarrow> shape_ref option list \<Rightarrow> (string \<rightharpoonup> nat) \<Rightarrow> ir_error list" where
  "validate_shapes isPrint p i [] seen = []"
| "validate_shapes isPrint p i (None # ss) seen =
     Errorf ''shape %d is nil'' [AInt (int i)] # validate_shapes isPrint p (Suc i) ss seen"
| "validate_shapes isPrint p i (Some a # ss) seen =
     (let s = shape_at (pr_heap p) a; key = shapeKey isPrint (sh_Fields s)
      in id_errors i a s
         @ concat (map (field_errors p a (sh_Fields s)) [0..<length (sh_Fields s)])
         @ (case seen key of
              Some j \<Rightarrow> [Errorf ''shapes %d and %d have the same fields, %s, where interning makes them one''
                [AInt (int j), AInt (int i), AShape (Some a)]]
            | None \<Rightarrow> [])
         @ validate_shapes isPrint p (Suc i) ss (seen(key \<mapsto> i)))"

definition validateShapes :: "(rune \<Rightarrow> bool) \<Rightarrow> Program \<Rightarrow> ir_error list" where
  "validateShapes isPrint p = validate_shapes isPrint p 0 (pr_Shapes p) Map.empty"

subsection \<open>References\<close>

text \<open>A \<open>VarDecl\<close>'s name and whether it is mutable.\<close>

fun declared :: "stmt \<Rightarrow> (string \<times> bool) option" where
  "declared (VarDecl n t i m a s) = Some (n, m)"
| "declared _ = None"

text \<open>\<open>topLevel\<close>: the function, or whether the variable is mutable.\<close>

fun main_var :: "stmt list \<Rightarrow> string \<Rightarrow> bool option" where
  "main_var [] name = None"
| "main_var (s # ss) name =
     (case declared s of
        Some (n, m) \<Rightarrow> if n = name then Some m else main_var ss name
      | None \<Rightarrow> main_var ss name)"

definition topLevel :: "Module \<Rightarrow> string \<Rightarrow> Func option \<times> bool option" where
  "topLevel m name =
     (case List.find (\<lambda>fn. fn_Name fn = name) (m_Funcs m) of
        Some fn \<Rightarrow> (Some fn, None)
      | None \<Rightarrow> (None, main_var (m_Main m) name))"

definition checkRef :: "Program \<Rightarrow> string \<Rightarrow> string \<Rightarrow> bool \<Rightarrow> ir_error option" where
  "checkRef p mdl name assigned =
     (if mdl = '''' then None
      else case Program_Module p mdl of
        None \<Rightarrow> Some (Errorf ''%s refers into %s, which is not one of the program's modules'' [AStr name, AStr mdl])
      | Some m \<Rightarrow>
         (case topLevel m name of
            (None, None) \<Rightarrow> Some (Errorf ''%s refers to the top level of %s, which declares no %s''
              [AStr name, AStr mdl, AStr name])
          | (Some fn, v) \<Rightarrow> if assigned then Some (Errorf ''assignment to %s, a function of %s'' [AStr name, AStr mdl])
              else None
          | (None, Some mutable) \<Rightarrow> if assigned \<and> \<not> mutable
              then Some (Errorf ''assignment to %s, a const of %s'' [AStr name, AStr mdl]) else None))"

subsection \<open>Nodes\<close>

definition nodeSpan :: "node \<Rightarrow> failure + Span" where
  "nodeSpan node =
     (case node of
        NilIdent \<Rightarrow> Inl (Panic (Text ''invalid memory address or nil pointer dereference''))
      | NExpr x \<Rightarrow> Inr (ExprSpan x)
      | NStmt s \<Rightarrow> Inr (StmtSpan s))"

text \<open>The references \<open>check\<close> is called with at a node: module, name and whether it is assigned.\<close>

fun node_refs :: "node \<Rightarrow> (string \<times> string \<times> bool) list" where
  "node_refs (NExpr (EIdent x)) = [(id_Module x, id_Name x, False)]"
| "node_refs (NExpr (Call f m xs t s)) = [(m, f, False)]"
| "node_refs (NStmt (Assign n m v s)) = [(m, n, True)]"
| "node_refs (NExpr (FuncLit ps r b cs c a t s)) = map (\<lambda>c. (c_Module c, c_Name c, False)) cs"
| "node_refs _ = []"

text \<open>The function \<open>Inspect\<close> is given, at one node.\<close>

definition visit_node :: "Program \<Rightarrow> node \<Rightarrow> failure + ir_error list" where
  "visit_node p node =
     (case checkNode p node of
        Inl f \<Rightarrow> Inl f
      | Inr err \<Rightarrow>
         (case nodeSpan node of
            Inl f \<Rightarrow> Inl f
          | Inr sp \<Rightarrow> Inr (
              (case err of Some e \<Rightarrow> [Errorf ''%s: %w'' [ASpan sp, AErr e]] | None \<Rightarrow> [])
              @ concat (map (\<lambda>(m, n, asg). case checkRef p m n asg of
                   Some e \<Rightarrow> [Errorf ''%s: %w'' [ASpan sp, AErr e]] | None \<Rightarrow> []) (node_refs node)))))"

fun visit_nodes :: "Program \<Rightarrow> node list \<Rightarrow> failure + ir_error list" where
  "visit_nodes p [] = Inr []"
| "visit_nodes p (n # ns) =
     (case visit_node p n of
        Inl f \<Rightarrow> Inl f
      | Inr es \<Rightarrow> (case visit_nodes p ns of Inl f \<Rightarrow> Inl f | Inr es' \<Rightarrow> Inr (es @ es')))"

text \<open>\<open>Inspect\<close>: the functions, then the top-level code.\<close>

definition Inspect :: "Module \<Rightarrow> node list" where
  "Inspect m = concat (map (\<lambda>fn. concat (map inspectStmt (fn_Body fn))) (m_Funcs m))
     @ concat (map inspectStmt (m_Main m))"

definition func_errors :: "Program \<Rightarrow> Func \<Rightarrow> ir_error list" where
  "func_errors p fn =
     (case checkParams p (fn_Params fn) of
        Some e \<Rightarrow> [Errorf ''%s: %s: %w'' [ASpan (fn_Span fn), AStr (fn_Name fn), AErr e]] | None \<Rightarrow> [])
     @ (case checkType p (fn_Result fn) of
          Some e \<Rightarrow> [Errorf ''%s: %s's result: %w'' [ASpan (fn_Span fn), AStr (fn_Name fn), AErr e]] | None \<Rightarrow> [])
     @ (case checkReturns (fn_Body fn) (returnType (fn_Result fn) (fn_Async fn)) of
          Some e \<Rightarrow> [Errorf ''%s: %w'' [AStr (fn_Name fn), AErr e]] | None \<Rightarrow> [])"

subsection \<open>Validate\<close>

text \<open>The loop that checks the modules' files and their order.\<close>

definition file_error :: "Program \<Rightarrow> nat \<Rightarrow> ir_error option" where
  "file_error p i =
     (let ms = pr_Modules p in
      if m_File (ms ! i) = '''' \<and> length ms > 1
      then Some (Errorf ''module %d of %d has no file'' [AInt (int i), AInt (int (length ms))])
      else if i > 0 \<and> m_File (ms ! (i - 1)) \<ge> m_File (ms ! i)
      then Some (Errorf ''modules %s and %s are out of order, or the same file twice''
        [AStr (m_File (ms ! (i - 1))), AStr (m_File (ms ! i))])
      else None)"

definition import_errors :: "Program \<Rightarrow> Module \<Rightarrow> ir_error list" where
  "import_errors p m =
     concat (map (\<lambda>f. if Program_Module p f = None
       then [Errorf ''%s imports %s, which is not one of the program's modules'' [AStr (m_File m), AStr f]]
       else []) (m_Imports m))"

fun module_errors :: "Program \<Rightarrow> Module list \<Rightarrow> failure + ir_error list" where
  "module_errors p [] = Inr []"
| "module_errors p (m # ms) =
     (case visit_nodes p (Inspect m) of
        Inl f \<Rightarrow> Inl f
      | Inr es \<Rightarrow>
         (case module_errors p ms of
            Inl f \<Rightarrow> Inl f
          | Inr es' \<Rightarrow> Inr (concat (map (func_errors p) (m_Funcs m)) @ es @ es')))"

definition Validate :: "(rune \<Rightarrow> bool) \<Rightarrow> Program \<Rightarrow> failure + ir_error list" where
  "Validate isPrint p =
     (let ms = pr_Modules p in
      if ms = [] then Inr [Errorf ''the program has no modules'' []]
      else if pr_Entry p < 0 \<or> pr_Entry p \<ge> int (length ms)
      then Inr [Errorf ''the entry is module %d of %d'' [AInt (pr_Entry p), AInt (int (length ms))]]
      else case first_error (map (file_error p) [0..<length ms]) of
        Some e \<Rightarrow> Inr [e]
      | None \<Rightarrow>
         (case module_errors p ms of
            Inl f \<Rightarrow> Inl f
          | Inr es \<Rightarrow> Inr (validateShapes isPrint p @ concat (map (import_errors p) ms) @ es)))"


subsection \<open>What passes\<close>

definition optional_ok :: "Field \<Rightarrow> bool" where
  "optional_ok f \<longleftrightarrow> (f_Optional f \<longrightarrow> Kind_of (f_Type f) = KindMaybe \<or> f_Type f = TUnknown)"

definition sound_shape :: "Program \<Rightarrow> nat \<Rightarrow> Shape \<Rightarrow> bool" where
  "sound_shape p i s \<longleftrightarrow> sh_ID s = i \<and> \<not> sh_pending s \<and> sorted_wrt (<) (map f_Name (sh_Fields s))
     \<and> (\<forall>f \<in> set (sh_Fields s). checkType p (f_Type f) = None \<and> optional_ok f)"

text \<open>Each shape is at its own ID, and no two have the same fields.\<close>

definition sound_shapes :: "Program \<Rightarrow> bool" where
  "sound_shapes p \<longleftrightarrow>
     (\<forall>i < length (pr_Shapes p). \<exists>a. pr_Shapes p ! i = Some a \<and> sound_shape p i (shape_at (pr_heap p) a))
     \<and> distinct (map (\<lambda>a. sh_Fields (shape_at (pr_heap p) (the a))) (pr_Shapes p))"

text \<open>A reference names no module, or a top-level declaration of one; a let, if it is assigned.\<close>

definition resolves :: "Program \<Rightarrow> string \<times> string \<times> bool \<Rightarrow> bool" where
  "resolves p = (\<lambda>(mdl, name, assigned). mdl = '''' \<or>
     (\<exists>m \<in> set (pr_Modules p). m_File m = mdl
       \<and> (if assigned then name \<notin> fn_Name ` set (m_Funcs m) \<and> main_var (m_Main m) name = Some True
          else name \<in> fn_Name ` set (m_Funcs m) \<or> main_var (m_Main m) name \<noteq> None)))"

definition sound_func :: "Program \<Rightarrow> Func \<Rightarrow> bool" where
  "sound_func p fn \<longleftrightarrow> (\<forall>x \<in> set (fn_Params fn). checkType p (p_Type x) = None) \<and> checkType p (fn_Result fn) = None
     \<and> checkReturns (fn_Body fn) (returnType (fn_Result fn) (fn_Async fn)) = None"

definition sound_module :: "Program \<Rightarrow> Module \<Rightarrow> bool" where
  "sound_module p m \<longleftrightarrow> set (m_Imports m) \<subseteq> m_File ` set (pr_Modules p) \<and> (\<forall>fn \<in> set (m_Funcs m). sound_func p fn)
     \<and> (\<forall>node \<in> set (Inspect m). checkNode p node = Inr None \<and> (\<forall>r \<in> set (node_refs node). resolves p r))"

definition sound_program :: "Program \<Rightarrow> bool" where
  "sound_program p \<longleftrightarrow> 0 \<le> pr_Entry p \<and> pr_Entry p < int (length (pr_Modules p))
     \<and> sorted_wrt (<) (map m_File (pr_Modules p))
     \<and> (length (pr_Modules p) > 1 \<longrightarrow> '''' \<notin> m_File ` set (pr_Modules p))
     \<and> sound_shapes p \<and> (\<forall>m \<in> set (pr_Modules p). sound_module p m)"

lemma field_errors_Nil:
  "(\<forall>j < length fs. field_errors p a fs j = []) \<longleftrightarrow> sorted_wrt (<) (map f_Name fs)
     \<and> (\<forall>f \<in> set fs. checkType p (f_Type f) = None \<and> optional_ok f)"
proof -
  have "(\<forall>j < length fs. j > 0 \<longrightarrow> f_Name (fs ! (j - 1)) < f_Name (fs ! j)) \<longleftrightarrow> sorted_wrt (<) (map f_Name fs)"
    by (subst sorted_wrt_iff_nth_Suc_transp) (auto simp: gr0_conv_Suc transp_on_def)
  moreover have "field_errors p a fs j = [] \<longleftrightarrow> (j > 0 \<longrightarrow> f_Name (fs ! (j - 1)) < f_Name (fs ! j))
      \<and> checkType p (f_Type (fs ! j)) = None \<and> optional_ok (fs ! j)" for j
    by (auto simp: field_errors_def optional_ok_def Let_def split: option.splits)
  ultimately show ?thesis by (auto simp: all_set_conv_all_nth)
qed

lemma all_some_neq:
  "(\<forall>k < length ss. \<exists>b. ss ! k = Some b \<and> P k b \<and> F b \<noteq> x) \<longleftrightarrow>
     (\<forall>k < length ss. \<exists>b. ss ! k = Some b \<and> P k b) \<and> x \<notin> (\<lambda>a. F (the a)) ` set ss" (is "?l = ?r")
proof
  assume l: ?l
  then have "F (the a) \<noteq> x" if "a \<in> set ss" for a
    using that by (metis in_set_conv_nth option.sel)
  with l show ?r by blast
next
  assume r: ?r
  have "F b \<noteq> x" if "k < length ss" "ss ! k = Some b" for k b
    using r that by (metis image_eqI nth_mem option.sel)
  with r show ?l by meson
qed

lemma validate_shapes_Nil:
  "validate_shapes isPrint p i ss seen = [] \<longleftrightarrow>
     (\<forall>k < length ss. \<exists>a. ss ! k = Some a \<and> sound_shape p (i + k) (shape_at (pr_heap p) a)
        \<and> seen (shapeKey isPrint (sh_Fields (shape_at (pr_heap p) a))) = None)
     \<and> distinct (map (\<lambda>a. sh_Fields (shape_at (pr_heap p) (the a))) ss)"
proof (induction isPrint p i ss seen rule: validate_shapes.induct)
  case (1 isPrint p i seen) show ?case by simp
next
  case (2 isPrint p i ss seen) show ?case by (simp add: All_less_Suc2)
next
  case (3 isPrint p i a ss seen)
  let ?s = "shape_at (pr_heap p) a" and ?F = "\<lambda>a. sh_Fields (shape_at (pr_heap p) a)"
  define K where "K = (\<lambda>fs. seen (shapeKey isPrint fs) = None)"
  define P where "P = (\<lambda>k b. sound_shape p (Suc i + k) (shape_at (pr_heap p) b) \<and> K (?F b))"
  have one: "id_errors i a ?s = [] \<and> (\<forall>j < length (?F a). field_errors p a (?F a) j = []) \<longleftrightarrow> sound_shape p i ?s"
    unfolding field_errors_Nil by (auto simp: id_errors_def sound_shape_def)
  have key: "(seen(shapeKey isPrint (?F a) \<mapsto> i)) (shapeKey isPrint (?F b)) = None \<longleftrightarrow> ?F b \<noteq> ?F a \<and> K (?F b)" for b
    by (simp add: shapeKey_eq K_def)
  have "validate_shapes isPrint p i (Some a # ss) seen = [] \<longleftrightarrow> sound_shape p i ?s \<and> K (?F a)
      \<and> validate_shapes isPrint p (Suc i) ss (seen(shapeKey isPrint (?F a) \<mapsto> i)) = []"
    unfolding one [symmetric] by (auto simp: Let_def K_def split: option.splits)
  also have "\<dots> \<longleftrightarrow> sound_shape p i ?s \<and> K (?F a) \<and> (\<forall>k < length ss. \<exists>b. ss ! k = Some b \<and> P k b \<and> ?F b \<noteq> ?F a)
      \<and> distinct (map (\<lambda>a. ?F (the a)) ss)"
    unfolding 3 [OF refl refl] key P_def by (simp only: conj_ac)
  also have "\<dots> \<longleftrightarrow> (\<forall>k < length (Some a # ss). \<exists>b. (Some a # ss) ! k = Some b
         \<and> sound_shape p (i + k) (shape_at (pr_heap p) b) \<and> K (?F b))
      \<and> distinct (map (\<lambda>a. ?F (the a)) (Some a # ss))"
    unfolding all_some_neq by (simp add: All_less_Suc2 P_def conj_ac)
  finally show ?case by (simp only: K_def)
qed

lemma validateShapes_Nil: "validateShapes isPrint p = [] \<longleftrightarrow> sound_shapes p"
  by (simp add: validateShapes_def validate_shapes_Nil sound_shapes_def)


lemma find_name: "List.find P xs = None \<longleftrightarrow> (\<forall>x \<in> set xs. \<not> P x)"
  by (induction xs) auto

lemma Program_Module_distinct:
  assumes "distinct (map m_File (pr_Modules p))"
  shows "Program_Module p f = Some m \<longleftrightarrow> m \<in> set (pr_Modules p) \<and> m_File m = f"
proof -
  have "List.find (\<lambda>m. m_File m = f) ms = Some m \<longleftrightarrow> m \<in> set ms \<and> m_File m = f"
    if "distinct (map m_File ms)" for ms
    using that by (induction ms) auto
  with assms show ?thesis by (simp add: Program_Module_def)
qed

lemma Program_Module_None: "Program_Module p f = None \<longleftrightarrow> f \<notin> m_File ` set (pr_Modules p)"
  by (auto simp: Program_Module_def find_name)

lemma checkRef_None:
  assumes "distinct (map m_File (pr_Modules p))"
  shows "checkRef p mdl name asg = None \<longleftrightarrow> resolves p (mdl, name, asg)"
proof -
  have unlisted: "Program_Module p (m_File m) \<noteq> None" if "m \<in> set (pr_Modules p)" for m
    using that by (auto simp: Program_Module_None)
  show ?thesis
proof (cases "mdl = '''' \<or> Program_Module p mdl = None")
  case True
  then show ?thesis
    by (cases "mdl = ''''"; cases asg) (auto simp: checkRef_def resolves_def Program_Module_None [symmetric] dest: unlisted)
next
  case False
  then obtain m where m: "Program_Module p mdl = Some m" by auto
  then have only: "m' \<in> set (pr_Modules p) \<and> m_File m' = mdl \<longleftrightarrow> m' = m" for m'
    using Program_Module_distinct [OF assms, of mdl] by (metis option.inject)
  have "resolves p (mdl, name, asg) \<longleftrightarrow>
      (if asg then name \<notin> fn_Name ` set (m_Funcs m) \<and> main_var (m_Main m) name = Some True
       else name \<in> fn_Name ` set (m_Funcs m) \<or> main_var (m_Main m) name \<noteq> None)"
    using False only unfolding resolves_def by (simp only: split_conv) metis
  moreover have "name \<in> fn_Name ` set (m_Funcs m) \<longleftrightarrow> List.find (\<lambda>fn. fn_Name fn = name) (m_Funcs m) \<noteq> None"
    by (auto simp: find_name)
  ultimately show ?thesis using False m
    by (auto simp: checkRef_def topLevel_def split: option.splits)
qed
qed

lemma visit_nodes_Nil:
  assumes "distinct (map m_File (pr_Modules p))"
  shows "visit_nodes p ns = Inr [] \<longleftrightarrow>
    (\<forall>node \<in> set ns. checkNode p node = Inr None \<and> (\<forall>r \<in> set (node_refs node). resolves p r))"
proof -
  have "visit_node p node = Inr [] \<longleftrightarrow>
      checkNode p node = Inr None \<and> (\<forall>r \<in> set (node_refs node). resolves p r)" for node
    by (cases node) (fastforce simp: visit_node_def checkNode_def nodeSpan_def checkRef_None [OF assms, symmetric]
        split: option.splits)+
  moreover have "visit_nodes p ns = Inr [] \<longleftrightarrow> (\<forall>node \<in> set ns. visit_node p node = Inr [])"
    by (induction ns) (auto split: sum.splits)
  ultimately show ?thesis by simp
qed

lemma func_errors_Nil: "func_errors p fn = [] \<longleftrightarrow> sound_func p fn"
  using first_error_map [of "\<lambda>x. map_option (\<lambda>e. Errorf ''parameter %s: %w'' [AStr (p_Name x), AErr e]) (checkType p (p_Type x))"
      "fn_Params fn"]
  by (auto simp: func_errors_def sound_func_def checkParams_def split: option.splits simp del: first_error_map)

lemma module_errors_Nil:
  assumes "distinct (map m_File (pr_Modules p))"
  shows "module_errors p ms = Inr [] \<and> concat (map (import_errors p) ms) = [] \<longleftrightarrow> (\<forall>m \<in> set ms. sound_module p m)"
proof -
  have "module_errors p ms = Inr [] \<longleftrightarrow>
      (\<forall>m \<in> set ms. visit_nodes p (Inspect m) = Inr [] \<and> (\<forall>fn \<in> set (m_Funcs m). func_errors p fn = []))"
    by (induction ms) (auto split: sum.splits)
  moreover have "import_errors p m = [] \<longleftrightarrow> set (m_Imports m) \<subseteq> m_File ` set (pr_Modules p)" for m
    by (auto simp: import_errors_def Program_Module_None)
  ultimately show ?thesis
    by (auto simp: sound_module_def visit_nodes_Nil [OF assms] func_errors_Nil)
qed

lemma file_errors_None:
  "first_error (map (file_error p) [0..<length (pr_Modules p)]) = None \<longleftrightarrow>
     sorted_wrt (<) (map m_File (pr_Modules p))
     \<and> (length (pr_Modules p) > 1 \<longrightarrow> '''' \<notin> m_File ` set (pr_Modules p))"
proof -
  let ?ms = "pr_Modules p"
  have "(\<forall>i < length ?ms. i > 0 \<longrightarrow> m_File (?ms ! (i - 1)) < m_File (?ms ! i)) \<longleftrightarrow> sorted_wrt (<) (map m_File ?ms)"
    by (subst sorted_wrt_iff_nth_Suc_transp) (auto simp: gr0_conv_Suc transp_on_def)
  moreover have "(\<forall>i < length ?ms. m_File (?ms ! i) \<noteq> '''') \<longleftrightarrow> '''' \<notin> m_File ` set ?ms"
    by (metis (no_types, lifting) imageE image_eqI in_set_conv_nth)
  moreover have "file_error p i = None \<longleftrightarrow> (m_File (?ms ! i) = '''' \<longrightarrow> length ?ms \<le> 1)
      \<and> (i > 0 \<longrightarrow> m_File (?ms ! (i - 1)) < m_File (?ms ! i))" for i
    by (auto simp: file_error_def Let_def)
  ultimately show ?thesis by (auto simp: first_error_None)
qed

text \<open>
  C8: \<open>Validate\<close> reports nothing exactly when the program keeps the invariants lowering promises:
  the entry is one of the modules, their files are in order without a repeat, each import is of
  a module of the program, each shape is at its own ID with its fields in order and no structure
  is two shapes, every node passes its check, and every qualified reference resolves to a
  top-level declaration, assigned only if it is a let.
\<close>

theorem Validate_iff: "Validate isPrint p = Inr [] \<longleftrightarrow> sound_program p"
proof (cases "sorted_wrt (<) (map m_File (pr_Modules p))")
  case True
  then have d: "distinct (map m_File (pr_Modules p))" by (simp add: strict_sorted_iff)
  have "Validate isPrint p = Inr [] \<longleftrightarrow> 0 \<le> pr_Entry p \<and> pr_Entry p < int (length (pr_Modules p))
      \<and> first_error (map (file_error p) [0..<length (pr_Modules p)]) = None \<and> validateShapes isPrint p = []
      \<and> module_errors p (pr_Modules p) = Inr [] \<and> concat (map (import_errors p) (pr_Modules p)) = []"
    by (auto simp: Validate_def Let_def split: option.splits sum.splits simp del: first_error_map)
  then show ?thesis
    by (simp only: file_errors_None validateShapes_Nil module_errors_Nil [OF d] sound_program_def conj_ac)
next
  case False
  then show ?thesis using file_errors_None [of p]
    by (auto simp: Validate_def Let_def sound_program_def split: option.splits)
qed

text \<open>
  C10: an \<open>Append\<close> without a binding in the top-level code of any module panics \<open>Validate\<close>, whose
  traversal asks the nil identifier for its type, where \<open>checkAppend\<close> has an error for it.
\<close>

theorem Validate_append_nil_panics:
  assumes "sorted_wrt (<) (map m_File (pr_Modules p))" "'''' \<notin> m_File ` set (pr_Modules p)"
    and "0 \<le> pr_Entry p" "pr_Entry p < int (length (pr_Modules p))"
    and "m \<in> set (pr_Modules p)" "Append None parts sp \<in> set (m_Main m)"
  shows "isl (Validate isPrint p) \<and> checkAppend None parts = Some (Errorf ''an append with no binding'' [])"
proof -
  have "NilIdent \<in> set (inspectStmt (Append None parts sp))" by simp
  with assms(6) have nil: "NilIdent \<in> set (Inspect m)" unfolding Inspect_def by fastforce
  have nodes: "isl (visit_nodes p ns)" if "NilIdent \<in> set ns" for ns
    using that by (induction ns) (auto simp: visit_node_def checkNode_def split: sum.splits)
  have "isl (module_errors p ms)" if "m \<in> set ms" for ms
    using that nodes [OF nil] by (induction ms) (auto split: sum.splits)
  then have "isl (module_errors p (pr_Modules p))" using assms(5) .
  moreover have "first_error (map (file_error p) [0..<length (pr_Modules p)]) = None"
    using assms(1,2) by (subst file_errors_None) simp
  ultimately show ?thesis using assms(3,4)
    by (auto simp: Validate_def Let_def checkAppend_def isl_def simp del: first_error_map)
qed

definition append_nil :: Program where
  "append_nil = ProgramOf \<lparr>m_Name = ''m'', m_File = ''m.ts'', m_Funcs = [],
     m_Main = [Append None [] \<lparr>sp_File = ''m.ts'', sp_Start = 0, sp_End = 0, sp_Line = 1, sp_Col = 1, sp_Caret = \<lparr>po_Line = 0, po_Col = 0\<rparr>\<rparr>],
     m_Async = False, m_Imports = [], m_Lines = []\<rparr>"

theorem Validate_append_nil_panics_witness: "isl (Validate (\<lambda>r. r < 127) append_nil)"
  using Validate_append_nil_panics [of append_nil "pr_Modules append_nil ! 0" "[]" _ "\<lambda>r. r < 127"]
  by (auto simp: append_nil_def ProgramOf_def)

end
