(* ===== verification/TimerHeap.thy ===== *)
theory TimerHeap
  imports Prelude "HOL-Library.Multiset"
begin

text \<open>
  The timers of a domain (\<open>backend/runtime/domain.go\<close>: \<open>timerHeap\<close>, with Go's
  \<open>container/heap\<close>, which it is the interface of). A \<open>*timer\<close> is an address into a store of
  timers, so that a swap in the heap can write the timers' \<open>index\<close>, which \<open>ClearTimeout\<close> reads.

  Proved: every operation keeps the heap ordered and each timer's index its place in the heap;
  \<open>Pop\<close> removes the timer due first, of those due together the one scheduled first.
\<close>

subsection \<open>The heap\<close>

record 'j timer =
  tm_when :: int
  tm_seq :: nat
  tm_id :: f64
  tm_cb :: 'j
  tm_index :: int

type_synonym 'j timers = "'j timer list \<times> nat list"

text \<open>\<open>Less\<close>: by due time, then by when they were scheduled.\<close>

definition timer_less :: "'j timer \<Rightarrow> 'j timer \<Rightarrow> bool" where
  "timer_less s t \<longleftrightarrow> (if tm_when s \<noteq> tm_when t then tm_when s < tm_when t else tm_seq s < tm_seq t)"

definition Less :: "'j timers \<Rightarrow> nat \<Rightarrow> nat \<Rightarrow> bool" where
  "Less h i j \<longleftrightarrow> timer_less (fst h ! (snd h ! i)) (fst h ! (snd h ! j))"

definition set_index :: "nat \<Rightarrow> int \<Rightarrow> 'j timer list \<Rightarrow> 'j timer list" where
  "set_index a i st = st[a := (st ! a)\<lparr>tm_index := i\<rparr>]"

definition Swap :: "'j timers \<Rightarrow> nat \<Rightarrow> nat \<Rightarrow> 'j timers" where
  "Swap h i j =
     (let xs = (snd h)[i := snd h ! j, j := snd h ! i]
      in (set_index (xs ! j) (int j) (set_index (xs ! i) (int i) (fst h)), xs))"

definition heap_append :: "'j timers \<Rightarrow> nat \<Rightarrow> 'j timers" where
  "heap_append h a = (set_index a (int (length (snd h))) (fst h), snd h @ [a])"

definition heap_last :: "'j timers \<Rightarrow> nat \<times> 'j timers" where
  "heap_last h =
     (let a = snd h ! (length (snd h) - 1)
      in (a, set_index a (-1) (fst h), take (length (snd h) - 1) (snd h)))"

text \<open>\<open>heap.up\<close> and \<open>heap.down\<close>; Go's \<open>(0 - 1) / 2\<close> is 0.\<close>

function heap_up :: "'j timers \<Rightarrow> nat \<Rightarrow> 'j timers" where
  "heap_up h j =
     (let i = (j - 1) div 2
      in if i = j \<or> \<not> Less h j i then h else heap_up (Swap h i j) i)"
  by pat_completeness auto
termination
  by (relation "measure snd") auto

text \<open>The lesser child of \<open>i\<close>, whose left child is below \<open>n\<close>.\<close>

definition heap_child :: "'j timers \<Rightarrow> nat \<Rightarrow> nat \<Rightarrow> nat" where
  "heap_child h i n = (let j1 = 2 * i + 1 in if j1 + 1 < n \<and> Less h (j1 + 1) j1 then j1 + 1 else j1)"

function heap_down :: "'j timers \<Rightarrow> nat \<Rightarrow> nat \<Rightarrow> 'j timers \<times> nat" where
  "heap_down h i n =
     (if 2 * i + 1 \<ge> n then (h, i)
      else let j = heap_child h i n
           in if \<not> Less h j i then (h, i) else heap_down (Swap h i j) j n)"
  by pat_completeness auto
termination
  by (relation "measure (\<lambda>(h, i, n). n - i)") (auto simp: heap_child_def Let_def)

declare heap_up.simps [simp del] heap_down.simps [simp del]

definition heap_Push :: "'j timers \<Rightarrow> nat \<Rightarrow> 'j timers" where
  "heap_Push h a = (let h' = heap_append h a in heap_up h' (length (snd h') - 1))"

definition heap_Pop :: "'j timers \<Rightarrow> nat \<times> 'j timers" where
  "heap_Pop h = (let n = length (snd h) - 1 in heap_last (fst (heap_down (Swap h 0 n) 0 n)))"

definition heap_Remove :: "'j timers \<Rightarrow> nat \<Rightarrow> nat \<times> 'j timers" where
  "heap_Remove h i =
     (let n = length (snd h) - 1
      in heap_last
           (if n \<noteq> i
            then let (h', i') = heap_down (Swap h i n) i n
                 in if \<not> i' > i then heap_up h' i else h'
            else h))"

subsection \<open>Keys\<close>

text \<open>A swap changes no timer's due time or sequence number, so the order of the heap is that of its keys.\<close>

definition timer_key :: "'j timer \<Rightarrow> int \<times> nat" where
  "timer_key t = (tm_when t, tm_seq t)"

definition key_less :: "int \<times> nat \<Rightarrow> int \<times> nat \<Rightarrow> bool" where
  "key_less k l \<longleftrightarrow> fst k < fst l \<or> (fst k = fst l \<and> snd k < snd l)"

lemma timer_less_key: "timer_less s t \<longleftrightarrow> key_less (timer_key s) (timer_key t)"
  by (auto simp: timer_less_def key_less_def timer_key_def)

lemma key_less_irrefl [simp]: "\<not> key_less k k"
  by (simp add: key_less_def)

lemma key_less_trans: "key_less k l \<Longrightarrow> key_less l m \<Longrightarrow> key_less k m"
  by (auto simp: key_less_def)

lemma key_le_trans: "\<not> key_less l k \<Longrightarrow> \<not> key_less m l \<Longrightarrow> \<not> key_less m k"
  by (auto simp: key_less_def)

lemma key_less_asym: "key_less k l \<Longrightarrow> \<not> key_less l k"
  by (auto simp: key_less_def)

definition keys_of :: "'j timers \<Rightarrow> (int \<times> nat) list" where
  "keys_of h = map (\<lambda>a. timer_key (fst h ! a)) (snd h)"

text \<open>The heap holds timers of the store, each once, and each timer's index is its place.\<close>

definition placed :: "'j timers \<Rightarrow> bool" where
  "placed h \<longleftrightarrow> distinct (snd h) \<and> set (snd h) \<subseteq> {..<length (fst h)}
     \<and> (\<forall>i < length (snd h). tm_index (fst h ! (snd h ! i)) = int i)"

lemma length_set_index [simp]: "length (set_index a i st) = length st"
  by (simp add: set_index_def)

lemma key_set_index [simp]: "timer_key (set_index a i st ! b) = timer_key (st ! b)"
proof (cases "a < length st")
  case True
  then show ?thesis by (simp add: set_index_def timer_key_def nth_list_update)
next
  case False
  then show ?thesis by (simp add: set_index_def list_update_beyond)
qed

lemma index_set_index: "a < length st \<Longrightarrow> tm_index (set_index a i st ! b) = (if a = b then i else tm_index (st ! b))"
  by (auto simp: set_index_def nth_list_update)

lemma Swap_simps [simp]:
  "length (fst (Swap h i j)) = length (fst h)" "length (snd (Swap h i j)) = length (snd h)"
  "snd (Swap h i j) = (snd h)[i := snd h ! j, j := snd h ! i]"
  by (simp_all add: Swap_def Let_def)

definition swapped :: "'a list \<Rightarrow> nat \<Rightarrow> nat \<Rightarrow> 'a list" where
  "swapped xs i j = xs[i := xs ! j, j := xs ! i]"

lemma keys_Swap: "i < length (snd h) \<Longrightarrow> j < length (snd h) \<Longrightarrow> keys_of (Swap h i j) = swapped (keys_of h) i j"
  by (simp add: keys_of_def Swap_def Let_def swapped_def map_update)

lemma length_keys [simp]: "length (keys_of h) = length (snd h)"
  by (simp add: keys_of_def)

lemma Less_keys: "i < length (snd h) \<Longrightarrow> j < length (snd h) \<Longrightarrow> Less h i j \<longleftrightarrow> key_less (keys_of h ! i) (keys_of h ! j)"
  by (simp add: Less_def timer_less_key keys_of_def)

lemma placed_Swap:
  assumes "placed h" "i < length (snd h)" "j < length (snd h)"
  shows "placed (Swap h i j)" "mset (snd (Swap h i j)) = mset (snd h)"
proof -
  define xs where "xs = (snd h)[i := snd h ! j, j := snd h ! i]"
  have S: "snd (Swap h i j) = xs" by (simp add: xs_def)
  have F: "fst (Swap h i j) = set_index (xs ! j) (int j) (set_index (xs ! i) (int i) (fst h))"
    by (simp add: Swap_def Let_def xs_def)
  show m: "mset (snd (Swap h i j)) = mset (snd h)" using assms(2,3) by (simp add: mset_swap)
  then have d: "distinct xs" "set xs = set (snd h)" "length xs = length (snd h)"
    using assms(1) unfolding S by (auto simp: placed_def dest: mset_eq_setD mset_eq_length mset_eq_imp_distinct_iff)
  have lt: "xs ! k < length (fst h)" if "k < length (snd h)" for k
    using d(2,3) assms(1) that nth_mem [of k xs] by (auto simp: placed_def)
  have old: "k \<noteq> i \<Longrightarrow> k \<noteq> j \<Longrightarrow> k < length (snd h) \<Longrightarrow> tm_index (fst h ! (xs ! k)) = int k" for k
    using assms(1) by (simp add: xs_def placed_def)
  have idx: "tm_index (fst (Swap h i j) ! (xs ! k)) = int k" if k: "k < length (snd h)" for k
  proof -
    have inj: "xs ! a = xs ! b \<longleftrightarrow> a = b" if "a < length (snd h)" "b < length (snd h)" for a b
      using nth_eq_iff_index_eq [OF d(1)] that d(3) by simp
    show ?thesis using assms(2,3) k lt inj old by (auto simp: F index_set_index)
  qed
  show "placed (Swap h i j)" unfolding placed_def S
    using d lt idx assms(1) by (auto simp: placed_def F)
qed

text \<open>So \<open>up\<close> and \<open>down\<close>, sequences of swaps within the heap, keep each timer in its place.\<close>

lemma placed_up:
  "placed h \<Longrightarrow> j < length (snd h) \<Longrightarrow>
    placed (heap_up h j) \<and> mset (snd (heap_up h j)) = mset (snd h) \<and> length (fst (heap_up h j)) = length (fst h)"
proof (induction h j rule: heap_up.induct)
  case (1 h j)
  show ?case
  proof (cases "(j - 1) div 2 = j \<or> \<not> Less h j ((j - 1) div 2)")
    case True
    with 1(2) show ?thesis by (subst (1 2 3) heap_up.simps) (simp add: Let_def)
  next
    case False
    then have i: "(j - 1) div 2 < length (snd h)" using 1(3) by linarith
    have "heap_up h j = heap_up (Swap h ((j - 1) div 2) j) ((j - 1) div 2)"
      using False by (subst heap_up.simps) (simp add: Let_def)
    with 1(1) [OF refl False] placed_Swap [OF 1(2) i 1(3)] i show ?thesis by simp
  qed
qed

lemma heap_child_bounds: "2 * i + 1 < n \<Longrightarrow> i < heap_child h i n \<and> heap_child h i n < n"
  by (auto simp: heap_child_def Let_def)

lemma placed_down:
  "placed h \<Longrightarrow> i < length (snd h) \<Longrightarrow> n \<le> length (snd h) \<Longrightarrow>
    placed (fst (heap_down h i n)) \<and> mset (snd (fst (heap_down h i n))) = mset (snd h)
    \<and> length (fst (fst (heap_down h i n))) = length (fst h)"
proof (induction h i n rule: heap_down.induct)
  case (1 h i n)
  show ?case
  proof (cases "2 * i + 1 \<ge> n \<or> \<not> Less h (heap_child h i n) i")
    case True
    then have "heap_down h i n = (h, i)" by (subst heap_down.simps) (auto simp: Let_def)
    with 1(2) show ?thesis by simp
  next
    case False
    then have j: "heap_child h i n < length (snd h)" using heap_child_bounds [of i n h] 1(4) by simp
    have "heap_down h i n = heap_down (Swap h i (heap_child h i n)) (heap_child h i n) n"
      using False by (subst heap_down.simps) (simp add: Let_def)
    with 1(1) [OF _ refl] False placed_Swap [OF 1(2,3) j] j 1(4) show ?thesis by simp
  qed
qed

subsection \<open>The order\<close>

text \<open>
  A list of keys is a heap up to \<open>n\<close> where no element is less than its parent. While an element
  moves up, it alone may be less than its parent, and its children are not less than its
  parent; while one moves down, its children alone may be less than it.
\<close>

definition parent :: "nat \<Rightarrow> nat" where
  "parent i = (i - 1) div 2"

definition heap_upto :: "nat \<Rightarrow> (int \<times> nat) list \<Rightarrow> bool" where
  "heap_upto n ks \<longleftrightarrow> (\<forall>i < n. 0 < i \<longrightarrow> \<not> key_less (ks ! i) (ks ! parent i))"

definition up_heap :: "nat \<Rightarrow> nat \<Rightarrow> (int \<times> nat) list \<Rightarrow> bool" where
  "up_heap j n ks \<longleftrightarrow> (\<forall>i < n. 0 < i \<and> i \<noteq> j \<longrightarrow> \<not> key_less (ks ! i) (ks ! parent i))
     \<and> (\<forall>i < n. 0 < i \<and> 0 < j \<and> parent i = j \<longrightarrow> \<not> key_less (ks ! i) (ks ! parent j))"

definition down_heap :: "nat \<Rightarrow> nat \<Rightarrow> (int \<times> nat) list \<Rightarrow> bool" where
  "down_heap j n ks \<longleftrightarrow> (\<forall>i < n. 0 < i \<and> parent i \<noteq> j \<longrightarrow> \<not> key_less (ks ! i) (ks ! parent i))
     \<and> (\<forall>i < n. 0 < i \<and> 0 < j \<and> parent i = j \<longrightarrow> \<not> key_less (ks ! i) (ks ! parent j))"

lemma parent_less [simp]: "0 < i \<Longrightarrow> parent i < i"
  by (auto simp: parent_def)

lemma parent_le [simp]: "parent i \<le> i"
  by (auto simp: parent_def)

lemma parent_iff: "0 < i \<Longrightarrow> parent i = j \<longleftrightarrow> i = 2 * j + 1 \<or> i = 2 * j + 2"
  by (auto simp: parent_def)

lemma nth_swapped:
  "i < length ks \<Longrightarrow> j < length ks \<Longrightarrow> k < length ks \<Longrightarrow>
    swapped ks i j ! k = (if k = j then ks ! i else if k = i then ks ! j else ks ! k)"
  by (simp add: swapped_def nth_list_update)

lemma length_swapped [simp]: "length (swapped ks i j) = length ks"
  by (simp add: swapped_def)

lemma up_heap_swap:
  assumes "up_heap j n ks" "0 < j" "j < n" "n \<le> length ks" "key_less (ks ! j) (ks ! parent j)"
  shows "up_heap (parent j) n (swapped ks (parent j) j)"
proof -
  let ?p = "parent j"
  have p: "?p < j" "?p < length ks" "j < length ks" using assms(2-4) parent_less [of j] by linarith+
  have old: "i < n \<Longrightarrow> 0 < i \<Longrightarrow> i \<noteq> j \<Longrightarrow> \<not> key_less (ks ! i) (ks ! parent i)"
    and kid: "i < n \<Longrightarrow> 0 < i \<Longrightarrow> parent i = j \<Longrightarrow> \<not> key_less (ks ! i) (ks ! ?p)" for i
    using assms(1,2) by (auto simp: up_heap_def)
  have at: "swapped ks ?p j ! k = (if k = j then ks ! ?p else if k = ?p then ks ! j else ks ! k)" if "k < n" for k
    using nth_swapped [OF p(2,3), of k] that assms(4) by simp
  have "\<not> key_less (swapped ks ?p j ! i) (swapped ks ?p j ! parent i)" if i: "i < n" "0 < i" "i \<noteq> ?p" for i
  proof -
    have "parent i < n" using parent_less [of i] i by linarith
    note v = at [OF i(1)] at [OF this]
    consider "i = j" | "i \<noteq> j" "parent i = j" | "i \<noteq> j" "parent i = ?p" "?p \<noteq> j" | "i \<noteq> j" "parent i \<noteq> j" "parent i \<noteq> ?p"
      using p(1) by (cases "i = j"; cases "parent i = j"; cases "parent i = ?p") auto
    then show ?thesis
    proof cases
      case 1
      with v p(1) show ?thesis using key_less_asym [OF assms(5)] by simp
    next
      case 2
      with v i kid [of i] show ?thesis by simp
    next
      case 3
      with v i old [of i] show ?thesis
        using key_less_trans [of "ks ! i" "ks ! j" "ks ! ?p"] assms(5) by auto
    next
      case 4
      with v i old [of i] show ?thesis by simp
    qed
  qed
  moreover have "\<not> key_less (swapped ks ?p j ! i) (swapped ks ?p j ! parent ?p)"
    if i: "i < n" "0 < i" "0 < ?p" "parent i = ?p" for i
  proof -
    have "parent ?p < ?p" using i(3) by simp
    then have pp: "swapped ks ?p j ! parent ?p = ks ! parent ?p" using at [of "parent ?p"] p assms(3) by simp
    have up: "\<not> key_less (ks ! ?p) (ks ! parent ?p)" using old [of ?p] i(3) p assms(3) by simp
    have "i \<noteq> ?p" using i parent_less [of i] by linarith
    show ?thesis
    proof (cases "i = j")
      case True
      then show ?thesis using pp up at [OF i(1)] by simp
    next
      case False
      then have "\<not> key_less (ks ! i) (ks ! ?p)" using old [of i] i by simp
      with up have "\<not> key_less (ks ! i) (ks ! parent ?p)" using key_le_trans by blast
      then show ?thesis using pp at [OF i(1)] False \<open>i \<noteq> ?p\<close> by simp
    qed
  qed
  ultimately show ?thesis unfolding up_heap_def by blast
qed


text \<open>Moving down: the lesser child \<open>c\<close> of \<open>i\<close> takes its place.\<close>

definition lesser_child :: "(int \<times> nat) list \<Rightarrow> nat \<Rightarrow> nat \<Rightarrow> nat \<Rightarrow> bool" where
  "lesser_child ks i n c \<longleftrightarrow> c < n \<and> 0 < c \<and> parent c = i
     \<and> (\<forall>k < n. 0 < k \<and> parent k = i \<longrightarrow> \<not> key_less (ks ! k) (ks ! c))"

lemma down_heap_swap:
  assumes d: "down_heap i n ks" and n: "n \<le> length ks" and c: "lesser_child ks i n c" and l: "key_less (ks ! c) (ks ! i)"
  shows "down_heap c n (swapped ks i c)"
proof -
  have c': "c < n" "0 < c" "parent c = i" "\<And>k. k < n \<Longrightarrow> 0 < k \<Longrightarrow> parent k = i \<Longrightarrow> \<not> key_less (ks ! k) (ks ! c)"
    using c by (auto simp: lesser_child_def)
  have i: "i < c" "i < n" using parent_less [OF c'(2)] c'(1,3) by linarith+
  have old: "k < n \<Longrightarrow> 0 < k \<Longrightarrow> parent k \<noteq> i \<Longrightarrow> \<not> key_less (ks ! k) (ks ! parent k)"
    and kid: "k < n \<Longrightarrow> 0 < k \<Longrightarrow> 0 < i \<Longrightarrow> parent k = i \<Longrightarrow> \<not> key_less (ks ! k) (ks ! parent i)" for k
    using d by (auto simp: down_heap_def)
  have at: "swapped ks i c ! k = (if k = c then ks ! i else if k = i then ks ! c else ks ! k)" if "k < n" for k
    using nth_swapped [of i ks c k] that i c' n by simp
  have "\<not> key_less (swapped ks i c ! k) (swapped ks i c ! parent k)" if k: "k < n" "0 < k" "parent k \<noteq> c" for k
  proof -
    have "parent k < n" using parent_less [of k] k by linarith
    note v = at [OF k(1)] at [OF this]
    consider "k = c" | "k = i" | "k \<noteq> c" "k \<noteq> i" "parent k = i" | "k \<noteq> c" "k \<noteq> i" "parent k \<noteq> i" by blast
    then show ?thesis
    proof cases
      case 1
      with v c'(3) i show ?thesis using key_less_asym [OF l] by simp
    next
      case 2
      then have "parent i \<noteq> i" using k(2) parent_less [of i] by linarith
      with 2 v i kid [OF c'(1,2) _ c'(3)] k(2,3) show ?thesis by simp
    next
      case 3
      with v c'(4) [OF k(1,2)] i show ?thesis by simp
    next
      case 4
      with v k old [of k] show ?thesis by simp
    qed
  qed
  moreover have "\<not> key_less (swapped ks i c ! k) (swapped ks i c ! parent c)" if k: "k < n" "0 < k" "parent k = c" for k
  proof -
    have "c < k" using parent_less [OF k(2)] k(3) by simp
    with i have "swapped ks i c ! k = ks ! k" "swapped ks i c ! parent c = ks ! c"
      using at [OF k(1)] at [of i] c'(3) by simp_all
    with old [OF k(1,2)] k(3) i show ?thesis by simp
  qed
  ultimately show ?thesis by (auto simp: down_heap_def)
qed

lemma heap_child_lesser:
  assumes "2 * i + 1 < n" "n \<le> length (snd h)"
  shows "lesser_child (keys_of h) i n (heap_child h i n)"
proof -
  have "heap_child h i n = 2 * i + 1 \<or> heap_child h i n = 2 * i + 2" by (simp add: heap_child_def Let_def)
  moreover have "\<not> key_less (keys_of h ! k) (keys_of h ! heap_child h i n)" if "k < n" "k = 2 * i + 1 \<or> k = 2 * i + 2" for k
    using that assms Less_keys [of "2 * i + 2" h "2 * i + 1"]
      key_less_asym [of "keys_of h ! (2 * i + 2)" "keys_of h ! (2 * i + 1)"]
    by (auto simp: heap_child_def Let_def)
  then have "\<forall>k < n. 0 < k \<and> parent k = i \<longrightarrow> \<not> key_less (keys_of h ! k) (keys_of h ! heap_child h i n)"
    using parent_iff by blast
  moreover have "heap_child h i n < n" "0 < heap_child h i n" using heap_child_bounds [OF assms(1), of h] by auto
  ultimately show ?thesis unfolding lesser_child_def by (auto simp: parent_def)
qed

lemma up_ordered:
  "up_heap j n (keys_of h) \<Longrightarrow> j < n \<Longrightarrow> n \<le> length (snd h) \<Longrightarrow> heap_upto n (keys_of (heap_up h j))"
proof (induction h j rule: heap_up.induct)
  case (1 h j)
  have p: "(j - Suc 0) div 2 = parent j" by (simp add: parent_def)
  have l: "parent j < n" "parent j < length (snd h)" "j < length (snd h)" using parent_le [of j] 1(3,4) by linarith+
  show ?case
  proof (cases "parent j = j \<or> \<not> Less h j (parent j)")
    case True
    then have h: "heap_up h j = h" by (subst heap_up.simps) (simp add: Let_def p)
    have "j = 0 \<or> \<not> key_less (keys_of h ! j) (keys_of h ! parent j)"
      using True Less_keys [OF l(3,2)] parent_less [of j] by auto
    then have "heap_upto n (keys_of h)" using 1(2) by (auto simp: up_heap_def heap_upto_def)
    with h show ?thesis by simp
  next
    case False
    then have j: "0 < j" by (cases j) (auto simp: parent_def)
    have "heap_up h j = heap_up (Swap h (parent j) j) (parent j)"
      using False by (subst heap_up.simps) (simp add: Let_def p)
    moreover have "up_heap (parent j) n (keys_of (Swap h (parent j) j))"
      unfolding keys_Swap [OF l(2,3)]
      using 1(2,4) j 1(3) False Less_keys [OF l(3,2)] by (intro up_heap_swap) auto
    ultimately show ?thesis using 1(1) [of "parent j"] False l 1(4) by (simp add: p)
  qed
qed

lemma down_ordered:
  assumes "down_heap i n (keys_of h)" "n \<le> length (snd h)" "i < n"
  shows "heap_upto n (keys_of (fst (heap_down h i n)))"
  using assms
proof (induction h i n rule: heap_down.induct)
  case (1 h i n)
  let ?c = "heap_child h i n"
  show ?case
  proof (cases "2 * i + 1 \<ge> n \<or> \<not> Less h ?c i")
    case True
    then have h: "heap_down h i n = (h, i)" by (subst heap_down.simps) (auto simp: Let_def)
    have "\<not> key_less (keys_of h ! k) (keys_of h ! i)" if k: "k < n" "0 < k" "parent k = i" for k
    proof -
      have n: "2 * i + 1 < n" using k by (auto simp: parent_iff)
      with heap_child_bounds [OF n, of h] 1(3,4) True have "\<not> key_less (keys_of h ! ?c) (keys_of h ! i)"
        by (auto simp: Less_keys)
      with heap_child_lesser [OF n 1(3)] k show ?thesis by (auto simp: lesser_child_def dest: key_le_trans)
    qed
    then show ?thesis using 1(2) h by (auto simp: down_heap_def heap_upto_def)
  next
    case False
    then have n: "2 * i + 1 < n" by simp
    have c: "?c < n" "?c < length (snd h)" "i < length (snd h)" using heap_child_bounds [OF n, of h] 1(3,4) by auto
    have "heap_down h i n = heap_down (Swap h i ?c) ?c n"
      using False by (subst heap_down.simps) (simp add: Let_def)
    moreover have "down_heap ?c n (keys_of (Swap h i ?c))"
      unfolding keys_Swap [OF c(3,2)]
      using 1(2,3) heap_child_lesser [OF n 1(3)] False c by (intro down_heap_swap) (auto simp: Less_keys)
    ultimately show ?thesis using 1(1) [OF _ refl] False c 1(3) by simp
  qed
qed

text \<open>The root of a heap is its least key.\<close>

lemma heap_root: "heap_upto n ks \<Longrightarrow> i < n \<Longrightarrow> \<not> key_less (ks ! i) (ks ! 0)"
proof (induction i rule: less_induct)
  case (less i)
  show ?case
  proof (cases "i = 0")
    case False
    with less have "\<not> key_less (ks ! parent i) (ks ! 0)" "\<not> key_less (ks ! i) (ks ! parent i)"
      using parent_less [of i] by (auto simp: heap_upto_def)
    then show ?thesis by (rule key_le_trans)
  qed simp
qed


subsection \<open>What the swaps leave alone\<close>

definition content :: "'j timer \<Rightarrow> int \<times> nat \<times> f64 \<times> 'j" where
  "content t = (tm_when t, tm_seq t, tm_id t, tm_cb t)"

lemma content_set_index [simp]: "map content (set_index a i st) = map content st"
  by (cases "a < length st") (simp_all add: set_index_def content_def map_update list_update_same_conv list_update_beyond)

lemma content_Swap [simp]: "map content (fst (Swap h i j)) = map content (fst h)"
  by (simp add: Swap_def Let_def)

lemma content_up [simp]: "map content (fst (heap_up h j)) = map content (fst h)"
proof (induction h j rule: heap_up.induct)
  case (1 h j) then show ?case by (subst heap_up.simps) (simp add: Let_def del: map_eq_conv)
qed

lemma content_down [simp]: "map content (fst (fst (heap_down h i n))) = map content (fst h)"
proof (induction h i n rule: heap_down.induct)
  case (1 h i n) then show ?case by (subst heap_down.simps) (simp add: Let_def del: map_eq_conv)
qed

lemma up_beyond: "j < k \<Longrightarrow> snd (heap_up h j) ! k = snd h ! k"
proof (induction h j rule: heap_up.induct)
  case (1 h j)
  have i: "(j - 1) div 2 < k" using 1(2) by linarith
  show ?case
  proof (cases "(j - 1) div 2 = j \<or> \<not> Less h j ((j - 1) div 2)")
    case False
    have "heap_up h j = heap_up (Swap h ((j - 1) div 2) j) ((j - 1) div 2)"
      using False by (subst heap_up.simps) (simp add: Let_def)
    with 1(1) [OF refl False i] 1(2) i show ?thesis by simp
  qed (subst heap_up.simps, simp add: Let_def)
qed

lemma down_beyond: "n \<le> k \<Longrightarrow> snd (fst (heap_down h i n)) ! k = snd h ! k"
proof (induction h i n rule: heap_down.induct)
  case (1 h i n)
  show ?case
  proof (cases "2 * i + 1 \<ge> n \<or> \<not> Less h (heap_child h i n) i")
    case True
    then have "heap_down h i n = (h, i)" by (subst heap_down.simps) (auto simp: Let_def)
    then show ?thesis by simp
  next
    case False
    have "heap_down h i n = heap_down (Swap h i (heap_child h i n)) (heap_child h i n) n"
      using False by (subst heap_down.simps) (simp add: Let_def)
    with 1(1) [OF _ refl _ 1(2)] False heap_child_bounds [of i n h] 1(2) show ?thesis by simp
  qed
qed

lemma down_stays:
  assumes "\<And>k. k < n \<Longrightarrow> 0 < k \<Longrightarrow> parent k = i \<Longrightarrow> \<not> key_less (keys_of h ! k) (keys_of h ! i)"
    and "n \<le> length (snd h)"
  shows "heap_down h i n = (h, i)"
proof (cases "2 * i + 1 < n")
  case True
  have c: "lesser_child (keys_of h) i n (heap_child h i n)" by (rule heap_child_lesser [OF True assms(2)])
  then have "\<not> key_less (keys_of h ! heap_child h i n) (keys_of h ! i)" using assms(1) by (auto simp: lesser_child_def)
  moreover have "i < length (snd h)" "heap_child h i n < length (snd h)" using True c assms(2) by (auto simp: lesser_child_def)
  ultimately have "\<not> Less h (heap_child h i n) i" by (simp add: Less_keys)
  with True show ?thesis by (subst heap_down.simps) (simp add: Let_def)
qed (subst heap_down.simps, simp)

subsection \<open>The invariant\<close>

definition timers_ok :: "'j timers \<Rightarrow> bool" where
  "timers_ok h \<longleftrightarrow> placed h \<and> heap_upto (length (snd h)) (keys_of h)"

text \<open>A heap is one up to its last place after the last is dropped.\<close>

lemma heap_last_ok:
  assumes "placed h" "heap_upto (length (snd h) - 1) (keys_of h)" "snd h \<noteq> []" "heap_last h = (a, h')"
  shows "a = last (snd h)" "timers_ok h'" "snd h' = butlast (snd h)" "map content (fst h') = map content (fst h)"
    "length (fst h') = length (fst h)"
proof -
  let ?a = "snd h ! (length (snd h) - 1)"
  have h': "h' = (set_index ?a (-1) (fst h), butlast (snd h))" and a: "a = ?a"
    using assms(4) by (auto simp: heap_last_def Let_def butlast_conv_take)
  show "a = last (snd h)" using a assms(3) by (simp add: last_conv_nth)
  show b: "snd h' = butlast (snd h)" "map content (fst h') = map content (fst h)" "length (fst h') = length (fst h)"
    by (simp_all add: h')
  have al: "?a < length (fst h)" "?a \<notin> set (butlast (snd h))"
  proof -
    have "snd h = butlast (snd h) @ [?a]"
      using append_butlast_last_id [OF assms(3)] last_conv_nth [OF assms(3)] by simp
    then have "distinct (butlast (snd h) @ [?a])" "set (butlast (snd h) @ [?a]) \<subseteq> {..<length (fst h)}"
      using assms(1) by (auto simp: placed_def)
    then show "?a < length (fst h)" "?a \<notin> set (butlast (snd h))" by auto
  qed
  have "placed h'" unfolding placed_def
  proof (intro conjI allI impI)
    show "distinct (snd h')" using assms(1) by (simp add: b placed_def distinct_butlast)
    show "set (snd h') \<subseteq> {..<length (fst h')}" using assms(1) by (auto simp: b placed_def dest: in_set_butlastD)
    fix i assume i: "i < length (snd h')"
    then have n: "snd h' ! i = snd h ! i" by (simp add: b nth_butlast)
    have "snd h' ! i \<in> set (butlast (snd h))" using i b(1) nth_mem [of i "snd h'"] by simp
    then have "?a \<noteq> snd h ! i" using al(2) n by auto
    then show "tm_index (fst h' ! (snd h' ! i)) = int i"
      using i n assms(1) al(1) by (simp add: h' index_set_index placed_def)
  qed
  moreover have "keys_of h' ! i = keys_of h ! i" if "i < length (snd h) - 1" for i
    using that by (simp add: keys_of_def h' nth_butlast)
  then have "heap_upto (length (snd h')) (keys_of h')"
    using assms(2) unfolding heap_upto_def b(1) length_butlast
    by (metis parent_less less_trans)
  ultimately show "timers_ok h'" by (simp add: timers_ok_def)
qed


lemma content_key: "map content st = map content st' \<Longrightarrow> b < length st \<Longrightarrow> timer_key (st ! b) = timer_key (st' ! b)"
proof -
  assume m: "map content st = map content st'" and b: "b < length st"
  then have "length st = length st'" by (metis length_map)
  with m b have "content (st ! b) = content (st' ! b)" by (metis nth_map)
  then show ?thesis by (simp add: content_def timer_key_def)
qed

text \<open>What a \<open>Push\<close> and a removal do, of an address in the store.\<close>

lemma Push_ok:
  assumes "timers_ok h" "a < length (fst h)" "a \<notin> set (snd h)" "heap_Push h a = h'"
  shows "timers_ok h'" "mset (snd h') = add_mset a (mset (snd h))" "map content (fst h') = map content (fst h)"
    "length (fst h') = length (fst h)"
proof -
  let ?g = "heap_append h a" and ?n = "length (snd h)"
  have g: "fst ?g = set_index a (int ?n) (fst h)" "snd ?g = snd h @ [a]" by (simp_all add: heap_append_def)
  have p: "placed ?g" using assms(1-3)
    by (auto simp: placed_def timers_ok_def g index_set_index nth_append less_Suc_eq)
  have keys: "keys_of ?g ! k = keys_of h ! k" if "k < ?n" for k
    using that by (simp add: keys_of_def g nth_append)
  have "up_heap ?n (Suc ?n) (keys_of ?g)" unfolding up_heap_def
  proof (intro conjI allI impI)
    fix i assume i: "i < Suc ?n" "0 < i \<and> i \<noteq> ?n"
    then have "i < ?n" "parent i < ?n" using parent_less [of i] by linarith+
    with i keys assms(1) show "\<not> key_less (keys_of ?g ! i) (keys_of ?g ! parent i)"
      by (simp add: timers_ok_def heap_upto_def)
  next
    fix i assume "i < Suc ?n" "0 < i \<and> 0 < ?n \<and> parent i = ?n"
    then show "\<not> key_less (keys_of ?g ! i) (keys_of ?g ! parent ?n)" using parent_less [of i] by linarith
  qed
  then have "heap_upto (Suc ?n) (keys_of (heap_up ?g ?n))" by (rule up_ordered) (simp_all add: g)
  moreover have h': "h' = heap_up ?g ?n" using assms(4) by (simp add: heap_Push_def g Let_def)
  moreover have "placed (heap_up ?g ?n)" "mset (snd (heap_up ?g ?n)) = mset (snd ?g)"
    "length (fst (heap_up ?g ?n)) = length (fst ?g)"
    using placed_up [OF p, of ?n] by (simp_all add: g)
  moreover from this(2) have "length (snd (heap_up ?g ?n)) = Suc ?n" by (metis mset_eq_length g(2) length_append_singleton)
  ultimately show "timers_ok h'" "mset (snd h') = add_mset a (mset (snd h))" "length (fst h') = length (fst h)"
    by (simp_all add: timers_ok_def g)
  show "map content (fst h') = map content (fst h)" unfolding h' content_up g by simp
qed

lemma Pop_ok:
  assumes "timers_ok h" "snd h \<noteq> []" "heap_Pop h = (a, h')"
  shows "a = snd h ! 0" "timers_ok h'" "add_mset a (mset (snd h')) = mset (snd h)" "map content (fst h') = map content (fst h)"
    "length (fst h') = length (fst h)"
proof -
  let ?n = "length (snd h) - 1"
  define g where "g = Swap h 0 ?n"
  define d where "d = fst (heap_down g 0 ?n)"
  have n: "0 < length (snd h)" "?n < length (snd h)" using assms(2) by auto
  have h: "placed h" "heap_upto (length (snd h)) (keys_of h)" using assms(1) by (simp_all add: timers_ok_def)
  note gp = placed_Swap [OF h(1) n, folded g_def]
  have gl: "length (snd g) = length (snd h)" by (simp add: g_def)
  note dp = placed_down [OF gp(1), of 0 ?n, folded d_def]
  have dm: "mset (snd d) = mset (snd h)" "placed d" "length (fst d) = length (fst h)"
    using dp gp(2) n gl by (simp_all add: g_def)
  have dl: "length (snd d) = length (snd h)" using dm(1) by (rule mset_eq_length)
  have "down_heap 0 ?n (keys_of g)" unfolding down_heap_def
  proof (intro conjI allI impI)
    fix i assume i: "i < ?n" "0 < i \<and> parent i \<noteq> 0"
    then have "parent i < ?n" "0 < parent i" using parent_less [of i] by linarith+
    with i show "\<not> key_less (keys_of g ! i) (keys_of g ! parent i)"
      using h(2) n unfolding g_def keys_Swap [OF n] by (simp add: nth_swapped heap_upto_def)
  qed simp
  then have "heap_upto ?n (keys_of d)"
    using down_ordered [of 0 ?n g] n gl unfolding d_def by (cases "0 < ?n") (auto simp: heap_upto_def)
  then have o: "heap_upto (length (snd d) - 1) (keys_of d)" using dl by simp
  have ne: "snd d \<noteq> []" using dl n(1) by auto
  have "heap_last d = (a, h')" using assms(3) by (simp add: heap_Pop_def Let_def d_def g_def)
  note l = heap_last_ok [OF dm(2) o ne this]
  have "last (snd d) = snd d ! ?n" using ne dl by (simp add: last_conv_nth)
  also have "\<dots> = snd g ! ?n" unfolding d_def by (rule down_beyond) simp
  also have "\<dots> = snd h ! 0" using n by (simp add: g_def nth_list_update)
  finally show a: "a = snd h ! 0" using l(1) by simp
  show "timers_ok h'" "length (fst h') = length (fst h)" using l(2,5) dm(3) by simp_all
  show "add_mset a (mset (snd h')) = mset (snd h)"
    using l(1,3) ne dm(1) by (metis append_butlast_last_id mset_append add_mset_add_single mset_single_iff_right mset.simps)
  show "map content (fst h') = map content (fst h)" unfolding l(4) d_def content_down g_def content_Swap ..
qed


lemma heap_up_heap: "heap_upto n ks \<Longrightarrow> i < n \<Longrightarrow> up_heap i n ks"
  unfolding heap_upto_def up_heap_def by (metis key_le_trans)

text \<open>After the last key takes the place of the \<open>i\<close>th, either it moves down or it moves up.\<close>

lemma removal_ordered:
  assumes p: "heap_upto (Suc n) (keys_of h)" and i: "i < n" and l: "length (snd h) = Suc n"
  defines "g \<equiv> Swap h i n"
  shows "heap_upto n (keys_of (let (h', i') = heap_down g i n in if \<not> i' > i then heap_up h' i else h'))"
proof -
  let ?ks = "keys_of g"
  have il: "i < length (snd h)" "n < length (snd h)" using i l by simp_all
  have gl: "n \<le> length (snd g)" using l by (simp add: g_def)
  have at: "?ks ! k = keys_of h ! (if k = i then n else k)" if "k < n" for k
    using that il by (simp add: g_def keys_Swap nth_swapped)
  have old: "\<not> key_less (keys_of h ! k) (keys_of h ! parent k)" if "k < Suc n" "0 < k" for k
    using p that by (simp add: heap_upto_def)
  have other: "\<not> key_less (?ks ! k) (?ks ! parent k)" if "k < n" "0 < k" "k \<noteq> i" "parent k \<noteq> i" for k
    using that old [of k] at [of k] at [of "parent k"] less_trans [OF parent_less [of k]] by simp
  have kid: "\<not> key_less (?ks ! k) (?ks ! parent i)" if "k < n" "0 < k" "0 < i" "parent k = i" for k
  proof -
    have "\<not> key_less (keys_of h ! k) (keys_of h ! i)" "\<not> key_less (keys_of h ! i) (keys_of h ! parent i)"
      using old [of k] old [of i] that i by auto
    then have "\<not> key_less (keys_of h ! k) (keys_of h ! parent i)" using key_le_trans by blast
    moreover have "i < k" using that parent_less [of k] by auto
    moreover have "?ks ! parent i = keys_of h ! parent i"
      using at [of "parent i"] parent_less [OF that(3)] i by (simp del: parent_less)
    ultimately show ?thesis using at [of k] that i by simp
  qed
  show ?thesis
  proof (cases "0 < i \<and> key_less (?ks ! i) (?ks ! parent i)")
    case True
    have "heap_down g i n = (g, i)"
    proof (rule down_stays [OF _ gl])
      fix k assume k: "k < n" "0 < k" "parent k = i"
      show "\<not> key_less (?ks ! k) (?ks ! i)"
        using kid [OF k(1,2) _ k(3)] True key_less_trans [of "?ks ! k" "?ks ! i" "?ks ! parent i"] by blast
    qed
    moreover have "up_heap i n ?ks" unfolding up_heap_def
    proof (intro conjI allI impI)
      fix k assume k: "k < n" "0 < k \<and> k \<noteq> i"
      show "\<not> key_less (?ks ! k) (?ks ! parent k)"
      proof (cases "parent k = i")
        case pk: True
        show ?thesis
          using kid [OF k(1) _ _ pk] k True key_less_trans [of "?ks ! k" "?ks ! i" "?ks ! parent i"] pk by auto
      qed (use other k in simp)
    qed (use kid in simp)
    then have "heap_upto n (keys_of (heap_up g i))" by (rule up_ordered) (use i gl in simp_all)
    ultimately show ?thesis by simp
  next
    case False
    then have "down_heap i n ?ks" using other kid unfolding down_heap_def
      by (metis (no_types) parent_def zero_less_iff_neq_zero)
    then have d: "heap_upto n (keys_of (fst (heap_down g i n)))" by (rule down_ordered) (use i gl in simp_all)
    obtain h' i' where hd: "heap_down g i n = (h', i')" by (cases "heap_down g i n")
    have "length (snd h') = length (snd g)"
    proof -
      have "length (snd (fst (heap_down h0 i0 n0))) = length (snd h0)" for h0 :: "'a timers" and i0 n0
      proof (induction h0 i0 n0 rule: heap_down.induct)
        case (1 h i n) then show ?case by (subst heap_down.simps) (simp add: Let_def)
      qed
      from this [of g i n] hd show ?thesis by simp
    qed
    then have "heap_upto n (keys_of (heap_up h' i))"
      using d hd gl i by (intro up_ordered heap_up_heap) simp_all
    with d hd show ?thesis by simp
  qed
qed

lemma Remove_ok:
  assumes "timers_ok h" "i < length (snd h)" "heap_Remove h i = (a, h')"
  shows "a = snd h ! i" "timers_ok h'" "add_mset a (mset (snd h')) = mset (snd h)" "map content (fst h') = map content (fst h)"
    "length (fst h') = length (fst h)"
proof -
  let ?n = "length (snd h) - 1"
  define g where "g = (if ?n \<noteq> i
     then let (h', i') = heap_down (Swap h i ?n) i ?n in if \<not> i' > i then heap_up h' i else h' else h)"
  have h: "placed h" "heap_upto (length (snd h)) (keys_of h)" using assms(1) by (simp_all add: timers_ok_def)
  have n: "?n < length (snd h)" "Suc ?n = length (snd h)" using assms(2) by auto
  have "heap_last g = (a, h')" using assms(3) unfolding heap_Remove_def g_def Let_def by simp
  moreover have g: "placed g \<and> mset (snd g) = mset (snd h) \<and> length (fst g) = length (fst h)
      \<and> map content (fst g) = map content (fst h) \<and> heap_upto ?n (keys_of g) \<and> snd g ! ?n = snd h ! i"
  proof (cases "?n = i")
    case True
    then show ?thesis using h by (auto simp: g_def heap_upto_def)
  next
    case False
    with assms(2) have i: "i < ?n" by linarith
    define s where "s = Swap h i ?n"
    obtain h1 i1 where hd: "heap_down s i ?n = (h1, i1)" by (cases "heap_down s i ?n")
    have gg: "g = (if \<not> i1 > i then heap_up h1 i else h1)" using False hd by (simp add: g_def s_def)
    note sp = placed_Swap [OF h(1) assms(2) n(1), folded s_def]
    have sl: "length (snd s) = length (snd h)" "length (fst s) = length (fst h)" by (simp_all add: s_def)
    have 1: "placed h1" "mset (snd h1) = mset (snd h)" "length (fst h1) = length (fst h)"
      using placed_down [OF sp(1), of i ?n] i sl sp(2) hd by simp_all
    have l1: "length (snd h1) = length (snd h)" using 1(2) by (rule mset_eq_length)
    have 2: "placed g \<and> mset (snd g) = mset (snd h) \<and> length (fst g) = length (fst h)"
      using placed_up [OF 1(1), of i] 1 l1 assms(2) by (simp add: gg)
    have "map content (fst h1) = map content (fst h)" using content_down [of s i ?n] unfolding hd by (simp only: fst_conv s_def content_Swap)
    then have 3: "map content (fst g) = map content (fst h)" using content_up [of h1 i] by (simp add: gg)
    have "heap_upto ?n (keys_of g)"
      using removal_ordered [OF _ i n(2) [symmetric]] h(2) n(2) False by (simp add: g_def)
    moreover have "snd g ! ?n = snd h1 ! ?n" using up_beyond [OF i, of h1] by (simp add: gg)
    moreover have "snd h1 ! ?n = snd s ! ?n" using down_beyond [of ?n ?n s i] hd by simp
    moreover have "snd s ! ?n = snd h ! i" using n assms(2) by (simp add: s_def nth_list_update)
    ultimately show ?thesis using 2 3 by simp
  qed
  moreover have gl: "length (snd g) = length (snd h)" using g by (metis mset_eq_length)
  ultimately have hl: "placed g" "heap_upto (length (snd g) - 1) (keys_of g)" "snd g \<noteq> []" "heap_last g = (a, h')"
    using assms(2) by auto
  note l = heap_last_ok [OF hl]
  show "a = snd h ! i" using l(1) hl(3) g gl by (simp add: last_conv_nth)
  show "timers_ok h'" "length (fst h') = length (fst h)" "map content (fst h') = map content (fst h)"
    using l(2,4,5) g by simp_all
  show "add_mset a (mset (snd h')) = mset (snd h)"
    using l(1,3) hl(3) g by (metis append_butlast_last_id mset_append add_mset_add_single mset_single_iff_right mset.simps)
qed

end
