(* ===== verification/Domain.thy ===== *)
theory Domain
  imports TimerHeap
begin

text \<open>
  Domains (\<open>backend/runtime/domain.go\<close>), their promises (\<open>promise.go\<close>), the calls parked in an
  \<open>await\<close> (\<open>parked.go\<close>) and the rejections nothing handles (\<open>rejection.go\<close>).

  One goroutine holds a domain's token at any moment, so a domain is a value its operations
  update in turn. Promises and async calls are addresses into the domain's stores. What the
  program's own code does is a parameter: \<open>run\<close> for a callback, \<open>continue\<close> for an async call
  resumed after an \<open>await\<close>, each from the domain to its outcome, a panic or none, and the domain
  it leaves. \<open>'c\<close> are callbacks, \<open>'v\<close> the promises' values and \<open>'t\<close> what is thrown. A number that
  only counts (\<open>seq\<close>, a timer's id) is not wrapped at \<open>2^64\<close>.

  Proved in \<open>DomainLaws\<close>.
\<close>

datatype phase = inModule | inMicrotask | inTimer | inCallback | inHandler

text \<open>What a driver may recover: a throw, a rejection nothing handled, or a panic of the runtime's.\<close>

datatype 't panic = PThrown 't | PUnhandled 't | PRuntime string

text \<open>A microtask: of the program, the reaction \<open>Await\<close> leaves, or one of \<open>failAfter\<close>.\<close>

datatype 'c job = Program_job 'c | Resume nat | Fail_after nat nat

record ('c, 'v, 't) promise =
  p_owner :: nat
  p_settled :: bool
  p_reason :: "'t option"
  p_handled :: bool
  p_reactions :: "'c job list"
  p_value :: "'v option"

record co =
  co_parkedAt :: nat
  co_aborted :: bool

record ('c, 'v, 't) Domain =
  d_self :: nat
  d_micro :: "'c job list"
  d_microHead :: nat
  d_timers :: "'c timers"
  d_byID :: "f64 \<rightharpoonup> nat"
  d_seq :: nat
  d_spawned :: nat
  d_running :: phase
  d_tick :: "'t option"
  d_rejected :: "nat list"
  d_parked :: "nat list"
  d_inbox :: "'c list"
  d_promises :: "('c, 'v, 't) promise list"
  d_cos :: "co list"

type_synonym ('c, 'v, 't) outcome = "'t panic option \<times> ('c, 'v, 't) Domain"

definition newDomain :: "nat \<Rightarrow> ('c, 'v, 't) Domain" where
  "newDomain name = \<lparr>d_self = name, d_micro = [], d_microHead = 0, d_timers = ([], []), d_byID = Map.empty, d_seq = 0,
     d_spawned = 0, d_running = inModule, d_tick = None, d_rejected = [], d_parked = [], d_inbox = [],
     d_promises = [], d_cos = []\<rparr>"

subsection \<open>Microtasks\<close>

definition post :: "('c, 'v, 't) Domain \<Rightarrow> 'c \<Rightarrow> ('c, 'v, 't) Domain" where
  "post d f = d\<lparr>d_inbox := d_inbox d @ [f]\<rparr>"

definition queueMicrotask :: "('c, 'v, 't) Domain \<Rightarrow> 'c job \<Rightarrow> ('c, 'v, 't) Domain" where
  "queueMicrotask d f = d\<lparr>d_micro := d_micro d @ [f]\<rparr>"

definition pending :: "('c, 'v, 't) Domain \<Rightarrow> bool" where
  "pending d \<longleftrightarrow> length (snd (d_timers d)) > 0 \<or> d_spawned d > 0"

definition busy :: "('c, 'v, 't) Domain \<Rightarrow> bool" where
  "busy d \<longleftrightarrow> pending d \<or> d_microHead d < length (d_micro d) \<or> length (d_parked d) > 0"

subsection \<open>Timers\<close>

text \<open>
  \<open>timerDelay\<close>, in nanoseconds: \<open>math.MaxInt32\<close> is \<open>2^31 - 1\<close>, and \<open>time.Duration(f)\<close> truncates.
\<close>

definition timerDelay :: "f64 \<Rightarrow> int" where
  "timerDelay ms =
     (let ms = (if \<not> (f64_le (Fin 1) ms \<and> f64_le ms (Fin 2147483647)) then Fin 1 else ms)
      in f64_int (f64_mul ms (Fin 1000000)))"

text \<open>\<open>SetTimeout\<close>, at the time \<open>now\<close>, with the number of ids the process has given out.\<close>

definition SetTimeout :: "int \<Rightarrow> nat \<Rightarrow> ('c, 'v, 't) Domain \<Rightarrow> 'c \<Rightarrow> f64 \<Rightarrow> f64 \<times> nat \<times> ('c, 'v, 't) Domain" where
  "SetTimeout now ids d cb ms =
     (let id' = f64_of_nat (ids + 1);
          seq = d_seq d + 1;
          t = \<lparr>tm_when = now + timerDelay ms, tm_seq = seq, tm_id = id', tm_cb = cb, tm_index = 0\<rparr>;
          a = length (fst (d_timers d));
          h = heap_Push (fst (d_timers d) @ [t], snd (d_timers d)) a
      in (id', ids + 1, d\<lparr>d_seq := seq, d_timers := h, d_byID := (d_byID d)(id' \<mapsto> a)\<rparr>))"

definition ClearTimeout :: "('c, 'v, 't) Domain \<Rightarrow> f64 \<Rightarrow> ('c, 'v, 't) Domain" where
  "ClearTimeout d i =
     (case d_byID d i of
        None \<Rightarrow> d
      | Some a \<Rightarrow>
          let h = snd (heap_Remove (d_timers d) (nat (tm_index (fst (d_timers d) ! a))))
          in d\<lparr>d_byID := (d_byID d)(i := None), d_timers := h\<rparr>)"

definition nextDue :: "('c, 'v, 't) Domain \<Rightarrow> int option" where
  "nextDue d = (if snd (d_timers d) = [] then None else Some (tm_when (fst (d_timers d) ! (snd (d_timers d) ! 0))))"

text \<open>The timer \<open>fireDue\<close> takes next, at the time \<open>now\<close>, off the heap and out of \<open>byID\<close>.\<close>

definition take_due :: "int \<Rightarrow> ('c, 'v, 't) Domain \<Rightarrow> ('c timer \<times> ('c, 'v, 't) Domain) option" where
  "take_due now d =
     (case nextDue d of
        None \<Rightarrow> None
      | Some t \<Rightarrow>
          if t > now then None
          else let (a, h) = heap_Pop (d_timers d); tm = fst h ! a
               in Some (tm, d\<lparr>d_timers := h, d_byID := (d_byID d)(tm_id tm := None), d_running := inTimer\<rparr>))"

subsection \<open>Promises\<close>

definition upd_promise :: "nat \<Rightarrow> (('c, 'v, 't) promise \<Rightarrow> ('c, 'v, 't) promise) \<Rightarrow> ('c, 'v, 't) Domain \<Rightarrow> ('c, 'v, 't) Domain" where
  "upd_promise p f d = d\<lparr>d_promises := (d_promises d)[p := f (d_promises d ! p)]\<rparr>"

definition new_promise :: "('c, 'v, 't) Domain \<Rightarrow> nat \<times> ('c, 'v, 't) Domain" where
  "new_promise d =
     (length (d_promises d), d\<lparr>d_promises := d_promises d @ [\<lparr>p_owner = d_self d, p_settled = False, p_reason = None,
        p_handled = False, p_reactions = [], p_value = None\<rparr>]\<rparr>)"

definition settle :: "nat \<Rightarrow> 't option \<Rightarrow> ('c, 'v, 't) Domain \<Rightarrow> ('c, 'v, 't) Domain" where
  "settle p reason d =
     (let rs = p_reactions (d_promises d ! p);
          d1 = upd_promise p (\<lambda>x. x\<lparr>p_settled := True, p_reason := reason\<rparr>) d;
          d2 = foldl queueMicrotask d1 rs
      in upd_promise p (\<lambda>x. x\<lparr>p_reactions := []\<rparr>) d2)"

definition resolve :: "nat \<Rightarrow> 'v \<Rightarrow> ('c, 'v, 't) Domain \<Rightarrow> ('c, 'v, 't) Domain" where
  "resolve p v d =
     (if p_settled (d_promises d ! p) then d
      else settle p None (upd_promise p (\<lambda>x. x\<lparr>p_value := Some v\<rparr>) d))"

definition reject :: "nat \<Rightarrow> 't \<Rightarrow> ('c, 'v, 't) Domain \<Rightarrow> ('c, 'v, 't) Domain" where
  "reject p t d =
     (if p_settled (d_promises d ! p) then d
      else settle p (Some t) (if \<not> p_handled (d_promises d ! p) then d\<lparr>d_rejected := d_rejected d @ [p]\<rparr> else d))"

definition then_do :: "nat \<Rightarrow> 'c job \<Rightarrow> ('c, 'v, 't) Domain \<Rightarrow> ('c, 'v, 't) Domain" where
  "then_do p r d =
     (let d1 = upd_promise p (\<lambda>x. x\<lparr>p_handled := True\<rparr>) d
      in if p_settled (d_promises d1 ! p) then queueMicrotask d1 r
         else upd_promise p (\<lambda>x. x\<lparr>p_reactions := p_reactions x @ [r]\<rparr>) d1)"

definition errCrossDomain :: string where
  "errCrossDomain = ''cakebear: a promise was used outside the request or program that created it''"

definition checkDomain :: "nat \<Rightarrow> nat \<Rightarrow> ('c, 'v, 't) Domain \<Rightarrow> 't panic option" where
  "checkDomain caller p d = (if caller \<noteq> p_owner (d_promises d ! p) then Some (PRuntime errCrossDomain) else None)"

text \<open>The functions \<open>NewPromise\<close> gives its executor, called in the domain \<open>caller\<close>.\<close>

definition resolveFn :: "nat \<Rightarrow> nat \<Rightarrow> 'v \<Rightarrow> ('c, 'v, 't) Domain \<Rightarrow> ('c, 'v, 't) outcome" where
  "resolveFn p caller v d = (case checkDomain caller p d of Some e \<Rightarrow> (Some e, d) | None \<Rightarrow> (None, resolve p v d))"

definition rejectFn :: "nat \<Rightarrow> nat \<Rightarrow> 't \<Rightarrow> ('c, 'v, 't) Domain \<Rightarrow> ('c, 'v, 't) outcome" where
  "rejectFn p caller t d = (case checkDomain caller p d of Some e \<Rightarrow> (Some e, d) | None \<Rightarrow> (None, reject p t d))"

text \<open>\<open>execute\<close>: \<open>Try\<close> catches a throw, and lets any other panic through.\<close>

definition execute :: "nat \<Rightarrow> (('c, 'v, 't) Domain \<Rightarrow> ('c, 'v, 't) outcome) \<Rightarrow> ('c, 'v, 't) Domain \<Rightarrow> ('c, 'v, 't) outcome" where
  "execute p executor d =
     (case executor d of (Some (PThrown t), d') \<Rightarrow> (None, reject p t d') | other \<Rightarrow> other)"

definition NewPromise :: "(nat \<Rightarrow> ('c, 'v, 't) Domain \<Rightarrow> ('c, 'v, 't) outcome) \<Rightarrow> ('c, 'v, 't) Domain
    \<Rightarrow> nat \<times> ('c, 'v, 't) outcome" where
  "NewPromise executor d = (let (p, d') = new_promise d in (p, execute p (executor p) d'))"

subsection \<open>Async calls\<close>

definition park :: "nat \<Rightarrow> ('c, 'v, 't) Domain \<Rightarrow> ('c, 'v, 't) Domain" where
  "park c d =
     d\<lparr>d_cos := (d_cos d)[c := (d_cos d ! c)\<lparr>co_parkedAt := length (d_parked d)\<rparr>], d_parked := d_parked d @ [c]\<rparr>"

definition unpark :: "nat \<Rightarrow> ('c, 'v, 't) Domain \<Rightarrow> ('c, 'v, 't) Domain" where
  "unpark c d =
     (let last' = length (d_parked d) - 1;
          moved = d_parked d ! last';
          i = co_parkedAt (d_cos d ! c)
      in d\<lparr>d_parked := take last' ((d_parked d)[i := moved]),
           d_cos := (d_cos d)[moved := (d_cos d ! moved)\<lparr>co_parkedAt := i\<rparr>]\<rparr>)"

text \<open>How a stretch of an async call ends: it returned, threw, panicked, or parked in an \<open>await\<close>.\<close>

datatype ('v, 't) stretch = Returned 'v | Threw 't | Panicked "'t panic" | Parked

text \<open>The deferred function of \<open>Async\<close>, and \<open>wait\<close>, which raises the panic of another kind again.\<close>

definition after_stretch :: "nat \<Rightarrow> ('v, 't) stretch \<Rightarrow> ('c, 'v, 't) Domain \<Rightarrow> ('c, 'v, 't) outcome" where
  "after_stretch p e d =
     (case e of
        Returned v \<Rightarrow> (None, resolve p v d)
      | Threw t \<Rightarrow> (None, reject p t d)
      | Panicked r \<Rightarrow> (Some r, d)
      | Parked \<Rightarrow> (None, d))"

definition Async :: "(nat \<Rightarrow> ('c, 'v, 't) Domain \<Rightarrow> ('v, 't) stretch \<times> ('c, 'v, 't) Domain) \<Rightarrow> ('c, 'v, 't) Domain
    \<Rightarrow> nat \<times> ('c, 'v, 't) outcome" where
  "Async body d =
     (let (p, d1) = new_promise d;
          c = length (d_cos d1);
          (e, d2) = body c (d1\<lparr>d_cos := d_cos d1 @ [\<lparr>co_parkedAt = 0, co_aborted = False\<rparr>]\<rparr>)
      in (p, after_stretch p e d2))"

text \<open>\<open>Await\<close> up to where it hands the token back, and what it does when it has it again.\<close>

definition Await :: "nat \<Rightarrow> nat \<Rightarrow> ('c, 'v, 't) Domain \<Rightarrow> ('c, 'v, 't) outcome" where
  "Await c p d =
     (case checkDomain (d_self d) p d of
        Some e \<Rightarrow> (Some e, d)
      | None \<Rightarrow> (None, park c (then_do p (Resume c) d)))"

definition awaited :: "nat \<Rightarrow> ('c, 'v, 't) Domain \<Rightarrow> 't + 'v option" where
  "awaited p d = (case p_reason (d_promises d ! p) of Some t \<Rightarrow> Inl t | None \<Rightarrow> Inr (p_value (d_promises d ! p)))"

text \<open>\<open>abort\<close>: every parked call is marked and gets the token once more, to exit with.\<close>

definition abort :: "('c, 'v, 't) Domain \<Rightarrow> ('c, 'v, 't) Domain" where
  "abort d = d\<lparr>d_parked := [], d_cos := fold (\<lambda>c cos. cos[c := (cos ! c)\<lparr>co_aborted := True\<rparr>]) (rev (d_parked d)) (d_cos d)\<rparr>"

subsection \<open>Rejections\<close>

definition checkRejections :: "('c, 'v, 't) Domain \<Rightarrow> ('c, 'v, 't) outcome" where
  "checkRejections d =
     (let d' = d\<lparr>d_rejected := []\<rparr>
      in case List.find (\<lambda>p. \<not> p_handled (d_promises d ! p)) (d_rejected d) of
           None \<Rightarrow> (None, d')
         | Some p \<Rightarrow> (map_option PUnhandled (p_reason (d_promises d ! p)), d'))"

definition moduleHops :: nat where
  "moduleHops = 5"

definition failAfter :: "nat \<Rightarrow> nat \<Rightarrow> ('c, 'v, 't) Domain \<Rightarrow> ('c, 'v, 't) outcome" where
  "failAfter p hops d =
     (case p_reason (d_promises d ! p) of
        None \<Rightarrow> (None, d)
      | Some t \<Rightarrow> if hops > 1 then (None, queueMicrotask d (Fail_after p (hops - 1))) else (Some (PThrown t), d))"

subsection \<open>Running\<close>

text \<open>A microtask, given what the program's callbacks and resumed calls do.\<close>

definition run_job :: "('c \<Rightarrow> ('c, 'v, 't) Domain \<Rightarrow> ('c, 'v, 't) outcome) \<Rightarrow> (nat \<Rightarrow> ('c, 'v, 't) Domain \<Rightarrow> ('c, 'v, 't) outcome)
    \<Rightarrow> 'c job \<Rightarrow> ('c, 'v, 't) Domain \<Rightarrow> ('c, 'v, 't) outcome" where
  "run_job run continue j d =
     (case j of
        Program_job c \<Rightarrow> run c d
      | Resume c \<Rightarrow> continue c (unpark c d)
      | Fail_after p hops \<Rightarrow> failAfter p hops d)"

text \<open>
  \<open>drain\<close>, where \<open>exec\<close> runs a microtask. A program may queue microtasks for ever, and then
  \<open>drain\<close> does not return: None.
\<close>

partial_function (option) drain :: "('c job \<Rightarrow> ('c, 'v, 't) Domain \<Rightarrow> ('c, 'v, 't) outcome) \<Rightarrow> ('c, 'v, 't) Domain
    \<Rightarrow> ('c, 'v, 't) outcome option" where
  "drain exec d =
     (case d_tick d of
        Some t \<Rightarrow> Some (Some (PThrown t), d\<lparr>d_tick := None\<rparr>)
      | None \<Rightarrow>
          if d_microHead d = length (d_micro d)
          then let d' = d\<lparr>d_micro := [], d_microHead := 0\<rparr>
               in Some (if length (d_rejected d') > 0 then checkRejections d' else (None, d'))
          else (case exec (d_micro d ! d_microHead d) (d\<lparr>d_microHead := d_microHead d + 1, d_running := inMicrotask\<rparr>) of
                  (Some e, d') \<Rightarrow> Some (Some e, d')
                | (None, d') \<Rightarrow> drain exec d'))"

definition runTask :: "('c job \<Rightarrow> ('c, 'v, 't) Domain \<Rightarrow> ('c, 'v, 't) outcome) \<Rightarrow> (('c, 'v, 't) Domain \<Rightarrow> ('c, 'v, 't) outcome)
    \<Rightarrow> ('c, 'v, 't) Domain \<Rightarrow> ('c, 'v, 't) outcome option" where
  "runTask exec f d = (case f d of (Some e, d') \<Rightarrow> Some (Some e, d') | (None, d') \<Rightarrow> drain exec d')"

text \<open>\<open>fireDue\<close>, reading the time \<open>now k\<close> on its \<open>k\<close>th turn.\<close>

partial_function (option) fireDue :: "('c \<Rightarrow> ('c, 'v, 't) Domain \<Rightarrow> ('c, 'v, 't) outcome)
    \<Rightarrow> ('c job \<Rightarrow> ('c, 'v, 't) Domain \<Rightarrow> ('c, 'v, 't) outcome) \<Rightarrow> (nat \<Rightarrow> int) \<Rightarrow> nat \<Rightarrow> ('c, 'v, 't) Domain
    \<Rightarrow> ('c, 'v, 't) outcome option" where
  "fireDue run exec now k d =
     (case take_due (now k) d of
        None \<Rightarrow> Some (None, d)
      | Some (tm, d1) \<Rightarrow>
          Option.bind (runTask exec (run (tm_cb tm)) d1)
            (\<lambda>out. case out of (Some e, d') \<Rightarrow> Some (Some e, d') | (None, d') \<Rightarrow> fireDue run exec now (k + 1) d'))"

fun run_inbox_from :: "('c \<Rightarrow> ('c, 'v, 't) Domain \<Rightarrow> ('c, 'v, 't) outcome) \<Rightarrow> ('c job \<Rightarrow> ('c, 'v, 't) Domain \<Rightarrow> ('c, 'v, 't) outcome)
    \<Rightarrow> 'c list \<Rightarrow> ('c, 'v, 't) Domain \<Rightarrow> ('c, 'v, 't) outcome option" where
  "run_inbox_from run exec [] d = Some (None, d)"
| "run_inbox_from run exec (f # fs) d =
     (case runTask exec (run f) (d\<lparr>d_running := inCallback\<rparr>) of
        None \<Rightarrow> None
      | Some (Some e, d') \<Rightarrow> Some (Some e, d')
      | Some (None, d') \<Rightarrow> run_inbox_from run exec fs d')"

definition runInbox :: "('c \<Rightarrow> ('c, 'v, 't) Domain \<Rightarrow> ('c, 'v, 't) outcome) \<Rightarrow> ('c job \<Rightarrow> ('c, 'v, 't) Domain \<Rightarrow> ('c, 'v, 't) outcome)
    \<Rightarrow> ('c, 'v, 't) Domain \<Rightarrow> ('c, 'v, 't) outcome option" where
  "runInbox run exec d = run_inbox_from run exec (d_inbox d) (d\<lparr>d_inbox := []\<rparr>)"


text \<open>
  \<open>waitNext\<close> once it is woken: other domains have posted \<open>posted\<close> to the inbox meanwhile. It runs
  what was posted and fires the timers due by the clock \<open>now\<close>. \<open>finish\<close> drives the domain until it has nothing left to do,
  given what the \<open>k\<close>th wait finds.
\<close>

definition waitNext :: "('c \<Rightarrow> ('c, 'v, 't) Domain \<Rightarrow> ('c, 'v, 't) outcome) \<Rightarrow> ('c job \<Rightarrow> ('c, 'v, 't) Domain \<Rightarrow> ('c, 'v, 't) outcome)
    \<Rightarrow> 'c list \<Rightarrow> (nat \<Rightarrow> int) \<Rightarrow> ('c, 'v, 't) Domain \<Rightarrow> ('c, 'v, 't) outcome option" where
  "waitNext run exec posted now d =
     Option.bind (runInbox run exec (foldl post d posted))
       (\<lambda>out. case out of (Some e, d') \<Rightarrow> Some (Some e, d') | (None, d') \<Rightarrow> fireDue run exec now 0 d')"

partial_function (option) finish :: "('c \<Rightarrow> ('c, 'v, 't) Domain \<Rightarrow> ('c, 'v, 't) outcome)
    \<Rightarrow> ('c job \<Rightarrow> ('c, 'v, 't) Domain \<Rightarrow> ('c, 'v, 't) outcome) \<Rightarrow> (nat \<Rightarrow> 'c list) \<Rightarrow> (nat \<Rightarrow> nat \<Rightarrow> int) \<Rightarrow> nat
    \<Rightarrow> ('c, 'v, 't) Domain \<Rightarrow> ('c, 'v, 't) outcome option" where
  "finish run exec posted now k d =
     (if pending d
      then Option.bind (waitNext run exec (posted k) (now k) d)
             (\<lambda>out. case out of (Some e, d') \<Rightarrow> Some (Some e, d') | (None, d') \<Rightarrow> finish run exec posted now (k + 1) d')
      else Some (None, d))"

end
