(* ===== verification/Timers.thy ===== *)
theory Timers
  imports Domain "HOL-Library.Product_Lexorder"
begin

text \<open>
  A domain's timers as a schedule. \<open>timers_inv\<close> ties the heap, the timers' indices and \<open>byID\<close>
  together, and every operation keeps it. The schedule of a domain is what its heap holds,
  sorted by due time and then by scheduling; the operations refine those of a sorted list:
  \<open>SetTimeout\<close> inserts, \<open>ClearTimeout\<close> filters and \<open>fireDue\<close> takes the head once it is due.
\<close>

subsection \<open>Timers\<close>

text \<open>\<open>byID\<close> maps exactly the ids of the timers in the heap, numbered by a process that has given out \<open>ids\<close>.\<close>

definition timers_inv :: "nat \<Rightarrow> ('c, 'v, 't) Domain \<Rightarrow> bool" where
  "timers_inv ids d \<longleftrightarrow> timers_ok (d_timers d)
     \<and> (\<forall>i a. d_byID d i = Some a \<longleftrightarrow> a \<in> set (snd (d_timers d)) \<and> tm_id (fst (d_timers d) ! a) = i)
     \<and> (\<forall>a \<in> set (snd (d_timers d)). tm_seq (fst (d_timers d) ! a) \<le> d_seq d
          \<and> (\<exists>n \<le> ids. tm_id (fst (d_timers d) ! a) = f64_of_nat n))"

lemma timers_invD:
  assumes "timers_inv ids d"
  shows "timers_ok (d_timers d)"
    "d_byID d i = Some a \<longleftrightarrow> a \<in> set (snd (d_timers d)) \<and> tm_id (fst (d_timers d) ! a) = i"
    "a \<in> set (snd (d_timers d)) \<Longrightarrow> tm_seq (fst (d_timers d) ! a) \<le> d_seq d
       \<and> (\<exists>n \<le> ids. tm_id (fst (d_timers d) ! a) = f64_of_nat n)"
  using assms by (auto simp: timers_inv_def)

lemma content_same:
  assumes "map content st = map content st'"
  shows "length st = length st'" "b < length st \<Longrightarrow> tm_when (st ! b) = tm_when (st' ! b) \<and> tm_seq (st ! b) = tm_seq (st' ! b)
    \<and> tm_id (st ! b) = tm_id (st' ! b) \<and> tm_cb (st ! b) = tm_cb (st' ! b)"
proof -
  show l: "length st = length st'" using assms by (metis length_map)
  assume "b < length st"
  with assms l have "content (st ! b) = content (st' ! b)" by (metis nth_map)
  then show "tm_when (st ! b) = tm_when (st' ! b) \<and> tm_seq (st ! b) = tm_seq (st' ! b)
    \<and> tm_id (st ! b) = tm_id (st' ! b) \<and> tm_cb (st ! b) = tm_cb (st' ! b)" by (simp add: content_def)
qed

lemma timers_ok_range: "timers_ok h \<Longrightarrow> a \<in> set (snd h) \<Longrightarrow> a < length (fst h)"
  by (auto simp: timers_ok_def placed_def)

lemma timers_ok_store: "timers_ok (st, xs) \<Longrightarrow> timers_ok (st @ [t], xs)"
proof -
  assume ok: "timers_ok (st, xs)"
  then have "a < length st" if "a \<in> set xs" for a using that timers_ok_range by fastforce
  then have "(st @ [t]) ! a = st ! a" if "a \<in> set xs" for a using that by (simp add: nth_append)
  then have "keys_of (st @ [t], xs) = keys_of (st, xs)" "\<forall>i < length xs. (st @ [t]) ! (xs ! i) = st ! (xs ! i)"
    by (simp_all add: keys_of_def)
  then show ?thesis using ok by (auto simp: timers_ok_def placed_def)
qed

lemma f64_of_nat_eq [simp]: "f64_of_nat m = f64_of_nat n \<longleftrightarrow> m = n"
  by (simp add: f64_of_nat_def)

lemma SetTimeout_heap:
  assumes "timers_inv ids d" "SetTimeout now ids d cb ms = (i, ids', d')"
  defines "a \<equiv> length (fst (d_timers d))"
  shows "i = f64_of_nat (ids + 1)" "ids' = ids + 1" "d_seq d' = d_seq d + 1"
    "d_byID d' = (d_byID d)(f64_of_nat (ids + 1) \<mapsto> a)"
    "timers_ok (d_timers d')" "set (snd (d_timers d')) = insert a (set (snd (d_timers d)))" "a \<notin> set (snd (d_timers d))"
    "content (fst (d_timers d') ! a) = (now + timerDelay ms, d_seq d + 1, f64_of_nat (ids + 1), cb)"
    "\<And>b. b \<in> set (snd (d_timers d)) \<Longrightarrow> content (fst (d_timers d') ! b) = content (fst (d_timers d) ! b)"
proof -
  define t where "t = \<lparr>tm_when = now + timerDelay ms, tm_seq = d_seq d + 1, tm_id = f64_of_nat (ids + 1), tm_cb = cb, tm_index = 0\<rparr>"
  define h where "h = (fst (d_timers d) @ [t], snd (d_timers d))"
  have d': "d_timers d' = heap_Push h a"
    using assms(2) by (auto simp: SetTimeout_def Let_def h_def t_def a_def)
  show "i = f64_of_nat (ids + 1)" "ids' = ids + 1" "d_seq d' = d_seq d + 1" "d_byID d' = (d_byID d)(f64_of_nat (ids + 1) \<mapsto> a)"
    using assms(2) by (auto simp: SetTimeout_def Let_def a_def)
  note ok = timers_invD(1) [OF assms(1)]
  have r: "b < a" if "b \<in> set (snd (d_timers d))" for b using that timers_ok_range [OF ok] by (simp add: a_def)
  then show new: "a \<notin> set (snd (d_timers d))" by blast
  have "timers_ok h" using timers_ok_store [of "fst (d_timers d)" "snd (d_timers d)" t] ok by (simp add: h_def)
  moreover have "a < length (fst h)" "a \<notin> set (snd h)" using new by (simp_all add: h_def a_def)
  ultimately have P: "timers_ok (d_timers d')" "mset (snd (d_timers d')) = add_mset a (mset (snd h))"
      "map content (fst (d_timers d')) = map content (fst h)"
    using Push_ok d' by metis+
  show "timers_ok (d_timers d')" by (rule P(1))
  show "set (snd (d_timers d')) = insert a (set (snd (d_timers d)))"
    using arg_cong [OF P(2), of set_mset] by (simp add: h_def)
  have l: "length (fst (d_timers d')) = Suc a" using arg_cong [OF P(3), of length] by (simp add: h_def a_def)
  have same: "content (fst (d_timers d') ! b) = content (fst h ! b)" if "b \<le> a" for b
    using arg_cong [OF P(3), of "\<lambda>xs. xs ! b"] that l by (simp add: h_def a_def nth_append)
  show "content (fst (d_timers d') ! a) = (now + timerDelay ms, d_seq d + 1, f64_of_nat (ids + 1), cb)"
    using same [of a] by (simp add: h_def a_def content_def t_def)
  show "content (fst (d_timers d') ! b) = content (fst (d_timers d) ! b)" if "b \<in> set (snd (d_timers d))" for b
    using same [of b] r [OF that] by (simp add: h_def a_def nth_append)
qed

lemma content_parts: "content s = content t \<Longrightarrow> tm_when s = tm_when t \<and> tm_seq s = tm_seq t \<and> tm_id s = tm_id t \<and> tm_cb s = tm_cb t"
  by (simp add: content_def)

lemma SetTimeout_inv:
  assumes inv: "timers_inv ids d" and s: "SetTimeout now ids d cb ms = (i, ids', d')"
  shows "timers_inv ids' d'"
proof -
  let ?a = "length (fst (d_timers d))"
  note H = SetTimeout_heap [OF inv s]
  have new: "tm_seq (fst (d_timers d') ! ?a) = d_seq d + 1" "tm_id (fst (d_timers d') ! ?a) = f64_of_nat (ids + 1)"
    using H(8) by (simp_all add: content_def)
  note same = content_parts [OF H(9)]
  note old = timers_invD(2) [OF inv]
  note low = timers_invD(3) [OF inv]
  have "d_byID d' j = Some b \<longleftrightarrow> b \<in> set (snd (d_timers d')) \<and> tm_id (fst (d_timers d') ! b) = j" for j b
  proof (cases "b = ?a")
    case True
    have "d_byID d j \<noteq> Some ?a" using old [of j ?a] H(7) by blast
    with True new(2) show ?thesis by (auto simp: H(4,6))
  next
    case False
    have "tm_id (fst (d_timers d) ! b) \<noteq> f64_of_nat (ids + 1)" if "b \<in> set (snd (d_timers d))" using low [OF that] by auto
    with False old [of j b] same [of b] show ?thesis by (auto simp: H(4,6))
  qed
  moreover have "tm_seq (fst (d_timers d') ! b) \<le> d_seq d' \<and> (\<exists>n \<le> ids'. tm_id (fst (d_timers d') ! b) = f64_of_nat n)"
    if b: "b \<in> set (snd (d_timers d'))" for b
  proof (cases "b = ?a")
    case True
    then show ?thesis using new H(2,3) by auto
  next
    case False
    then have "b \<in> set (snd (d_timers d))" using b H(6) by simp
    with low [OF this] same [OF this] show ?thesis by (auto simp: H(2,3) intro: le_SucI)
  qed
  ultimately show ?thesis using H(5) by (auto simp: timers_inv_def)
qed

text \<open>A timer leaves the heap and \<open>byID\<close> together.\<close>

lemma timer_leaves:
  assumes inv: "timers_inv ids d" and a: "timers_ok h'" "add_mset a (mset (snd h')) = mset (snd (d_timers d))"
    "map content (fst h') = map content (fst (d_timers d))" and i: "i = tm_id (fst (d_timers d) ! a)"
    and d': "d_timers d' = h'" "d_byID d' = (d_byID d)(i := None)" "d_seq d' = d_seq d"
  shows "timers_inv ids d' \<and> set (snd h') = set (snd (d_timers d)) - {a}"
proof -
  have dist: "distinct (snd (d_timers d))" using timers_invD(1) [OF inv] unfolding timers_ok_def placed_def by blast
  have m: "mset (a # snd h') = mset (snd (d_timers d))" using a(2) by simp
  then have "distinct (a # snd h')" using dist mset_eq_imp_distinct_iff [OF m] by blast
  moreover have "set (a # snd h') = set (snd (d_timers d))" using m by (rule mset_eq_setD)
  ultimately have set: "set (snd h') = set (snd (d_timers d)) - {a}" "a \<in> set (snd (d_timers d))" by auto
  have same: "tm_id (fst h' ! b) = tm_id (fst (d_timers d) ! b) \<and> tm_seq (fst h' ! b) = tm_seq (fst (d_timers d) ! b)"
    if "b \<in> set (snd h')" for b
    using content_same [OF a(3)] timers_ok_range [OF a(1) that] by simp
  have old: "d_byID d j = Some b \<longleftrightarrow> b \<in> set (snd (d_timers d)) \<and> tm_id (fst (d_timers d) ! b) = j" for j b
    by (rule timers_invD(2) [OF inv])
  have low: "tm_seq (fst (d_timers d) ! b) \<le> d_seq d \<and> (\<exists>n \<le> ids. tm_id (fst (d_timers d) ! b) = f64_of_nat n)"
    if "b \<in> set (snd (d_timers d))" for b
    by (rule timers_invD(3) [OF inv that])
  have ai: "d_byID d i = Some a" using old [of i a] set(2) i by blast
  have byid: "d_byID d' j = Some b \<longleftrightarrow> b \<in> set (snd h') \<and> tm_id (fst h' ! b) = j" for j b
  proof (cases "j = i")
    case True
    have "b = a" if "b \<in> set (snd (d_timers d))" "tm_id (fst (d_timers d) ! b) = i" for b
      using old [of i b] ai that by simp
    then have "\<not> (b \<in> set (snd h') \<and> tm_id (fst h' ! b) = j)" using True same [of b] set(1) by auto
    then show ?thesis using True by (simp add: d'(2))
  next
    case False
    then have "d_byID d' j = d_byID d j" by (simp add: d'(2))
    moreover have "b \<in> set (snd h') \<and> tm_id (fst h' ! b) = j \<longleftrightarrow> b \<in> set (snd (d_timers d)) \<and> tm_id (fst (d_timers d) ! b) = j"
    proof (cases "b = a")
      case True
      then show ?thesis using False i set(1) by auto
    next
      case ba: False
      then have "b \<in> set (snd h') \<longleftrightarrow> b \<in> set (snd (d_timers d))" by (simp add: set(1))
      then show ?thesis using same [of b] by auto
    qed
    ultimately show ?thesis using old [of j b] by simp
  qed
  have low': "tm_seq (fst h' ! b) \<le> d_seq d' \<and> (\<exists>n \<le> ids. tm_id (fst h' ! b) = f64_of_nat n)" if b: "b \<in> set (snd h')" for b
  proof -
    have "b \<in> set (snd (d_timers d))" using b set by blast
    then show ?thesis using low [of b] same [OF b] d'(3) by simp
  qed
  have "timers_inv ids d'" unfolding timers_inv_def d'(1) by (intro conjI allI ballI byid low' a(1))
  then show ?thesis using set(1) by simp
qed


lemma index_place:
  assumes "timers_ok h" "a \<in> set (snd h)"
  shows "nat (tm_index (fst h ! a)) < length (snd h)" "snd h ! nat (tm_index (fst h ! a)) = a"
proof -
  from assms(2) obtain k where "k < length (snd h)" "snd h ! k = a" by (auto simp: in_set_conv_nth)
  with assms(1) show "nat (tm_index (fst h ! a)) < length (snd h)" "snd h ! nat (tm_index (fst h ! a)) = a"
    by (auto simp: timers_ok_def placed_def)
qed

text \<open>The timers of a domain that are yet to fire.\<close>

definition live :: "('c, 'v, 't) Domain \<Rightarrow> (int \<times> nat \<times> f64 \<times> 'c) set" where
  "live d = (\<lambda>a. content (fst (d_timers d) ! a)) ` set (snd (d_timers d))"

lemma live_leaves:
  assumes inv: "timers_inv ids d" "timers_inv ids d'" and a: "a \<in> set (snd (d_timers d))"
    and h: "set (snd (d_timers d')) = set (snd (d_timers d)) - {a}"
    "map content (fst (d_timers d')) = map content (fst (d_timers d))"
  shows "live d' = live d - {content (fst (d_timers d) ! a)}"
proof -
  have same: "content (fst (d_timers d') ! b) = content (fst (d_timers d) ! b)" if "b \<in> set (snd (d_timers d'))" for b
  proof -
    have "b < length (fst (d_timers d'))" by (rule timers_ok_range [OF timers_invD(1) [OF inv(2)] that])
    then show ?thesis using arg_cong [OF h(2), of "\<lambda>xs. xs ! b"] arg_cong [OF h(2), of length] by simp
  qed
  have inj: "b = a" if "b \<in> set (snd (d_timers d))" "content (fst (d_timers d) ! b) = content (fst (d_timers d) ! a)" for b
  proof -
    have "tm_id (fst (d_timers d) ! b) = tm_id (fst (d_timers d) ! a)" using that(2) by (simp add: content_def)
    then have "d_byID d (tm_id (fst (d_timers d) ! a)) = Some b" "d_byID d (tm_id (fst (d_timers d) ! a)) = Some a"
      using timers_invD(2) [OF inv(1), of _ b] timers_invD(2) [OF inv(1), of _ a] a that(1) by simp_all
    then show ?thesis by simp
  qed
  have "live d' = (\<lambda>b. content (fst (d_timers d) ! b)) ` (set (snd (d_timers d)) - {a})"
    unfolding live_def h(1) [symmetric] by (rule image_cong [OF refl same])
  also have "\<dots> = live d - {content (fst (d_timers d) ! a)}"
  proof (rule set_eqI, rule iffI)
    fix x assume "x \<in> (\<lambda>b. content (fst (d_timers d) ! b)) ` (set (snd (d_timers d)) - {a})"
    then obtain b where b: "b \<in> set (snd (d_timers d))" "b \<noteq> a" "x = content (fst (d_timers d) ! b)" by blast
    have "x \<noteq> content (fst (d_timers d) ! a)" using inj [OF b(1)] b(2,3) by metis
    with b show "x \<in> live d - {content (fst (d_timers d) ! a)}" by (simp add: live_def)
  qed (auto simp: live_def)
  finally show ?thesis .
qed

lemma ClearTimeout_inv:
  assumes inv: "timers_inv ids d"
  shows "timers_inv ids (ClearTimeout d i) \<and> live (ClearTimeout d i) = {t \<in> live d. fst (snd (snd t)) \<noteq> i}
    \<and> set (snd (d_timers (ClearTimeout d i))) \<subseteq> set (snd (d_timers d))
    \<and> map content (fst (d_timers (ClearTimeout d i))) = map content (fst (d_timers d))"
proof (cases "d_byID d i")
  case None
  then have "\<forall>a \<in> set (snd (d_timers d)). tm_id (fst (d_timers d) ! a) \<noteq> i"
    using timers_invD(2) [OF inv, of i] by auto
  then show ?thesis using None inv by (auto simp: ClearTimeout_def live_def content_def)
next
  case (Some a)
  then have a: "a \<in> set (snd (d_timers d))" "tm_id (fst (d_timers d) ! a) = i" using timers_invD(2) [OF inv, of i a] by simp_all
  note ok = timers_invD(1) [OF inv]
  let ?k = "nat (tm_index (fst (d_timers d) ! a))"
  note k = index_place [OF ok a(1)]
  obtain b h where bh: "heap_Remove (d_timers d) ?k = (b, h)"
    by (cases "heap_Remove (d_timers d) ?k")
  note R = Remove_ok [OF ok k(1) bh]
  let ?d = "ClearTimeout d i"
  have d': "d_timers ?d = h" "d_byID ?d = (d_byID d)(i := None)" "d_seq ?d = d_seq d"
    using Some bh by (simp_all add: ClearTimeout_def)
  have "b = a" using R(1) k(2) by simp
  then have m: "add_mset a (mset (snd h)) = mset (snd (d_timers d))" using R(3) by simp
  note l = timer_leaves [OF inv R(2) m R(4) a(2) [symmetric] d']
  have "live ?d = live d - {content (fst (d_timers d) ! a)}"
    by (rule live_leaves [OF inv conjunct1 [OF l] a(1)]) (use l R(4) d'(1) in simp_all)
  also have "\<dots> = {t \<in> live d. fst (snd (snd t)) \<noteq> i}"
  proof (rule set_eqI, rule iffI)
    fix t assume t: "t \<in> live d - {content (fst (d_timers d) ! a)}"
    then obtain c where c: "c \<in> set (snd (d_timers d))" "t = content (fst (d_timers d) ! c)" by (auto simp: live_def)
    have "tm_id (fst (d_timers d) ! c) \<noteq> i"
    proof
      assume "tm_id (fst (d_timers d) ! c) = i"
      with c(1) have "d_byID d i = Some c" using timers_invD(2) [OF inv, of i c] by simp
      with Some c(2) t show False by simp
    qed
    with t c(2) show "t \<in> {t \<in> live d. fst (snd (snd t)) \<noteq> i}" by (simp add: content_def)
  next
    fix t assume "t \<in> {t \<in> live d. fst (snd (snd t)) \<noteq> i}"
    then show "t \<in> live d - {content (fst (d_timers d) ! a)}" using a(2) by (auto simp: content_def)
  qed
  finally show ?thesis using l d'(1) R(4) by auto
qed

text \<open>The order of firing: by due time, then by scheduling.\<close>

definition due_before :: "int \<times> nat \<times> f64 \<times> 'c \<Rightarrow> int \<times> nat \<times> f64 \<times> 'c \<Rightarrow> bool" where
  "due_before s t \<longleftrightarrow> key_less (fst s, fst (snd s)) (fst t, fst (snd t))"

lemma take_due_inv:
  assumes inv: "timers_inv ids d" and t: "take_due now d = Some (tm, d')"
  shows "timers_inv ids d'" "live d' = live d - {content tm}" "content tm \<in> live d" "tm_when tm \<le> now"
    "\<And>s. s \<in> live d \<Longrightarrow> \<not> due_before s (content tm)"
    "set (snd (d_timers d')) \<subseteq> set (snd (d_timers d))" "map content (fst (d_timers d')) = map content (fst (d_timers d))"
proof -
  note ok = timers_invD(1) [OF inv]
  let ?h = "d_timers d"
  have ne: "snd ?h \<noteq> []" using t by (auto simp: take_due_def nextDue_def split: if_splits)
  obtain a h where ah: "heap_Pop ?h = (a, h)" by (cases "heap_Pop ?h")
  note P = Pop_ok [OF ok ne ah]
  have tm: "tm = fst h ! a" and d': "d_timers d' = h" "d_byID d' = (d_byID d)(tm_id tm := None)" "d_seq d' = d_seq d"
    and now: "tm_when (fst ?h ! (snd ?h ! 0)) \<le> now"
    using t ne ah by (auto simp: take_due_def nextDue_def Let_def split: if_splits)
  have a: "a \<in> set (snd ?h)" using P(1) ne by simp
  have "a < length (fst h)" using timers_ok_range [OF ok a] P(5) by simp
  then have same: "content tm = content (fst ?h ! a)" using P(4) P(5) tm by (metis nth_map)
  then have tid: "tm_id tm = tm_id (fst ?h ! a)" "tm_when tm = tm_when (fst ?h ! a)" by (simp_all add: content_def)
  have l: "timers_inv ids d'" "set (snd h) = set (snd ?h) - {a}"
    using timer_leaves [OF inv P(2,3,4) tid(1) d'] by simp_all
  then show "timers_inv ids d'" by simp
  show "set (snd (d_timers d')) \<subseteq> set (snd (d_timers d))" "map content (fst (d_timers d')) = map content (fst (d_timers d))"
    using l(2) d'(1) P(4) by auto
  show "live d' = live d - {content tm}" unfolding same
    using live_leaves [OF inv l(1) a] l(2) P(4) d'(1) by simp
  show "content tm \<in> live d" unfolding same using a by (simp add: live_def)
  show "tm_when tm \<le> now" using now tid(2) P(1) by simp
  fix s assume "s \<in> live d"
  then obtain i where i: "i < length (snd ?h)" "s = content (fst ?h ! (snd ?h ! i))" by (auto simp: live_def in_set_conv_nth)
  have "\<not> key_less (keys_of ?h ! i) (keys_of ?h ! 0)" using ok i(1) heap_root by (auto simp: timers_ok_def)
  then show "\<not> due_before s (content tm)"
    unfolding same using i ne P(1) by (simp add: due_before_def keys_of_def timer_key_def content_def)
qed


subsection \<open>The schedule\<close>

definition entry_key :: "int \<times> nat \<times> f64 \<times> 'c \<Rightarrow> int \<times> nat" where
  "entry_key e = (fst e, fst (snd e))"

definition schedule :: "('c, 'v, 't) Domain \<Rightarrow> (int \<times> nat \<times> f64 \<times> 'c) list" where
  "schedule d = sort_key entry_key (map (\<lambda>a. content (fst (d_timers d) ! a)) (snd (d_timers d)))"

text \<open>No two timers of a domain have the same sequence number.\<close>

definition sched_inv :: "nat \<Rightarrow> ('c, 'v, 't) Domain \<Rightarrow> bool" where
  "sched_inv ids d \<longleftrightarrow> timers_inv ids d \<and> inj_on (\<lambda>a. fst (snd (content (fst (d_timers d) ! a)))) (set (snd (d_timers d)))"

lemma set_schedule [simp]: "set (schedule d) = live d"
  by (simp add: schedule_def live_def)

lemma sorted_schedule [simp]: "sorted (map entry_key (schedule d))"
  by (simp add: schedule_def)

lemma sched_distinct:
  assumes "sched_inv ids d"
  shows "distinct (map (\<lambda>a. content (fst (d_timers d) ! a)) (snd (d_timers d)))" "distinct (schedule d)" "inj_on entry_key (live d)"
proof -
  let ?c = "\<lambda>a. content (fst (d_timers d) ! a)"
  have h: "distinct (snd (d_timers d))"
    using assms unfolding sched_inv_def timers_inv_def timers_ok_def placed_def by blast
  have inj: "inj_on (snd \<circ> (entry_key \<circ> ?c)) (set (snd (d_timers d)))" using assms by (simp add: sched_inv_def entry_key_def comp_def)
  then have "inj_on (entry_key \<circ> ?c) (set (snd (d_timers d)))" by (rule inj_on_imageI2)
  then show "inj_on entry_key (live d)" unfolding live_def by (rule inj_on_imageI)
  have "inj_on ?c (set (snd (d_timers d)))"
    by (rule inj_on_imageI2 [where f' = "snd \<circ> entry_key"]) (use inj in \<open>simp add: comp_assoc\<close>)
  with h show "distinct (map ?c (snd (d_timers d)))" by (simp add: distinct_map)
  then show "distinct (schedule d)" by (simp add: schedule_def)
qed

lemma schedule_unique:
  assumes "sched_inv ids d" "set xs = live d" "distinct xs" "sorted (map entry_key xs)"
  shows "schedule d = xs"
  unfolding schedule_def
proof (rule sort_key_inj_key_eq)
  have "set (map (\<lambda>a. content (fst (d_timers d) ! a)) (snd (d_timers d))) = set xs" using assms(2) by (simp add: live_def)
  then show "mset (map (\<lambda>a. content (fst (d_timers d) ! a)) (snd (d_timers d))) = mset xs"
    using sched_distinct(1) [OF assms(1)] assms(3) set_eq_iff_mset_eq_distinct by blast
  show "inj_on entry_key (set (map (\<lambda>a. content (fst (d_timers d) ! a)) (snd (d_timers d))))"
    using sched_distinct(3) [OF assms(1)] by (simp add: live_def)
qed (rule assms(4))


lemma live_seq: "timers_inv ids d \<Longrightarrow> e \<in> live d \<Longrightarrow> fst (snd e) \<le> d_seq d"
  using timers_invD(3) by (fastforce simp: live_def content_def)

lemma schedule_SetTimeout:
  assumes inv: "sched_inv ids d" and s: "SetTimeout now ids d cb ms = (i, ids', d')"
  shows "sched_inv ids' d'" "schedule d' = insort_key entry_key (now + timerDelay ms, d_seq d + 1, i, cb) (schedule d)"
proof -
  let ?a = "length (fst (d_timers d))"
  let ?A = "set (snd (d_timers d))"
  let ?e = "(now + timerDelay ms, d_seq d + 1, i, cb)"
  have inv1: "timers_inv ids d" using inv by (simp add: sched_inv_def)
  note H = SetTimeout_heap [OF inv1 s]
  let ?f = "\<lambda>d a. fst (snd (content (fst (d_timers d) ! a)))"
  have "inj_on (?f d) ?A" using inv by (simp add: sched_inv_def)
  then have "inj_on (?f d') ?A" using H(9) by (simp cong: inj_on_cong)
  moreover have "?f d' b \<noteq> ?f d' ?a" if "b \<in> ?A" for b
    using timers_invD(3) [OF inv1 that] H(8) H(9) [OF that] by (simp add: content_def)
  ultimately have "inj_on (?f d') (insert ?a ?A)" unfolding inj_on_insert by (metis (no_types, lifting) DiffE imageE)
  then show inv': "sched_inv ids' d'" using SetTimeout_inv [OF inv1 s] by (simp add: sched_inv_def H(6))
  have "live d' = insert ?e (live d)"
    unfolding live_def H(6) using H(1,8,9) by auto
  moreover have "?e \<notin> live d" using live_seq [OF inv1, of ?e] by auto
  ultimately show "schedule d' = insort_key entry_key ?e (schedule d)"
    by (intro schedule_unique [OF inv']) (auto simp: set_insort_key distinct_insort sched_distinct(2) [OF inv] sorted_insort_key)
qed

lemma sched_leaves:
  assumes "sched_inv ids d" "timers_inv ids d'" "set (snd (d_timers d')) \<subseteq> set (snd (d_timers d))"
    "map content (fst (d_timers d')) = map content (fst (d_timers d))"
  shows "sched_inv ids d'"
proof -
  let ?f = "\<lambda>d a. fst (snd (content (fst (d_timers d) ! a)))"
  have same: "?f d' b = ?f d b" if "b \<in> set (snd (d_timers d'))" for b
    using timers_ok_range [OF timers_invD(1) [OF assms(2)] that]
      arg_cong [OF assms(4), of "\<lambda>xs. xs ! b"] arg_cong [OF assms(4), of length] by simp
  have "inj_on (?f d) (set (snd (d_timers d')))" using assms(1,3) unfolding sched_inv_def by (metis (no_types, lifting) inj_on_subset)
  then have "inj_on (?f d') (set (snd (d_timers d')))" using same by (simp cong: inj_on_cong)
  with assms(2) show ?thesis by (simp add: sched_inv_def)
qed


lemma schedule_ClearTimeout:
  assumes inv: "sched_inv ids d"
  shows "sched_inv ids (ClearTimeout d i)" "schedule (ClearTimeout d i) = filter (\<lambda>e. fst (snd (snd e)) \<noteq> i) (schedule d)"
proof -
  have "timers_inv ids d" using inv by (simp add: sched_inv_def)
  note C = ClearTimeout_inv [OF this, of i]
  show inv': "sched_inv ids (ClearTimeout d i)"
    by (rule sched_leaves [OF inv]) (use C in blast)+
  show "schedule (ClearTimeout d i) = filter (\<lambda>e. fst (snd (snd e)) \<noteq> i) (schedule d)"
    by (rule schedule_unique [OF inv']) (use C in \<open>simp_all add: sched_distinct(2) [OF inv] sorted_filter\<close>)
qed

lemma schedule_take_due:
  assumes inv: "sched_inv ids d"
  shows "case take_due now d of
      None \<Rightarrow> schedule d = [] \<or> fst (hd (schedule d)) > now
    | Some (tm, d') \<Rightarrow> sched_inv ids d' \<and> schedule d = content tm # schedule d' \<and> fst (content tm) \<le> now"
proof (cases "take_due now d")
  case None
  have "timers_inv ids d" using inv by (simp add: sched_inv_def)
  then have ok: "timers_ok (d_timers d)" by (rule timers_invD(1))
  show ?thesis
  proof (cases "snd (d_timers d) = []")
    case True
    with None show ?thesis by (simp add: schedule_def)
  next
    case False
    let ?m = "fst (d_timers d) ! (snd (d_timers d) ! 0)"
    have m: "tm_when ?m > now"
      using None False by (simp add: take_due_def nextDue_def Let_def split: if_splits prod.splits)
    have "now < fst e" if "e \<in> live d" for e
    proof -
      from that obtain i where i: "i < length (snd (d_timers d))" "e = content (fst (d_timers d) ! (snd (d_timers d) ! i))"
        by (auto simp: live_def in_set_conv_nth)
      have "\<not> key_less (keys_of (d_timers d) ! i) (keys_of (d_timers d) ! 0)" using ok i(1) heap_root by (auto simp: timers_ok_def)
      then show ?thesis using i False m by (auto simp: keys_of_def key_less_def timer_key_def content_def)
    qed
    moreover have "set (schedule d) \<noteq> {}" using False by (simp add: live_def)
    then have "hd (schedule d) \<in> set (schedule d)" using hd_in_set [of "schedule d"] by blast
    ultimately show ?thesis using None by simp
  qed
next
  case (Some x)
  then obtain tm d' where t: "take_due now d = Some (tm, d')" by (cases x) simp
  have "timers_inv ids d" using inv by (simp add: sched_inv_def)
  note T = take_due_inv [OF this t]
  have inv': "sched_inv ids d'" by (rule sched_leaves [OF inv T(1,6,7)])
  have "entry_key (content tm) \<le> entry_key e" if "e \<in> live d'" for e
  proof -
    have "\<not> due_before e (content tm)" using T(5) [of e] T(2) that by simp
    then show ?thesis by (simp add: entry_key_def due_before_def key_less_def less_eq_prod_simp) linarith
  qed
  then have "schedule d = content tm # schedule d'"
    by (intro schedule_unique [OF inv]) (use T(2,3) in \<open>auto simp: sched_distinct(2) [OF inv']\<close>)
  then show ?thesis using t inv' T(4) by (simp add: content_def)
qed


subsection \<open>Every history\<close>

text \<open>What a program does to its domain's timers, in the order it does it, and the same on a sorted list.\<close>

datatype 'c timer_op = Op_set int 'c f64 | Op_clear f64 | Op_fire int

type_synonym 'c entry = "int \<times> nat \<times> f64 \<times> 'c"

fun timer_do :: "'c timer_op \<Rightarrow> 'c entry list \<times> nat \<times> ('c, 'v, 't) Domain \<Rightarrow> 'c entry list \<times> nat \<times> ('c, 'v, 't) Domain" where
  "timer_do (Op_set now cb ms) (out, ids, d) = (out, snd (SetTimeout now ids d cb ms))"
| "timer_do (Op_clear i) (out, ids, d) = (out, ids, ClearTimeout d i)"
| "timer_do (Op_fire now) (out, ids, d) =
     (case take_due now d of None \<Rightarrow> (out, ids, d) | Some (tm, d') \<Rightarrow> (out @ [content tm], ids, d'))"

fun sched_do :: "'c timer_op \<Rightarrow> 'c entry list \<times> nat \<times> nat \<times> 'c entry list \<Rightarrow> 'c entry list \<times> nat \<times> nat \<times> 'c entry list" where
  "sched_do (Op_set now cb ms) (out, ids, seq, es) =
     (out, ids + 1, seq + 1, insort_key entry_key (now + timerDelay ms, seq + 1, f64_of_nat (ids + 1), cb) es)"
| "sched_do (Op_clear i) (out, ids, seq, es) = (out, ids, seq, filter (\<lambda>e. fst (snd (snd e)) \<noteq> i) es)"
| "sched_do (Op_fire now) (out, ids, seq, es) =
     (case es of [] \<Rightarrow> (out, ids, seq, es) | e # es' \<Rightarrow> if fst e > now then (out, ids, seq, es) else (out @ [e], ids, seq, es'))"

definition timers_rel :: "'c entry list \<times> nat \<times> ('c, 'v, 't) Domain \<Rightarrow> 'c entry list \<times> nat \<times> nat \<times> 'c entry list \<Rightarrow> bool" where
  "timers_rel s a \<longleftrightarrow> (case s of (out, ids, d) \<Rightarrow> sched_inv ids d \<and> a = (out, ids, d_seq d, schedule d))"

lemma take_due_seq: "take_due now d = Some (tm, d') \<Longrightarrow> d_seq d' = d_seq d"
  by (auto simp: take_due_def Let_def split: option.splits if_splits prod.splits)

lemma ClearTimeout_seq: "d_seq (ClearTimeout d i) = d_seq d"
  by (auto simp: ClearTimeout_def Let_def split: option.splits)

lemma timers_sim: "timers_rel s a \<Longrightarrow> timers_rel (timer_do op s) (sched_do op a)"
proof (cases op)
  case (Op_set now cb ms)
  assume "timers_rel s a"
  then obtain out ids d where s: "s = (out, ids, d)" "a = (out, ids, d_seq d, schedule d)" "sched_inv ids d"
    by (cases s) (simp add: timers_rel_def)
  obtain i ids' d' where e: "SetTimeout now ids d cb ms = (i, ids', d')" by (cases "SetTimeout now ids d cb ms") simp
  have "timers_inv ids d" using s(3) by (simp add: sched_inv_def)
  note H = SetTimeout_heap [OF this e]
  with schedule_SetTimeout [OF s(3) e] show ?thesis using s(1,2) e Op_set by (simp add: timers_rel_def)
next
  case (Op_clear i)
  assume "timers_rel s a"
  then obtain out ids d where s: "s = (out, ids, d)" "a = (out, ids, d_seq d, schedule d)" "sched_inv ids d"
    by (cases s) (simp add: timers_rel_def)
  show ?thesis using s Op_clear schedule_ClearTimeout [OF s(3), of i] by (simp add: timers_rel_def ClearTimeout_seq)
next
  case (Op_fire now)
  assume "timers_rel s a"
  then obtain out ids d where s: "s = (out, ids, d)" "a = (out, ids, d_seq d, schedule d)" "sched_inv ids d"
    by (cases s) (simp add: timers_rel_def)
  show ?thesis
  proof (cases "take_due now d")
    case None
    with schedule_take_due [OF s(3), of now] have "schedule d = [] \<or> fst (hd (schedule d)) > now" by simp
    then show ?thesis using s None Op_fire by (cases "schedule d") (simp_all add: timers_rel_def)
  next
    case (Some x)
    then obtain tm d' where t: "take_due now d = Some (tm, d')" by (cases x) simp
    with schedule_take_due [OF s(3), of now] s Op_fire show ?thesis by (simp add: timers_rel_def take_due_seq [OF t])
  qed
qed


interpretation timers: simulation timers_rel timer_do sched_do
  by unfold_locales (rule timers_sim)

lemma timers_rel_new: "timers_rel ([], 0, newDomain n) ([], 0, 0, [])"
  by (simp add: timers_rel_def sched_inv_def timers_inv_def timers_ok_def placed_def newDomain_def schedule_def
      keys_of_def heap_upto_def)

text \<open>
  C18: Whatever the program does, in whatever order: what its domain's heap holds is the sorted
  schedule, and what fires is what the schedule gives: the timers in the order of their due
  times, those due together in the order they were set, none before it is due, none twice and
  none after it was cleared.
\<close>

theorem timers_follow_schedule:
  "(case fold timer_do ops ([], 0, newDomain n :: ('c, 'v, 't) Domain) of (fired, ids, d) \<Rightarrow> (fired, ids, d_seq d, schedule d))
     = fold sched_do ops ([], 0, 0, [])"
proof -
  have "timers_rel (fold timer_do ops ([], 0, newDomain n :: ('c, 'v, 't) Domain)) (fold sched_do ops ([], 0, 0, []))"
    by (rule timers.history [OF timers_rel_new])
  then show ?thesis by (auto simp: timers_rel_def split: prod.splits)
qed

end
