(* ===== verification/Promises.thy ===== *)
theory Promises
  imports Domain
begin

text \<open>
  Promises, microtasks and parked calls over every run. A step is one operation of the runtime
  that the program's code, or the driver, makes; \<open>dom_inv\<close> holds of a new domain and every
  step keeps it. What follows of a domain that was reached: a promise settles once and for
  good; the microtasks run in the order they were queued; and a parked call waits in exactly
  one place, so the microtask that resumes it always finds it in the registry.
\<close>

subsection \<open>The invariant\<close>

text \<open>The microtasks still to run.\<close>

definition queue :: "('c, 'v, 't) Domain \<Rightarrow> 'c job list" where
  "queue d = drop (d_microHead d) (d_micro d)"

text \<open>How many reactions, queued or still to be, resume the call \<open>c\<close>.\<close>

definition reactions_for :: "nat \<Rightarrow> ('c, 'v, 't) promise list \<Rightarrow> nat" where
  "reactions_for c ps = sum_list (map (\<lambda>p. count_list (p_reactions p) (Resume c)) ps)"

definition waiting :: "nat \<Rightarrow> ('c, 'v, 't) Domain \<Rightarrow> nat" where
  "waiting c d = count_list (queue d) (Resume c) + reactions_for c (d_promises d)"

definition promise_ok :: "('c, 'v, 't) promise \<Rightarrow> bool" where
  "promise_ok p \<longleftrightarrow> (if p_settled p then p_reactions p = [] \<and> (p_reason p = None \<longleftrightarrow> p_value p \<noteq> None)
                     else p_reason p = None \<and> p_value p = None)"

definition rejected_ok :: "('c, 'v, 't) Domain \<Rightarrow> bool" where
  "rejected_ok d \<longleftrightarrow> (\<forall>p \<in> set (d_rejected d). p < length (d_promises d) \<and> p_settled (d_promises d ! p)
     \<and> p_reason (d_promises d ! p) \<noteq> None)"

definition parked_ok :: "('c, 'v, 't) Domain \<Rightarrow> bool" where
  "parked_ok d \<longleftrightarrow> distinct (d_parked d)
     \<and> (\<forall>i < length (d_parked d). d_parked d ! i < length (d_cos d) \<and> co_parkedAt (d_cos d ! (d_parked d ! i)) = i)"

definition dom_inv :: "('c, 'v, 't) Domain \<Rightarrow> bool" where
  "dom_inv d \<longleftrightarrow> d_microHead d \<le> length (d_micro d) \<and> list_all promise_ok (d_promises d) \<and> rejected_ok d \<and> parked_ok d
     \<and> (\<forall>c. waiting c d = (if c \<in> set (d_parked d) then 1 else 0))"

subsection \<open>What each operation does to the parts of the invariant\<close>

lemma queue_queueMicrotask [simp]:
  "d_microHead d \<le> length (d_micro d) \<Longrightarrow> queue (queueMicrotask d j) = queue d @ [j]"
  by (simp add: queue_def queueMicrotask_def)

lemma queueMicrotask_simps [simp]:
  "d_promises (queueMicrotask d j) = d_promises d" "d_rejected (queueMicrotask d j) = d_rejected d"
  "d_parked (queueMicrotask d j) = d_parked d" "d_cos (queueMicrotask d j) = d_cos d"
  "d_microHead (queueMicrotask d j) = d_microHead d" "length (d_micro (queueMicrotask d j)) = Suc (length (d_micro d))"
  "d_self (queueMicrotask d j) = d_self d"
  by (simp_all add: queueMicrotask_def)

lemma upd_promise_simps [simp]:
  "d_micro (upd_promise p f d) = d_micro d" "d_rejected (upd_promise p f d) = d_rejected d"
  "d_parked (upd_promise p f d) = d_parked d" "d_cos (upd_promise p f d) = d_cos d"
  "d_microHead (upd_promise p f d) = d_microHead d" "d_self (upd_promise p f d) = d_self d"
  "d_promises (upd_promise p f d) = (d_promises d)[p := f (d_promises d ! p)]"
  by (simp_all add: upd_promise_def)

lemma queue_upd_promise [simp]: "queue (upd_promise p f d) = queue d"
  by (simp add: queue_def)

lemma queue_all:
  "d_microHead d \<le> length (d_micro d) \<Longrightarrow> queue (foldl queueMicrotask d rs) = queue d @ rs
     \<and> d_microHead (foldl queueMicrotask d rs) \<le> length (d_micro (foldl queueMicrotask d rs))"
  by (induction rs arbitrary: d) auto

lemma queue_all_simps [simp]:
  "d_promises (foldl queueMicrotask d rs) = d_promises d" "d_rejected (foldl queueMicrotask d rs) = d_rejected d"
  "d_parked (foldl queueMicrotask d rs) = d_parked d" "d_cos (foldl queueMicrotask d rs) = d_cos d"
  "d_microHead (foldl queueMicrotask d rs) = d_microHead d"
  by (induction rs arbitrary: d) auto

lemma reactions_for_update:
  "p < length ps \<Longrightarrow> reactions_for c (ps[p := q]) + count_list (p_reactions (ps ! p)) (Resume c)
     = reactions_for c ps + count_list (p_reactions q) (Resume c)"
proof (induction ps arbitrary: p)
  case (Cons x ps)
  then show ?case by (cases p) (auto simp: reactions_for_def)
qed simp

lemma reactions_for_append [simp]:
  "reactions_for c (ps @ qs) = reactions_for c ps + reactions_for c qs" "reactions_for c [] = 0"
  "reactions_for c [q] = count_list (p_reactions q) (Resume c)"
  by (simp_all add: reactions_for_def)

text \<open>Settling: the promise is settled with its outcome, and its reactions are queued in their order.\<close>

lemma settle_parts:
  assumes "d_microHead d \<le> length (d_micro d)" "p < length (d_promises d)"
  shows "queue (settle p r d) = queue d @ p_reactions (d_promises d ! p)"
    "d_microHead (settle p r d) \<le> length (d_micro (settle p r d))"
    "d_promises (settle p r d) = (d_promises d)[p := (d_promises d ! p)\<lparr>p_settled := True, p_reason := r, p_reactions := []\<rparr>]"
    "d_rejected (settle p r d) = d_rejected d" "d_parked (settle p r d) = d_parked d" "d_cos (settle p r d) = d_cos d"
proof -
  let ?d = "upd_promise p (\<lambda>x. x\<lparr>p_settled := True, p_reason := r\<rparr>) d"
  have d: "queue ?d = queue d" "d_microHead ?d \<le> length (d_micro ?d)" using assms(1) by simp_all
  note q = queue_all [OF d(2), of "p_reactions (d_promises d ! p)"]
  show "queue (settle p r d) = queue d @ p_reactions (d_promises d ! p)"
    "d_microHead (settle p r d) \<le> length (d_micro (settle p r d))"
    using q d(1) by (simp_all add: settle_def Let_def)
  show "d_promises (settle p r d) = (d_promises d)[p := (d_promises d ! p)\<lparr>p_settled := True, p_reason := r, p_reactions := []\<rparr>]"
    "d_rejected (settle p r d) = d_rejected d" "d_parked (settle p r d) = d_parked d" "d_cos (settle p r d) = d_cos d"
    using assms(2) by (simp_all add: settle_def Let_def)
qed

text \<open>Nothing but what the registry says waits, so settling keeps every call waiting once.\<close>

lemma settle_waiting:
  assumes "d_microHead d \<le> length (d_micro d)" "p < length (d_promises d)"
  shows "waiting c (settle p r d) = waiting c d"
  using settle_parts [OF assms, of r]
    reactions_for_update [OF assms(2), of c "(d_promises d ! p)\<lparr>p_settled := True, p_reason := r, p_reactions := []\<rparr>"]
  by (simp add: waiting_def)


lemma dom_invD:
  assumes "dom_inv d"
  shows "d_microHead d \<le> length (d_micro d)" "p < length (d_promises d) \<Longrightarrow> promise_ok (d_promises d ! p)"
    "rejected_ok d" "parked_ok d" "waiting c d = (if c \<in> set (d_parked d) then 1 else 0)"
  using assms by (simp_all add: dom_inv_def list_all_length)

lemma settle_inv:
  assumes d: "d_microHead d \<le> length (d_micro d)" and p: "p < length (d_promises d)"
    and ps: "\<And>q. q < length (d_promises d) \<Longrightarrow> q \<noteq> p \<Longrightarrow> promise_ok (d_promises d ! q)"
    and v: "r = None \<longleftrightarrow> p_value (d_promises d ! p) \<noteq> None"
    and rej: "\<And>q. q \<in> set (d_rejected d) \<Longrightarrow> q < length (d_promises d) \<and>
      (if q = p then r \<noteq> None else p_settled (d_promises d ! q) \<and> p_reason (d_promises d ! q) \<noteq> None)"
    and par: "parked_ok d" and w: "\<And>c. waiting c d = (if c \<in> set (d_parked d) then 1 else 0)"
  shows "dom_inv (settle p r d)"
proof -
  note P = settle_parts [OF d p, of r]
  have "list_all promise_ok (d_promises (settle p r d))"
    unfolding P(3) list_all_length using ps p v by (simp add: nth_list_update promise_ok_def)
  moreover have "rejected_ok (settle p r d)"
    unfolding rejected_ok_def P(3,4)
  proof
    fix q assume "q \<in> set (d_rejected d)"
    note rej [OF this]
    with p show "q < length ((d_promises d)[p := (d_promises d ! p)\<lparr>p_settled := True, p_reason := r, p_reactions := []\<rparr>])
        \<and> p_settled ((d_promises d)[p := (d_promises d ! p)\<lparr>p_settled := True, p_reason := r, p_reactions := []\<rparr>] ! q)
        \<and> p_reason ((d_promises d)[p := (d_promises d ! p)\<lparr>p_settled := True, p_reason := r, p_reactions := []\<rparr>] ! q) \<noteq> None"
      by (cases "q = p") simp_all
  qed
  moreover have "parked_ok (settle p r d)" using par by (simp add: parked_ok_def P(5,6))
  ultimately show ?thesis using P(2) settle_waiting [OF d p] w by (simp add: dom_inv_def P(5))
qed

lemma resolve_inv:
  assumes inv: "dom_inv d" and p: "p < length (d_promises d)"
  shows "dom_inv (resolve p v d)" "queue (resolve p v d) = queue d @ p_reactions (d_promises d ! p)"
proof -
  let ?d = "upd_promise p (\<lambda>x. x\<lparr>p_value := Some v\<rparr>) d"
  note I = dom_invD [OF inv]
  have w: "waiting c ?d = waiting c d" for c
    using reactions_for_update [OF p, of c "(d_promises d ! p)\<lparr>p_value := Some v\<rparr>"] by (simp add: waiting_def)
  have "dom_inv (settle p None ?d)" if "\<not> p_settled (d_promises d ! p)"
  proof (rule settle_inv)
    fix q assume "q \<in> set (d_rejected ?d)"
    then show "q < length (d_promises ?d) \<and>
        (if q = p then None \<noteq> None else p_settled (d_promises ?d ! q) \<and> p_reason (d_promises ?d ! q) \<noteq> None)"
      using I(3) that by (auto simp: rejected_ok_def)
  qed (use I p w in \<open>auto simp: parked_ok_def\<close>)
  then show "dom_inv (resolve p v d)" using inv by (simp add: resolve_def)
  show "queue (resolve p v d) = queue d @ p_reactions (d_promises d ! p)"
    using I(1) I(2) [OF p] p settle_parts(1) [of ?d p None] by (auto simp: resolve_def promise_ok_def)
qed

lemma reject_inv:
  assumes inv: "dom_inv d" and p: "p < length (d_promises d)"
  shows "dom_inv (reject p t d)" "queue (reject p t d) = queue d @ p_reactions (d_promises d ! p)"
proof -
  let ?d = "if \<not> p_handled (d_promises d ! p) then d\<lparr>d_rejected := d_rejected d @ [p]\<rparr> else d"
  note I = dom_invD [OF inv]
  have s: "d_promises ?d = d_promises d" "queue ?d = queue d" "d_microHead ?d \<le> length (d_micro ?d)"
    "set (d_rejected ?d) \<subseteq> insert p (set (d_rejected d))" "d_parked ?d = d_parked d" "d_cos ?d = d_cos d"
    using I(1) by (auto simp: queue_def)
  have "dom_inv (settle p (Some t) ?d)" if "\<not> p_settled (d_promises d ! p)"
  proof (rule settle_inv)
    fix q :: nat assume "q \<in> set (d_rejected ?d)"
    then have "q = p \<or> q \<in> set (d_rejected d)" using s(4) by blast
    then show "q < length (d_promises ?d) \<and>
        (if q = p then Some t \<noteq> None else p_settled (d_promises ?d ! q) \<and> p_reason (d_promises ?d ! q) \<noteq> None)"
      using I(3) p unfolding s(1) by (auto simp: rejected_ok_def)
  next
    show "Some t = None \<longleftrightarrow> p_value (d_promises ?d ! p) \<noteq> None"
      using I(2) [OF p] that unfolding s(1) by (simp add: promise_ok_def)
    show "parked_ok ?d" using I(4) by (simp add: parked_ok_def)
    show "waiting c ?d = (if c \<in> set (d_parked ?d) then 1 else 0)" for c
      using I(5) [of c] unfolding waiting_def s by simp
  qed (use I p s in auto)
  then show "dom_inv (reject p t d)" using inv by (simp add: reject_def)
  show "queue (reject p t d) = queue d @ p_reactions (d_promises d ! p)"
    using I(2) [OF p] p settle_parts(1) [OF s(3), of p "Some t"] s(1,2) by (auto simp: reject_def promise_ok_def)
qed


lemma then_do_parts:
  assumes inv: "dom_inv d" and p: "p < length (d_promises d)"
  shows "d_microHead (then_do p r d) \<le> length (d_micro (then_do p r d))" "list_all promise_ok (d_promises (then_do p r d))"
    "rejected_ok (then_do p r d)" "d_parked (then_do p r d) = d_parked d" "d_cos (then_do p r d) = d_cos d"
    "waiting c (then_do p r d) = waiting c d + (if r = Resume c then 1 else 0)"
    "queue (then_do p r d) = queue d @ (if p_settled (d_promises d ! p) then [r] else [])"
    "p_handled (d_promises (then_do p r d) ! p)" "length (d_promises (then_do p r d)) = length (d_promises d)"
proof -
  let ?d = "upd_promise p (\<lambda>x. x\<lparr>p_handled := True\<rparr>) d"
  note I = dom_invD [OF inv]
  show "d_microHead (then_do p r d) \<le> length (d_micro (then_do p r d))" "d_parked (then_do p r d) = d_parked d"
    "d_cos (then_do p r d) = d_cos d" "queue (then_do p r d) = queue d @ (if p_settled (d_promises d ! p) then [r] else [])"
    "p_handled (d_promises (then_do p r d) ! p)" "length (d_promises (then_do p r d)) = length (d_promises d)"
    using I(1) p by (simp_all add: then_do_def Let_def)
  show "list_all promise_ok (d_promises (then_do p r d))"
    using I(2) p by (auto simp: then_do_def Let_def list_all_length nth_list_update promise_ok_def)
  show "rejected_ok (then_do p r d)"
    using I(3) p by (auto simp: then_do_def Let_def rejected_ok_def nth_list_update)
  have w: "waiting c ?d = waiting c d"
    using reactions_for_update [OF p, of c "(d_promises d ! p)\<lparr>p_handled := True\<rparr>"] by (simp add: waiting_def)
  show "waiting c (then_do p r d) = waiting c d + (if r = Resume c then 1 else 0)"
  proof (cases "p_settled (d_promises d ! p)")
    case True
    then show ?thesis using w I(1) p by (simp add: then_do_def Let_def waiting_def)
  next
    case False
    then show ?thesis
      using w p reactions_for_update [of p "d_promises ?d" c
          "(d_promises ?d ! p)\<lparr>p_reactions := p_reactions (d_promises ?d ! p) @ [r]\<rparr>"]
      by (simp add: then_do_def Let_def waiting_def)
  qed
qed

lemma then_do_inv:
  assumes "dom_inv d" "p < length (d_promises d)" "\<And>c. r \<noteq> Resume c"
  shows "dom_inv (then_do p r d)"
  using then_do_parts [OF assms(1,2), where r = r] dom_invD [OF assms(1)] assms(3) by (simp add: dom_inv_def parked_ok_def)

subsection \<open>The registry\<close>

lemma park_ok:
  assumes "parked_ok d" "c < length (d_cos d)" "c \<notin> set (d_parked d)"
  shows "parked_ok (park c d)" "set (d_parked (park c d)) = insert c (set (d_parked d))"
proof -
  have "c \<noteq> d_parked d ! i" if "i < length (d_parked d)" for i using assms(3) that nth_mem by fastforce
  then show "parked_ok (park c d)" using assms by (auto simp: parked_ok_def park_def nth_append less_Suc_eq)
  show "set (d_parked (park c d)) = insert c (set (d_parked d))" by (simp add: park_def)
qed

lemma unpark_ok:
  assumes ok: "parked_ok d" and c: "c \<in> set (d_parked d)"
  shows "parked_ok (unpark c d)" "set (d_parked (unpark c d)) = set (d_parked d) - {c}"
proof -
  let ?ps = "d_parked d" let ?n = "length ?ps - 1"
  from c obtain i where i: "i < length ?ps" "?ps ! i = c" by (auto simp: in_set_conv_nth)
  have dist: "distinct ?ps" and pl: "\<And>k. k < length ?ps \<Longrightarrow> ?ps ! k < length (d_cos d) \<and> co_parkedAt (d_cos d ! (?ps ! k)) = k"
    using ok by (auto simp: parked_ok_def)
  have ci: "co_parkedAt (d_cos d ! c) = i" using pl i by blast
  define qs where "qs = take ?n (?ps[i := ?ps ! ?n])"
  have u: "d_parked (unpark c d) = qs" "d_cos (unpark c d) = (d_cos d)[?ps ! ?n := (d_cos d ! (?ps ! ?n))\<lparr>co_parkedAt := i\<rparr>]"
    using ci by (simp_all add: unpark_def Let_def qs_def)
  have len: "length qs = ?n" using i(1) by (simp add: qs_def)
  have nth: "qs ! k = (if k = i then ?ps ! ?n else ?ps ! k)" if "k < ?n" for k
    using that by (simp add: qs_def)
  have neq: "k < length ?ps \<Longrightarrow> l < length ?ps \<Longrightarrow> ?ps ! k = ?ps ! l \<longleftrightarrow> k = l" for k l using dist by (simp add: nth_eq_iff_index_eq)
  have "distinct qs" unfolding distinct_conv_nth len
  proof (intro allI impI)
    fix k l assume "k < ?n" "l < ?n" "k \<noteq> l"
    then show "qs ! k \<noteq> qs ! l" using neq [of k ?n] neq [of ?n l] neq [of k l] by (simp add: nth)
  qed
  moreover have "qs ! k < length (d_cos d) \<and> co_parkedAt (d_cos (unpark c d) ! (qs ! k)) = k" if "k < length qs" for k
  proof (cases "k = i")
    case True
    then show ?thesis using that pl [of ?n] i(1) by (simp add: len nth u(2))
  next
    case False
    then show ?thesis using that pl [of k] neq [of ?n k] by (simp add: len nth u(2))
  qed
  ultimately show "parked_ok (unpark c d)" by (simp add: parked_ok_def u)
  show "set (d_parked (unpark c d)) = set ?ps - {c}" unfolding u(1)
  proof (rule set_eqI, rule iffI)
    fix x assume "x \<in> set qs"
    then obtain k where k: "k < ?n" "x = qs ! k" using len by (auto simp: in_set_conv_nth)
    have "x = ?ps ! (if k = i then ?n else k)" "(if k = i then ?n else k) < length ?ps" "(if k = i then ?n else k) \<noteq> i"
      using k nth [of k] by auto
    then show "x \<in> set ?ps - {c}" using neq [of _ i] i by (metis DiffI nth_mem singletonD)
  next
    fix x assume "x \<in> set ?ps - {c}"
    then obtain k where k: "k < length ?ps" "x = ?ps ! k" "k \<noteq> i" using i(2) by (auto simp: in_set_conv_nth)
    let ?k = "if k = ?n then i else k"
    have "?k < ?n" using k i(1) by (simp split: if_splits; linarith)
    moreover from this have "qs ! ?k = x" using k nth [of ?k] by (auto split: if_splits)
    ultimately show "x \<in> set qs" using len nth_mem by metis
  qed
qed

lemma parked_ok_cong: "d_parked d' = d_parked d \<Longrightarrow> d_cos d' = d_cos d \<Longrightarrow> parked_ok d' = parked_ok d"
  by (simp add: parked_ok_def)


subsection \<open>Steps\<close>

fun resumes :: "'c job \<Rightarrow> bool" where
  "resumes (Resume c) = True"
| "resumes _ = False"

text \<open>
  \<open>dom_step d rs qs d'\<close>: one operation takes the domain from \<open>d\<close> to \<open>d'\<close>, starts the
  microtasks \<open>rs\<close> (at most one) and queues \<open>qs\<close>. A call awaits while it runs, so while it is
  not parked; \<open>RunModule\<close> and \<open>SpawnAsync\<close> leave reactions of their own.
\<close>

inductive dom_step :: "('c, 'v, 't) Domain \<Rightarrow> 'c job list \<Rightarrow> 'c job list \<Rightarrow> ('c, 'v, 't) Domain \<Rightarrow> bool" where
  step_new: "new_promise d = (p, d') \<Longrightarrow> dom_step d [] [] d'"
| step_call: "dom_step d [] [] (d\<lparr>d_cos := d_cos d @ [\<lparr>co_parkedAt = 0, co_aborted = False\<rparr>]\<rparr>)"
| step_resolve: "p < length (d_promises d) \<Longrightarrow> dom_step d [] (p_reactions (d_promises d ! p)) (resolve p v d)"
| step_reject: "p < length (d_promises d) \<Longrightarrow> dom_step d [] (p_reactions (d_promises d ! p)) (reject p t d)"
| step_then: "p < length (d_promises d) \<Longrightarrow> \<not> resumes r
    \<Longrightarrow> dom_step d [] (if p_settled (d_promises d ! p) then [r] else []) (then_do p r d)"
| step_await: "p < length (d_promises d) \<Longrightarrow> c < length (d_cos d) \<Longrightarrow> c \<notin> set (d_parked d) \<Longrightarrow> Await c p d = (None, d')
    \<Longrightarrow> dom_step d [] (if p_settled (d_promises d ! p) then [Resume c] else []) d'"
| step_run: "d_microHead d < length (d_micro d) \<Longrightarrow> j = d_micro d ! d_microHead d \<Longrightarrow> \<not> resumes j
    \<Longrightarrow> dom_step d [j] [] (d\<lparr>d_microHead := d_microHead d + 1, d_running := inMicrotask\<rparr>)"
| step_resume: "d_microHead d < length (d_micro d) \<Longrightarrow> d_micro d ! d_microHead d = Resume c
    \<Longrightarrow> dom_step d [Resume c] [] (unpark c (d\<lparr>d_microHead := d_microHead d + 1, d_running := inMicrotask\<rparr>))"
| step_fail: "failAfter p hops d = (None, d')
    \<Longrightarrow> dom_step d [] (if p_reason (d_promises d ! p) = None then [] else [Fail_after p (hops - 1)]) d'"
| step_drained: "d_microHead d = length (d_micro d) \<Longrightarrow> fst (checkRejections (d\<lparr>d_micro := [], d_microHead := 0\<rparr>)) = None
    \<Longrightarrow> dom_step d [] [] (snd (checkRejections (d\<lparr>d_micro := [], d_microHead := 0\<rparr>)))"
| step_set: "SetTimeout now ids d cb ms = (i, ids', d') \<Longrightarrow> dom_step d [] [] d'"
| step_clear: "dom_step d [] [] (ClearTimeout d i)"
| step_fire: "take_due now d = Some (tm, d') \<Longrightarrow> dom_step d [] [] d'"
| step_post: "dom_step d [] [] (post d f)"
| step_inbox: "dom_step d [] [] (d\<lparr>d_inbox := [], d_running := inCallback\<rparr>)"
| step_tick: "dom_step d [] [] (d\<lparr>d_tick := t\<rparr>)"

inductive_cases dom_step_E: "dom_step d rs qs d'"

inductive dom_steps :: "('c, 'v, 't) Domain \<Rightarrow> 'c job list \<Rightarrow> 'c job list \<Rightarrow> ('c, 'v, 't) Domain \<Rightarrow> bool" where
  steps_none: "dom_steps d [] [] d"
| steps_more: "dom_steps d rs qs d' \<Longrightarrow> dom_step d' r q d'' \<Longrightarrow> dom_steps d (rs @ r) (qs @ q) d''"

text \<open>The part of a domain the invariant reads.\<close>

definition core :: "('c, 'v, 't) Domain \<Rightarrow> nat \<times> 'c job list \<times> ('c, 'v, 't) promise list \<times> nat list \<times> nat list \<times> co list" where
  "core d = (d_microHead d, d_micro d, d_promises d, d_rejected d, d_parked d, d_cos d)"

lemma core_inv: "core d' = core d \<Longrightarrow> dom_inv d' = dom_inv d \<and> queue d' = queue d \<and> d_promises d' = d_promises d"
  by (simp add: core_def dom_inv_def rejected_ok_def parked_ok_def waiting_def queue_def)

lemma core_timers:
  "SetTimeout now ids d cb ms = (i, ids', d') \<Longrightarrow> core d' = core d" "core (ClearTimeout d i) = core d"
  "take_due now d = Some (tm, d') \<Longrightarrow> core d' = core d"
  by (auto simp: SetTimeout_def ClearTimeout_def take_due_def Let_def core_def split: option.splits if_splits prod.splits)

lemma core_other: "core (post d f) = core d" "core (d\<lparr>d_inbox := is, d_running := r\<rparr>) = core d" "core (d\<lparr>d_tick := t\<rparr>) = core d"
  by (simp_all add: core_def post_def)

lemma job_taken:
  assumes "dom_inv d" "d_microHead d < length (d_micro d)"
  shows "queue d = d_micro d ! d_microHead d # queue (d\<lparr>d_microHead := d_microHead d + 1, d_running := r\<rparr>)"
  using assms(2) by (simp add: queue_def Cons_nth_drop_Suc)

lemma step_run_inv:
  assumes inv: "dom_inv d" and h: "d_microHead d < length (d_micro d)" and j: "\<not> resumes (d_micro d ! d_microHead d)"
  shows "dom_inv (d\<lparr>d_microHead := d_microHead d + 1, d_running := r\<rparr>)"
proof -
  let ?d = "d\<lparr>d_microHead := d_microHead d + 1, d_running := r\<rparr>"
  note I = dom_invD [OF inv]
  have "waiting c ?d = waiting c d" for c
    using job_taken [OF inv h, of r] j by (cases "d_micro d ! d_microHead d") (simp_all add: waiting_def)
  then show ?thesis using h I inv by (simp add: dom_inv_def rejected_ok_def parked_ok_def)
qed

text \<open>The call a microtask resumes is in the registry, and leaves it.\<close>

lemma step_resume_inv:
  assumes inv: "dom_inv d" and h: "d_microHead d < length (d_micro d)" "d_micro d ! d_microHead d = Resume c"
  shows "c \<in> set (d_parked d)" "dom_inv (unpark c (d\<lparr>d_microHead := d_microHead d + 1, d_running := r\<rparr>))"
    "set (d_parked (unpark c (d\<lparr>d_microHead := d_microHead d + 1, d_running := r\<rparr>))) = set (d_parked d) - {c}"
proof -
  define e where "e = d\<lparr>d_microHead := d_microHead d + 1, d_running := r\<rparr>"
  note I = dom_invD [OF inv]
  note q = job_taken [OF inv h(1), of r, folded e_def]
  have w: "waiting b d = waiting b e + (if b = c then 1 else 0)" for b
    using q h(2) by (simp add: waiting_def e_def [THEN arg_cong, of d_promises])
  then show c: "c \<in> set (d_parked d)" using I(5) [of c] by (simp split: if_splits)
  have ok: "parked_ok e" and pe: "d_parked e = d_parked d" using I(4) by (simp_all add: parked_ok_def e_def)
  have u: "set (d_parked (unpark c e)) = set (d_parked d) - {c}" "parked_ok (unpark c e)"
    using unpark_ok [OF ok, of c] c by (simp_all add: pe)
  have s: "d_promises (unpark c e) = d_promises d" "d_microHead (unpark c e) = Suc (d_microHead d)" "d_micro (unpark c e) = d_micro d"
    "d_rejected (unpark c e) = d_rejected d" "waiting b (unpark c e) = waiting b e" for b
    by (simp_all add: unpark_def Let_def waiting_def queue_def e_def)
  have "waiting b (unpark c e) = (if b \<in> set (d_parked (unpark c e)) then 1 else 0)" for b
    unfolding u(1) s(5) using w [of b] I(5) [of b] by (simp split: if_splits)
  then show "dom_inv (unpark c (d\<lparr>d_microHead := d_microHead d + 1, d_running := r\<rparr>))"
    unfolding e_def [symmetric]
    using h(1) I(3) inv u(2) by (simp add: dom_inv_def s(1-4) rejected_ok_def)
  show "set (d_parked (unpark c (d\<lparr>d_microHead := d_microHead d + 1, d_running := r\<rparr>))) = set (d_parked d) - {c}"
    unfolding e_def [symmetric] by (rule u(1))
qed


lemma step_new_inv:
  assumes "dom_inv d" "new_promise d = (p, d')"
  shows "dom_inv d' \<and> queue d' = queue d"
proof -
  have d': "d' = d\<lparr>d_promises := d_promises d @ [\<lparr>p_owner = d_self d, p_settled = False, p_reason = None,
      p_handled = False, p_reactions = [], p_value = None\<rparr>]\<rparr>" using assms(2) by (simp add: new_promise_def)
  note I = dom_invD [OF assms(1)]
  have "waiting c d' = waiting c d" for c by (simp add: d' waiting_def queue_def)
  moreover have "list_all promise_ok (d_promises d')" using assms(1) by (simp add: d' dom_inv_def promise_ok_def)
  moreover have "rejected_ok d'" using I(3) by (auto simp: d' rejected_ok_def nth_append)
  ultimately show ?thesis using assms(1) by (simp add: dom_inv_def parked_ok_def d' queue_def)
qed

lemma step_call_inv:
  assumes "dom_inv d"
  shows "dom_inv (d\<lparr>d_cos := d_cos d @ cs\<rparr>)"
  using assms by (auto simp: dom_inv_def rejected_ok_def parked_ok_def waiting_def queue_def nth_append)

lemma step_await_inv:
  assumes inv: "dom_inv d" and p: "p < length (d_promises d)" and c: "c < length (d_cos d)" "c \<notin> set (d_parked d)"
    and a: "Await c p d = (None, d')"
  shows "dom_inv d'" "queue d' = queue d @ (if p_settled (d_promises d ! p) then [Resume c] else [])" "set (d_parked d') = insert c (set (d_parked d))"
proof -
  let ?d = "then_do p (Resume c) d"
  have d': "d' = park c ?d" using a by (auto simp: Await_def split: option.splits)
  note I = dom_invD [OF inv]
  note T = then_do_parts [OF inv p, where r = "Resume c"]
  have ok: "parked_ok ?d" using I(4) T(4,5) by (simp add: parked_ok_def)
  have P: "parked_ok d'" "set (d_parked d') = insert c (set (d_parked d))"
    using park_ok [OF ok, of c] c by (simp_all add: d' T(4,5))
  have s: "d_promises d' = d_promises ?d" "d_microHead d' = d_microHead ?d" "d_micro d' = d_micro ?d" "d_rejected d' = d_rejected ?d"
    "queue d' = queue ?d" "waiting b d' = waiting b ?d" for b
    by (simp_all add: d' park_def waiting_def queue_def)
  have "waiting b d' = (if b \<in> set (d_parked d') then 1 else 0)" for b
    unfolding P(2) s(6) T(6) using I(5) [of b] c(2) by auto
  then show "dom_inv d'" using T(1-3) P(1) by (simp add: dom_inv_def s(1-4) rejected_ok_def)
  show "queue d' = queue d @ (if p_settled (d_promises d ! p) then [Resume c] else [])" unfolding s(5) by (rule T(7))
  show "set (d_parked d') = insert c (set (d_parked d))" by (rule P(2))
qed

lemma queueMicrotask_inv: "dom_inv d \<Longrightarrow> \<not> resumes j \<Longrightarrow> dom_inv (queueMicrotask d j)"
  by (cases j) (auto simp: dom_inv_def rejected_ok_def parked_ok_def waiting_def)

lemma checkRejections_core: "core (snd (checkRejections d)) = core (d\<lparr>d_rejected := []\<rparr>)"
  by (auto simp: checkRejections_def Let_def core_def split: option.splits)

lemma step_drained_inv:
  assumes inv: "dom_inv d" and "d_microHead d = length (d_micro d)"
  shows "dom_inv (snd (checkRejections (d\<lparr>d_micro := [], d_microHead := 0\<rparr>)))"
    "queue (snd (checkRejections (d\<lparr>d_micro := [], d_microHead := 0\<rparr>))) = []" "queue d = []"
proof -
  let ?d = "d\<lparr>d_micro := [], d_microHead := 0, d_rejected := []\<rparr>"
  show q: "queue d = []" using assms(2) by (simp add: queue_def)
  have "dom_inv ?d"
    using inv q by (auto simp: dom_inv_def rejected_ok_def parked_ok_def waiting_def queue_def)
  then show "dom_inv (snd (checkRejections (d\<lparr>d_micro := [], d_microHead := 0\<rparr>)))"
      "queue (snd (checkRejections (d\<lparr>d_micro := [], d_microHead := 0\<rparr>))) = []"
    using core_inv [OF checkRejections_core, of "d\<lparr>d_micro := [], d_microHead := 0\<rparr>"] by (simp_all add: queue_def)
qed

text \<open>Every step keeps the invariant, queues at the end and runs from the front.\<close>

lemma dom_step_inv: "dom_step d rs qs d' \<Longrightarrow> dom_inv d \<Longrightarrow> dom_inv d' \<and> queue d @ qs = rs @ queue d'"
proof (induction rule: dom_step.induct)
  case (step_new d p d')
  then show ?case using step_new_inv by fastforce
next
  case (step_call d)
  then show ?case using step_call_inv by (auto simp: queue_def)
next
  case (step_resolve p d v)
  then show ?case using resolve_inv [OF step_resolve(2,1), of v] by simp
next
  case (step_reject p d t)
  then show ?case using reject_inv [OF step_reject(2,1), of t] by simp
next
  case (step_then p d r)
  then show ?case using then_do_inv [OF step_then(3,1), of r] then_do_parts(7) [OF step_then(3,1)] by (cases r) auto
next
  case (step_await p d c d')
  then show ?case using step_await_inv [OF step_await(5,1-4)] by simp
next
  case (step_run d j)
  then show ?case using step_run_inv job_taken [OF step_run(4,1)] by simp
next
  case (step_resume d c)
  then show ?case
    using step_resume_inv(2) [OF step_resume(3,1,2)] job_taken [OF step_resume(3,1)]
    by (simp add: unpark_def Let_def queue_def)
next
  case (step_fail p hops d d')
  then have "d' = (if p_reason (d_promises d ! p) = None then d else queueMicrotask d (Fail_after p (hops - 1)))"
    by (auto simp: failAfter_def split: option.splits if_splits)
  then show ?case using step_fail(2) queueMicrotask_inv [OF step_fail(2), of "Fail_after p (hops - 1)"] dom_invD(1) [OF step_fail(2)] by auto
next
  case (step_drained d)
  then show ?case using step_drained_inv [OF step_drained(3,1)] by simp
next
  case (step_set now ids d cb ms i ids' d')
  then show ?case using core_inv [OF core_timers(1)] by fastforce
next
  case (step_clear d i)
  then show ?case using core_inv [OF core_timers(2)] by fastforce
next
  case (step_fire now d tm d')
  then show ?case using core_inv [OF core_timers(3)] by fastforce
qed (simp_all add: core_inv [OF core_other(1)] core_inv [OF core_other(2)] core_inv [OF core_other(3)])

lemma dom_steps_inv: "dom_steps d rs qs d' \<Longrightarrow> dom_inv d \<Longrightarrow> dom_inv d' \<and> queue d @ qs = rs @ queue d'"
proof (induction rule: dom_steps.induct)
  case (steps_more d rs qs d' r q d'')
  from steps_more.IH [OF steps_more.prems] have i: "dom_inv d'" "queue d @ qs = rs @ queue d'" by auto
  from dom_step_inv [OF steps_more.hyps(2) i(1)] have s: "dom_inv d''" "queue d' @ q = r @ queue d''" by auto
  have "queue d @ (qs @ q) = (queue d @ qs) @ q" by simp
  also have "\<dots> = rs @ (queue d' @ q)" unfolding i(2) by simp
  also have "\<dots> = (rs @ r) @ queue d''" unfolding s(2) by simp
  finally show ?case using s(1) by blast
qed simp

lemma dom_inv_new: "dom_inv (newDomain n)" "queue (newDomain n) = []"
  by (simp_all add: dom_inv_def newDomain_def rejected_ok_def parked_ok_def waiting_def reactions_for_def queue_def)


text \<open>A settled promise keeps its outcome, and a handled one stays handled.\<close>

definition kept :: "('c, 'v, 't) promise \<Rightarrow> ('c, 'v, 't) promise \<Rightarrow> bool" where
  "kept x y \<longleftrightarrow> (p_settled x \<longrightarrow> p_settled y \<and> p_reason y = p_reason x \<and> p_value y = p_value x) \<and> (p_handled x \<longrightarrow> p_handled y)"

definition all_kept :: "('c, 'v, 't) promise list \<Rightarrow> ('c, 'v, 't) promise list \<Rightarrow> bool" where
  "all_kept ps qs \<longleftrightarrow> length ps \<le> length qs \<and> (\<forall>p < length ps. kept (ps ! p) (qs ! p))"

lemma kept_refl [simp]: "kept x x"
  by (simp add: kept_def)

lemma all_kept_refl [simp]: "all_kept ps ps"
  by (simp add: all_kept_def)

lemma all_kept_trans: "all_kept ps qs \<Longrightarrow> all_kept qs rs \<Longrightarrow> all_kept ps rs"
  by (auto simp: all_kept_def kept_def)

lemma all_kept_update: "kept (ps ! p) y \<Longrightarrow> all_kept ps (ps[p := y])"
  unfolding all_kept_def
proof (intro conjI allI impI)
  fix q assume k: "kept (ps ! p) y" and q: "q < length ps"
  show "kept (ps ! q) (ps[p := y] ! q)" using k q by (cases "q = p") simp_all
qed simp

lemma all_kept_append [simp]: "all_kept ps (ps @ qs)"
  by (simp add: all_kept_def nth_append)

lemma settle_promises:
  "d_promises (settle p r d) = (d_promises d)[p := (d_promises d ! p)\<lparr>p_settled := True, p_reason := r, p_reactions := []\<rparr>]"
proof (cases "p < length (d_promises d)")
  case False
  then show ?thesis by (simp add: settle_def Let_def list_update_beyond)
qed (simp add: settle_def Let_def)

lemma settle_kept: "\<not> p_settled (d_promises d ! p) \<Longrightarrow> all_kept (d_promises d) (d_promises (settle p r d))"
  unfolding settle_promises by (rule all_kept_update) (simp add: kept_def)

lemma resolve_kept: "all_kept (d_promises d) (d_promises (resolve p v d))"
proof (cases "p_settled (d_promises d ! p)")
  case False
  let ?d = "upd_promise p (\<lambda>x. x\<lparr>p_value := Some v\<rparr>) d"
  have "all_kept (d_promises d) (d_promises ?d)" unfolding upd_promise_simps
    by (rule all_kept_update) (use False in \<open>simp add: kept_def\<close>)
  moreover have "\<not> p_settled (d_promises ?d ! p)" using False by (cases "p < length (d_promises d)") (simp_all add: list_update_beyond)
  ultimately have "all_kept (d_promises d) (d_promises (settle p None ?d))" using settle_kept all_kept_trans by blast
  then show ?thesis using False by (simp add: resolve_def)
qed (simp add: resolve_def)

lemma reject_kept: "all_kept (d_promises d) (d_promises (reject p t d))"
  using settle_kept [of "d\<lparr>d_rejected := d_rejected d @ [p]\<rparr>" p "Some t"] settle_kept [of d p "Some t"]
  by (simp add: reject_def)

lemma then_do_kept: "all_kept (d_promises d) (d_promises (then_do p r d))"
proof -
  have a: "all_kept (d_promises d) (d_promises (upd_promise p (\<lambda>x. x\<lparr>p_handled := True\<rparr>) d))"
    unfolding upd_promise_simps by (rule all_kept_update) (simp add: kept_def)
  have b: "all_kept (d_promises e) (d_promises (upd_promise p (\<lambda>x. x\<lparr>p_reactions := p_reactions x @ [r]\<rparr>) e))"
    for e :: "('a, 'b, 'c) Domain"
    unfolding upd_promise_simps by (rule all_kept_update) (simp add: kept_def)
  show ?thesis using a all_kept_trans [OF a b] by (simp add: then_do_def Let_def)
qed

lemma dom_step_kept: "dom_step d rs qs d' \<Longrightarrow> all_kept (d_promises d) (d_promises d')"
proof (induction rule: dom_step.induct)
  case (step_await p d c d')
  then have "d_promises d' = d_promises (then_do p (Resume c) d)" by (auto simp: Await_def park_def split: option.splits)
  then show ?case using then_do_kept by metis
next
  case (step_resume d c)
  then show ?case by (simp add: unpark_def Let_def)
next
  case (step_fail p hops d d')
  then have "d_promises d' = d_promises d" by (auto simp: failAfter_def split: option.splits if_splits)
  then show ?case by simp
next
  case (step_drained d)
  have "d_promises (snd (checkRejections (d\<lparr>d_micro := [], d_microHead := 0\<rparr>))) = d_promises d"
    using checkRejections_core [of "d\<lparr>d_micro := [], d_microHead := 0\<rparr>"] by (simp add: core_def)
  then show ?case by simp
next
  case (step_set now ids d cb ms i ids' d')
  then show ?case using core_timers(1) by (fastforce simp: core_def)
next
  case (step_clear d i)
  then show ?case using core_timers(2) [of d i] by (simp add: core_def)
next
  case (step_fire now d tm d')
  then show ?case using core_timers(3) by (fastforce simp: core_def)
qed (auto simp: new_promise_def post_def resolve_kept reject_kept then_do_kept)

lemma dom_steps_kept: "dom_steps d rs qs d' \<Longrightarrow> all_kept (d_promises d) (d_promises d')"
  by (induction rule: dom_steps.induct) (auto intro: all_kept_trans dom_step_kept)


subsection \<open>Rejections\<close>

text \<open>A rejection nothing handles is on the list the end of the next drain checks.\<close>

definition tracked :: "('c, 'v, 't) Domain \<Rightarrow> bool" where
  "tracked d \<longleftrightarrow> (\<forall>p < length (d_promises d). p_reason (d_promises d ! p) \<noteq> None
     \<longrightarrow> p_handled (d_promises d ! p) \<or> p \<in> set (d_rejected d))"

definition no_unhandled :: "('c, 'v, 't) Domain \<Rightarrow> bool" where
  "no_unhandled d \<longleftrightarrow> list_all (\<lambda>x. p_reason x = None \<or> p_handled x) (d_promises d)"

lemma tracked_cong: "d_promises d' = d_promises d \<Longrightarrow> d_rejected d' = d_rejected d \<Longrightarrow> tracked d' = tracked d"
  by (simp add: tracked_def)

lemma core_tracked: "core d' = core d \<Longrightarrow> tracked d' = tracked d"
  by (intro tracked_cong) (simp_all add: core_def)

lemma tracked_update:
  assumes "tracked d" "p_reason y = None \<or> p_handled y \<or> p \<in> set (d_rejected d')" "d_promises d' = (d_promises d)[p := y]"
    "set (d_rejected d) \<subseteq> set (d_rejected d')"
  shows "tracked d'"
  unfolding tracked_def assms(3)
proof (intro allI impI)
  fix q assume "q < length ((d_promises d)[p := y])" "p_reason ((d_promises d)[p := y] ! q) \<noteq> None"
  then show "p_handled ((d_promises d)[p := y] ! q) \<or> q \<in> set (d_rejected d')"
    using assms(1,2,4) by (cases "q = p") (auto simp: tracked_def)
qed

lemma settle_rejected: "d_rejected (settle p r d) = d_rejected d"
  by (simp add: settle_def Let_def)

lemma settle_tracked:
  assumes "tracked d" "r = None \<or> p_handled (d_promises d ! p) \<or> p \<in> set (d_rejected d)"
  shows "tracked (settle p r d)"
  by (rule tracked_update [OF assms(1) _ settle_promises]) (use assms(2) in \<open>auto simp: settle_rejected\<close>)

lemma tracked_same:
  assumes "tracked d" "p_reason (f (d_promises d ! p)) = p_reason (d_promises d ! p)"
    "p_handled (d_promises d ! p) \<Longrightarrow> p_handled (f (d_promises d ! p))"
  shows "tracked (upd_promise p f d)"
proof (cases "p < length (d_promises d)")
  case True
  show ?thesis by (rule tracked_update [OF assms(1), of "f (d_promises d ! p)" p]) (use True assms in \<open>auto simp: tracked_def\<close>)
next
  case False
  then show ?thesis using assms(1) by (simp add: tracked_def list_update_beyond)
qed

lemma resolve_tracked: "tracked d \<Longrightarrow> tracked (resolve p v d)"
  unfolding resolve_def by (auto intro!: settle_tracked tracked_same)

lemma tracked_noted: "tracked d \<Longrightarrow> tracked (d\<lparr>d_rejected := d_rejected d @ [p]\<rparr>)"
  by (auto simp: tracked_def)

lemma reject_tracked: "tracked d \<Longrightarrow> tracked (reject p t d)"
  unfolding reject_def by (auto intro!: settle_tracked tracked_noted)

lemma then_do_tracked:
  assumes "tracked d" shows "tracked (then_do p r d)"
proof -
  let ?d = "upd_promise p (\<lambda>x. x\<lparr>p_handled := True\<rparr>) d"
  have a: "tracked ?d" by (rule tracked_update [OF assms]) simp_all
  then have "tracked (queueMicrotask ?d r)" by (rule tracked_cong [THEN iffD2, rotated -1]) simp_all
  moreover have "tracked (upd_promise p (\<lambda>x. x\<lparr>p_reactions := p_reactions x @ [r]\<rparr>) ?d)"
    by (rule tracked_same [OF a]) simp_all
  ultimately show ?thesis by (simp add: then_do_def Let_def)
qed

lemma find_handled: "fst (checkRejections d) = None \<Longrightarrow> rejected_ok d \<Longrightarrow> q \<in> set (d_rejected d) \<Longrightarrow> p_handled (d_promises d ! q)"
proof -
  assume c: "fst (checkRejections d) = None" and ok: "rejected_ok d" and q: "q \<in> set (d_rejected d)"
  have "List.find (\<lambda>p. \<not> p_handled (d_promises d ! p)) (d_rejected d) = None"
  proof (rule ccontr)
    assume "List.find (\<lambda>p. \<not> p_handled (d_promises d ! p)) (d_rejected d) \<noteq> None"
    then obtain p where p: "List.find (\<lambda>p. \<not> p_handled (d_promises d ! p)) (d_rejected d) = Some p" by blast
    then have "p \<in> set (d_rejected d)" by (auto simp: find_Some_iff)
    then have "p_reason (d_promises d ! p) \<noteq> None" using ok unfolding rejected_ok_def by blast
    then show False using c p by (simp add: checkRejections_def Let_def)
  qed
  then show ?thesis using q by (simp add: find_None_iff)
qed

lemma checkRejections_clears:
  assumes "tracked d" "rejected_ok d" "fst (checkRejections d) = None"
  shows "no_unhandled (snd (checkRejections d))"
proof -
  have "d_promises (snd (checkRejections d)) = d_promises d" using checkRejections_core [of d] by (simp add: core_def)
  then show ?thesis using find_handled [OF assms(3,2)] assms(1) by (auto simp: no_unhandled_def tracked_def list_all_length)
qed


lemma dom_step_tracked: "dom_step d rs qs d' \<Longrightarrow> dom_inv d \<Longrightarrow> tracked d \<Longrightarrow> tracked d'"
proof (induction rule: dom_step.induct)
  case (step_new d p d')
  then have d': "d' = d\<lparr>d_promises := d_promises d @ [\<lparr>p_owner = d_self d, p_settled = False, p_reason = None,
      p_handled = False, p_reactions = [], p_value = None\<rparr>]\<rparr>" by (simp add: new_promise_def)
  show ?case using step_new(3) by (simp add: d' tracked_def nth_append less_Suc_eq)
next
  case (step_call d)
  then show ?case by (simp add: tracked_def)
next
  case (step_await p d c d')
  then have "d' = park c (then_do p (Resume c) d)" by (auto simp: Await_def split: option.splits)
  then show ?case using then_do_tracked [OF step_await(6)] by (simp add: park_def tracked_def)
next
  case (step_resume d c)
  then show ?case by (simp add: unpark_def Let_def tracked_def)
next
  case (step_fail p hops d d')
  then have "d' = d \<or> d' = queueMicrotask d (Fail_after p (hops - 1))"
    by (auto simp: failAfter_def split: option.splits if_splits)
  then show ?case using step_fail(3) by (auto simp: tracked_def)
next
  case (step_drained d)
  let ?d = "d\<lparr>d_micro := [], d_microHead := 0\<rparr>"
  have "tracked ?d" "rejected_ok ?d" using step_drained(4) dom_invD(3) [OF step_drained(3)] by (simp_all add: tracked_def rejected_ok_def)
  then have "no_unhandled (snd (checkRejections ?d))" using step_drained(2) by (rule checkRejections_clears)
  then show ?case by (auto simp: no_unhandled_def tracked_def list_all_length)
next
  case (step_run d j)
  then show ?case by (simp add: tracked_def)
next
  case (step_set now ids d cb ms i ids' d')
  then show ?case using core_tracked [OF core_timers(1)] by metis
next
  case (step_clear d i)
  then show ?case using core_tracked [OF core_timers(2)] by metis
next
  case (step_fire now d tm d')
  then show ?case using core_tracked [OF core_timers(3)] by metis
qed (simp_all add: resolve_tracked reject_tracked then_do_tracked core_tracked [OF core_other(1)] core_tracked [OF core_other(2)] core_tracked [OF core_other(3)])

definition sound :: "('c, 'v, 't) Domain \<Rightarrow> bool" where
  "sound d \<longleftrightarrow> dom_inv d \<and> tracked d"

lemma sound_new: "sound (newDomain n)"
  by (simp add: sound_def dom_inv_new) (simp add: tracked_def newDomain_def)

lemma sound_steps: "dom_steps d rs qs d' \<Longrightarrow> sound d \<Longrightarrow> sound d'"
proof (induction rule: dom_steps.induct)
  case (steps_more d rs qs d' r q d'')
  then show ?case using dom_step_inv [OF steps_more.hyps(2)] dom_step_tracked [OF steps_more.hyps(2)] by (simp add: sound_def)
qed

subsection \<open>The driver\<close>

definition reaches :: "('c, 'v, 't) Domain \<Rightarrow> ('c, 'v, 't) Domain \<Rightarrow> bool" where
  "reaches d d' \<longleftrightarrow> (\<exists>rs qs. dom_steps d rs qs d')"

text \<open>The program's code changes its domain by the runtime's operations alone.\<close>

definition by_steps :: "('x \<Rightarrow> ('c, 'v, 't) Domain \<Rightarrow> ('c, 'v, 't) outcome) \<Rightarrow> bool" where
  "by_steps f \<longleftrightarrow> (\<forall>x d. reaches d (snd (f x d)))"

lemma reaches_refl [simp]: "reaches d d"
  unfolding reaches_def using steps_none by blast

lemma steps_trans: "dom_steps d' rs' qs' d'' \<Longrightarrow> dom_steps d rs qs d' \<Longrightarrow> dom_steps d (rs @ rs') (qs @ qs') d''"
proof (induction arbitrary: rs qs rule: dom_steps.induct)
  case (steps_more e rs1 qs1 e' r q e'')
  from dom_steps.steps_more [OF steps_more.IH [OF steps_more.prems] steps_more.hyps(2)] show ?case by simp
qed simp

lemma reaches_trans: "reaches d d' \<Longrightarrow> reaches d' d'' \<Longrightarrow> reaches d d''"
  unfolding reaches_def using steps_trans by blast

lemma reaches_step: "dom_step d rs qs d' \<Longrightarrow> reaches d d'"
  unfolding reaches_def using dom_steps.steps_more [OF steps_none] by blast

lemma run_job_reaches:
  assumes p: "by_steps run" "by_steps continue" and h: "d_microHead d < length (d_micro d)"
  shows "reaches d (snd (run_job run continue (d_micro d ! d_microHead d) (d\<lparr>d_microHead := d_microHead d + 1, d_running := inMicrotask\<rparr>)))"
proof -
  let ?d = "d\<lparr>d_microHead := d_microHead d + 1, d_running := inMicrotask\<rparr>"
  have s: "reaches d ?d" if "\<not> resumes (d_micro d ! d_microHead d)"
    by (rule reaches_step [OF step_run [OF h refl that]])
  show ?thesis
  proof (cases "d_micro d ! d_microHead d")
    case (Program_job c)
    then have "reaches d ?d" using s by simp
    moreover have "reaches ?d (snd (run c ?d))" using p(1) by (simp add: by_steps_def)
    ultimately show ?thesis using Program_job by (simp add: run_job_def reaches_trans)
  next
    case (Resume c)
    have "reaches d (unpark c ?d)" by (rule reaches_step [OF step_resume [OF h Resume]])
    moreover have "reaches (unpark c ?d) (snd (continue c (unpark c ?d)))" using p(2) by (simp add: by_steps_def)
    ultimately show ?thesis using Resume by (simp add: run_job_def reaches_trans)
  next
    case (Fail_after p hops)
    then have "reaches d ?d" using s by simp
    moreover have "reaches ?d (snd (failAfter p hops ?d))"
    proof (cases "fst (failAfter p hops ?d)")
      case None
      then show ?thesis by (intro reaches_step [OF step_fail [where p = p and hops = hops]]) (simp add: prod_eq_iff)
    next
      case (Some e)
      then have "snd (failAfter p hops ?d) = ?d" by (auto simp: failAfter_def split: option.splits if_splits)
      then show ?thesis by simp
    qed
    ultimately show ?thesis using Fail_after by (simp add: run_job_def reaches_trans)
  qed
qed


text \<open>
  A drain that returns leaves the domain idle: no microtask, no failure due, no rejection that
  nothing handles; and it is a run of the domain's steps, so all that holds of them holds of it.
\<close>

definition idle :: "('c, 'v, 't) Domain \<Rightarrow> bool" where
  "idle d \<longleftrightarrow> d_micro d = [] \<and> d_microHead d = 0 \<and> d_tick d = None \<and> d_rejected d = [] \<and> no_unhandled d"

lemma drained_idle:
  fixes d :: "('c, 'v, 't) Domain"
  defines "e \<equiv> d\<lparr>d_micro := [], d_microHead := 0\<rparr>"
  assumes s: "sound d" and h: "d_microHead d = length (d_micro d)" "d_tick d = None"
    and out: "(if length (d_rejected e) > 0 then checkRejections e else (None, e)) = (None, d')"
  shows "reaches d d' \<and> idle d'"
proof -
  have c: "checkRejections e = (None, d')"
    using out by (cases "d_rejected e = []") (simp_all add: checkRejections_def)
  then have "reaches d d'" using reaches_step [OF step_drained [OF h(1)]] by (simp add: e_def)
  moreover have "tracked e" "rejected_ok e"
    using s dom_invD(3) [of d] by (simp_all add: e_def sound_def tracked_def rejected_ok_def)
  then have "no_unhandled d'" using checkRejections_clears [of e] c by simp
  moreover have "d_micro d' = [] \<and> d_microHead d' = 0 \<and> d_tick d' = None \<and> d_rejected d' = []"
    using c h(2) by (auto simp: checkRejections_def Let_def e_def split: option.splits)
  ultimately show ?thesis by (simp add: idle_def)
qed

lemma drain_idle:
  fixes run :: "'c \<Rightarrow> ('c, 'v, 't) Domain \<Rightarrow> ('c, 'v, 't) outcome"
  assumes p: "by_steps run" "by_steps continue" and "drain (run_job run continue) d = Some (None, d')" "sound d"
  shows "reaches d d' \<and> idle d'"
proof -
  let ?P = "\<lambda>exec d (y :: ('c, 'v, 't) outcome). exec = run_job run continue \<longrightarrow> sound d \<longrightarrow> fst y = None \<longrightarrow> reaches d (snd y) \<and> idle (snd y)"
  have "?P (run_job run continue) d (None, d')"
  proof (rule drain.raw_induct [OF _ assms(3), where P = ?P], intro impI)
    fix drain' exec d y
    assume IH: "\<And>exec d y. drain' exec d = Some y \<Longrightarrow> ?P exec d y"
      and body: "(case d_tick d of
        None \<Rightarrow>
          if d_microHead d = length (d_micro d)
          then let d' = d\<lparr>d_micro := [], d_microHead := 0\<rparr>
               in Some (if length (d_rejected d') > 0 then checkRejections d' else (None, d'))
          else (case exec (d_micro d ! d_microHead d) (d\<lparr>d_microHead := d_microHead d + 1, d_running := inMicrotask\<rparr>) of
                  (None, d') \<Rightarrow> drain' exec d'
                | (Some e, d') \<Rightarrow> Some (Some e, d'))
      | Some t \<Rightarrow> Some (Some (PThrown t), d\<lparr>d_tick := None\<rparr>)) = Some y"
      and exec: "exec = run_job run continue" and snd: "sound d" and y: "fst y = None"
    show "reaches d (snd y) \<and> idle (snd y)"
    proof (cases "d_tick d = None \<and> d_microHead d \<noteq> length (d_micro d)")
      case True
      have h: "d_microHead d < length (d_micro d)" using True snd dom_invD(1) [of d] by (simp add: sound_def)
      let ?e = "exec (d_micro d ! d_microHead d) (d\<lparr>d_microHead := d_microHead d + 1, d_running := inMicrotask\<rparr>)"
      have r: "reaches d (snd ?e)" unfolding exec by (rule run_job_reaches [OF p h])
      have "fst ?e = None" using body y True by (cases ?e; cases "fst ?e") auto
      then have d: "drain' exec (snd ?e) = Some y" using body True by (cases ?e) auto
      have "sound (snd ?e)" using r snd sound_steps by (auto simp: reaches_def)
      then show ?thesis using IH [OF d] exec y r reaches_trans by blast
    next
      case False
      then have "d_tick d = None \<and> d_microHead d = length (d_micro d)" using body y by (auto split: option.splits)
      then show ?thesis using drained_idle [OF snd, of "snd y"] body y by (cases y) (simp add: Let_def)
    qed
  qed
  then show ?thesis using assms(4) by simp
qed


text \<open>
  A drain returns when the microtasks neither throw nor queue more, having run each in turn.
\<close>

definition run_each :: "('c job \<Rightarrow> ('c, 'v, 't) Domain \<Rightarrow> ('c, 'v, 't) outcome) \<Rightarrow> ('c, 'v, 't) Domain \<Rightarrow> ('c, 'v, 't) Domain" where
  "run_each exec d =
     fold (\<lambda>j e. snd (exec j (e\<lparr>d_microHead := d_microHead e + 1, d_running := inMicrotask\<rparr>))) (queue d) d"

lemma drain_each:
  assumes quiet: "\<And>j e. fst (exec j e) = None \<and> d_micro (snd (exec j e)) = d_micro e
      \<and> d_microHead (snd (exec j e)) = d_microHead e \<and> d_tick (snd (exec j e)) = d_tick e"
  shows "d_microHead d \<le> length (d_micro d) \<Longrightarrow> d_tick d = None \<Longrightarrow>
    drain exec d = Some (let e = (run_each exec d)\<lparr>d_micro := [], d_microHead := 0\<rparr>
      in if length (d_rejected e) > 0 then checkRejections e else (None, e))"
proof (induction "length (d_micro d) - d_microHead d" arbitrary: d)
  case 0
  then show ?case by (subst drain.simps) (simp add: run_each_def queue_def Let_def)
next
  case (Suc n)
  define o' where "o' = exec (d_micro d ! d_microHead d) (d\<lparr>d_microHead := d_microHead d + 1, d_running := inMicrotask\<rparr>)"
  define e where "e = snd o'"
  have h: "d_microHead d < length (d_micro d)" using Suc(2) by simp
  have e: "fst o' = None" "d_micro e = d_micro d" "d_microHead e = Suc (d_microHead d)" "d_tick e = None"
    using quiet [of "d_micro d ! d_microHead d" "d\<lparr>d_microHead := d_microHead d + 1, d_running := inMicrotask\<rparr>"] Suc(4)
    by (simp_all add: o'_def e_def)
  have "queue d = d_micro d ! d_microHead d # queue e" using h by (simp add: queue_def e(2,3) Cons_nth_drop_Suc)
  then have "run_each exec e = run_each exec d" by (simp add: run_each_def e_def o'_def)
  moreover have "drain exec d = drain exec e"
    using e(1) h Suc(4) by (subst drain.simps) (auto simp: o'_def e_def split: prod.splits)
  ultimately show ?case using Suc(1) [of e] Suc(2) e h by simp
qed

subsection \<open>Sample domains\<close>

definition sample_parked :: "(unit, nat, nat) Domain" where
  "sample_parked =
     (let d = snd (new_promise (newDomain 0)); d' = d\<lparr>d_cos := d_cos d @ [\<lparr>co_parkedAt = 0, co_aborted = False\<rparr>]\<rparr>
      in snd (Await 0 0 d'))"

definition sample_settled :: "(unit, nat, nat) Domain" where
  "sample_settled = resolve 0 7 sample_parked"

lemmas sample_defs = sample_parked_def sample_settled_def newDomain_def new_promise_def Await_def checkDomain_def then_do_def park_def
  resolve_def reject_def settle_def upd_promise_def queueMicrotask_def unpark_def

lemma sample_parked_steps: "dom_steps (newDomain 0) [] [] sample_parked"
proof -
  let ?d = "snd (new_promise (newDomain 0 :: (unit, nat, nat) Domain))"
  let ?e = "?d\<lparr>d_cos := d_cos ?d @ [\<lparr>co_parkedAt = 0, co_aborted = False\<rparr>]\<rparr>"
  have "dom_steps (newDomain 0) ([] @ []) ([] @ []) ?d"
    by (rule steps_more [OF steps_none step_new [of _ 0]]) (simp add: new_promise_def newDomain_def)
  then have "dom_steps (newDomain 0) ([] @ []) ([] @ []) ?e" by (intro steps_more [OF _ step_call]) simp
  moreover have "dom_step ?e [] (if p_settled (d_promises ?e ! 0) then [Resume 0] else []) sample_parked"
    by (rule step_await) (simp_all add: sample_defs)
  then have "dom_step ?e [] [] sample_parked" by (simp add: sample_defs)
  ultimately have "dom_steps (newDomain 0) ([] @ []) ([] @ []) sample_parked" using steps_more by fastforce
  then show ?thesis by simp
qed

lemma sample_settled_steps: "dom_steps (newDomain 0) [] [Resume 0] sample_settled"
proof -
  have "dom_step sample_parked [] (p_reactions (d_promises sample_parked ! 0)) sample_settled"
    unfolding sample_settled_def by (rule step_resolve) (simp add: sample_defs)
  then have "dom_step sample_parked [] [Resume 0] sample_settled" by (simp add: sample_defs)
  from steps_more [OF sample_parked_steps this] show ?thesis by simp
qed


subsection \<open>Properties\<close>



text \<open>
  C20: A call parked in an \<open>await\<close> waits in exactly one place, a microtask queued or a reaction of
  a promise, and no other call does; the registry holds each once, where its call says it is;
  and the microtask that resumes a call finds it there and takes out it alone.
\<close>

theorem parked_calls_wait_once:
  assumes "dom_steps (newDomain n) rs qs d"
  shows "waiting c d = (if c \<in> set (d_parked d) then 1 else 0) \<and> parked_ok d
    \<and> (queue d = Resume c # js \<longrightarrow>
         c \<in> set (d_parked d) \<and> parked_ok (unpark c d) \<and> set (d_parked (unpark c d)) = set (d_parked d) - {c})"
proof -
  have inv: "dom_inv d" using dom_steps_inv [OF assms dom_inv_new(1)] by blast
  note I = dom_invD [OF inv]
  have "c \<in> set (d_parked d)" if "queue d = Resume c # js"
  proof -
    have "waiting c d > 0" using that by (simp add: waiting_def)
    then show ?thesis using I(5) [of c] by (simp split: if_splits)
  qed
  then show ?thesis using I(4,5) unpark_ok [OF I(4)] by blast
qed

theorem parked_calls_wait_once_witness:
  "waiting 0 sample_settled = 1 \<and> set (d_parked (unpark 0 sample_settled)) = {}"
proof -
  have "queue sample_settled = Resume 0 # []" "set (d_parked sample_settled) = {0}"
    by (simp_all add: sample_defs queue_def)
  then show ?thesis
    using parked_calls_wait_once [OF sample_settled_steps, of 0 "[]"] by simp
qed

text \<open>
  C19: A promise settles once. In every run, a promise that has settled has a value or a reason,
  which is what every \<open>await\<close> of it gets, and whatever is done after, a \<open>resolve\<close> or a
  \<open>reject\<close> of it included, it has the same one.
\<close>

theorem promise_settles_once:
  assumes "dom_steps (newDomain n) rs qs d" "p < length (d_promises d)" "p_settled (d_promises d ! p)" "dom_steps d rs' qs' d'"
  shows "p_settled (d_promises d' ! p) \<and> awaited p d' = awaited p d \<and> awaited p d \<noteq> Inr None"
proof -
  have "promise_ok (d_promises d ! p)" using dom_steps_inv [OF assms(1) dom_inv_new(1)] dom_invD(2) assms(2) by blast
  moreover have "kept (d_promises d ! p) (d_promises d' ! p)" using dom_steps_kept [OF assms(4)] assms(2) by (simp add: all_kept_def)
  ultimately show ?thesis using assms(3) by (auto simp: kept_def awaited_def promise_ok_def split: option.splits)
qed

theorem promise_settles_once_witness:
  "awaited 0 (reject 0 9 sample_settled) = (Inr (Some 7) :: nat + nat option)"
proof -
  have s: "0 < length (d_promises sample_settled)" "p_settled (d_promises sample_settled ! 0)"
    "awaited 0 sample_settled = (Inr (Some 7) :: nat + nat option)"
    by (simp_all add: sample_defs awaited_def)
  from steps_more [OF steps_none step_reject [OF s(1)]] have "reaches sample_settled (reject 0 9 sample_settled)"
    unfolding reaches_def by blast
  then obtain rs qs where "dom_steps sample_settled rs qs (reject 0 9 sample_settled)" by (auto simp: reaches_def)
  from promise_settles_once [OF sample_settled_steps s(1,2) this] s(3) show ?thesis by simp
qed

text \<open>
  C21: A drain that returns leaves the domain idle, whatever its microtasks do by the runtime's
  operations: no microtask, no failure due, and no promise anywhere in the domain rejected with
  nothing to handle it. A rejection that nothing handled ends the drain with it instead.
\<close>

theorem drain_leaves_idle:
  assumes "dom_steps (newDomain n) rs qs d" "by_steps run" "by_steps continue" "drain (run_job run continue) d = Some (None, d')"
  shows "d_micro d' = [] \<and> d_tick d' = None \<and> list_all (\<lambda>x. p_reason x = None \<or> p_handled x) (d_promises d')"
proof -
  have "sound d" using sound_steps [OF assms(1)] sound_new by blast
  then have "idle d'" using drain_idle [OF assms(2-4)] by blast
  then show ?thesis by (simp add: idle_def no_unhandled_def)
qed

theorem drain_leaves_idle_witness:
  "\<exists>d'. drain (run_job (\<lambda>_ d. (None, d)) (\<lambda>_ d. (None, d))) sample_settled = Some (None, d')
     \<and> d_micro d' = [] \<and> d_parked d' = [] \<and> list_all (\<lambda>x. p_reason x = None \<or> p_handled x) (d_promises d')"
proof -
  let ?q = "\<lambda>_ d. (None, d)"
  let ?d = "(unpark 0 (sample_settled\<lparr>d_microHead := 1, d_running := inMicrotask\<rparr>))\<lparr>d_micro := [], d_microHead := 0\<rparr>"
  have d: "drain (run_job ?q ?q) sample_settled = Some (None, ?d)"
    by (subst drain.simps, subst drain.simps) (simp add: run_job_def sample_defs Let_def)
  have q: "by_steps ?q" by (simp add: by_steps_def)
  have "d_parked ?d = []" by (simp add: sample_defs)
  then show ?thesis using drain_leaves_idle [OF sample_settled_steps q q d] d by blast
qed



lemma abort_fold:
  "c < length xs \<Longrightarrow> co_aborted (fold (\<lambda>c xs. xs[c := (xs ! c)\<lparr>co_aborted := True\<rparr>]) cs xs ! c)
     = (co_aborted (xs ! c) \<or> c \<in> set cs)"
proof (induction cs arbitrary: xs)
  case (Cons a cs)
  then show ?case by (cases "c = a") simp_all
qed simp

text \<open>
  Abandoning a domain empties its registry and marks the calls that were in it, and no other:
  each exits when it has the token once more.
\<close>

theorem abort_marks:
  assumes "c < length (d_cos d)"
  shows "d_parked (abort d) = [] \<and> co_aborted (d_cos (abort d) ! c) = (co_aborted (d_cos d ! c) \<or> c \<in> set (d_parked d))"
  using abort_fold [OF assms, of "rev (d_parked d)"] by (simp add: abort_def)

theorem abort_marks_witness: "co_aborted (d_cos (abort sample_parked) ! 0)"
proof -
  have "0 < length (d_cos sample_parked)" "0 \<in> set (d_parked sample_parked)" by (simp_all add: sample_defs)
  then show ?thesis using abort_marks [of 0 sample_parked] by simp
qed


text \<open>
  A promise used from another domain panics there and changes nothing: an executor's \<open>resolve\<close>
  and \<open>reject\<close>, and an \<open>await\<close>. In its own domain each does its work.
\<close>

theorem cross_domain_refused:
  "(if p_owner (d_promises d ! p) = caller
    then resolveFn p caller v d = (None, resolve p v d) \<and> rejectFn p caller t d = (None, reject p t d)
    else resolveFn p caller v d = (Some (PRuntime errCrossDomain), d) \<and> rejectFn p caller t d = (Some (PRuntime errCrossDomain), d))
   \<and> (if p_owner (d_promises d ! p) = d_self d then fst (Await c p d) = None \<and> c \<in> set (d_parked (snd (Await c p d)))
      else Await c p d = (Some (PRuntime errCrossDomain), d))"
  by (auto simp: resolveFn_def rejectFn_def Await_def checkDomain_def park_def)

end
