(* ===== verification/Uri.thy ===== *)
theory Uri
  imports JsStr GoStrconv
begin

text \<open>
  \<open>encodeURIComponent\<close> and \<open>decodeURIComponent\<close> (\<open>backend/runtime/uri.go\<close>, \<open>numDigit\<close> of
  \<open>num_parse.go\<close>). A loop over \<open>s[i:]\<close> is a recursion on the rest of the string, with what the
  builder holds.

  Proved: every string of code units encodes as ECMAScript says, with an error exactly for a
  lone surrogate, and decodes back to itself.
\<close>

definition uri_malformed :: failure where
  "uri_malformed = Thrown ErrorURI (Text ''URI malformed'')"

definition uriUnreserved :: "byte \<Rightarrow> bool" where
  "uriUnreserved c \<longleftrightarrow> (0x61 \<le> c \<and> c \<le> 0x7A) \<or> (0x41 \<le> c \<and> c \<le> 0x5A) \<or> (0x30 \<le> c \<and> c \<le> 0x39)
     \<or> c \<in> set [0x2D, 0x5F, 0x2E, 0x21, 0x7E, 0x2A, 0x27, 0x28, 0x29]"

text \<open>\<open>uriHex\<close>: the character of a digit.\<close>

definition uriHex :: "nat \<Rightarrow> byte" where
  "uriHex d = map byte_of ''0123456789ABCDEF'' ! d"

definition uriEscape :: "byte \<Rightarrow> byte list" where
  "uriEscape c = [0x25, uriHex (unat (drop_bit 4 c)), uriHex (unat (c AND 0xF))]"

text \<open>
  The loop of \<open>EncodeURIComponent\<close>. \<open>utf8.EncodeRune\<close> writes U+FFFD for a rune that is none, as
  \<open>utf8.AppendRune\<close> does.
\<close>

function encode_loop :: "byte list \<Rightarrow> byte list \<Rightarrow> byte list result" where
  "encode_loop b [] = Inr b"
| "encode_loop b (c # s) =
     (if uriUnreserved c then encode_loop (b @ [c]) s
      else if c < 0x80 then encode_loop (b @ uriEscape c) s
      else case surrogateAt (c # s) 0 of
        Some u \<Rightarrow>
          (case surrogateAt (c # s) 3 of
             Some low \<Rightarrow>
               if u \<ge> 0xDC00 \<or> low < 0xDC00 then Inl uri_malformed
               else encode_loop (b @ concat (map uriEscape (append_rune [] (0x10000 + push_bit 10 (u - 0xD800) + (low - 0xDC00)))))
                      (drop 6 (c # s))
           | None \<Rightarrow> Inl uri_malformed)
      | None \<Rightarrow>
          let (r, size) = decode_rune (c # s)
          in encode_loop (b @ concat (map uriEscape (append_rune [] r))) (drop size (c # s)))"
  by pat_completeness auto
termination
proof (relation "measure (\<lambda>(b, s). length s)")
  fix b c s x r size
  assume "x = decode_rune (c # s)" "(r, size) = x"
  with decode_width [of c s] have "0 < size" by (metis snd_conv)
  then show "((b @ concat (map uriEscape (append_rune [] r)), drop size (c # s)), b, c # s) \<in> measure (\<lambda>(b, s). length s)" by simp
qed auto

declare encode_loop.simps(2) [simp del]

definition EncodeURIComponent :: "byte list \<Rightarrow> byte list result" where
  "EncodeURIComponent s =
     (let i = length (takeWhile uriUnreserved s)
      in if i = length s then Inr s else encode_loop (take i s) (drop i s))"

definition numDigit :: "byte \<Rightarrow> nat" where
  "numDigit c =
     (if 0x30 \<le> c \<and> c \<le> 0x39 then unat (c - 0x30)
      else if 0x61 \<le> c \<and> c \<le> 0x7A then unat (c - 0x61) + 10
      else if 0x41 \<le> c \<and> c \<le> 0x5A then unat (c - 0x41) + 10
      else 36)"

definition uriOctet :: "byte list \<Rightarrow> nat \<Rightarrow> byte option" where
  "uriOctet s i =
     (if i + 2 \<ge> length s \<or> s ! i \<noteq> 0x25 then None
      else let hi = numDigit (s ! (i + 1)); lo = numDigit (s ! (i + 2))
           in if hi \<ge> 16 \<or> lo \<ge> 16 then None else Some (word_of_nat (push_bit 4 hi OR lo)))"

text \<open>\<open>utf8.Valid\<close>.\<close>

function utf8_Valid :: "byte list \<Rightarrow> bool" where
  "utf8_Valid [] = True"
| "utf8_Valid (c # s) =
     (let (r, size) = decode_rune (c # s)
      in \<not> (r = rune_error \<and> size = 1) \<and> utf8_Valid (drop size (c # s)))"
  by pat_completeness auto
termination
proof (relation "measure length")
  fix c s x r size
  assume "x = decode_rune (c # s)" "(r, size) = x"
  with decode_width [of c s] have "0 < size" by (metis snd_conv)
  then show "(drop size (c # s), c # s) \<in> measure length" by simp
qed simp

declare utf8_Valid.simps(2) [simp del]

text \<open>How many bytes the sequence that \<open>lead\<close> begins has.\<close>

definition sequence_length :: "byte \<Rightarrow> nat" where
  "sequence_length lead =
     (if lead AND 0xE0 = 0xC0 then 2
      else if lead AND 0xF0 = 0xE0 then 3
      else if lead AND 0xF8 = 0xF0 then 4
      else 1)"

text \<open>The rest of a sequence: \<open>k\<close> more escapes from the \<open>j\<close>th on.\<close>

fun octets :: "byte list \<Rightarrow> nat \<Rightarrow> nat \<Rightarrow> byte list option" where
  "octets s j 0 = Some []"
| "octets s j (Suc k) =
     (case uriOctet s (3 * j) of
        None \<Rightarrow> None
      | Some c \<Rightarrow> (case octets s (j + 1) k of None \<Rightarrow> None | Some cs \<Rightarrow> Some (c # cs)))"

definition IndexByte :: "byte list \<Rightarrow> byte \<Rightarrow> nat option" where
  "IndexByte s c = (if c \<in> set s then Some (length (takeWhile (\<lambda>d. d \<noteq> c) s)) else None)"

function decode_loop :: "byte list \<Rightarrow> byte list \<Rightarrow> byte list result" where
  "decode_loop b s0 =
     (case IndexByte s0 0x25 of
        None \<Rightarrow> Inr (b @ s0)
      | Some i \<Rightarrow>
          let s = drop i s0
          in case uriOctet s 0 of
               None \<Rightarrow> Inl uri_malformed
             | Some lead \<Rightarrow>
                 let n = sequence_length lead
                 in case octets s 1 (n - 1) of
                      None \<Rightarrow> Inl uri_malformed
                    | Some cs \<Rightarrow>
                        if \<not> utf8_Valid (lead # cs) then Inl uri_malformed
                        else decode_loop (b @ take i s0 @ lead # cs) (drop (3 * n) s))"
  by pat_completeness auto
termination
proof (relation "measure (\<lambda>(b, s). length s)")
  fix b s0 :: "byte list" and i s lead n cs
  assume "IndexByte s0 0x25 = Some i" "n = sequence_length lead" "s = drop i s0"
  then have "0x25 \<in> set s0" "0 < n" by (auto simp: IndexByte_def sequence_length_def split: if_splits)
  then have "0 < length s0" "0 < n" by auto
  then show "((b @ take i s0 @ lead # cs, drop (3 * n) s), b, s0) \<in> measure (\<lambda>(b, s). length s)"
    using \<open>s = drop i s0\<close> by (simp add: diff_less)
qed simp

declare decode_loop.simps [simp del]

definition DecodeURIComponent :: "byte list \<Rightarrow> byte list result" where
  "DecodeURIComponent s = (if IndexByte s 0x25 = None then Inr s else decode_loop [] s)"


subsection \<open>Octets\<close>

lemma nat_and_high: "(n :: nat) AND push_bit k (mask m) = n div 2 ^ k mod 2 ^ m * 2 ^ k"
proof -
  have "n AND push_bit k (mask m) = push_bit k (take_bit m (drop_bit k n))"
    by (rule bit_eqI) (auto simp: bit_and_iff bit_push_bit_iff bit_take_bit_iff bit_drop_bit_eq bit_mask_iff)
  then show ?thesis by (simp add: push_bit_eq_mult take_bit_eq_mod drop_bit_eq_div)
qed

lemma and_high:
  "(b :: byte) AND 0xE0 = 0xC0 \<longleftrightarrow> unat b div 32 = 6" "b AND 0xF0 = 0xE0 \<longleftrightarrow> unat b div 16 = 14"
  "b AND 0xF8 = 0xF0 \<longleftrightarrow> unat b div 8 = 30"
proof -
  have b: "unat b < 256" by simp
  have E: "unat (b AND 0xE0) = unat b div 32 mod 8 * 32"
    using nat_and_high [of "unat b" 5 3] by (simp add: unsigned_and_eq mask_eq_exp_minus_1)
  have F: "unat (b AND 0xF0) = unat b div 16 mod 16 * 16"
    using nat_and_high [of "unat b" 4 4] by (simp add: unsigned_and_eq mask_eq_exp_minus_1)
  have G: "unat (b AND 0xF8) = unat b div 8 mod 32 * 8"
    using nat_and_high [of "unat b" 3 5] by (simp add: unsigned_and_eq mask_eq_exp_minus_1)
  have "b AND 0xE0 = 0xC0 \<longleftrightarrow> unat (b AND 0xE0) = unat (0xC0 :: byte)" by (simp only: word_unat_eq_iff)
  then show "b AND 0xE0 = 0xC0 \<longleftrightarrow> unat b div 32 = 6" using b by (auto simp: E)
  have "b AND 0xF0 = 0xE0 \<longleftrightarrow> unat (b AND 0xF0) = unat (0xE0 :: byte)" by (simp only: word_unat_eq_iff)
  then show "b AND 0xF0 = 0xE0 \<longleftrightarrow> unat b div 16 = 14" using b by (auto simp: F)
  have "b AND 0xF8 = 0xF0 \<longleftrightarrow> unat (b AND 0xF8) = unat (0xF0 :: byte)" by (simp only: word_unat_eq_iff)
  then show "b AND 0xF8 = 0xF0 \<longleftrightarrow> unat b div 8 = 30" using b by (auto simp: G)
qed

lemma sequence_length_lead: 
  assumes "r < 0x110000" shows "sequence_length (hd (wtf8 r)) = length (wtf8 r)"
  using assms
proof (cases rule: rune_cases)
  case one
  then show ?thesis by (simp add: wtf8_1 sequence_length_def and_high unat_word_of_nat_byte) arith
next
  case (two a b)
  then show ?thesis by (simp add: wtf8_2 sequence_length_def and_high del: of_nat_add)
next
  case (three a b c)
  have "(224 + a) div 16 = 14" "(224 + a) div 32 = 7"
    using three(2) by (auto intro!: div_nat_eqI)
  moreover have "(224 + a) div 8 < 30" using three(2) by (simp add: div_less_iff_less_mult)
  ultimately have "(224 + a) div 16 = 14" "(224 + a) div 32 = 7" "(224 + a) div 8 \<noteq> 30" by simp_all
  with three show ?thesis by (simp add: wtf8_3 sequence_length_def and_high del: of_nat_add distrib_right_numeral)
next
  case (four a b c d)
  have "(240 + a) div 16 = 15" "(240 + a) div 32 = 7" "(240 + a) div 8 = 30"
    using four(2) by (auto intro!: div_nat_eqI)
  with four show ?thesis by (simp add: wtf8_4 sequence_length_def and_high del: of_nat_add distrib_right_numeral)
qed

lemma hex_table: "list_all (\<lambda>d. numDigit (uriHex d) = d) [0..<16]"
  by code_simp

lemma numDigit_uriHex: "d < 16 \<Longrightarrow> numDigit (uriHex d) = d"
  using hex_table by (simp add: list_all_iff)

lemma uriOctet_escape: "uriOctet (uriEscape c @ s) 0 = Some c"
proof -
  have b: "unat (drop_bit 4 c) = unat c div 16" "unat (c AND 0xF) = unat c mod 16"
    by (simp_all add: drop_bit_eq_div unat_div_distrib unat_and_0F)
  have less: "unat c div 16 < 16" using unat_byte_less [of c] by (simp add: less_mult_imp_div_less)
  have "push_bit 4 (unat c div 16) OR unat c mod 16 = unat c"
    using or_push_bit [of "unat c mod 16" 4 "unat c div 16"] by simp
  then show ?thesis using less by (simp add: uriOctet_def uriEscape_def b numDigit_uriHex Let_def)
qed

definition escapes :: "byte list \<Rightarrow> byte list" where
  "escapes cs = concat (map uriEscape cs)"

lemma escapes_simps [simp]: "escapes [] = []" "escapes (c # cs) = uriEscape c @ escapes cs"
  by (simp_all add: escapes_def)

lemma length_uriEscape [simp]: "length (uriEscape c) = 3"
  by (simp add: uriEscape_def)

lemma length_escapes [simp]: "length (escapes cs) = 3 * length cs"
  by (induction cs) auto

lemma uriOctet_shift: "uriOctet (uriEscape c @ s) (3 + i) = uriOctet s i"
  by (simp add: uriOctet_def uriEscape_def numeral_3_eq_3)

lemma uriOctet_escapes: "j < length cs \<Longrightarrow> uriOctet (escapes cs @ s) (3 * j) = Some (cs ! j)"
proof (induction cs arbitrary: j)
  case (Cons c cs)
  show ?case
  proof (cases j)
    case 0
    then show ?thesis using uriOctet_escape by simp
  next
    case (Suc k)
    then show ?thesis using uriOctet_shift [of c "escapes cs @ s" "3 * k"] Cons by simp
  qed
qed simp

lemma octets_escapes: "j + k = length cs \<Longrightarrow> octets (escapes cs @ s) j k = Some (drop j cs)"
proof (induction k arbitrary: j)
  case (Suc k)
  then have "drop j cs = cs ! j # drop (Suc j) cs" by (simp add: Cons_nth_drop_Suc)
  with Suc show ?case using uriOctet_escapes [of j cs s] by simp
qed simp


subsection \<open>Decoding what was encoded\<close>

text \<open>A character as \<open>encodeURIComponent\<close> writes it.\<close>

definition uri_char :: "rune \<Rightarrow> byte list" where
  "uri_char r = (if r < 0x80 \<and> uriUnreserved (word_of_nat r) then [word_of_nat r] else escapes (wtf8 r))"

definition lone :: "rune \<Rightarrow> bool" where
  "lone r \<longleftrightarrow> 0xD800 \<le> r \<and> r \<le> 0xDFFF"

lemma utf8_Valid_wtf8: "r < 0x110000 \<Longrightarrow> \<not> lone r \<Longrightarrow> utf8_Valid (wtf8 r)"
proof -
  assume r: "r < 0x110000" "\<not> lone r"
  obtain c t where ct: "wtf8 r = c # t" by (cases "wtf8 r") auto
  have d: "decode_rune (c # t) = (r, length (c # t))"
    using decode_rune_wtf8 [of r "[]"] r unfolding lone_def ct by simp
  have "\<not> (r = rune_error \<and> length (c # t) = 1)" using length_wtf8_error ct by auto
  then show ?thesis using d unfolding ct by (simp add: utf8_Valid.simps(2))
qed

lemma IndexByte_percent: "IndexByte (0x25 # s) 0x25 = Some 0"
  by (simp add: IndexByte_def)

lemma IndexByte_other: "c \<noteq> d \<Longrightarrow> IndexByte (c # s) d = map_option Suc (IndexByte s d)"
  by (simp add: IndexByte_def)

lemma decode_plain: "c \<noteq> 0x25 \<Longrightarrow> decode_loop b (c # s) = decode_loop (b @ [c]) s"
  by (subst (1 2) decode_loop.simps) (simp add: IndexByte_other Let_def split: option.split)

lemma decode_escapes:
  assumes "r < 0x110000" "\<not> lone r"
  shows "decode_loop b (escapes (wtf8 r) @ s) = decode_loop (b @ wtf8 r) s"
proof -
  obtain c t where ct: "wtf8 r = c # t" by (cases "wtf8 r") auto
  have n: "sequence_length c = length (c # t)" using sequence_length_lead [OF assms(1)] ct by simp
  have o: "octets (escapes (c # t) @ s) 1 (length t) = Some t"
    using octets_escapes [of 1 "length t" "c # t" s] by simp
  have v: "utf8_Valid (c # t)" using utf8_Valid_wtf8 [OF assms] ct by simp
  have u: "uriOctet (escapes (c # t) @ s) 0 = Some c" using uriOctet_escape by simp
  have i: "IndexByte (escapes (c # t) @ s) 0x25 = Some 0" using IndexByte_percent by (simp add: uriEscape_def)
  have d: "drop (3 * length (c # t)) (escapes (c # t) @ s) = s" by (simp del: escapes_simps)
  show ?thesis unfolding ct
    using i u o v n d by (subst decode_loop.simps) (simp add: Let_def del: escapes_simps)
qed

lemma unreserved_not_percent: "uriUnreserved c \<Longrightarrow> c \<noteq> 0x25"
  by (auto simp: uriUnreserved_def)

lemma decode_uri_char:
  assumes "r < 0x110000" "\<not> lone r"
  shows "decode_loop b (uri_char r @ s) = decode_loop (b @ wtf8 r) s"
  using assms decode_escapes [OF assms] decode_plain unreserved_not_percent
  by (auto simp: uri_char_def wtf8_1)

lemma decode_all:
  "list_all (\<lambda>r. r < 0x110000 \<and> \<not> lone r) rs \<Longrightarrow> decode_loop b (concat (map uri_char rs)) = Inr (b @ encode rs)"
proof (induction rs arbitrary: b)
  case Nil
  then show ?case by (simp add: decode_loop.simps IndexByte_def)
qed (simp add: decode_uri_char)

lemma DecodeURIComponent_loop: "DecodeURIComponent s = decode_loop [] s"
  by (simp add: DecodeURIComponent_def decode_loop.simps)

subsection \<open>Encoding\<close>

lemma encode_unreserved:
  "encode_loop b (takeWhile uriUnreserved s @ t) = encode_loop (b @ takeWhile uriUnreserved s) t"
  by (induction s arbitrary: b) (simp_all add: encode_loop.simps(2))

lemma EncodeURIComponent_loop: "EncodeURIComponent s = encode_loop [] s"
proof -
  let ?t = "takeWhile uriUnreserved s" and ?d = "dropWhile uriUnreserved s"
  have e: "encode_loop [] s = encode_loop ?t ?d" using encode_unreserved [of "[]" s ?d] by simp
  have "take (length ?t) s = ?t" "drop (length ?t) s = ?d" by (simp_all add: takeWhile_eq_take [symmetric] dropWhile_eq_drop [symmetric])
  moreover have "?d = [] \<and> ?t = s" if "length ?t = length s"
    using that takeWhile_dropWhile_id [of uriUnreserved s] by (metis append_Nil2 append_eq_append_conv)
  ultimately show ?thesis using e by (auto simp: EncodeURIComponent_def Let_def)
qed

lemma surrogateAt_shift: "surrogateAt (a @ s) (length a) = surrogateAt s 0"
  by (auto simp: surrogateAt_def nth_append numeral_2_eq_2)

lemma wtf8_first:
  assumes "r < 0x110000" "wtf8 r = c # t"
  shows "c < 0x80 \<longleftrightarrow> r < 0x80" "r < 0x80 \<Longrightarrow> c = word_of_nat r \<and> t = []"
proof -
  have "char_at (c # t) 0 = (r, length (wtf8 r))" using char_at_wtf8 [OF assms(1), of "[]"] assms(2) by simp
  moreover show one: "r < 0x80 \<Longrightarrow> c = word_of_nat r \<and> t = []" using assms(2) by (simp add: wtf8_1)
  ultimately show "c < 0x80 \<longleftrightarrow> r < 0x80" by (auto simp: char_at_Cons byte_order unat_word_of_nat_byte split: if_splits)
qed

lemma unreserved_ascii: "uriUnreserved c \<Longrightarrow> c < 0x80"
  by (auto simp: uriUnreserved_def byte_order)

lemma encode_char:
  assumes "r < 0x110000" "\<not> lone r"
  shows "encode_loop b (wtf8 r @ s) = encode_loop (b @ uri_char r) s"
proof -
  obtain c t where ct: "wtf8 r = c # t" by (cases "wtf8 r") auto
  note f = wtf8_first [OF assms(1) ct]
  show ?thesis
  proof (cases "r < 0x80")
    case True
    then show ?thesis using f ct by (auto simp: uri_char_def encode_loop.simps(2))
  next
    case False
    then have "\<not> c < 0x80" "\<not> uriUnreserved c" using f(1) unreserved_ascii by auto
    moreover have "surrogateAt (c # t @ s) 0 = None" using surrogateAt_wtf8 [OF assms(1), of s] assms(2) ct by (simp add: lone_def)
    moreover have "decode_rune (c # t @ s) = (r, length (wtf8 r))"
      using decode_rune_wtf8 [of r s] assms ct unfolding lone_def by simp
    moreover have "\<not> is_high r" "\<not> is_low r" using assms(2) by (auto simp: lone_def is_high_def is_low_def)
    then have "append_rune [] r = wtf8 r" using append_rune_wtf8 [OF assms(1), of "[]"] by simp
    ultimately show ?thesis using False ct by (simp add: uri_char_def escapes_def encode_loop.simps(2))
  qed
qed

lemma encode_lone:
  assumes r: "lone r" and rs: "\<forall>x \<in> set rs. x < 0x110000" "no_pair (r # rs)"
  shows "encode_loop b (wtf8 r @ encode rs) = Inl uri_malformed"
proof -
  have r1: "r < 0x110000" using r by (simp add: lone_def)
  obtain c t where ct: "wtf8 r = c # t" by (cases "wtf8 r") auto
  have "\<not> c < 0x80" using wtf8_first(1) [OF r1 ct] r by (simp add: lone_def)
  then have "\<not> uriUnreserved c" "\<not> c < 0x80" using unreserved_ascii by auto
  moreover have "surrogateAt (c # t @ encode rs) 0 = Some r"
    using surrogateAt_wtf8 [OF r1, of "encode rs"] r ct by (simp add: lone_def)
  moreover have "length (wtf8 r) = 3" using length_wtf8_half [of r] r unfolding lone_def is_high_def is_low_def by linarith
  then have "surrogateAt (c # t @ encode rs) 3 = surrogateAt (encode rs) 0"
    using surrogateAt_shift [of "wtf8 r" "encode rs"] ct by simp
  moreover have "surrogateAt (encode rs) 0 = (if rs \<noteq> [] \<and> 0xD800 \<le> hd rs \<and> hd rs \<le> 0xDFFF then Some (hd rs) else None)"
    by (rule surrogateAt_encode [OF rs(1)])
  moreover have "r \<ge> 0xDC00 \<or> hd rs < 0xDC00" if "rs \<noteq> []" "hd rs \<le> 0xDFFF"
    using rs(2) that r by (cases rs) (auto simp: is_high_def is_low_def lone_def)
  ultimately show ?thesis by (auto simp: ct encode_loop.simps(2))
qed

lemma encode_all:
  "\<forall>x \<in> set rs. x < 0x110000 \<Longrightarrow> no_pair rs \<Longrightarrow>
     encode_loop b (encode rs) = (if list_ex lone rs then Inl uri_malformed else Inr (b @ concat (map uri_char rs)))"
proof (induction rs arbitrary: b)
  case (Cons r rs)
  then have "no_pair rs" by (simp add: no_pair_Cons)
  then show ?case using Cons encode_lone [of r rs b] encode_char [of r b "encode rs"] by (cases "lone r") simp_all
qed simp

subsection \<open>Properties\<close>

text \<open>
  \<open>encodeURIComponent\<close> is ECMAScript's over the code points of the code units: an unreserved
  character as it is, any other as the escapes of its UTF-8 bytes, and a URIError exactly when
  the string has a lone surrogate.
\<close>

theorem encodeURIComponent_units:
  "EncodeURIComponent (of_units us) =
     (if list_ex lone (pair_up us) then Inl uri_malformed else Inr (concat (map uri_char (pair_up us))))"
  using encode_all [of "pair_up us" "[]"] pair_up_bound [of us] pair_up_no_pair [of us]
  by (simp add: EncodeURIComponent_loop of_units_def)

text \<open>
  C26: Decoding what was encoded gives the string back: for every string of code units, either
  encoding throws, because it has a lone surrogate, or \<open>decodeURIComponent\<close> of the result is the
  string.
\<close>

theorem uri_roundtrip:
  "and_then (EncodeURIComponent (of_units us)) DecodeURIComponent =
     (if list_ex lone (pair_up us) then Inl uri_malformed else Inr (of_units us))"
proof -
  have "EncodeURIComponent (of_units us) =
     (if list_ex lone (pair_up us) then Inl uri_malformed else Inr (concat (map uri_char (pair_up us))))"
    using encode_all [of "pair_up us" "[]"] pair_up_bound [of us] pair_up_no_pair [of us]
    by (simp add: EncodeURIComponent_loop of_units_def)
  moreover have "DecodeURIComponent (concat (map uri_char (pair_up us))) = Inr (of_units us)" if "\<not> list_ex lone (pair_up us)"
    using decode_all [of "pair_up us" "[]"] that pair_up_bound [of us]
    by (simp add: DecodeURIComponent_loop of_units_def list_all_iff list_ex_iff)
  ultimately show ?thesis by simp
qed

end
