(* ===== verification/JsonString.thy ===== *)
theory JsonString
  imports StrAscii Uri
begin

text \<open>
  \<open>backend/runtime/json_string.go\<close>: \<open>JSON.stringify\<close>'s strings, \<open>appendJSONString\<close> with its
  escapes, and the gap it indents by, \<open>JSONGapString\<close> and \<open>firstUnits\<close>. What is written is read
  back by a reader of JSON's string grammar.
\<close>

subsection \<open>Writing a string\<close>

definition hexDigits :: "byte list" where
  "hexDigits = map byte_of ''0123456789abcdef''"

definition appendJSONEscape :: "byte list \<Rightarrow> byte \<Rightarrow> byte list" where
  "appendJSONEscape b c =
     (if c = 0x22 then b @ [0x5C, 0x22]
      else if c = 0x5C then b @ [0x5C, 0x5C]
      else if c = 0x08 then b @ [0x5C, 0x62]
      else if c = 0x0C then b @ [0x5C, 0x66]
      else if c = 0x0A then b @ [0x5C, 0x6E]
      else if c = 0x0D then b @ [0x5C, 0x72]
      else if c = 0x09 then b @ [0x5C, 0x74]
      else b @ [0x5C, 0x75, 0x30, 0x30, hexDigits ! unat (drop_bit 4 c), hexDigits ! unat (c AND 0xF)])"

lemma decode_pos: "(r, k) = decode_rune (c # s) \<Longrightarrow> 0 < k"
  using decode_width [of c s] by (metis snd_conv)

text \<open>The loop: \<open>pend\<close> is \<open>s[start:i]\<close>, still to be written as it is, and the last argument \<open>s[i:]\<close>.\<close>

function json_loop :: "byte list \<Rightarrow> byte list \<Rightarrow> byte list \<Rightarrow> byte list" where
  "json_loop b pend [] = b @ pend"
| "json_loop b pend (c # s) =
     (if c < 0x80 then
        if c \<ge> 0x20 \<and> c \<noteq> 0x22 \<and> c \<noteq> 0x5C then json_loop b (pend @ [c]) s
        else json_loop (appendJSONEscape (b @ pend) c) [] s
      else
        case surrogateAt (c # s) 0 of
          Some unit \<Rightarrow>
            (case (if unit < 0xDC00 then surrogateAt (c # s) 3 else None) of
               Some low \<Rightarrow>
                 if low \<ge> 0xDC00
                 then json_loop (append_rune (b @ pend) (0x10000 + push_bit 10 (unit - 0xD800) + (low - 0xDC00)))
                        [] (drop 6 (c # s))
                 else json_loop (b @ pend @ [0x5C, 0x75, 0x64, hexDigits ! (drop_bit 8 unit AND 0xF),
                          hexDigits ! (drop_bit 4 unit AND 0xF), hexDigits ! (unit AND 0xF)]) [] (drop 3 (c # s))
             | None \<Rightarrow>
                 json_loop (b @ pend @ [0x5C, 0x75, 0x64, hexDigits ! (drop_bit 8 unit AND 0xF),
                          hexDigits ! (drop_bit 4 unit AND 0xF), hexDigits ! (unit AND 0xF)]) [] (drop 3 (c # s)))
        | None \<Rightarrow>
            let (r, size) = decode_rune (c # s)
            in if r = rune_error \<and> size = 1
               then json_loop (append_rune (b @ pend) rune_error) [] (drop 1 (c # s))
               else json_loop b (pend @ take size (c # s)) (drop size (c # s)))"
  by pat_completeness auto
termination
  by (relation "measure (\<lambda>(b, p, s). length s)") (auto dest: decode_pos)

declare json_loop.simps(2) [simp del]

definition appendJSONString :: "byte list \<Rightarrow> byte list \<Rightarrow> byte list" where
  "appendJSONString b s = json_loop (b @ [0x22]) [] s @ [0x22]"

subsection \<open>The gap\<close>

text \<open>\<open>firstUnits\<close>: the bytes passed, the rest, and the units passed.\<close>

function first_loop :: "byte list \<Rightarrow> byte list \<Rightarrow> nat \<Rightarrow> nat \<Rightarrow> byte list" where
  "first_loop pre [] units n = pre"
| "first_loop pre (c # s) units n =
     (if units = n then pre
      else
        case surrogateAt (c # s) 0 of
          Some _ \<Rightarrow> first_loop (pre @ take 3 (c # s)) (drop 3 (c # s)) (units + 1) n
        | None \<Rightarrow>
            let (r, size) = decode_rune (c # s)
            in if r \<ge> 0x10000 then
                 if units = n - 1
                 then let high = 0xD800 + drop_bit 10 (r - 0x10000)
                      in pre @ [0xED, word_of_nat (0x80 OR (drop_bit 6 high AND 0x3F)), word_of_nat (0x80 OR (high AND 0x3F))]
                 else first_loop (pre @ take size (c # s)) (drop size (c # s)) (units + 1 + 1) n
               else first_loop (pre @ take size (c # s)) (drop size (c # s)) (units + 1) n)"
  by pat_completeness auto
termination
  by (relation "measure (\<lambda>(p, s, u, n). length s)") (auto dest: decode_pos)

declare first_loop.simps(2) [simp del]

definition firstUnits :: "byte list \<Rightarrow> nat \<Rightarrow> byte list" where
  "firstUnits s n = first_loop [] s 0 n"

record JSONGap =
  gap_indent :: "byte list"
  gap_lines :: bool

definition JSONGapString :: "byte list \<Rightarrow> JSONGap" where
  "JSONGapString space =
     (if space = [] then \<lparr>gap_indent = [], gap_lines = False\<rparr>
      else
        let indent = firstUnits space 10;
            indent = (case IndexByte indent 0 of Some i \<Rightarrow> take i indent | None \<Rightarrow> indent)
        in \<lparr>gap_indent = indent, gap_lines = True\<rparr>)"

subsection \<open>Reading a string\<close>

text \<open>
  JSON's string grammar over code units: the value of the characters up to the closing quote,
  which must end the text.
\<close>

definition hex_value :: "unit16 \<Rightarrow> nat option" where
  "hex_value u =
     (let n = unat u
      in if 0x30 \<le> n \<and> n \<le> 0x39 then Some (n - 0x30)
         else if 0x61 \<le> n \<and> n \<le> 0x66 then Some (n - 0x61 + 10)
         else if 0x41 \<le> n \<and> n \<le> 0x46 then Some (n - 0x41 + 10)
         else None)"

definition hex4 :: "unit16 \<Rightarrow> unit16 \<Rightarrow> unit16 \<Rightarrow> unit16 \<Rightarrow> unit16 option" where
  "hex4 p q r s =
     (case (hex_value p, hex_value q, hex_value r, hex_value s) of
        (Some a, Some b, Some c, Some d) \<Rightarrow> Some (word_of_nat (((a * 16 + b) * 16 + c) * 16 + d))
      | _ \<Rightarrow> None)"

definition json_escapes :: "(unit16 \<times> unit16) list" where
  "json_escapes = [(0x22, 0x22), (0x5C, 0x5C), (0x2F, 0x2F), (0x62, 0x08), (0x66, 0x0C), (0x6E, 0x0A),
     (0x72, 0x0D), (0x74, 0x09)]"

fun json_chars :: "unit16 list \<Rightarrow> unit16 list option" where
  "json_chars [] = None"
| "json_chars (u # us) =
     (if u = 0x22 then if us = [] then Some [] else None
      else if unat u < 0x20 then None
      else if u \<noteq> 0x5C then map_option ((#) u) (json_chars us)
      else case us of
             [] \<Rightarrow> None
           | e # us \<Rightarrow>
               if e = 0x75 then
                 (case us of
                    p # q # r # s # us \<Rightarrow>
                      (case hex4 p q r s of
                         Some v \<Rightarrow> map_option ((#) v) (json_chars us)
                       | None \<Rightarrow> None)
                  | _ \<Rightarrow> None)
               else
                 (case map_of json_escapes e of
                    Some v \<Rightarrow> map_option ((#) v) (json_chars us)
                  | None \<Rightarrow> None))"

definition json_string_value :: "unit16 list \<Rightarrow> unit16 list option" where
  "json_string_value us =
     (case us of [] \<Rightarrow> None | u # us \<Rightarrow> if u = 0x22 then json_chars us else None)"

subsection \<open>What the loop writes\<close>

lemma append_rune_append: "append_rune b r = b @ append_rune [] r"
  by (simp add: append_rune_def)

lemma escape_append: "appendJSONEscape b c = b @ appendJSONEscape [] c"
  by (simp add: appendJSONEscape_def)

definition json_text :: "byte list \<Rightarrow> byte list" where
  "json_text s = json_loop [] [] s"

text \<open>How the loop writes a lone surrogate.\<close>

definition half_escape :: "rune \<Rightarrow> byte list" where
  "half_escape unit = [0x5C, 0x75, 0x64, hexDigits ! (drop_bit 8 unit AND 0xF),
     hexDigits ! (drop_bit 4 unit AND 0xF), hexDigits ! (unit AND 0xF)]"

definition json_step :: "byte \<Rightarrow> byte list \<Rightarrow> byte list \<times> nat" where
  "json_step c s =
     (if c < 0x80 then (if c \<ge> 0x20 \<and> c \<noteq> 0x22 \<and> c \<noteq> 0x5C then [c] else appendJSONEscape [] c, 1)
      else
        case surrogateAt (c # s) 0 of
          Some unit \<Rightarrow>
            (case (if unit < 0xDC00 then surrogateAt (c # s) 3 else None) of
               Some low \<Rightarrow>
                 if low \<ge> 0xDC00
                 then (append_rune [] (0x10000 + push_bit 10 (unit - 0xD800) + (low - 0xDC00)), 6)
                 else (half_escape unit, 3)
             | None \<Rightarrow> (half_escape unit, 3))
        | None \<Rightarrow>
            let (r, size) = decode_rune (c # s)
            in if r = rune_error \<and> size = 1 then (append_rune [] rune_error, 1) else (take size (c # s), size))"

lemma json_step_pos: "0 < snd (json_step c s)"
  by (auto simp: json_step_def Let_def split: option.split prod.split dest: decode_pos [OF sym])

lemma json_loop_Cons:
  assumes IH: "\<And>b p u. length u \<le> length t \<Longrightarrow> json_loop b p u = b @ p @ json_text u"
  shows "json_loop b pend (c # t) = b @ pend @ fst (json_step c t) @ json_text (drop (snd (json_step c t)) (c # t))"
proof (cases "c < 0x80")
  case True
  then show ?thesis using IH escape_append [of "b @ pend"]
    by (auto simp: json_loop.simps(2) json_step_def)
next
  case False
  obtain r k where rk: "decode_rune (c # t) = (r, k)" by (cases "decode_rune (c # t)")
  then have "0 < k" using decode_pos [OF sym] by blast
  with False show ?thesis
    using IH append_rune_append [of "b @ pend"]
    by (cases "surrogateAt (c # t) 0"; cases "surrogateAt (c # t) 3")
      (auto simp: json_loop.simps(2) json_step_def rk half_escape_def)
qed

lemma json_loop_text: "json_loop b pend s = b @ pend @ json_text s"
proof (induction "length s" arbitrary: b pend s rule: less_induct)
  case less
  show ?case
  proof (cases s)
    case (Cons c t)
    have IH: "json_loop b' p' u = b' @ p' @ json_text u" if "length u \<le> length t" for b' p' u
      using less that by (simp add: Cons)
    from json_loop_Cons [OF IH, where b = b and pend = pend and c = c]
      json_loop_Cons [OF IH, where b = "[]" and pend = "[]" and c = c]
    show ?thesis by (simp add: Cons json_text_def)
  qed (simp add: json_text_def)
qed

lemma json_text_Nil: "json_text [] = []"
  by (simp add: json_text_def)

lemma json_text_Cons: "json_text (c # s) = fst (json_step c s) @ json_text (drop (snd (json_step c s)) (c # s))"
  using json_loop_Cons [OF json_loop_text, where t = s and b = "[]" and pend = "[]" and c = c] by (simp add: json_text_def)

lemma appendJSONString_text: "appendJSONString b s = b @ [0x22] @ json_text s @ [0x22]"
  by (simp add: appendJSONString_def json_loop_text)

subsection \<open>Reading back what one step writes\<close>

text \<open>Bytes that are the encoding of characters, and that the reader reads as the units \<open>us\<close>.\<close>

definition writes :: "byte list \<Rightarrow> unit16 list \<Rightarrow> bool" where
  "writes t us \<longleftrightarrow>
     (\<exists>rs. t = encode rs \<and> (\<forall>r \<in> set rs. r < 0x110000 \<and> \<not> lone r) \<and>
        (\<forall>vs. json_chars (concat (map units_of rs) @ vs) = map_option ((@) us) (json_chars vs)))"

lemma append_funs [simp]: "(@) [] = (\<lambda>vs. vs)" "(@) [v] = (#) v"
  by (simp_all add: fun_eq_iff)

lemma json_chars_high:
  "\<forall>u \<in> set us. 0x80 \<le> unat u \<Longrightarrow> json_chars (us @ vs) = map_option ((@) us) (json_chars vs)"
proof (induction us)
  case (Cons u us)
  then have "u \<noteq> 0x22" "u \<noteq> 0x5C" "\<not> unat u < 0x20" by auto
  with Cons show ?case by (simp add: option.map_comp o_def)
qed (simp add: option.map_ident)

lemma writes_rune:
  assumes "0x80 \<le> r" "r < 0x110000" "\<not> lone r"
  shows "writes (wtf8 r) (units_of r)"
  unfolding writes_def
  by (rule exI [of _ "[r]"]) (use assms json_chars_high [OF units_high [OF assms(1,2)]] in simp)

lemma ucast_unat: "word_of_nat (unat (c :: byte)) = (ucast c :: unit16)"
  using unat_byte_less [of c] by (simp add: word_unat_eq_iff unat_word_of_nat_unit unat_ucast_byte del: unat_byte_less)

lemma ascii_units: "\<forall>b \<in> set t. b < 0x80 \<Longrightarrow> concat (map units_of (map unat (t :: byte list))) = map ucast t"
proof (induction t)
  case (Cons b t)
  have "unat b < 0x80" using Cons.prems by (auto simp: byte_order)
  then have "units_of (unat b) = [ucast b]" using units_of_unit [of "ucast b"] by (simp add: unat_ucast_byte)
  with Cons show ?case by simp
qed simp

lemma ascii_encode: "\<forall>b \<in> set t. b < 0x80 \<Longrightarrow> encode (map unat t) = t"
  by (induction t) (simp_all add: wtf8_1 byte_order)

lemma writes_ascii:
  assumes "\<forall>b \<in> set t. b < 0x80" "\<And>vs. json_chars (map ucast t @ vs) = map_option ((@) us) (json_chars vs)"
  shows "writes t us"
  unfolding writes_def
proof (intro exI conjI)
  show "t = encode (map unat t)" using ascii_encode [OF assms(1)] by simp
  show "\<forall>r \<in> set (map unat t). r < 0x110000 \<and> \<not> lone r"
    using assms(1) by (force simp: lone_def byte_order)
  show "\<forall>vs. json_chars (concat (map units_of (map unat t)) @ vs) = map_option ((@) us) (json_chars vs)"
    using assms by (simp only: ascii_units) simp
qed

lemma hex_digit_table:
  "list_all (\<lambda>d. hex_value (ucast (hexDigits ! d)) = Some d \<and> hexDigits ! d < 0x80) [0..<16]"
  by code_simp

lemma hex_digit: "d < 16 \<Longrightarrow> hex_value (ucast (hexDigits ! d)) = Some d" "d < 16 \<Longrightarrow> hexDigits ! d < 0x80"
  using hex_digit_table by (simp_all add: list_all_iff)

lemma plain_units: "c < 0x80 \<Longrightarrow> c \<ge> 0x20 \<Longrightarrow> c \<noteq> 0x22 \<Longrightarrow> c \<noteq> 0x5C \<Longrightarrow> writes [c] [ucast c]"
  by (rule writes_ascii) (auto simp: byte_order byte_eq_iff word_unat_eq_iff unat_ucast_byte o_def)

lemma u_escape:
  assumes "\<forall>b \<in> set [p, q, r, s]. b < 0x80" "hex4 (ucast p) (ucast q) (ucast r) (ucast s) = Some v"
  shows "writes [0x5C, 0x75, p, q, r, s] [v]"
  by (rule writes_ascii) (use assms in \<open>auto simp: byte_order\<close>)

lemma nibble: "(n :: nat) AND 0xF = n mod 16"
  using take_bit_eq_mask [of 4 n] by (simp add: take_bit_eq_mod mask_eq_exp_minus_1)

lemma escape_writes:
  assumes "c < 0x80" "\<not> (c \<ge> 0x20 \<and> c \<noteq> 0x22 \<and> c \<noteq> 0x5C)"
  shows "writes (appendJSONEscape [] c) [ucast c]"
proof (cases "c \<in> set [0x22, 0x5C, 0x08, 0x0C, 0x0A, 0x0D, 0x09]")
  case True
  then show ?thesis
    by (intro writes_ascii) (auto simp: appendJSONEscape_def json_escapes_def o_def)
next
  case False
  then have n: "unat c < 0x20" using assms by (auto simp: byte_order)
  have d: "unat (drop_bit 4 c) = unat c div 16" "unat (c AND 0xF) = unat c mod 16"
    by (simp_all add: unat_drop_bit_eq drop_bit_eq_div unat_and_0F unat_div)
  have "hexDigits ! 0 = 0x30" by code_simp
  then have "appendJSONEscape [] c
    = [0x5C, 0x75, hexDigits ! 0, hexDigits ! 0, hexDigits ! (unat c div 16), hexDigits ! (unat c mod 16)]"
    using False by (simp add: appendJSONEscape_def d)
  moreover have "hex4 (ucast (hexDigits ! 0)) (ucast (hexDigits ! 0)) (ucast (hexDigits ! (unat c div 16)))
      (ucast (hexDigits ! (unat c mod 16))) = Some (ucast c)"
    using n hex_digit(1) [of 0] hex_digit(1) [of "unat c div 16"] hex_digit(1) [of "unat c mod 16"]
    by (simp add: hex4_def ucast_unat)
  ultimately show ?thesis
    using n hex_digit(2) by (simp only:) (rule u_escape, auto)
qed

lemma half_digits_sum:
  assumes "lone u"
  shows "((13 * 16 + u div 256 mod 16) * 16 + u div 16 mod 16) * 16 + u mod 16 = u"
proof -
  have "u div 256 div 16 = 13" using assms by (simp add: lone_def div_nat_eqI flip: div_mult2_eq)
  moreover have "u div 16 div 16 = u div 256" by (simp flip: div_mult2_eq)
  ultimately show ?thesis
    using div_mult_mod_eq [of u 16] div_mult_mod_eq [of "u div 16" 16] div_mult_mod_eq [of "u div 256" 16]
    by (simp del: div_mult_mod_eq)
qed

lemma half_writes:
  assumes "lone u"
  shows "writes (half_escape u) [word_of_nat u]"
proof -
  define a b c where "a = u div 256 mod 16" and "b = u div 16 mod 16" and "c = u mod 16"
  have u: "((13 * 16 + a) * 16 + b) * 16 + c = u"
    using half_digits_sum [OF assms] by (simp add: a_def b_def c_def)
  have hex_d: "hexDigits ! 13 = 0x64" by code_simp
  have "half_escape u = [0x5C, 0x75, hexDigits ! 13, hexDigits ! a, hexDigits ! b, hexDigits ! c]"
    by (simp add: half_escape_def a_def b_def c_def nibble drop_bit_eq_div hex_d)
  moreover have "hex4 (ucast (hexDigits ! 13)) (ucast (hexDigits ! a)) (ucast (hexDigits ! b)) (ucast (hexDigits ! c))
    = Some (word_of_nat u)"
    using u by (simp add: hex4_def hex_digit a_def b_def c_def)
  ultimately show ?thesis
    by (simp only:) (rule u_escape, auto simp: hex_digit a_def b_def c_def)
qed

subsection \<open>Reading back the whole\<close>

lemma writes_append:
  assumes "writes t us" "writes t' us'"
  shows "writes (t @ t') (us @ us')"
proof -
  obtain rs rs' where "t = encode rs" "\<forall>r \<in> set rs. r < 0x110000 \<and> \<not> lone r"
    "\<forall>vs. json_chars (concat (map units_of rs) @ vs) = map_option ((@) us) (json_chars vs)"
    "t' = encode rs'" "\<forall>r \<in> set rs'. r < 0x110000 \<and> \<not> lone r"
    "\<forall>vs. json_chars (concat (map units_of rs') @ vs) = map_option ((@) us') (json_chars vs)"
    using assms unfolding writes_def by metis
  then show ?thesis unfolding writes_def
    by (intro exI [of _ "rs @ rs'"]) (auto simp: option.map_comp o_def fun_eq_iff intro!: option.map_cong)
qed

lemma toUnits_char: "char_at (c # s) 0 = (r, k) \<Longrightarrow> toUnits (c # s) = units_of r @ toUnits (drop k (c # s))"
  by (simp add: toUnits_scan scan.simps(2))

lemma surrogateAt_char:
  assumes "surrogateAt s i = Some u"
  shows "lone u" "char_at s i = (u, 3)" "i + 3 \<le> length s"
  using assms half_range [of "s ! i" "s ! (i + 1)" "s ! (i + 2)" u]
  by (auto simp: surrogateAt_half char_at_def lone_def half_arith byte_order split: if_splits)

lemma surrogateAt_drop: "surrogateAt s i = Some u \<Longrightarrow> surrogateAt (drop i s) 0 = Some u"
  by (auto simp: surrogateAt_def split: if_splits)

lemma json_step_writes:
  "\<exists>us. writes (fst (json_step c s)) us \<and> toUnits (c # s) = us @ toUnits (drop (snd (json_step c s)) (c # s))"
proof (cases "c < 0x80")
  case True
  with plain_units escape_writes show ?thesis
    by (auto simp: json_step_def toUnits_ascii_Cons)
next
  case False
  show ?thesis
  proof (cases "surrogateAt (c # s) 0")
    case None
    obtain r k where rk: "decode_rune (c # s) = (r, k)" by (cases "decode_rune (c # s)")
    have c: "char_at (c # s) 0 = (r, k)" using False None rk by (simp add: char_at_def)
    show ?thesis
    proof (cases "r = rune_error \<and> k = 1")
      case True
      have "writes (append_rune [] rune_error) (units_of rune_error)"
        using writes_rune [of rune_error] by (simp add: append_rune_def rune_error_def lone_def)
      with True c toUnits_char [OF c] show ?thesis by (auto simp: json_step_def False None rk)
    next
      case *: False
      then have r: "r < 0x110000" "k = length (wtf8 r)" "take k (c # s) = wtf8 r"
        using decode_rune_inv [OF rk] by auto
      have "\<not> lone r" using decode_not_surrogate [OF rk] by (simp add: lone_def)
      moreover have "0x80 \<le> r"
      proof (rule ccontr)
        assume "\<not> 0x80 \<le> r"
        with r(2,3) have "c = word_of_nat r" by (simp add: wtf8_1)
        with False \<open>\<not> 0x80 \<le> r\<close> show False by (simp add: byte_order unat_word_of_nat_byte)
      qed
      ultimately have "writes (wtf8 r) (units_of r)" using writes_rune r(1) by blast
      with * r toUnits_char [OF c] show ?thesis by (auto simp: json_step_def False None rk)
    qed
  next
    case (Some u)
    note u = surrogateAt_char [OF Some]
    have one: "toUnits (c # s) = word_of_nat u # toUnits (drop 3 (c # s))"
      using toUnits_char [OF u(2)] u(1) by (simp add: units_of_def lone_def)
    show ?thesis
    proof (cases "surrogateAt (c # s) 3")
      case None
      with Some half_writes [OF u(1)] one False show ?thesis by (auto simp: json_step_def)
    next
      case low: (Some l)
      show ?thesis
      proof (cases "u < 0xDC00 \<and> 0xDC00 \<le> l")
        case True
        note l = surrogateAt_char [OF low]
        obtain d t where d: "drop 3 (c # s) = d # t" using l(3) by (cases "drop 3 (c # s)") auto
        have "char_at (d # t) 0 = (l, 3)"
          using surrogateAt_char(2) [OF surrogateAt_drop [OF low]] by (simp only: d)
        from toUnits_char [OF this] l(1)
        have two: "toUnits (drop 3 (c # s)) = word_of_nat l # toUnits (drop 6 (c # s))"
          by (simp add: d [symmetric] units_of_def lone_def)
        have hl: "is_high u" "is_low l" using True u(1) l(1) by (auto simp: is_high_def is_low_def lone_def)
        define p where "p = 0x10000 + (u - 0xD800) * 1024 + (l - 0xDC00)"
        have p: "p < 0x110000" "units_of p = [word_of_nat u, word_of_nat l]" "\<not> lone p" "0x80 \<le> p"
          using pair_value [OF hl] by (simp_all add: p_def lone_def)
        have "append_rune [] (0x10000 + push_bit 10 (u - 0xD800) + (l - 0xDC00)) = wtf8 p"
          using p by (simp add: append_rune_def p_def lone_def push_bit_eq_mult)
        with writes_rune [OF p(4,1,3)] p(2) True False Some low one two show ?thesis
          by (auto simp: json_step_def)
      next
        case *: False
        with Some low half_writes [OF u(1)] one False show ?thesis
          by (auto simp: json_step_def)
      qed
    qed
  qed
qed

lemma json_text_writes: "writes (json_text s) (toUnits s)"
proof (induction "length s" arbitrary: s rule: less_induct)
  case less
  show ?case
  proof (cases s)
    case Nil
    have "writes [] []" unfolding writes_def by (intro exI [of _ "[]"]) (simp add: option.map_ident)
    then show ?thesis by (simp add: Nil json_text_Nil)
  next
    case (Cons c t)
    obtain us where us: "writes (fst (json_step c t)) us"
      "toUnits (c # t) = us @ toUnits (drop (snd (json_step c t)) (c # t))"
      using json_step_writes by blast
    have "writes (json_text (drop (snd (json_step c t)) (c # t))) (toUnits (drop (snd (json_step c t)) (c # t)))"
      by (rule less) (use json_step_pos [of c t] in \<open>simp add: Cons\<close>)
    from writes_append [OF us(1) this] us(2) show ?thesis by (simp add: Cons json_text_Cons)
  qed
qed

lemma utf8_Valid_encode: "\<forall>r \<in> set rs. r < 0x110000 \<and> \<not> lone r \<Longrightarrow> utf8_Valid (encode rs)"
proof (induction rs)
  case (Cons r rs)
  obtain c t where ct: "wtf8 r @ encode rs = c # t" by (cases "wtf8 r @ encode rs") auto
  have "decode_rune (c # t) = (r, length (wtf8 r))"
    using decode_rune_wtf8 [of r "encode rs"] Cons.prems by (simp add: lone_def ct)
  moreover have "drop (length (wtf8 r)) (c # t) = encode rs" by (simp flip: ct)
  moreover have "\<not> (r = rune_error \<and> length (wtf8 r) = 1)" using length_wtf8_error by auto
  ultimately show ?case using Cons by (simp add: ct utf8_Valid.simps(2))
qed simp

subsection \<open>The gap on code units\<close>

lemma first_loop_char:
  assumes "char_at (c # s) 0 = (r, k)" "r < 0x110000" "k = length (wtf8 r)"
  shows "first_loop pre (c # s) u n =
    (if u = n then pre
     else if r \<ge> 0x10000 then
       if u = n - 1 then appendHalf pre (0xD800 + drop_bit 10 (r - 0x10000))
       else first_loop (pre @ take k (c # s)) (drop k (c # s)) (u + 2) n
     else first_loop (pre @ take k (c # s)) (drop k (c # s)) (u + 1) n)"
proof (cases "surrogateAt (c # s) 0")
  case None
  then have "decode_rune (c # s) = (r, k)"
    using assms(1) by (auto simp: char_at_def decode_rune_1 byte_order split: if_splits)
  with None show ?thesis by (simp add: first_loop.simps(2) appendHalf_def Let_def)
next
  case (Some l)
  from surrogateAt_char [OF Some] assms(1) have "lone r" "k = 3" by simp_all
  with Some show ?thesis by (simp add: first_loop.simps(2) lone_def)
qed

lemma first_loop_rune:
  assumes "r < 0x110000"
  shows "first_loop pre (wtf8 r @ s) u n =
    (if u = n then pre
     else if r \<ge> 0x10000 then
       if u = n - 1 then appendHalf pre (0xD800 + drop_bit 10 (r - 0x10000))
       else first_loop (pre @ wtf8 r) s (u + 2) n
     else first_loop (pre @ wtf8 r) s (u + 1) n)"
proof -
  obtain c t where ct: "wtf8 r @ s = c # t" by (cases "wtf8 r @ s") auto
  have "take (length (wtf8 r)) (c # t) = wtf8 r" "drop (length (wtf8 r)) (c # t) = s" by (simp_all flip: ct)
  with first_loop_char [of c t r "length (wtf8 r)" pre u n] char_at_wtf8 [OF assms, of s] assms
  show ?thesis by (simp add: ct)
qed

text \<open>The builder that has the units \<open>us\<close> and is to have \<open>n\<close>, the rest's coming.\<close>

lemma first_loop_units:
  "\<forall>r \<in> set rs. r < 0x110000 \<Longrightarrow> no_pair rs \<Longrightarrow> u \<le> n \<Longrightarrow>
   first_loop pre (encode rs) u n = pre @ of_units (take (n - u) (concat (map units_of rs)))"
proof (induction rs arbitrary: pre u)
  case (Cons r rs)
  show ?case
  proof (cases "u = n")
    case True
    with Cons.prems show ?thesis by (simp add: first_loop_rune)
  next
    case False
    with Cons.prems obtain m where n: "n = u + Suc m" by (metis add_Suc_right le_neq_implies_less less_iff_Suc_add)
    show ?thesis
    proof (cases "r \<ge> 0x10000")
      case r: True
      define h l where "h = 0xD800 + (r - 0x10000) div 1024" and "l = 0xDC00 + (r - 0x10000) mod 1024"
      have hl: "is_high h" "is_low l" "0x10000 + (h - 0xD800) * 1024 + (l - 0xDC00) = r"
        using r Cons.prems(1) by (auto simp: h_def l_def is_high_def is_low_def)
      have uh: "unat (word_of_nat h :: unit16) = h" "unat (word_of_nat l :: unit16) = l"
        using hl(1,2) by (simp_all add: unat_word_of_nat_unit)
      have u: "units_of r = [word_of_nat h, word_of_nat l]" using r by (simp add: units_of_def h_def l_def)
      have a: "appendHalf pre (0xD800 + drop_bit 10 (r - 0x10000)) = pre @ of_units [word_of_nat h]"
        using appendHalf_wtf8 [of h pre] hl(1) uh(1) by (simp add: of_units_single h_def drop_bit_eq_div)
      show ?thesis
      proof (cases m)
        case 0
        with Cons.prems r a u n show ?thesis by (simp add: first_loop_rune)
      next
        case (Suc k)
        have "first_loop (pre @ wtf8 r) (encode rs) (u + 2) n
            = (pre @ wtf8 r) @ of_units (take (n - (u + 2)) (concat (map units_of rs)))"
          using Cons.prems n Suc by (intro Cons.IH) (auto simp: no_pair_Cons)
        moreover have "of_units (word_of_nat h # word_of_nat l # vs) = wtf8 r @ of_units vs" for vs
          using hl uh by (simp add: of_units_def)
        ultimately show ?thesis using Cons.prems r u n Suc by (simp add: first_loop_rune)
      qed
    next
      case r: False
      then have u: "units_of r = [word_of_nat r]" "unat (word_of_nat r :: unit16) = r"
        by (simp_all add: units_of_def unat_word_of_nat_unit)
      have "first_loop (pre @ wtf8 r) (encode rs) (u + 1) n
          = (pre @ wtf8 r) @ of_units (take (n - (u + 1)) (concat (map units_of rs)))"
        using Cons.prems n by (intro Cons.IH) (auto simp: no_pair_Cons)
      moreover have "of_units (word_of_nat r # take m (concat (map units_of rs)))
          = wtf8 r @ of_units (take m (concat (map units_of rs)))"
      proof -
        have "\<not> seam [word_of_nat r] (take m (concat (map units_of rs)))"
        proof
          assume s: "seam [word_of_nat r] (take m (concat (map units_of rs)))"
          then obtain q qs where q: "rs = q # qs" by (cases rs) (auto simp: seam_def)
          from s u(2) have "is_high r" "is_low (unat (hd (units_of q)))"
            by (cases m; auto simp: seam_def q units_of_def)+
          moreover have "q < 0x110000" using Cons.prems(1) q by simp
          ultimately show False using Cons.prems(2) q
            by (auto simp: units_of_def is_low_def unat_word_of_nat_unit simp del: of_nat_add split: if_splits)
        qed
        from of_units_append [OF this] u show ?thesis by (simp add: of_units_single)
      qed
      ultimately show ?thesis using Cons.prems r u n False by (simp add: first_loop_rune)
    qed
  qed
qed simp

lemma firstUnits_units: "firstUnits (of_units us) n = of_units (take n us)"
  using first_loop_units [of "pair_up us" 0 n "[]"] pair_up_bound [of us] pair_up_no_pair [of us]
  by (simp add: firstUnits_def of_units_def [of us] units_of_pair_up)

text \<open>The cut at a NUL.\<close>

lemma takeWhile_encode:
  "\<forall>r \<in> set rs. r < 0x110000 \<Longrightarrow> takeWhile (\<lambda>b. b \<noteq> 0) (encode rs) = encode (takeWhile (\<lambda>r. r \<noteq> 0) rs)"
proof (induction rs)
  case (Cons r rs)
  show ?case
  proof (cases "r = 0")
    case False
    have "\<forall>b \<in> set (wtf8 r). b \<noteq> 0"
    proof (cases "r < 0x80")
      case True
      with False show ?thesis by (simp add: wtf8_1 byte_eq_iff)
    qed (use wtf8_high [of r] Cons.prems in force)
    with Cons False show ?thesis by (simp add: takeWhile_append2)
  qed (simp add: wtf8_1)
qed simp

lemma takeWhile_pair_up: "takeWhile (\<lambda>r. r \<noteq> 0) (pair_up us) = pair_up (takeWhile (\<lambda>u. u \<noteq> 0) us)"
proof (induction us rule: pair_up.induct)
  case (1 u v us)
  then show ?case by (auto simp: is_high_def is_low_def unat_eq_0)
qed (simp_all add: unat_eq_0)

lemma cut_at_byte: "(case IndexByte s b of Some i \<Rightarrow> take i s | None \<Rightarrow> s) = takeWhile (\<lambda>c. c \<noteq> b) s"
proof (cases "b \<in> set s")
  case True
  then show ?thesis by (simp add: IndexByte_def flip: takeWhile_eq_take)
next
  case False
  then have t: "takeWhile (\<lambda>c. c \<noteq> b) s = s" by (auto simp: takeWhile_eq_all_conv)
  show ?thesis unfolding t using False by (simp add: IndexByte_def)
qed

lemma gap_units:
  "JSONGapString (of_units us)
   = \<lparr>gap_indent = of_units (takeWhile (\<lambda>u. u \<noteq> 0) (take 10 us)), gap_lines = (us \<noteq> [])\<rparr>"
proof -
  have "takeWhile (\<lambda>b. b \<noteq> 0) (of_units vs) = of_units (takeWhile (\<lambda>u. u \<noteq> 0) vs)" for vs
    by (simp only: of_units_def takeWhile_encode [OF pair_up_bound] takeWhile_pair_up)
  then show ?thesis by (simp add: JSONGapString_def Let_def cut_at_byte firstUnits_units)
qed

subsection \<open>Properties\<close>

text \<open>
  C33: What \<open>JSON.stringify\<close> writes for a string is well-formed UTF-8, lone surrogates and stray
  bytes escaped or replaced, and reads back, by JSON's string grammar, as the string's code units.
\<close>

theorem json_string_roundtrip:
  "utf8_Valid (appendJSONString [] s) \<and> json_string_value (toUnits (appendJSONString [] s)) = Some (toUnits s)"
proof -
  obtain rs where rs: "json_text s = encode rs" "\<forall>r \<in> set rs. r < 0x110000 \<and> \<not> lone r"
    "\<forall>vs. json_chars (concat (map units_of rs) @ vs) = map_option ((@) (toUnits s)) (json_chars vs)"
    using json_text_writes unfolding writes_def by blast
  have q: "[0x22] = encode [0x22]" by (simp add: wtf8_1)
  have e: "appendJSONString [] s = encode (0x22 # rs @ [0x22])"
    using q rs(1) by (simp add: appendJSONString_text)
  have "toUnits (appendJSONString [] s) = 0x22 # concat (map units_of rs) @ [0x22]"
    unfolding e using rs(2) by (subst toUnits_encode) (auto simp: units_of_def)
  moreover have "utf8_Valid (appendJSONString [] s)"
    unfolding e using rs(2) by (intro utf8_Valid_encode) (auto simp: lone_def)
  ultimately show ?thesis using rs(3) by (simp add: json_string_value_def)
qed

end
