(* ===== verification/Cloner.thy ===== *)
theory Cloner
  imports Prelude IrTypes
begin

text \<open>
  Objects and the clone a spawned function's result goes through: \<open>Cloner\<close>, \<open>Clone\<close>, \<open>CloneValue\<close>
  and \<open>Remember\<close> of \<open>backend/runtime/object.go\<close>, \<open>cloneArray\<close> of \<open>array.go\<close>, \<open>Maybe\<close> and
  \<open>cloneMaybe\<close> of \<open>maybe.go\<close>, and the \<open>CloneObject\<close> the backend generates for each shape
  (\<open>emit_object.go\<close>, with \<open>cloned\<close> of \<open>emit_maybe.go\<close>).

  Objects and arrays live in a heap; a value holds the address of one. The clone walks a graph
  that may have cycles, so it is a partial function: that it returns is part of the theorem,
  which says that the copy is the graph again, with its aliasing and its cycles, at fresh
  addresses, and the original as it was. It needs that every reference is where \<open>cloned\<close> looks;
  a property typed \<open>unknown\<close> is not one of those places.
\<close>

subsection \<open>Values and the heap\<close>

datatype 'a Maybe = Undefined | Null | Value 'a

text \<open>
  A Go value as \<open>any\<close>: \<open>GShared\<close> is what the clone shares, a function, a promise or an error; \<open>GNil\<close>
  and \<open>GNull\<close> are an unknown's undefined and null.
\<close>

datatype gvalue =
    GNumber f64 | GInt int | GString "byte list" | GBool bool | GShared nat | GNil | GNull
  | GRef nat | GMaybe "gvalue Maybe"

text \<open>
  An object's struct: its key table, its shape's field types and the fields; and an array's items.
\<close>

datatype node = ObjectNode nat "ty list" "gvalue list" | ArrayNode "gvalue list"

record cloner =
  c_heap :: "node list"
  c_copies :: "nat \<Rightarrow> nat option"

text \<open>\<open>cloned\<close>: the field types whose values a \<open>CloneObject\<close> copies.\<close>

fun cloned :: "ty \<Rightarrow> bool" where
  "cloned (TObject _) = True"
| "cloned (TArray _) = True"
| "cloned (TMaybe (Some t)) = cloned t"
| "cloned _ = False"

definition Remember :: "nat \<Rightarrow> nat \<Rightarrow> cloner \<Rightarrow> cloner" where
  "Remember original copied c = c\<lparr>c_copies := (c_copies c)(original \<mapsto> copied)\<rparr>"

definition new_node :: "node \<Rightarrow> cloner \<Rightarrow> cloner \<times> nat" where
  "new_node x c = (c\<lparr>c_heap := c_heap c @ [x]\<rparr>, length (c_heap c))"

fun set_slot :: "nat \<Rightarrow> gvalue \<Rightarrow> node \<Rightarrow> node" where
  "set_slot i v (ObjectNode l ts vs) = ObjectNode l ts (vs[i := v])"
| "set_slot i v (ArrayNode vs) = ArrayNode (vs[i := v])"

definition write_slot :: "nat \<Rightarrow> nat \<Rightarrow> gvalue \<Rightarrow> cloner \<Rightarrow> cloner" where
  "write_slot b i v c = c\<lparr>c_heap := (c_heap c)[b := set_slot i v (c_heap c ! b)]\<rparr>"

text \<open>Each value in turn copied into its slot of the copy \<open>b\<close>, by \<open>f\<close>.\<close>

primrec copy_slots :: "(gvalue \<Rightarrow> cloner \<Rightarrow> (gvalue \<times> cloner) option) \<Rightarrow> nat \<Rightarrow> (nat \<times> gvalue) list
    \<Rightarrow> cloner \<Rightarrow> cloner option" where
  "copy_slots f b [] c = Some c"
| "copy_slots f b (x # xs) c =
     Option.bind (f (snd x) c) (\<lambda>r. copy_slots f b xs (write_slot b (fst x) (fst r) (snd r)))"

lemma copy_slots_mono [partial_function_mono]:
  assumes "\<And>v c. mono_option (\<lambda>f. F f v c)"
  shows "mono_option (\<lambda>f. copy_slots (F f) b xs c)"
proof (induction xs arbitrary: c)
  case (Cons x xs)
  have "mono_option (\<lambda>f. Option.bind (F f (snd x) c) (\<lambda>r. copy_slots (F f) b xs (write_slot b (fst x) (fst r) (snd r))))"
    by (intro bind_mono assms Cons)
  then show ?case by simp
qed (simp add: option.const_mono)

subsection \<open>The clone\<close>

definition object_slots :: "ty list \<Rightarrow> gvalue list \<Rightarrow> (nat \<times> gvalue) list" where
  "object_slots ts vs = filter (\<lambda>(i, v). cloned (ts ! i)) (enumerate 0 vs)"

text \<open>
  \<open>CloneObject\<close> starts the copy as the object, \<open>cloneArray\<close> as an array of zero values, for which
  \<open>GNil\<close> stands: each is written before the clone returns.
\<close>

partial_function (option) CloneValue :: "gvalue \<Rightarrow> cloner \<Rightarrow> (gvalue \<times> cloner) option" where
  "CloneValue v c =
     (case v of
        GRef a \<Rightarrow>
          (case c_copies c a of
             Some b \<Rightarrow> Some (GRef b, c)
           | None \<Rightarrow>
               (case c_heap c ! a of
                  ObjectNode l ts vs \<Rightarrow>
                    let (c, b) = new_node (ObjectNode l ts vs) c
                    in Option.bind (copy_slots CloneValue b (object_slots ts vs) (Remember a b c)) (\<lambda>c. Some (GRef b, c))
                | ArrayNode vs \<Rightarrow>
                    let (c, b) = new_node (ArrayNode (replicate (length vs) GNil)) c
                    in Option.bind (copy_slots CloneValue b (enumerate 0 vs) (Remember a b c)) (\<lambda>c. Some (GRef b, c))))
      | GMaybe m \<Rightarrow>
          (case m of
             Value w \<Rightarrow> Option.bind (CloneValue w c) (\<lambda>r. Some (GMaybe (Value (fst r)), snd r))
           | _ \<Rightarrow> Some (v, c))
      | _ \<Rightarrow> Some (v, c))"

definition Clone :: "gvalue \<Rightarrow> node list \<Rightarrow> (gvalue \<times> node list) option" where
  "Clone v h = map_option (\<lambda>(v, c). (v, c_heap c)) (CloneValue v \<lparr>c_heap = h, c_copies = Map.empty\<rparr>)"

subsection \<open>Copies of graphs\<close>

fun refs :: "gvalue \<Rightarrow> nat set" where
  "refs (GRef a) = {a}"
| "refs (GMaybe (Value v)) = refs v"
| "refs _ = {}"

fun slots :: "node \<Rightarrow> gvalue list" where
  "slots (ObjectNode l ts vs) = vs"
| "slots (ArrayNode vs) = vs"

definition node_refs :: "node \<Rightarrow> nat set" where
  "node_refs x = (\<Union>v \<in> set (slots x). refs v)"

fun rename :: "(nat \<Rightarrow> nat option) \<Rightarrow> gvalue \<Rightarrow> gvalue" where
  "rename m (GRef a) = GRef (the (m a))"
| "rename m (GMaybe (Value v)) = GMaybe (Value (rename m v))"
| "rename m v = v"

fun map_slots :: "(gvalue \<Rightarrow> gvalue) \<Rightarrow> node \<Rightarrow> node" where
  "map_slots f (ObjectNode l ts vs) = ObjectNode l ts (map f vs)"
| "map_slots f (ArrayNode vs) = ArrayNode (map f vs)"

text \<open>No address dangles, and a field that is not copied holds no reference.\<close>

fun node_ok :: "nat \<Rightarrow> node \<Rightarrow> bool" where
  "node_ok n (ObjectNode l ts vs) \<longleftrightarrow>
     length ts = length vs \<and> (\<forall>v \<in> set vs. refs v \<subseteq> {..<n}) \<and>
     (\<forall>i < length vs. \<not> cloned (ts ! i) \<longrightarrow> refs (vs ! i) = {})"
| "node_ok n (ArrayNode vs) \<longleftrightarrow> (\<forall>v \<in> set vs. refs v \<subseteq> {..<n})"

definition heap_ok :: "node list \<Rightarrow> bool" where
  "heap_ok h \<longleftrightarrow> list_all (node_ok (length h)) h"

text \<open>What a value reaches.\<close>

inductive_set reach :: "node list \<Rightarrow> nat set \<Rightarrow> nat set" for h A where
  start: "a \<in> A \<Longrightarrow> a \<in> reach h A"
| step: "a \<in> reach h A \<Longrightarrow> b \<in> node_refs (h ! a) \<Longrightarrow> b \<in> reach h A"

subsection \<open>The invariant\<close>

text \<open>
  The originals untouched, the copies one to one at the addresses past them, and each copy the
  original renamed, but those of the objects in \<open>P\<close>, which are being filled.
\<close>

definition cinv :: "node list \<Rightarrow> nat set \<Rightarrow> cloner \<Rightarrow> bool" where
  "cinv h P c \<longleftrightarrow>
     take (length h) (c_heap c) = h \<and>
     dom (c_copies c) \<subseteq> {..<length h} \<and> inj_on (c_copies c) (dom (c_copies c)) \<and>
     ran (c_copies c) = {length h..<length (c_heap c)} \<and>
     (\<forall>a b. c_copies c a = Some b \<longrightarrow> a \<notin> P \<longrightarrow>
        c_heap c ! b = map_slots (rename (c_copies c)) (h ! a) \<and> node_refs (h ! a) \<subseteq> dom (c_copies c))"

definition grows :: "nat set \<Rightarrow> nat set \<Rightarrow> cloner \<Rightarrow> cloner \<Rightarrow> bool" where
  "grows R B c c' \<longleftrightarrow>
     c_copies c \<subseteq>\<^sub>m c_copies c' \<and> dom (c_copies c') \<subseteq> dom (c_copies c) \<union> R \<and>
     length (c_heap c) \<le> length (c_heap c') \<and>
     (\<forall>b < length (c_heap c). b \<notin> B \<longrightarrow> c_heap c' ! b = c_heap c ! b)"

lemma grows_refl: "grows R B c c"
  by (simp add: grows_def)

lemma grows_trans: "grows R B c c' \<Longrightarrow> grows R B c' c'' \<Longrightarrow> grows R B c c''"
proof -
  assume g: "grows R B c c'" and g': "grows R B c' c''"
  have "c_copies c \<subseteq>\<^sub>m c_copies c''" using g g' unfolding grows_def by (blast intro: map_le_trans)
  moreover have "dom (c_copies c'') \<subseteq> dom (c_copies c) \<union> R" using g g' unfolding grows_def by blast
  moreover have "length (c_heap c) \<le> length (c_heap c'')" using g g' by (simp add: grows_def)
  moreover have "c_heap c'' ! b = c_heap c ! b" if "b < length (c_heap c)" "b \<notin> B" for b
    using g g' that by (simp add: grows_def)
  ultimately show ?thesis by (simp add: grows_def)
qed

lemma grows_mono: "grows R B c c' \<Longrightarrow> B \<subseteq> B' \<Longrightarrow> grows R B' c c'"
  unfolding grows_def by blast

lemma rename_le: "m \<subseteq>\<^sub>m m' \<Longrightarrow> refs v \<subseteq> dom m \<Longrightarrow> rename m' v = rename m v"
  by (induction m v rule: rename.induct) (auto simp: map_le_def dom_def)

lemma rename_flat: "refs v = {} \<Longrightarrow> rename m v = v"
  by (induction m v rule: rename.induct) auto

lemma map_slots_le:
  assumes "m \<subseteq>\<^sub>m m'" "node_refs x \<subseteq> dom m"
  shows "map_slots (rename m') x = map_slots (rename m) x"
proof -
  have "rename m' v = rename m v" if "v \<in> set (slots x)" for v
    using assms that by (intro rename_le) (auto simp: node_refs_def)
  then show ?thesis by (cases x) auto
qed

lemma cinvD:
  assumes "cinv h P c"
  shows "take (length h) (c_heap c) = h" "dom (c_copies c) \<subseteq> {..<length h}"
    "inj_on (c_copies c) (dom (c_copies c))" "ran (c_copies c) = {length h..<length (c_heap c)}"
proof -
  note inv = assms [unfolded cinv_def]
  show "take (length h) (c_heap c) = h" by (rule conjunct1 [OF inv])
  show "dom (c_copies c) \<subseteq> {..<length h}" by (rule conjunct1 [OF conjunct2 [OF inv]])
  show "inj_on (c_copies c) (dom (c_copies c))" by (rule conjunct1 [OF conjunct2 [OF conjunct2 [OF inv]]])
  show "ran (c_copies c) = {length h..<length (c_heap c)}"
    by (rule conjunct1 [OF conjunct2 [OF conjunct2 [OF conjunct2 [OF inv]]]])
qed

lemma cinv_full:
  assumes "cinv h P c" "c_copies c a = Some b" "a \<notin> P"
  shows "c_heap c ! b = map_slots (rename (c_copies c)) (h ! a)" "node_refs (h ! a) \<subseteq> dom (c_copies c)"
proof -
  have "\<forall>a b. c_copies c a = Some b \<longrightarrow> a \<notin> P \<longrightarrow>
      c_heap c ! b = map_slots (rename (c_copies c)) (h ! a) \<and> node_refs (h ! a) \<subseteq> dom (c_copies c)"
    using assms(1) unfolding cinv_def by (elim conjE)
  from this [rule_format, OF assms(2,3)]
  show "c_heap c ! b = map_slots (rename (c_copies c)) (h ! a)" "node_refs (h ! a) \<subseteq> dom (c_copies c)" by simp_all
qed

text \<open>A slot of a copy still in progress may be written.\<close>

lemma write_slot_inv:
  assumes "cinv h P c" "c_copies c a = Some b" "a \<in> P"
  shows "cinv h P (write_slot b i v c)"
proof -
  note inv = cinvD [OF assms(1)]
  have b: "length h \<le> b" "b < length (c_heap c)" using ranI [of "c_copies c", OF assms(2)] inv(4) by simp_all
  have m: "c_copies (write_slot b i v c) = c_copies c"
    "c_heap (write_slot b i v c) = (c_heap c)[b := set_slot i v (c_heap c ! b)]"
    by (simp_all add: write_slot_def)
  have "c_copies c a' \<noteq> Some b" if "a' \<noteq> a" for a'
    using inv(3) that assms(2) by (metis domI inj_onD)
  then have "c_heap (write_slot b i v c) ! b' = c_heap c ! b'" if "c_copies c a' = Some b'" "a' \<notin> P" for a' b'
    using that assms(3) by (cases "a' = a"; cases "b' = b") (auto simp: m)
  with cinv_full [OF assms(1)] have "\<forall>a' b'. c_copies c a' = Some b' \<longrightarrow> a' \<notin> P \<longrightarrow>
      c_heap (write_slot b i v c) ! b' = map_slots (rename (c_copies c)) (h ! a') \<and> node_refs (h ! a') \<subseteq> dom (c_copies c)"
    by simp
  with inv b show ?thesis unfolding cinv_def m(1) by (simp add: m(2))
qed

text \<open>A copy begun: the node is at the next address, and remembered.\<close>

lemma begin_copy:
  fixes x :: node
  assumes inv: "cinv h P c" and a: "a < length h" "c_copies c a = None" "a \<in> R"
  defines "b \<equiv> length (c_heap c)"
  defines "c' \<equiv> Remember a b (c\<lparr>c_heap := c_heap c @ [x]\<rparr>)"
  shows "cinv h (insert a P) c'" "c_copies c' a = Some b" "c_heap c' ! b = x" "grows R {} c c'"
    "card ({..<length h} - dom (c_copies c')) < card ({..<length h} - dom (c_copies c))"
proof -
  have m: "c_copies c' = (c_copies c)(a \<mapsto> b)" "c_heap c' = c_heap c @ [x]"
    by (simp_all add: c'_def Remember_def)
  note I = cinvD [OF inv]
  have n: "length h \<le> b" using I(1) by (metis b_def length_take min.cobounded1 min.commute)
  have below: "b' < b" if "c_copies c a' = Some b'" for a' b' using ranI [of "c_copies c", OF that] I(4) by (simp add: b_def)
  have le: "c_copies c \<subseteq>\<^sub>m c_copies c'" using a(2) by (auto simp: m map_le_def)
  have range: "ran (c_copies c') = {length h..<length (c_heap c')}"
    using n by (simp add: m ran_map_upd [of "c_copies c", OF a(2)] I(4) b_def atLeastLessThanSuc)
  have inj: "inj_on (c_copies c') (dom (c_copies c'))"
  proof (rule inj_onI)
    fix x y assume x: "x \<in> dom (c_copies c')" and e: "c_copies c' x = c_copies c' y"
    from x obtain z where z: "c_copies c' x = Some z" by blast
    show "x = y"
    proof (cases "x = a \<or> y = a")
      case True
      then show ?thesis using z e below [of x b] below [of y b] by (auto simp: m split: if_splits)
    next
      case False
      then have "c_copies c x = Some z" "c_copies c y = Some z" using z e by (simp_all add: m)
      then show ?thesis using I(3) by (metis domI inj_onD)
    qed
  qed
  have full: "c_heap c' ! b' = map_slots (rename (c_copies c')) (h ! a') \<and> node_refs (h ! a') \<subseteq> dom (c_copies c')"
    if "c_copies c' a' = Some b'" "a' \<notin> insert a P" for a' b'
  proof -
    have old: "c_copies c a' = Some b'" using that by (simp add: m)
    have "c_heap c ! b' = map_slots (rename (c_copies c)) (h ! a')" "node_refs (h ! a') \<subseteq> dom (c_copies c)"
      using cinv_full [OF inv old] that(2) by simp_all
    then show ?thesis using map_slots_le [OF le] below [OF old] by (auto simp: m nth_append b_def)
  qed
  show "cinv h (insert a P) c'"
  proof -
    have "take (length h) (c_heap c') = h" using I(1) n by (simp add: m b_def)
    moreover have "dom (c_copies c') \<subseteq> {..<length h}" using I(2) a(1) by (simp add: m)
    ultimately show ?thesis using range inj full unfolding cinv_def by blast
  qed
  show "c_copies c' a = Some b" "c_heap c' ! b = x" by (simp_all add: m b_def)
  show "grows R {} c c'" using le a(3) by (auto simp: grows_def m nth_append)
  have "{..<length h} - dom (c_copies c') \<subset> {..<length h} - dom (c_copies c)"
    using a(1,2) by (auto simp: m)
  then show "card ({..<length h} - dom (c_copies c')) < card ({..<length h} - dom (c_copies c))"
    by (intro psubset_card_mono) auto
qed

text \<open>A copy finished.\<close>

lemma end_copy:
  assumes "cinv h (insert a P) c" "c_copies c a = Some b"
    "c_heap c ! b = map_slots (rename (c_copies c)) (h ! a)" "node_refs (h ! a) \<subseteq> dom (c_copies c)"
  shows "cinv h P c"
  using assms unfolding cinv_def by (metis insert_iff option.inject)

subsection \<open>The walk\<close>

text \<open>What the clone of a value does: it returns, and the value's copy is the value renamed.\<close>

definition copies_value :: "node list \<Rightarrow> nat set \<Rightarrow> nat set \<Rightarrow> gvalue \<Rightarrow> cloner \<Rightarrow> bool" where
  "copies_value h R P v c \<longleftrightarrow>
     (\<exists>c'. CloneValue v c = Some (rename (c_copies c') v, c') \<and> cinv h P c' \<and> grows R {} c c' \<and>
        refs v \<subseteq> dom (c_copies c'))"

definition closed :: "node list \<Rightarrow> nat set \<Rightarrow> bool" where
  "closed h R \<longleftrightarrow> (\<forall>a \<in> R. a < length h \<and> node_refs (h ! a) \<subseteq> R)"

lemma grows_card:
  assumes "grows R B c c'"
  shows "card ({..<length h} - dom (c_copies c')) \<le> card ({..<length h} - dom (c_copies c))"
proof (rule card_mono)
  have "dom (c_copies c) \<subseteq> dom (c_copies c')" using assms by (auto simp: grows_def map_le_def dom_def)
  then show "{..<length h} - dom (c_copies c') \<subseteq> {..<length h} - dom (c_copies c)" by blast
qed simp

lemma write_slot_grows: "b < length (c_heap c) \<Longrightarrow> grows R {b} c (write_slot b i v c)"
  by (simp add: grows_def write_slot_def)

definition fill :: "(gvalue \<Rightarrow> gvalue) \<Rightarrow> (nat \<times> gvalue) list \<Rightarrow> node \<Rightarrow> node" where
  "fill f xs x = fold (\<lambda>(i, v). set_slot i (f v)) xs x"

lemma fill_simps [simp]: "fill f [] x = x" "fill f ((i, v) # xs) x = fill f xs (set_slot i (f v) x)"
  by (simp_all add: fill_def)

lemma fill_cong: "(\<And>i v. (i, v) \<in> set xs \<Longrightarrow> f v = g v) \<Longrightarrow> fill f xs x = fill g xs x"
  unfolding fill_def by (rule fold_cong) auto

lemma copy_slots_goes:
  assumes IH: "\<And>v P c. cinv h P c \<Longrightarrow> refs v \<subseteq> R \<Longrightarrow> card ({..<length h} - dom (c_copies c)) < k \<Longrightarrow> copies_value h R P v c"
    and "cinv h P c" "c_copies c a = Some b" "a \<in> P" "\<forall>x \<in> set xs. refs (snd x) \<subseteq> R"
    "card ({..<length h} - dom (c_copies c)) < k"
  shows "\<exists>c'. copy_slots CloneValue b xs c = Some c' \<and> cinv h P c' \<and> grows R {b} c c' \<and>
    c_heap c' ! b = fill (rename (c_copies c')) xs (c_heap c ! b) \<and>
    (\<forall>x \<in> set xs. refs (snd x) \<subseteq> dom (c_copies c'))"
  using assms(2-)
proof (induction xs arbitrary: c)
  case Nil
  then show ?case using grows_refl by auto
next
  case (Cons x xs)
  obtain i v where x: "x = (i, v)" by (cases x)
  have b: "b < length (c_heap c)" using Cons.prems(1,2) by (auto simp: cinv_def dest: ranI)
  obtain c1 where 1: "CloneValue v c = Some (rename (c_copies c1) v, c1)" "cinv h P c1" "grows R {} c c1"
    "refs v \<subseteq> dom (c_copies c1)"
    using IH [OF Cons.prems(1), of v] Cons.prems(4,5) x unfolding copies_value_def by auto
  define c2 where "c2 = write_slot b i (rename (c_copies c1) v) c1"
  have a1: "c_copies c1 a = Some b" using 1(3) Cons.prems(2) by (auto simp: grows_def map_le_def dom_def)
  have b1: "b < length (c_heap c1)" "c_heap c1 ! b = c_heap c ! b" using 1(3) b by (auto simp: grows_def)
  have m2: "c_copies c2 = c_copies c1" "c_heap c2 ! b = set_slot i (rename (c_copies c1) v) (c_heap c ! b)"
    using b1 by (simp_all add: c2_def write_slot_def)
  have inv2: "cinv h P c2" unfolding c2_def by (rule write_slot_inv [OF 1(2) a1 Cons.prems(3)])
  have g: "grows R {b} c c2"
    using grows_trans [OF grows_mono [OF 1(3)] write_slot_grows [OF b1(1)]] by (simp add: c2_def)
  have "card ({..<length h} - dom (c_copies c2)) < k" using grows_card [OF g, of h] Cons.prems(5) by simp
  with Cons.IH [OF inv2] a1 Cons.prems(3,4) obtain c3 where 3: "copy_slots CloneValue b xs c2 = Some c3"
    "cinv h P c3" "grows R {b} c2 c3" "c_heap c3 ! b = fill (rename (c_copies c3)) xs (c_heap c2 ! b)"
    "\<forall>x \<in> set xs. refs (snd x) \<subseteq> dom (c_copies c3)"
    by (auto simp: m2)
  have le: "c_copies c1 \<subseteq>\<^sub>m c_copies c3" using 3(3) m2 by (simp add: grows_def)
  then have "rename (c_copies c3) v = rename (c_copies c1) v" using 1(4) rename_le by blast
  moreover have "dom (c_copies c1) \<subseteq> dom (c_copies c3)" using le by (auto simp: map_le_def dom_def)
  ultimately show ?case
    using 1 3 m2 g grows_trans [OF g 3(3)] by (auto simp: x c2_def [symmetric])
qed

text \<open>The slots filled are the node mapped.\<close>

lemma fill_array:
  "length vs = length ws \<Longrightarrow> fill f (enumerate n vs) (ArrayNode (us @ ws)) = ArrayNode (us @ map f vs)" if "length us = n"
  using that
proof (induction vs arbitrary: n us ws)
  case (Cons v vs)
  obtain w ws' where ws: "ws = w # ws'" using Cons.prems by (cases ws) auto
  have "fill f (enumerate (Suc n) vs) (ArrayNode ((us @ [f v]) @ ws')) = ArrayNode ((us @ [f v]) @ map f vs)"
    using Cons.prems ws by (intro Cons.IH) auto
  with Cons.prems ws show ?case by (simp add: list_update_append)
qed simp

lemma fill_object:
  "length us = n \<Longrightarrow> \<forall>i < length vs. \<not> cloned (ts ! (n + i)) \<longrightarrow> f (vs ! i) = vs ! i \<Longrightarrow>
   fill f (filter (\<lambda>(i, v). cloned (ts ! i)) (enumerate n vs)) (ObjectNode l ts (us @ vs)) = ObjectNode l ts (us @ map f vs)"
proof (induction vs arbitrary: n us)
  case (Cons v vs)
  have tail: "fill f (filter (\<lambda>(i, v). cloned (ts ! i)) (enumerate (Suc n) vs)) (ObjectNode l ts ((us @ [f v]) @ vs))
      = ObjectNode l ts ((us @ [f v]) @ map f vs)"
    using Cons.prems by (intro Cons.IH) (auto simp: nth_Cons' dest: spec [of _ "Suc _"])
  have "cloned (ts ! n) \<or> f v = v" using Cons.prems(2) by (auto dest: spec [of _ 0])
  with tail Cons.prems(1) show ?case by (auto simp: list_update_append)
qed simp

lemma rename_object:
  assumes "node_ok n (ObjectNode l ts vs)"
  shows "fill (rename m) (object_slots ts vs) (ObjectNode l ts vs) = map_slots (rename m) (ObjectNode l ts vs)"
  using fill_object [of "[]" 0 vs ts "rename m" l] assms by (simp add: object_slots_def rename_flat)

lemma object_slots_refs:
  assumes "node_ok n (ObjectNode l ts vs)" "\<forall>x \<in> set (object_slots ts vs). refs (snd x) \<subseteq> D"
  shows "node_refs (ObjectNode l ts vs) \<subseteq> D"
proof -
  have "refs (vs ! i) \<subseteq> D" if "i < length vs" for i
  proof (cases "cloned (ts ! i)")
    case True
    then have "(i, vs ! i) \<in> set (object_slots ts vs)" using that by (auto simp: object_slots_def in_set_enumerate_eq)
    with assms(2) show ?thesis by fastforce
  next
    case False
    with assms(1) that show ?thesis by simp
  qed
  then have "refs v \<subseteq> D" if "v \<in> set vs" for v using that by (metis in_set_conv_nth)
  then show ?thesis by (simp add: node_refs_def UN_least)
qed

lemma array_slots_refs:
  assumes "\<forall>x \<in> set (enumerate n vs). refs (snd x) \<subseteq> D"
  shows "node_refs (ArrayNode vs) \<subseteq> D"
proof -
  have "refs v \<subseteq> D" if "v \<in> set vs" for v
  proof -
    obtain i where "i < length vs" "v = vs ! i" using \<open>v \<in> set vs\<close> by (metis in_set_conv_nth)
    then have "(n + i, v) \<in> set (enumerate n vs)" by (simp add: in_set_enumerate_eq)
    with assms show ?thesis by fastforce
  qed
  then show ?thesis by (simp add: node_refs_def UN_least)
qed

lemma slots_refs: "x \<in> set (object_slots ts vs) \<Longrightarrow> refs (snd x) \<subseteq> node_refs (ObjectNode l ts vs)"
  "x \<in> set (enumerate n vs) \<Longrightarrow> refs (snd x) \<subseteq> node_refs (ArrayNode vs)"
proof -
  have e: "snd x \<in> set vs" if "x \<in> set (enumerate n vs)" for n
    using that by (auto simp: in_set_enumerate_eq) (metis add.commute less_diff_conv2 nth_mem)
  then show "refs (snd x) \<subseteq> node_refs (ArrayNode vs)" if "x \<in> set (enumerate n vs)"
    using that by (auto simp: node_refs_def)
  show "refs (snd x) \<subseteq> node_refs (ObjectNode l ts vs)" if "x \<in> set (object_slots ts vs)"
    using that e [of 0] by (auto simp: node_refs_def object_slots_def)
qed

text \<open>One node copied, given its slots' copies.\<close>

lemma copy_node:
  assumes IH: "\<And>v P c. cinv h P c \<Longrightarrow> refs v \<subseteq> R \<Longrightarrow> card ({..<length h} - dom (c_copies c)) < card ({..<length h} - dom (c_copies c0))
      \<Longrightarrow> copies_value h R P v c"
    and h: "heap_ok h" "closed h R" and inv: "cinv h P c0" and a: "a \<in> R" "c_copies c0 a = None"
    and fill: "\<And>m. fill (rename m) xs x = map_slots (rename m) (h ! a)"
    and refs: "\<forall>x \<in> set xs. refs (snd x) \<subseteq> node_refs (h ! a)"
      "\<And>D. \<forall>x \<in> set xs. refs (snd x) \<subseteq> D \<Longrightarrow> node_refs (h ! a) \<subseteq> D"
  shows "\<exists>c'. copy_slots CloneValue (length (c_heap c0)) xs (Remember a (length (c_heap c0)) (c0\<lparr>c_heap := c_heap c0 @ [x]\<rparr>)) = Some c'
    \<and> cinv h P c' \<and> grows R {} c0 c' \<and> c_copies c' a = Some (length (c_heap c0))"
proof -
  define b where "b = length (c_heap c0)"
  define c where "c = Remember a b (c0\<lparr>c_heap := c_heap c0 @ [x]\<rparr>)"
  have ah: "a < length h" "node_refs (h ! a) \<subseteq> R" using h(2) a(1) by (auto simp: closed_def)
  note c = begin_copy [OF inv ah(1) a(2,1), of x, folded b_def, folded c_def]
  have xs: "\<forall>x \<in> set xs. refs (snd x) \<subseteq> R" using refs(1) ah(2) by blast
  have "\<exists>c'. copy_slots CloneValue b xs c = Some c' \<and> cinv h (insert a P) c' \<and> grows R {b} c c' \<and>
      c_heap c' ! b = fill (rename (c_copies c')) xs (c_heap c ! b) \<and>
      (\<forall>x \<in> set xs. refs (snd x) \<subseteq> dom (c_copies c'))"
    by (rule copy_slots_goes [OF _ c(1,2) insertI1 xs c(5)]) (rule IH)
  then obtain c' where
    c': "copy_slots CloneValue b xs c = Some c'" "cinv h (insert a P) c'" "grows R {b} c c'"
    "c_heap c' ! b = fill (rename (c_copies c')) xs (c_heap c ! b)" "\<forall>x \<in> set xs. refs (snd x) \<subseteq> dom (c_copies c')"
    by (elim exE conjE)
  have m: "c_copies c' a = Some b" using c'(3) c(2) by (auto simp: grows_def map_le_def dom_def)
  have "cinv h P c'"
    using end_copy [OF c'(2) m] c'(4) fill c(3) refs(2) [OF c'(5)] by simp
  moreover have "c_heap c' ! i = c_heap c0 ! i" if "i < b" for i
    using c'(3) c(4) that by (auto simp: grows_def b_def)
  then have "grows R {} c0 c'"
    using grows_trans [OF grows_mono [OF c(4)] c'(3)] by (auto simp: grows_def b_def)
  ultimately show ?thesis using c'(1) m unfolding c_def b_def by blast
qed

lemma CloneValue_copies:
  assumes "heap_ok h" "closed h R" "cinv h P c" "refs v \<subseteq> R"
  shows "copies_value h R P v c"
  using assms(3,4)
proof (induction "card ({..<length h} - dom (c_copies c))" arbitrary: v P c rule: less_induct)
  case less
  note IH = less.hyps
  from less.prems(2) show ?case
  proof (induction v)
    case (GRef a)
    then have aR: "a \<in> R" by simp
    show ?case
    proof (cases "c_copies c a")
      case (Some b)
      then have "CloneValue (GRef a) c = Some (rename (c_copies c) (GRef a), c)"
        by (subst CloneValue.simps) simp
      moreover have "refs (GRef a) \<subseteq> dom (c_copies c)" using Some by auto
      ultimately show ?thesis using less.prems(1) grows_refl unfolding copies_value_def by blast
    next
      case None
      have a: "a < length h" using aR assms(2) by (simp add: closed_def)
      then have at: "c_heap c ! a = h ! a" using cinvD(1) [OF less.prems(1)] by (metis nth_take)
      have ok: "node_ok (length h) (h ! a)" using assms(1) a by (simp add: heap_ok_def list_all_length)
      define b where "b = length (c_heap c)"
      obtain xs x where "\<And>m. fill (rename m) xs x = map_slots (rename m) (h ! a)"
        "\<forall>x \<in> set xs. refs (snd x) \<subseteq> node_refs (h ! a)"
        "\<And>D. \<forall>x \<in> set xs. refs (snd x) \<subseteq> D \<Longrightarrow> node_refs (h ! a) \<subseteq> D"
        and e: "CloneValue (GRef a) c
          = Option.bind (copy_slots CloneValue b xs (Remember a b (c\<lparr>c_heap := c_heap c @ [x]\<rparr>))) (\<lambda>c. Some (GRef b, c))"
      proof (cases "h ! a")
        case (ObjectNode l ts vs)
        show thesis
        proof (rule that [where xs = "object_slots ts vs" and x = "ObjectNode l ts vs"])
          show "CloneValue (GRef a) c = Option.bind (copy_slots CloneValue b (object_slots ts vs)
              (Remember a b (c\<lparr>c_heap := c_heap c @ [ObjectNode l ts vs]\<rparr>))) (\<lambda>c. Some (GRef b, c))"
            using None at ObjectNode by (subst CloneValue.simps) (simp add: new_node_def b_def)
          show "fill (rename m) (object_slots ts vs) (ObjectNode l ts vs) = map_slots (rename m) (h ! a)" for m
            using rename_object ok unfolding ObjectNode by blast
          show "\<forall>x \<in> set (object_slots ts vs). refs (snd x) \<subseteq> node_refs (h ! a)"
            unfolding ObjectNode by (blast dest: slots_refs(1))
          show "node_refs (h ! a) \<subseteq> D" if "\<forall>x \<in> set (object_slots ts vs). refs (snd x) \<subseteq> D" for D
            using object_slots_refs [OF ok [unfolded ObjectNode] that] unfolding ObjectNode .
        qed
      next
        case (ArrayNode vs)
        show thesis
        proof (rule that [where xs = "enumerate 0 vs" and x = "ArrayNode (replicate (length vs) GNil)"])
          show "CloneValue (GRef a) c = Option.bind (copy_slots CloneValue b (enumerate 0 vs)
              (Remember a b (c\<lparr>c_heap := c_heap c @ [ArrayNode (replicate (length vs) GNil)]\<rparr>))) (\<lambda>c. Some (GRef b, c))"
            using None at ArrayNode by (subst CloneValue.simps) (simp add: new_node_def b_def)
          show "fill (rename m) (enumerate 0 vs) (ArrayNode (replicate (length vs) GNil)) = map_slots (rename m) (h ! a)" for m
            using fill_array [of "[]" 0 vs "replicate (length vs) GNil"] by (simp add: ArrayNode)
          show "\<forall>x \<in> set (enumerate 0 vs). refs (snd x) \<subseteq> node_refs (h ! a)"
            unfolding ArrayNode by (blast dest: slots_refs(2))
          show "node_refs (h ! a) \<subseteq> D" if "\<forall>x \<in> set (enumerate 0 vs). refs (snd x) \<subseteq> D" for D
            using array_slots_refs [OF that] unfolding ArrayNode .
        qed
      qed
      note copy = copy_node [OF IH assms(1,2) less.prems(1) aR None this(1-3), folded b_def]
      then obtain c' where c': "copy_slots CloneValue b xs (Remember a b (c\<lparr>c_heap := c_heap c @ [x]\<rparr>)) = Some c'"
        "cinv h P c'" "grows R {} c c'" "c_copies c' a = Some b" by blast
      then show ?thesis unfolding copies_value_def e by auto
    qed
  next
    case (GMaybe m)
    show ?case
    proof (cases m)
      case (Value w)
      with GMaybe obtain c' where "CloneValue w c = Some (rename (c_copies c') w, c')" "cinv h P c'" "grows R {} c c'"
        "refs w \<subseteq> dom (c_copies c')" unfolding copies_value_def by auto
      then show ?thesis unfolding copies_value_def Value by (subst CloneValue.simps) auto
    qed (use less.prems(1) grows_refl in \<open>auto simp: copies_value_def CloneValue.simps\<close>)
  qed (use less.prems(1) grows_refl in \<open>auto simp: copies_value_def CloneValue.simps\<close>)
qed

subsection \<open>Properties\<close>

text \<open>A graph again: the same nodes with the same values, one for one, at fresh addresses.\<close>

definition graph_copy :: "node list \<Rightarrow> gvalue \<Rightarrow> (nat \<Rightarrow> nat option) \<Rightarrow> node list \<Rightarrow> gvalue \<Rightarrow> bool" where
  "graph_copy h v m h' v' \<longleftrightarrow>
     take (length h) h' = h \<and> dom m = reach h (refs v) \<and> inj_on m (dom m) \<and>
     ran m = {length h..<length h'} \<and> v' = rename m v \<and>
     (\<forall>a b. m a = Some b \<longrightarrow> h' ! b = map_slots (rename m) (h ! a))"

lemma node_ok_refs: "node_ok n x \<Longrightarrow> node_refs x \<subseteq> {..<n}"
  by (cases x) (auto simp: node_refs_def)

lemma reach_below:
  assumes "heap_ok h" "refs v \<subseteq> {..<length h}" "a \<in> reach h (refs v)"
  shows "a < length h"
  using assms(3)
proof induction
  case (step a b)
  then have "node_ok (length h) (h ! a)" using assms(1) by (simp add: heap_ok_def list_all_length)
  with step show ?case using node_ok_refs by blast
qed (use assms(2) in auto)

lemma refs_rename: "refs v \<subseteq> dom m \<Longrightarrow> refs (rename m v) \<subseteq> ran m"
  by (induction m v rule: rename.induct) (auto simp: ran_def)

lemma refs_map_slots:
  assumes "node_refs x \<subseteq> dom m" shows "node_refs (map_slots (rename m) x) \<subseteq> ran m"
proof -
  have "refs (rename m v) \<subseteq> ran m" if "v \<in> set (slots x)" for v
    using assms that by (intro refs_rename) (auto simp: node_refs_def)
  then show ?thesis by (cases x) (auto simp: node_refs_def)
qed

text \<open>
  C24: The clone of a value returns, whatever cycles it has. It copies each object and array the
  value reaches exactly once, keeping aliasing and cycles, leaves every original as it was, and
  shares none: nothing the copy reaches was there before. This needs the references of an object
  to be in fields \<open>cloned\<close> knows.
\<close>

theorem clone_copies_graph:
  assumes "heap_ok h" "refs v \<subseteq> {..<length h}"
  shows "\<exists>v' h' m. Clone v h = Some (v', h') \<and> graph_copy h v m h' v' \<and> reach h' (refs v') \<inter> {..<length h} = {}"
proof -
  define R where "R = reach h (refs v)"
  have "closed h R"
    using reach_below [OF assms] by (auto simp: closed_def R_def intro: reach.step)
  moreover have "cinv h {} \<lparr>c_heap = h, c_copies = Map.empty\<rparr>" by (simp add: cinv_def)
  moreover have "refs v \<subseteq> R" by (auto simp: R_def intro: reach.start)
  ultimately obtain c where c: "CloneValue v \<lparr>c_heap = h, c_copies = Map.empty\<rparr> = Some (rename (c_copies c) v, c)"
    "cinv h {} c" "grows R {} \<lparr>c_heap = h, c_copies = Map.empty\<rparr> c" "refs v \<subseteq> dom (c_copies c)"
    using CloneValue_copies [OF assms(1)] unfolding copies_value_def by blast
  let ?m = "c_copies c" and ?h' = "c_heap c"
  note I = cinvD [OF c(2)] and full = cinv_full [OF c(2)]
  have sub: "dom ?m \<subseteq> R" using c(3) by (auto simp: grows_def)
  have "a \<in> dom ?m" if "a \<in> R" for a
    using that unfolding R_def
  proof induction
    case (step a b)
    then obtain b' where "?m a = Some b'" by blast
    with step(2) full(2) show ?case by blast
  qed (use c(4) in blast)
  with sub have dom: "dom ?m = R" by blast
  have copies: "b \<in> ran ?m" if "b \<in> reach ?h' (refs (rename ?m v))" for b
    using that
  proof induction
    case (start b)
    then show ?case using refs_rename [OF c(4)] by blast
  next
    case (step b b')
    from step.IH obtain a where a: "?m a = Some b" by (auto simp: ran_def)
    have "node_refs (?h' ! b) \<subseteq> ran ?m"
      using refs_map_slots [OF full(2) [OF a]] full(1) [OF a] by simp
    with step.hyps(2) show ?case by blast
  qed
  have "graph_copy h v ?m ?h' (rename ?m v)"
    using I full dom unfolding graph_copy_def R_def by simp
  moreover have "reach ?h' (refs (rename ?m v)) \<inter> {..<length h} = {}" using copies I(4) by force
  moreover have "Clone v h = Some (rename ?m v, ?h')" by (simp add: Clone_def c(1))
  ultimately show ?thesis by blast
qed

definition sample_cycle :: "node list" where
  "sample_cycle = [ObjectNode 0 [TNumber, TMaybe (Some (TArray (Some (TObject None))))] [GNumber NaN, GMaybe (Value (GRef 1))],
     ArrayNode [GRef 0, GRef 0]]"

theorem clone_copies_graph_witness:
  "\<exists>v' h' m. Clone (GRef 0) sample_cycle = Some (v', h') \<and> graph_copy sample_cycle (GRef 0) m h' v' \<and>
     reach h' (refs v') \<inter> {..<length sample_cycle} = {}"
proof (rule clone_copies_graph)
  show "heap_ok sample_cycle" "refs (GRef 0) \<subseteq> {..<length sample_cycle}"
    by (auto simp: heap_ok_def sample_cycle_def less_Suc_eq nth_Cons')
qed

text \<open>
  C25: A property of type \<open>unknown\<close> escapes the clone: the copy of an object whose unknown holds an
  array holds the very same array, so what the spawned domain has left to do can change what the
  caller was given.
\<close>

theorem clone_shares_unknown:
  "Clone (GRef 0) (ObjectNode l [TUnknown] [GRef 1] # ArrayNode vs # h)
   = Some (GRef (length h + 2), ObjectNode l [TUnknown] [GRef 1] # ArrayNode vs # h @ [ObjectNode l [TUnknown] [GRef 1]])"
  by (simp add: Clone_def CloneValue.simps new_node_def Remember_def object_slots_def)

end
