(* ===== verification/Mangle.thy ===== *)
theory Mangle
  imports GoStrconv
begin

text \<open>
  The names the emitter gives Go (\<open>backend/mangle.go\<close>, and the names generated in
  \<open>emit_program.go\<close>, \<open>emit_append.go\<close>, \<open>emit_object.go\<close>, \<open>emit_optional.go\<close>, \<open>emit_try.go\<close>,
  \<open>order.go\<close>). A Go string is its bytes as characters; \<open>range\<close> and \<open>strings.ContainsFunc\<close> read
  its runes. Unicode's letters and decimal digits beyond ASCII are the arguments \<open>L\<close> and \<open>D\<close>.

  Proved: a mangled name is a Go identifier and no keyword; distinct names of valid UTF-8 stay
  distinct, and apart from every generated name; two fields of a struct have one name when the
  properties' names are lone surrogates.
\<close>

subsection \<open>Runes\<close>

function runes :: "byte list \<Rightarrow> rune list" where
  "runes [] = []"
| "runes (c # s) = (let (r, width) = decode_rune (c # s) in r # runes (drop width (c # s)))"
  by pat_completeness auto
termination
proof (relation "measure length")
  fix c s x r width
  assume "x = decode_rune (c # s)" "(r, width) = x"
  with decode_width [of c s] have "0 < width" by (metis snd_conv)
  then show "(drop width (c # s), c # s) \<in> measure length" by simp
qed simp

declare runes.simps(2) [simp del]

definition utf8 :: "rune \<Rightarrow> string" where
  "utf8 r = map char_of_byte (wtf8 r)"

definition runes_of :: "string \<Rightarrow> rune list" where
  "runes_of s = runes (map byte_of s)"

text \<open>\<open>unicode.IsLetter\<close> and \<open>unicode.IsDigit\<close>.\<close>

definition IsLetter :: "(rune \<Rightarrow> bool) \<Rightarrow> rune \<Rightarrow> bool" where
  "IsLetter L r = (if r < 0x80 then (0x41 \<le> r \<and> r \<le> 0x5A) \<or> (0x61 \<le> r \<and> r \<le> 0x7A) else L r)"

definition IsDigit :: "(rune \<Rightarrow> bool) \<Rightarrow> rune \<Rightarrow> bool" where
  "IsDigit D r = (if r < 0x80 then 0x30 \<le> r \<and> r \<le> 0x39 else D r)"

subsection \<open>Names\<close>

definition rtPkg :: string where "rtPkg = ''cakebearrt''"

definition goKeywords :: "string list" where
  "goKeywords =
     [''break'', ''case'', ''chan'', ''const'', ''continue'', ''default'', ''defer'', ''else'', ''fallthrough'', ''for'',
      ''func'', ''go'', ''goto'', ''if'', ''import'', ''interface'', ''map'', ''package'', ''range'', ''return'',
      ''select'', ''struct'', ''switch'', ''type'', ''var'']"

definition goPredeclared :: "string list" where
  "goPredeclared =
     [''any'', ''bool'', ''byte'', ''complex64'', ''complex128'', ''error'', ''float32'', ''float64'', ''int'', ''int8'',
      ''int16'', ''int32'', ''int64'', ''rune'', ''string'', ''uint'', ''uint8'', ''uint16'', ''uint32'', ''uint64'',
      ''uintptr'', ''true'', ''false'', ''iota'', ''nil'', ''append'', ''cap'', ''clear'', ''close'', ''complex'',
      ''copy'', ''delete'', ''imag'', ''len'', ''make'', ''max'', ''min'', ''new'', ''panic'', ''print'',
      ''println'', ''real'', ''recover'', ''main'', ''init'']"

definition notGoIdentifier :: "(rune \<Rightarrow> bool) \<Rightarrow> (rune \<Rightarrow> bool) \<Rightarrow> rune \<Rightarrow> bool" where
  "notGoIdentifier L D r \<longleftrightarrow> r \<noteq> 0x5F \<and> \<not> IsLetter L r \<and> \<not> IsDigit D r"

definition escapedPrefix :: string where "escapedPrefix = ''ts_x_''"

text \<open>\<open>fmt\<close>'s \<open>%X\<close>.\<close>

definition upper_hex :: "nat \<Rightarrow> char" where
  "upper_hex d = (if d < 10 then char_of (48 + d) else char_of (55 + d))"

fun format_X :: "nat \<Rightarrow> string" where
  "format_X n = (if n < 16 then [upper_hex n] else format_X (n div 16) @ [upper_hex (n mod 16)])"

declare format_X.simps [simp del]

definition escape_name_rune :: "(rune \<Rightarrow> bool) \<Rightarrow> (rune \<Rightarrow> bool) \<Rightarrow> rune \<Rightarrow> string" where
  "escape_name_rune L D r =
     (if r = 0x5F then ''__''
      else if r = 0x24 then ''_D''
      else if notGoIdentifier L D r then ''_u'' @ format_X r @ ''_''
      else utf8 r)"

definition escape_name :: "(rune \<Rightarrow> bool) \<Rightarrow> (rune \<Rightarrow> bool) \<Rightarrow> string \<Rightarrow> string" where
  "escape_name L D name = concat (map (escape_name_rune L D) (runes_of name))"

definition reserved_name :: "string \<Rightarrow> bool" where
  "reserved_name name \<longleftrightarrow> name \<in> set goKeywords \<or> name \<in> set goPredeclared \<or> name = rtPkg \<or> take 3 name = ''ts_''"

definition mangle :: "(rune \<Rightarrow> bool) \<Rightarrow> (rune \<Rightarrow> bool) \<Rightarrow> string \<Rightarrow> string" where
  "mangle L D name =
     (if name = [] then ''_''
      else if list_ex (notGoIdentifier L D) (runes_of name) then escapedPrefix @ escape_name L D name
      else if reserved_name name then ''ts_'' @ name
      else if name = ''_'' then ''ts_blank''
      else name)"

text \<open>The field of a struct that holds a property.\<close>

definition objectMethods :: "string list" where
  "objectMethods = [''Layout'', ''Field'', ''CloneObject'']"

definition fieldName :: "(rune \<Rightarrow> bool) \<Rightarrow> (rune \<Rightarrow> bool) \<Rightarrow> string \<Rightarrow> string" where
  "fieldName L D name =
     (if name = [] \<or> IsDigit D (fst (decode_rune (map byte_of name))) then escapedPrefix @ escape_name L D name
      else if name \<in> set objectMethods then ''ts_'' @ name
      else mangle L D name)"

subsection \<open>Reading runes back\<close>

text \<open>\<open>utf8.ValidString\<close>: the string is the encoding of its runes.\<close>

definition ValidString :: "string \<Rightarrow> bool" where
  "ValidString s \<longleftrightarrow> concat (map utf8 (runes_of s)) = s"

definition scalar :: "rune \<Rightarrow> bool" where
  "scalar r \<longleftrightarrow> r < 0x110000 \<and> \<not> (0xD800 \<le> r \<and> r \<le> 0xDFFF)"

lemma decode_rune_scalar:
  assumes "decode_rune (c # s) = (r, k)" shows "scalar r"
  using decode_not_surrogate [OF assms] decode_rune_inv [OF assms] by (auto simp: scalar_def rune_error_def)

lemma runes_scalar: "list_all scalar (runes s)"
proof (induction s rule: runes.induct)
  case (2 c s)
  obtain r k where rk: "decode_rune (c # s) = (r, k)" by (cases "decode_rune (c # s)")
  with 2 decode_rune_scalar [OF rk] show ?case by (simp add: runes.simps(2))
qed simp


lemma underscore_char: "CHR ''_'' = char_of (0x5F :: nat)"
  by (simp add: char_of_def bit_nat_def)

lemma utf8_not_Nil [simp]: "utf8 r \<noteq> []"
  by (simp add: utf8_def)

lemma utf8_underscore:
  assumes "scalar r" "utf8 r @ x = CHR ''_'' # y" shows "r = 0x5F"
proof (rule hd_printed)
  show "hd (map char_of_byte (wtf8 r) @ x) = char_of (0x5F :: nat)" using assms(2) by (simp add: utf8_def underscore_char)
qed (use assms(1) in \<open>simp_all add: scalar_def\<close>)

lemma bytes_utf8 [simp]: "map byte_of (utf8 r) = wtf8 r"
  unfolding utf8_def by (rule map_byte_of)

lemma utf8_split:
  assumes "scalar a" "scalar b" "utf8 a @ x = utf8 b @ y" shows "a = b \<and> x = y"
proof -
  have "wtf8 a @ map byte_of x = wtf8 b @ map byte_of y" using arg_cong [OF assms(3), of "map byte_of"] by simp
  moreover have "decode_rune (wtf8 a @ map byte_of x) = (a, length (wtf8 a))" "decode_rune (wtf8 b @ map byte_of y) = (b, length (wtf8 b))"
    using assms(1,2) decode_rune_wtf8 by (auto simp: scalar_def)
  ultimately have "a = b" by simp
  then show ?thesis using assms(3) by simp
qed

subsection \<open>Escapes\<close>

definition hex_char :: "char \<Rightarrow> bool" where
  "hex_char c \<longleftrightarrow> c \<in> upper_hex ` {..<16}"

lemma upper_hex_eq: "c < 16 \<Longrightarrow> d < 16 \<Longrightarrow> upper_hex c = upper_hex d \<longleftrightarrow> c = d"
proof
  assume cd: "c < 16" "d < 16" "upper_hex c = upper_hex d"
  have v: "(of_char (upper_hex n) :: nat) = (if n < 10 then 48 + n else 55 + n)" if "n < 16" for n
    using that by (simp add: upper_hex_def)
  have "(of_char (upper_hex c) :: nat) = of_char (upper_hex d)" using cd(3) by simp
  then show "c = d" using cd(1,2) by (simp add: v split: if_splits)
qed simp

lemma hex_char_underscore: "\<not> hex_char (CHR ''_'')"
proof
  assume "hex_char (CHR ''_'')"
  then obtain n where n: "n < 16" "CHR ''_'' = upper_hex n" by (auto simp: hex_char_def)
  have "(of_char (CHR ''_'') :: nat) = (if n < 10 then 48 + n else 55 + n)" unfolding n(2) using n(1) by (simp add: upper_hex_def)
  then show False using n(1) by (simp split: if_splits)
qed

lemma format_X_chars: "\<forall>c \<in> set (format_X n). hex_char c"
proof (induction n rule: format_X.induct)
  case (1 n)
  then show ?case by (subst format_X.simps) (auto simp: hex_char_def)
qed

lemma format_X_not_Nil [simp]: "format_X n \<noteq> []"
  by (subst format_X.simps) simp

lemma format_X_inj: "format_X m = format_X n \<Longrightarrow> m = n"
proof (induction m arbitrary: n rule: format_X.induct)
  case (1 m)
  note m = format_X.simps [of m] and n = format_X.simps [of n]
  show ?case
  proof (cases "m < 16 \<or> n < 16")
    case True
    with 1(2) m n show ?thesis
      using format_X_not_Nil [of "m div 16"] format_X_not_Nil [of "n div 16"]
      by (auto simp: upper_hex_eq simp del: format_X_not_Nil split: if_splits)
  next
    case False
    with 1(2) m n have "format_X (m div 16) = format_X (n div 16)" "m mod 16 = n mod 16"
      by (auto simp: upper_hex_eq)
    with 1(1) [of "n div 16"] False show ?thesis by (metis div_mult_mod_eq)
  qed
qed

lemma until_underscore:
  "\<forall>c \<in> set a. hex_char c \<Longrightarrow> \<forall>c \<in> set b. hex_char c \<Longrightarrow> a @ CHR ''_'' # x = b @ CHR ''_'' # y \<Longrightarrow> a = b \<and> x = y"
  by (induction a b rule: list_induct2') (use hex_char_underscore in auto)

lemma escape_kinds:
  obtains "r = 0x5F" "escape_name_rune L D r = ''__''"
  | "r = 0x24" "escape_name_rune L D r = ''_D''"
  | "r \<noteq> 0x5F" "r \<noteq> 0x24" "notGoIdentifier L D r" "escape_name_rune L D r = ''_u'' @ format_X r @ ''_''"
  | "r \<noteq> 0x5F" "\<not> notGoIdentifier L D r" "escape_name_rune L D r = utf8 r"
proof -
  consider "r = 0x5F" | "r = 0x24" | "r \<noteq> 0x5F" "r \<noteq> 0x24" "notGoIdentifier L D r" | "r \<noteq> 0x5F" "r \<noteq> 0x24" "\<not> notGoIdentifier L D r"
    by blast
  then show ?thesis by cases (use that in \<open>simp_all add: escape_name_rune_def\<close>)
qed

lemma escape_rune_split:
  assumes "scalar a" "scalar b" "escape_name_rune L D a @ x = escape_name_rune L D b @ y"
  shows "a = b \<and> x = y"
proof -
  have u: "utf8 r @ z \<noteq> CHR ''_'' # z' \<and> CHR ''_'' # z' \<noteq> utf8 r @ z" if "scalar r" "r \<noteq> 0x5F" for r z z'
    using utf8_underscore [OF that(1)] that(2) by metis
  show ?thesis
  proof (cases rule: escape_kinds [of a L D])
    case 1
    then show ?thesis using assms(3) u [OF assms(2)] by (cases rule: escape_kinds [of b L D]) auto
  next
    case 2
    then show ?thesis using assms(3) u [OF assms(2)] by (cases rule: escape_kinds [of b L D]) auto
  next
    case a: 3
    show ?thesis
    proof (cases rule: escape_kinds [of b L D])
      case 3
      with a assms(3) have "format_X a @ CHR ''_'' # x = format_X b @ CHR ''_'' # y" by simp
      from until_underscore [OF format_X_chars format_X_chars this] show ?thesis using format_X_inj by blast
    qed (use a assms u [OF assms(2)] in auto)
  next
    case a: 4
    show ?thesis
    proof (cases rule: escape_kinds [of b L D])
      case 4
      then have "utf8 a @ x = utf8 b @ y" using a assms(3) by simp
      then show ?thesis by (rule utf8_split [OF assms(1,2)])
    qed (use a assms u [OF assms(1)] in auto)
  qed
qed

lemma escape_name_rune_not_Nil [simp]: "escape_name_rune L D r \<noteq> []"
  by (simp add: escape_name_rune_def)

lemma escape_runes_inj:
  "list_all scalar rs \<Longrightarrow> list_all scalar rs' \<Longrightarrow>
     concat (map (escape_name_rune L D) rs) = concat (map (escape_name_rune L D) rs') \<Longrightarrow> rs = rs'"
proof (induction rs arbitrary: rs')
  case Nil
  then show ?case by (cases rs') simp_all
next
  case (Cons a rs)
  from Cons.prems obtain b qs where b: "rs' = b # qs" by (cases rs') simp_all
  with Cons.prems escape_rune_split [of a b L D "concat (map (escape_name_rune L D) rs)" "concat (map (escape_name_rune L D) qs)"]
  show ?case using Cons.IH [of qs] by simp
qed

lemma escape_name_inj:
  assumes "ValidString a" "ValidString b" "escape_name L D a = escape_name L D b" shows "a = b"
proof -
  have "runes_of a = runes_of b"
    using escape_runes_inj [OF runes_scalar runes_scalar] assms(3) by (simp add: escape_name_def runes_of_def)
  then show ?thesis using assms(1,2) by (metis ValidString_def)
qed


subsection \<open>Distinct names\<close>

lemma runes_of_ascii:
  assumes "list_all (\<lambda>c. of_char c < (0x80 :: nat)) s"
  shows "runes_of s = map of_char s"
proof -
  have b: "unat (byte_of c) = of_char c" for c
    by (simp add: byte_of_def unat_word_of_nat_byte)
  from assms show ?thesis unfolding runes_of_def
  proof (induction s)
    case (Cons c s)
    then have "decode_rune (byte_of c # map byte_of s) = (of_char c, 1)" using decode_rune_1 b by simp
    then show ?case using Cons by (simp add: runes.simps(2))
  qed simp
qed

text \<open>What a mangled name looks like, by the rule that made it.\<close>

definition mangled_as :: "(rune \<Rightarrow> bool) \<Rightarrow> (rune \<Rightarrow> bool) \<Rightarrow> string \<Rightarrow> string \<Rightarrow> nat \<Rightarrow> bool" where
  "mangled_as L D name m k \<longleftrightarrow>
     (if k = 0 then name = [] \<and> m = ''_''
      else if k = 1 then m = ''ts_x_'' @ escape_name L D name
      else if k = 2 then reserved_name name \<and> m = ''ts_'' @ name
      else if k = 3 then name = ''_'' \<and> m = ''ts_blank''
      else m = name \<and> name \<noteq> [] \<and> name \<noteq> ''_'' \<and> \<not> reserved_name name)"

lemma mangle_cases: "\<exists>k < 5. mangled_as L D name (mangle L D name) k"
proof -
  have "mangled_as L D name (mangle L D name)
     (if name = [] then 0 else if list_ex (notGoIdentifier L D) (runes_of name) then 1
      else if reserved_name name then 2 else if name = ''_'' then 3 else 4)"
    by (simp add: mangled_as_def mangle_def escapedPrefix_def)
  moreover have "(if name = [] then 0 else if list_ex (notGoIdentifier L D) (runes_of name) then 1
      else if reserved_name name then 2 else if name = ''_'' then 3 else 4) < (5 :: nat)" by simp
  ultimately show ?thesis by blast
qed

lemma reserved_not:
  "\<not> reserved_name (CHR ''x'' # CHR ''_'' # s)" "\<not> reserved_name ''blank''" "\<not> reserved_name []"
  by (simp_all add: reserved_name_def goKeywords_def goPredeclared_def rtPkg_def)

lemma reserved_ts: "reserved_name (CHR ''t'' # CHR ''s'' # CHR ''_'' # s)"
  by (simp add: reserved_name_def)

lemma mangled_inj:
  assumes "ValidString a" "ValidString b" "mangled_as L D a m j" "mangled_as L D b m k" "j < 5" "k < 5"
  shows "a = b"
proof -
  have jk: "j \<in> {0, 1, 2, 3, 4}" "k \<in> {0, 1, 2, 3, 4}" using assms(5,6) by auto
  have "j = k" using jk assms(3,4) reserved_not reserved_ts by (auto simp: mangled_as_def)
  show ?thesis
  proof (cases "j = 1")
    case True
    then have "escape_name L D a = escape_name L D b" using assms(3,4) \<open>j = k\<close> by (simp add: mangled_as_def)
    then show ?thesis by (rule escape_name_inj [OF assms(1,2)])
  next
    case False
    then show ?thesis using jk(1) assms(3,4) \<open>j = k\<close> by (auto simp: mangled_as_def)
  qed
qed

lemma mangle_inj:
  assumes "ValidString a" "ValidString b" "mangle L D a = mangle L D b"
  shows "a = b"
  using mangle_cases [of L D a] mangle_cases [of L D b] mangled_inj [OF assms(1,2), of L D "mangle L D a"] assms(3) by auto


subsection \<open>The emitter's names\<close>

text \<open>
  Every name the emitter makes at package level or in a function: a binding's own, a top-level
  one of a module among several, a module's \<open>init\<close>, an accumulator, the results of a try, a
  shape's struct, a key table, and the fixed ones.
\<close>

datatype go_name =
  Local string
| Top nat string
| Init_func nat
| Acc go_name
| Try_kind nat
| Try_thrown nat
| Try_result nat
| Shape_struct nat
| Layout_table nat
| Site_table
| Read_func
| Domain_var
| Co_var
| Module_var
| Of_var
| Of_index

definition initName :: "nat \<Rightarrow> string" where
  "initName i = ''ts_m'' @ Itoa i @ ''_init''"

definition accName :: "string \<Rightarrow> string" where
  "accName n = ''ts_acc_'' @ n"

definition shapeName :: "nat \<Rightarrow> string" where
  "shapeName i = ''ts_shape'' @ Itoa i"

fun go_string :: "(rune \<Rightarrow> bool) \<Rightarrow> (rune \<Rightarrow> bool) \<Rightarrow> go_name \<Rightarrow> string" where
  "go_string L D (Local n) = mangle L D n"
| "go_string L D (Top i n) = ''ts_m'' @ Itoa i @ ''_'' @ mangle L D n"
| "go_string L D (Init_func i) = initName i"
| "go_string L D (Acc x) = accName (go_string L D x)"
| "go_string L D (Try_kind i) = ''ts_k'' @ Itoa i"
| "go_string L D (Try_thrown i) = ''ts_t'' @ Itoa i"
| "go_string L D (Try_result i) = ''ts_r'' @ Itoa i"
| "go_string L D (Shape_struct i) = shapeName i"
| "go_string L D (Layout_table i) = ''ts_layout'' @ Itoa i"
| "go_string L D Site_table = ''ts_sites''"
| "go_string L D Read_func = ''ts_read''"
| "go_string L D Domain_var = ''ts_domain''"
| "go_string L D Co_var = ''ts_co''"
| "go_string L D Module_var = ''ts_module''"
| "go_string L D Of_var = ''ts_of''"
| "go_string L D Of_index = ''ts_i''"

fun valid_name :: "go_name \<Rightarrow> bool" where
  "valid_name (Local n) = ValidString n"
| "valid_name (Top i n) = ValidString n"
| "valid_name (Acc x) = valid_name x"
| "valid_name _ = True"

text \<open>What follows \<open>ts_\<close> in a local's mangled name is reserved, starts \<open>x_\<close> or is \<open>blank\<close>.\<close>

definition local_tail :: "string \<Rightarrow> bool" where
  "local_tail s \<longleftrightarrow> reserved_name s \<or> take 2 s = ''x_'' \<or> s = ''blank''"

lemma mangle_ts: "mangle L D n = ''ts_'' @ s \<Longrightarrow> local_tail s"
proof -
  assume m: "mangle L D n = ''ts_'' @ s"
  obtain k where k: "k < 5" "mangled_as L D n (mangle L D n) k" using mangle_cases by blast
  then have "k \<in> {0, 1, 2, 3, 4}" by auto
  then show ?thesis using k(2) m reserved_ts by (auto simp: mangled_as_def local_tail_def)
qed

text \<open>The first characters of a name, where no local's go on so.\<close>

lemma Itoa_first: obtains c t where "Itoa i = c # t" "is_digit c"
  using Itoa_digits [of i] Itoa_not_Nil [of i] by (cases "Itoa i") auto

lemma local_tail_digit:
  assumes "is_digit c" "x \<in> set ''mktr''" shows "\<not> local_tail (x # c # t)"
proof -
  have c: "c \<notin> set ''abceghiklmnopqrstuwxy_''" using assms(1) by (auto simp: is_digit_def)
  show ?thesis using assms(2) c
    by (auto simp: local_tail_def reserved_name_def goKeywords_def goPredeclared_def rtPkg_def)
qed

lemma local_tail_first:
  "\<not> local_tail (CHR ''m'' # Itoa i @ s)" "\<not> local_tail (CHR ''k'' # Itoa i @ s)" "\<not> local_tail (CHR ''t'' # Itoa i @ s)"
  "\<not> local_tail (CHR ''r'' # Itoa i @ s)"
  by (cases rule: Itoa_first [of i]; simp add: local_tail_digit)+

lemma local_tail_fixed:
  "\<not> local_tail (''acc_'' @ s)" "\<not> local_tail (''shape'' @ s)" "\<not> local_tail (''layout'' @ s)"
  "\<not> local_tail ''sites''" "\<not> local_tail ''read''" "\<not> local_tail ''domain''" "\<not> local_tail ''co''" "\<not> local_tail ''module''"
  "\<not> local_tail ''of''" "\<not> local_tail ''i''"
  by (simp_all add: local_tail_def reserved_name_def goKeywords_def goPredeclared_def rtPkg_def)


lemma mangle_not:
  assumes "\<not> local_tail s"
  shows "mangle L D n \<noteq> CHR ''t'' # CHR ''s'' # CHR ''_'' # s" "CHR ''t'' # CHR ''s'' # CHR ''_'' # s \<noteq> mangle L D n"
  using assms mangle_ts [of L D n s] by auto

text \<open>A tail that starts with a number, whatever it is.\<close>

lemma number_first: "Itoa i @ s \<noteq> c # t" "c # t \<noteq> Itoa i @ s" "Itoa i \<noteq> c # t" "c # t \<noteq> Itoa i" if "\<not> is_digit c"
  using that by (cases rule: Itoa_first [of i]; auto)+

lemma not_all_digits [simp]: "\<not> is_digit CHR ''o''" "\<not> is_digit CHR ''e''" "\<not> is_digit CHR ''_''"
  by (simp_all add: is_digit_def)

lemma Itoa_eq [simp]: "Itoa i = Itoa j \<longleftrightarrow> i = j"
  using Itoa_inj by blast

lemma mangle_init: "mangle L D n \<noteq> ''init''" "''init'' \<noteq> mangle L D n"
proof -
  have "mangle L D n \<noteq> ''init''"
  proof
    assume m: "mangle L D n = ''init''"
    obtain k where k: "k < 5" "mangled_as L D n (mangle L D n) k" using mangle_cases by blast
    then have "k \<in> {0, 1, 2, 3, 4}" by auto
    moreover have "reserved_name ''init''" by (simp add: reserved_name_def goPredeclared_def)
    ultimately show False using k(2) m by (auto simp: mangled_as_def)
  qed
  then show "mangle L D n \<noteq> ''init''" "''init'' \<noteq> mangle L D n" by auto
qed

lemma numbered_split:
  "Itoa i @ CHR ''_'' # s = Itoa j @ CHR ''_'' # t \<longleftrightarrow> i = j \<and> s = t"
proof
  assume "Itoa i @ CHR ''_'' # s = Itoa j @ CHR ''_'' # t"
  then have "i = j \<and> CHR ''_'' # s = CHR ''_'' # t" by (rule Itoa_split) (simp_all add: no_digit_def)
  then show "i = j \<and> s = t" by simp
qed simp

lemmas go_name_simps = mangle_not number_first numbered_split mangle_init local_tail_first local_tail_fixed
  local_tail_fixed [simplified] local_tail_first [where s = "[]", simplified] initName_def accName_def shapeName_def

lemma go_string_inj: "valid_name x \<Longrightarrow> valid_name y \<Longrightarrow> go_string L D x = go_string L D y \<Longrightarrow> x = y"
proof (induction x arbitrary: y)
  case (Local n)
  then show ?case by (cases y) (auto simp: go_name_simps intro: mangle_inj)
next
  case (Top i n)
  then show ?case by (cases y) (auto simp: go_name_simps intro: mangle_inj)
next
  case (Acc x)
  then show ?case by (cases y) (auto simp: go_name_simps)
qed (rename_tac y, case_tac y; simp add: go_name_simps)+


subsection \<open>Identifiers\<close>

text \<open>A Go identifier: letters, digits and underscores, no digit first, and not a keyword.\<close>

definition go_identifier :: "(rune \<Rightarrow> bool) \<Rightarrow> (rune \<Rightarrow> bool) \<Rightarrow> string \<Rightarrow> bool" where
  "go_identifier L D s \<longleftrightarrow> s \<noteq> [] \<and> list_all (\<lambda>r. \<not> notGoIdentifier L D r) (runes_of s)
     \<and> \<not> IsDigit D (fst (decode_rune (map byte_of s))) \<and> s \<notin> set goKeywords"

lemma runes_append_scalar: "scalar r \<Longrightarrow> runes (wtf8 r @ s) = r # runes s"
proof -
  assume r: "scalar r"
  obtain c t where ct: "wtf8 r @ s = c # t" by (cases "wtf8 r @ s") auto
  have "decode_rune (c # t) = (r, length (wtf8 r))" using r decode_rune_wtf8 [of r s] unfolding ct scalar_def by blast
  moreover have "drop (length (wtf8 r)) (c # t) = s" using ct by (metis append_eq_conv_conj)
  ultimately show ?thesis by (simp add: ct runes.simps(2))
qed

lemma runes_ascii_append:
  "list_all (\<lambda>c. of_char c < (0x80 :: nat)) a \<Longrightarrow> runes_of (a @ s) = map of_char a @ runes_of s"
proof (induction a)
  case (Cons c a)
  have "unat (byte_of c) = of_char c" by (simp add: byte_of_def unat_word_of_nat_byte)
  then have "decode_rune (byte_of c # map byte_of (a @ s)) = (of_char c, 1)" using Cons.prems decode_rune_1 by simp
  then show ?case using Cons by (simp add: runes_of_def runes.simps(2))
qed simp

lemma runes_utf8_append: "scalar r \<Longrightarrow> runes_of (utf8 r @ s) = r # runes_of s"
  by (simp add: runes_of_def runes_append_scalar)

lemma hex_char_ascii: "hex_char c \<Longrightarrow> of_char c < (0x80 :: nat) \<and> IsLetter L (of_char c) \<or> IsDigit D (of_char c)"
  by (auto simp: hex_char_def upper_hex_def IsLetter_def IsDigit_def)

lemma hex_char_less: "hex_char c \<Longrightarrow> of_char c < (0x80 :: nat)"
  by (auto simp: hex_char_def upper_hex_def)

lemma escape_identifier:
  "list_all scalar rs \<Longrightarrow> list_all (\<lambda>r. \<not> notGoIdentifier L D r) (runes_of (concat (map (escape_name_rune L D) rs)))"
proof (induction rs)
  case Nil
  then show ?case by (simp add: runes_of_def)
next
  case (Cons r rs)
  let ?rest = "concat (map (escape_name_rune L D) rs)"
  have IH: "list_all (\<lambda>r. \<not> notGoIdentifier L D r) (runes_of ?rest)" using Cons by simp
  have fx: "list_all (\<lambda>c. of_char c < (0x80 :: nat)) (format_X r)" "list_all (\<lambda>c. \<not> notGoIdentifier L D (of_char c)) (format_X r)"
    using format_X_chars [of r] hex_char_less hex_char_ascii by (auto simp: list_all_iff notGoIdentifier_def)
  have x: "\<not> notGoIdentifier L D 0x5F" "\<not> notGoIdentifier L D 0x44" "\<not> notGoIdentifier L D 0x75"
    by (simp_all add: notGoIdentifier_def IsLetter_def)
  show ?case
  proof (cases rule: escape_kinds [of r L D])
    case 3
    then have "concat (map (escape_name_rune L D) (r # rs)) = (''_u'' @ format_X r @ ''_'') @ ?rest" by simp
    then have "runes_of (concat (map (escape_name_rune L D) (r # rs)))
        = map of_char (''_u'' @ format_X r @ ''_'') @ runes_of ?rest"
      using fx(1) by (simp only:) (rule runes_ascii_append, simp)
    then show ?thesis using IH fx(2) x by (auto simp: list_all_iff)
  next
    case 4
    then show ?thesis using IH Cons.prems by (simp add: runes_utf8_append)
  qed (use IH x in \<open>simp_all add: runes_ascii_append [of "''__''", simplified] runes_ascii_append [of "''_D''", simplified]\<close>)
qed


lemma mangle_ok:
  assumes "name \<noteq> []" "\<not> IsDigit D (fst (decode_rune (map byte_of name)))"
  shows "go_identifier L D (mangle L D name) \<and> mangle L D name \<noteq> ''_''"
proof -
  obtain k where k: "k < 5" "mangled_as L D name (mangle L D name) k" using mangle_cases by blast
  then have k: "k \<in> {0, 1, 2, 3, 4}" "mangled_as L D name (mangle L D name) k" by auto
  have u: "\<not> notGoIdentifier L D 0x5F" "\<not> notGoIdentifier L D 0x74" "\<not> notGoIdentifier L D 0x73" "\<not> notGoIdentifier L D 0x78"
    by (simp_all add: notGoIdentifier_def IsLetter_def)
  have t: "\<not> IsDigit D (fst (decode_rune (byte_of CHR ''t'' # bs)))" for bs
  proof -
    have "decode_rune (byte_of CHR ''t'' # bs) = (0x74, 1)"
      using decode_rune_1 [of "byte_of CHR ''t''"] by (simp add: byte_of_def)
    then show ?thesis by (simp add: IsDigit_def)
  qed
  have kw: "CHR ''t'' # CHR ''s'' # s \<notin> set goKeywords" for s by (simp add: goKeywords_def)
  show ?thesis
  proof (cases "list_ex (notGoIdentifier L D) (runes_of name)")
    case True
    then have m: "mangle L D name = ''ts_x_'' @ escape_name L D name" using assms(1) by (simp add: mangle_def escapedPrefix_def)
    have "runes_of (''ts_x_'' @ escape_name L D name) = map of_char ''ts_x_'' @ runes_of (escape_name L D name)"
      by (rule runes_ascii_append) simp
    moreover have "list_all (\<lambda>r. \<not> notGoIdentifier L D r) (runes_of (escape_name L D name))"
      unfolding escape_name_def runes_of_def [of name] by (rule escape_identifier) (rule runes_scalar)
    ultimately show ?thesis using u t kw unfolding m go_identifier_def by simp
  next
    case False
    then have ok: "list_all (\<lambda>r. \<not> notGoIdentifier L D r) (runes_of name)" by (simp add: list_ex_iff list_all_iff)
    have p: "runes_of (CHR ''t'' # CHR ''s'' # CHR ''_'' # name) = 0x74 # 0x73 # 0x5F # runes_of name"
      using runes_ascii_append [of "''ts_''" name] by simp
    have b: "runes_of ''ts_blank'' = map of_char ''ts_blank''" by (rule runes_of_ascii) simp
    have "list_all (\<lambda>r. \<not> notGoIdentifier L D r) (runes_of ''ts_blank'')"
      by (simp add: b notGoIdentifier_def IsLetter_def)
    then show ?thesis using False assms ok u t kw p
      by (auto simp: mangle_def go_identifier_def reserved_name_def)
  qed
qed

subsection \<open>Fields\<close>

text \<open>What the struct of a shape holds, by name: a property's field, the key table, and the methods.\<close>

datatype member = Property string | Layout_field | Method string | Setter nat | Deleter nat

definition setterName :: "nat \<Rightarrow> string" where
  "setterName i = ''ts_set'' @ Itoa i"

definition deleterName :: "nat \<Rightarrow> string" where
  "deleterName i = ''ts_delete'' @ Itoa i"

fun member_name :: "(rune \<Rightarrow> bool) \<Rightarrow> (rune \<Rightarrow> bool) \<Rightarrow> member \<Rightarrow> string" where
  "member_name L D (Property n) = fieldName L D n"
| "member_name L D Layout_field = ''ts_layout''"
| "member_name L D (Method m) = m"
| "member_name L D (Setter i) = setterName i"
| "member_name L D (Deleter i) = deleterName i"

fun valid_member :: "member \<Rightarrow> bool" where
  "valid_member (Property n) = ValidString n"
| "valid_member (Method m) = (m \<in> set objectMethods)"
| "valid_member _ = True"

definition field_as :: "(rune \<Rightarrow> bool) \<Rightarrow> (rune \<Rightarrow> bool) \<Rightarrow> string \<Rightarrow> string \<Rightarrow> nat \<Rightarrow> bool" where
  "field_as L D name m k \<longleftrightarrow>
     (if k = 0 then m = ''ts_x_'' @ escape_name L D name
      else if k = 1 then name \<in> set objectMethods \<and> m = ''ts_'' @ name
      else m = mangle L D name \<and> name \<noteq> [] \<and> name \<notin> set objectMethods)"

lemma field_cases: "\<exists>k < 3. field_as L D name (fieldName L D name) k"
proof -
  have "field_as L D name (fieldName L D name)
     (if name = [] \<or> IsDigit D (fst (decode_rune (map byte_of name))) then 0 else if name \<in> set objectMethods then 1 else 2)"
    by (simp add: field_as_def fieldName_def escapedPrefix_def)
  moreover have "(if name = [] \<or> IsDigit D (fst (decode_rune (map byte_of name))) then 0 else if name \<in> set objectMethods then 1 else 2) < (3 :: nat)"
    by simp
  ultimately show ?thesis by blast
qed


lemma mangle_method: "m \<in> set objectMethods \<Longrightarrow> mangle L D n = m \<Longrightarrow> n = m"
proof -
  assume m: "m \<in> set objectMethods" "mangle L D n = m"
  obtain k where "k < 5" "mangled_as L D n (mangle L D n) k" using mangle_cases by blast
  then have "k \<in> {0, 1, 2, 3, 4}" "mangled_as L D n m k" using m(2) by auto
  then show "n = m" using m(1) by (auto simp: mangled_as_def objectMethods_def)
qed

lemma local_tail_member:
  "\<not> local_tail (''set'' @ Itoa i)" "\<not> local_tail (''delete'' @ Itoa i)" "m \<in> set objectMethods \<Longrightarrow> \<not> local_tail m"
  by (auto simp: local_tail_def reserved_name_def goKeywords_def goPredeclared_def rtPkg_def objectMethods_def)

lemma mangle_escape:
  assumes "ValidString a" "ValidString b" "mangle L D a = ''ts_x_'' @ escape_name L D b" shows "a = b"
proof -
  obtain k where "k < 5" "mangled_as L D a (mangle L D a) k" using mangle_cases by blast
  then have k: "k \<in> {0, 1, 2, 3, 4}" "mangled_as L D a (''ts_x_'' @ escape_name L D b) k" using assms(3) by auto
  then have "escape_name L D a = escape_name L D b" using reserved_not reserved_ts by (auto simp: mangled_as_def)
  then show ?thesis by (rule escape_name_inj [OF assms(1,2)])
qed

lemma mangle_member:
  assumes "field_as L D n m k" "k < 3"
  shows "m \<noteq> ''ts_layout''" "m \<noteq> setterName i" "m \<noteq> deleterName i" "m \<notin> set objectMethods"
proof -
  have k: "k \<in> {0, 1, 2}" using assms(2) by auto
  have lay: "mangle L D n \<noteq> ''ts_layout''" "mangle L D n \<noteq> ''ts_set'' @ Itoa i" "mangle L D n \<noteq> ''ts_delete'' @ Itoa i"
    using mangle_not(1) [OF local_tail_fixed(3) [of "[]"], of L D n] mangle_not(1) [OF local_tail_member(1) [of i], of L D n]
      mangle_not(1) [OF local_tail_member(2) [of i], of L D n] by simp_all
  show "m \<noteq> ''ts_layout''" "m \<noteq> setterName i" "m \<noteq> deleterName i"
    using k assms(1) lay by (auto simp: field_as_def setterName_def deleterName_def objectMethods_def)
  show "m \<notin> set objectMethods"
  proof
    assume m: "m \<in> set objectMethods"
    show False
    proof (cases "k = 2")
      case True
      then show False using assms(1) m mangle_method [OF m, of L D n] by (simp add: field_as_def)
    next
      case False
      then show False using k assms(1) m by (auto simp: field_as_def objectMethods_def)
    qed
  qed
qed

lemma field_inj:
  assumes "ValidString a" "ValidString b" "field_as L D a m j" "field_as L D b m k" "j < 3" "k < 3"
  shows "a = b"
proof -
  have jk: "j \<in> {0, 1, 2}" "k \<in> {0, 1, 2}" using assms(5,6) by auto
  have e: "mangle L D x \<noteq> ''ts_'' @ y \<and> ''ts_'' @ y \<noteq> mangle L D x" if "y \<in> set objectMethods" for x y
    using mangle_not [OF local_tail_member(3) [OF that]] by simp
  consider "j = 0" "k = 0" | "j = 2" "k = 2" | "j = 0" "k = 2" | "j = 2" "k = 0" | "j = 1 \<or> k = 1" using jk by auto
  then show ?thesis
  proof cases
    case 1
    then have "escape_name L D a = escape_name L D b" using assms(3,4) by (simp add: field_as_def)
    then show ?thesis by (rule escape_name_inj [OF assms(1,2)])
  next
    case 2
    then have "mangle L D a = mangle L D b" using assms(3,4) by (simp add: field_as_def)
    then show ?thesis by (rule mangle_inj [OF assms(1,2)])
  next
    case 3
    then have "mangle L D b = ''ts_x_'' @ escape_name L D a" using assms(3,4) by (simp add: field_as_def)
    then show ?thesis by (rule mangle_escape [OF assms(2,1), symmetric])
  next
    case 4
    then have "mangle L D a = ''ts_x_'' @ escape_name L D b" using assms(3,4) by (simp add: field_as_def)
    then show ?thesis by (rule mangle_escape [OF assms(1,2)])
  next
    case 5
    then show ?thesis using jk assms(3,4) e by (auto simp: field_as_def objectMethods_def)
  qed
qed

lemma fieldName_apart:
  "fieldName L D n \<noteq> ''ts_layout''" "fieldName L D n \<noteq> setterName i" "fieldName L D n \<noteq> deleterName i"
  "m \<in> set objectMethods \<Longrightarrow> fieldName L D n \<noteq> m"
proof -
  obtain k where k: "k < 3" "field_as L D n (fieldName L D n) k" using field_cases by blast
  note M = mangle_member [OF k(2,1)]
  show "fieldName L D n \<noteq> ''ts_layout''" "fieldName L D n \<noteq> setterName i" "fieldName L D n \<noteq> deleterName i" by (rule M)+
  show "m \<in> set objectMethods \<Longrightarrow> fieldName L D n \<noteq> m" using M(4) by auto
qed

lemma fieldName_inj:
  assumes "ValidString a" "ValidString b" "fieldName L D a = fieldName L D b" shows "a = b"
proof -
  obtain j k where "j < 3" "field_as L D a (fieldName L D a) j" "k < 3" "field_as L D b (fieldName L D b) k"
    using field_cases by blast
  then show ?thesis using field_inj [OF assms(1,2)] assms(3) by simp
qed

lemma member_inj:
  assumes "valid_member x" "valid_member y" "member_name L D x = member_name L D y"
  shows "x = y"
proof (cases x)
  case (Property a)
  show ?thesis
  proof (cases y)
    case p: (Property b)
    then have "a = b" using Property assms by (intro fieldName_inj [of a b L D]) simp_all
    then show ?thesis using Property p by simp
  qed (use assms Property fieldName_apart(1-3) [of L D a] fieldName_apart(4) [of _ L D a] in auto)
next
  case Layout_field
  then show ?thesis using assms fieldName_apart(1)
    by (cases y) (auto simp: objectMethods_def setterName_def deleterName_def dest: sym)
next
  case (Method m)
  then show ?thesis using assms fieldName_apart(4)
    by (cases y) (auto simp: objectMethods_def setterName_def deleterName_def)
next
  case (Setter i)
  show ?thesis
  proof (cases y)
    case (Property b)
    then show ?thesis using Setter assms(3) fieldName_apart(2) [of L D b i] by simp
  qed (use assms Setter in \<open>auto simp: objectMethods_def setterName_def deleterName_def\<close>)
next
  case (Deleter i)
  show ?thesis
  proof (cases y)
    case (Property b)
    then show ?thesis using Deleter assms(3) fieldName_apart(3) [of L D b i] by simp
  qed (use assms Deleter in \<open>auto simp: objectMethods_def setterName_def deleterName_def\<close>)
qed


subsection \<open>Properties\<close>

lemma ValidString_ascii: "list_all (\<lambda>c. of_char c < (0x80 :: nat)) s \<Longrightarrow> ValidString s"
proof -
  assume a: "list_all (\<lambda>c. of_char c < (0x80 :: nat)) s"
  have u: "utf8 (of_char c) = [c]" if "of_char c < (0x80 :: nat)" for c
    using that by (simp add: utf8_def wtf8_1 char_of_byte_def unat_word_of_nat_byte)
  have "concat (map utf8 (map of_char s)) = s" using a by (induction s) (simp_all add: u)
  then show ?thesis using runes_of_ascii [OF a] by (simp add: ValidString_def)
qed

text \<open>
  C37: No two names the emitter makes meet: bindings, their forms at the top level of a module
  among several, the modules' \<open>init\<close> functions, accumulators, the results of tries, structs, key
  tables and the fixed names are all distinct Go identifiers' spellings, whatever valid names the
  program uses, Go's keywords and names that look generated included.
\<close>

theorem go_names_distinct:
  assumes "valid_name x" "valid_name y" "go_string L D x = go_string L D y"
  shows "x = y"
  using assms by (rule go_string_inj)

theorem go_names_distinct_witness:
  "go_string (\<lambda>_. False) (\<lambda>_. False) (Top 1 ''type'') \<noteq> go_string (\<lambda>_. False) (\<lambda>_. False) (Local ''ts_m1_ts_type'')"
proof
  assume "go_string (\<lambda>_. False) (\<lambda>_. False) (Top 1 ''type'') = go_string (\<lambda>_. False) (\<lambda>_. False) (Local ''ts_m1_ts_type'')"
  with go_names_distinct [of "Top 1 ''type''" "Local ''ts_m1_ts_type''"] show False by (simp add: ValidString_ascii)
qed

text \<open>
  C38: The members of a shape's struct have names apart: the fields of properties with distinct
  names of valid UTF-8, any string among them, the key table's field, the methods, and the
  setters and deleters.
\<close>

theorem struct_members_distinct:
  assumes "valid_member x" "valid_member y" "member_name L D x = member_name L D y"
  shows "x = y"
  using assms by (rule member_inj)

theorem struct_members_distinct_witness:
  "member_name (\<lambda>_. False) (\<lambda>_. False) (Property ''Layout'') \<noteq> member_name (\<lambda>_. False) (\<lambda>_. False) (Property ''ts_Layout'')"
proof
  assume "member_name (\<lambda>_. False) (\<lambda>_. False) (Property ''Layout'') = member_name (\<lambda>_. False) (\<lambda>_. False) (Property ''ts_Layout'')"
  with struct_members_distinct [of "Property ''Layout''" "Property ''ts_Layout''"] show False by (simp add: ValidString_ascii)
qed



text \<open>
  C40: Two properties whose names are distinct lone surrogates have one field name: \<open>range\<close> reads
  each of their bytes as U+FFFD, so the escape forgets them, and the struct of a shape that has
  both declares a field twice.
\<close>

theorem fieldName_surrogates_collide:
  assumes "notGoIdentifier L D rune_error"
  shows "fieldName L D (map char_of_byte [0xED, 0xA0, 0x80]) = ''ts_x__uFFFD__uFFFD__uFFFD_''
    \<and> fieldName L D (map char_of_byte [0xED, 0xA0, 0x81]) = ''ts_x__uFFFD__uFFFD__uFFFD_''"
proof -
  have d: "decode_rune [0xED, 0xA0, c] = (rune_error, 1)" "decode_rune [0xA0, c] = (rune_error, 1)" for c :: byte
    by (simp_all add: decode_rune.simps byte_order)
  have e: "decode_rune [c] = (rune_error, 1)" if "c = 0x80 \<or> c = 0x81" for c :: byte
    using that by (auto simp: decode_rune.simps byte_order)
  have r: "runes [0xED, 0xA0, c] = [rune_error, rune_error, rune_error]" if "c = 0x80 \<or> c = 0x81" for c
    using e [OF that] by (simp add: runes.simps(2) d)
  have x: "format_X 0xFFFD = ''FFFD''"
    by (simp add: format_X.simps upper_hex_def char_of_def bit_nat_def)
  have "\<not> IsDigit D rune_error" "rune_error \<noteq> 0x5F" "rune_error \<noteq> 0x24"
    using assms by (simp_all add: notGoIdentifier_def rune_error_def)
  moreover have "escape_name_rune L D rune_error = ''_uFFFD_''"
    using assms calculation x by (simp add: escape_name_rune_def rune_error_def)
  ultimately have "fieldName L D s = ''ts_x__uFFFD__uFFFD__uFFFD_''"
    if s: "map byte_of s = [0xED, 0xA0, c]" "c = 0x80 \<or> c = 0x81" for s c
  proof -
    have "length s = 3" using arg_cong [OF s(1), of length] by simp
    then have n: "s \<noteq> []" "s \<notin> set objectMethods" by (auto simp: objectMethods_def)
    have rs: "runes_of s = [rune_error, rune_error, rune_error]" using r [OF s(2)] s(1) by (simp add: runes_of_def)
    show ?thesis
      using assms n rs d(1) [of c] s(1) \<open>\<not> IsDigit D rune_error\<close> \<open>escape_name_rune L D rune_error = ''_uFFFD_''\<close>
      by (simp add: fieldName_def mangle_def escape_name_def escapedPrefix_def)
  qed
  from this [OF map_byte_of] show ?thesis by blast
qed

theorem fieldName_surrogates_collide_witness:
  "fieldName (\<lambda>_. False) (\<lambda>_. False) (map char_of_byte [0xED, 0xA0, 0x80])
     = fieldName (\<lambda>_. False) (\<lambda>_. False) (map char_of_byte [0xED, 0xA0, 0x81])"
  using fieldName_surrogates_collide [of "\<lambda>_. False" "\<lambda>_. False"]
  by (simp add: notGoIdentifier_def IsLetter_def IsDigit_def rune_error_def del: list.map)

end
