(* ===== verification/EvalOrder.thy ===== *)
theory EvalOrder
  imports IrInspect
begin

text \<open>
  The order of evaluation of emitted expressions, \<open>backend/order.go\<close> with \<open>fieldGet\<close>, \<open>path\<close>
  and \<open>fieldSet\<close> of \<open>emit_object.go\<close>, \<open>cond\<close> of \<open>emit_cond.go\<close>, \<open>indexSet\<close> of \<open>emit_array.go\<close> and
  \<open>appendStmt\<close> of \<open>emit_append.go\<close>.

  JavaScript evaluates operands left to right. Go orders only the calls among them, so the
  emitter makes a call of a read that a call could race with. An emitted expression is here the
  tree of what Go orders: \<open>emit\<close> and \<open>full\<close> give an expression's. Its execution in Go is a step
  relation that may take any plain read, and any operation whose operands are values, at any
  time, and takes a call only when no call to its left is left to take. Two readings of Go go
  beyond its specification, and are the emitter's: the argument of \<open>ts_read\<close> is read when the
  call runs, and so is the key table that \<open>Has\<close> is called on.

  Proved: every execution of an emitted expression ends, and gives the value or the throw, and
  the state, that JavaScript's evaluation gives, whatever its parts compute.
\<close>

subsection \<open>Which reads to order\<close>

primrec isCall :: "expr \<Rightarrow> bool" where
  "isCall (NumberLit v s) = False"
| "isCall (StringLit v s) = False"
| "isCall (BoolLit v s) = False"
| "isCall (NullLit s) = False"
| "isCall (UndefinedLit s) = False"
| "isCall (EIdent x) = False"
| "isCall (Binary op l r t s) = False"
| "isCall (Unary op x t s) = False"
| "isCall (Call f m xs t s) = True"
| "isCall (FuncLit ps r b cs c a t s) = False"
| "isCall (Await v t s) = True"
| "isCall (NewPromise e t s) = True"
| "isCall (ConsoleLog xs e s) = True"
| "isCall (Convert v t s) = False"
| "isCall (ObjectLit fs t s) = False"
| "isCall (ArrayLit xs t s) = False"
| "isCall (FieldGet x f t s) = False"
| "isCall (IndexGet x i t u s) = False"
| "isCall (ArrayOp m x xs t s) = True"
| "isCall (HasField x f s) = False"
| "isCall (Wrap v t s) = False"
| "isCall (Unwrap v t a s) = False"
| "isCall (ELet n v b s) = False"
| "isCall (Empty n t s) = False"
| "isCall (IsEmpty v u n s) = False"
| "isCall (Cond c a b t s) = False"
| "isCall (NewError k m s) = False"
| "isCall (ErrorGet e p s) = False"
| "isCall (Box v s) = False"
| "isCall (Unbox v t s) = False"
| "isCall (InstanceOf v k s) = False"
| "isCall (TypeOf v t s) = False"
| "isCall (BuiltinCall f xs t s) = True"
| "isCall (Concat ps s) = False"
| "isCall (HostCall op r xs t s) = True"
| "isCall (HostProp p r t s) = True"
| "isCall (JSONStringify v sp s) = True"
| "isCall (Truthy v s) = False"

text \<open>A nil operand, which has no call, is left out.\<close>

primrec operands :: "expr \<Rightarrow> expr list" where
  "operands (NumberLit v s) = []"
| "operands (StringLit v s) = []"
| "operands (BoolLit v s) = []"
| "operands (NullLit s) = []"
| "operands (UndefinedLit s) = []"
| "operands (EIdent x) = []"
| "operands (FuncLit ps r b cs c a t s) = []"
| "operands (Binary op l r t s) = [l, r]"
| "operands (Unary op x t s) = [x]"
| "operands (Convert v t s) = [v]"
| "operands (Call f m xs t s) = xs"
| "operands (Await v t s) = [v]"
| "operands (NewPromise e t s) = [e]"
| "operands (ConsoleLog xs e s) = xs"
| "operands (BuiltinCall f xs t s) = xs"
| "operands (Concat ps s) = ps"
| "operands (Wrap v t s) = [v]"
| "operands (Unwrap v t a s) = [v]"
| "operands (Empty n t s) = []"
| "operands (IsEmpty v u n s) = [v]"
| "operands (Truthy v s) = [v]"
| "operands (Cond c a b t s) = [c, a, b]"
| "operands (ELet n v b s) = [v, b]"
| "operands (JSONStringify v sp s) = (case sp of None \<Rightarrow> [v] | Some x \<Rightarrow> [v, x])"
| "operands (HostCall op r xs t s) = (case r of None \<Rightarrow> [] | Some x \<Rightarrow> [x]) @ xs"
| "operands (HostProp p r t s) = [r]"
| "operands (ObjectLit fs t s) = map (\<lambda>f. fst (snd f)) fs"
| "operands (FieldGet x f t s) = [x]"
| "operands (HasField x f s) = [x]"
| "operands (ArrayLit xs t s) = xs"
| "operands (IndexGet x i t u s) = [x, i]"
| "operands (ArrayOp m x xs t s) = x # xs"
| "operands (NewError k m s) = (case m of None \<Rightarrow> [] | Some x \<Rightarrow> [x])"
| "operands (ErrorGet e p s) = [e]"
| "operands (Box v s) = [v]"
| "operands (Unbox v t s) = [v]"
| "operands (InstanceOf v k s) = [v]"
| "operands (TypeOf v t s) = [v]"

lemma size_in_list: "x \<in> set xs \<Longrightarrow> size x < Suc (size_list size xs)"
  by (induction xs) auto

lemma size_in_fields: "(a, c, b) \<in> set fs \<Longrightarrow> size c < Suc (size_list (size_prod (\<lambda>x. 0) (size_prod size (\<lambda>x. 0))) fs)"
  by (induction fs) auto

lemma size_operands: "c \<in> set (operands x) \<Longrightarrow> size c < size x"
  by (cases x) (auto split: option.splits dest: size_in_list size_in_fields)

function innerCall :: "expr \<Rightarrow> bool" where
  "innerCall x = list_ex (\<lambda>c. isCall c \<or> innerCall c) (operands x)"
  by pat_completeness auto
termination
  by (relation "measure size") (auto dest: size_operands)

declare innerCall.simps [simp del]

subsection \<open>JavaScript's evaluation\<close>

text \<open>
  What a node does with the values of its operands: compute from them alone; read the state,
  and maybe throw; or run code that may change the state. What each computes is the argument
  \<open>M\<close>, arbitrary but for this. A stable binding keeps its value, so it is read from outside the
  state. A new object, array, function or error is the value of its node.
\<close>

datatype effect = Pure | Peeks | Acts

fun effect_of :: "expr \<Rightarrow> effect" where
  "effect_of (Call f m xs t s) = Acts"
| "effect_of (Await v t s) = Acts"
| "effect_of (NewPromise e t s) = Acts"
| "effect_of (ConsoleLog xs e s) = Acts"
| "effect_of (ArrayOp m x xs t s) = Acts"
| "effect_of (HostCall op r xs t s) = Acts"
| "effect_of (HostProp p r t s) = Peeks"
| "effect_of (JSONStringify v sp s) = Peeks"
| "effect_of (BuiltinCall f xs t s) = Peeks"
| "effect_of (IndexGet x i t u s) = Peeks"
| "effect_of (HasField x f s) = Peeks"
| "effect_of (Unwrap v t a s) = Peeks"
| "effect_of (Unbox v t s) = Peeks"
| "effect_of (Binary op l r t s) =
     (if (op = OpDiv \<or> op = OpMod) \<and> t \<in> {TInt32, TInt64, TUint32, TUint64} then Peeks else Pure)"
| "effect_of _ = Pure"

fun node_effect :: "node \<Rightarrow> effect" where
  "node_effect (NExpr x) = effect_of x"
| "node_effect _ = Acts"

record ('v, 's, 'e) sem =
  sm_const :: "Ident \<Rightarrow> 'v"
  sm_var :: "Ident \<Rightarrow> 's \<Rightarrow> 'v"
  sm_true :: "'v \<Rightarrow> bool"
  sm_op :: "node \<Rightarrow> 'v list \<Rightarrow> 'v"
  sm_load :: "expr \<Rightarrow> 'v \<Rightarrow> 's \<Rightarrow> 'v"
  sm_peek :: "node \<Rightarrow> 'v list \<Rightarrow> 's \<Rightarrow> 'e + 'v"
  sm_call :: "node \<Rightarrow> 'v list \<Rightarrow> 's \<Rightarrow> ('e + 'v) \<times> 's"

type_synonym 'v env = "string \<rightharpoonup> 'v"

fun seq :: "('e + 'a) \<times> 's \<Rightarrow> ('a \<Rightarrow> 's \<Rightarrow> ('e + 'b) \<times> 's) \<Rightarrow> ('e + 'b) \<times> 's" where
  "seq (Inl e, s) f = (Inl e, s)"
| "seq (Inr a, s) f = f a s"

definition act :: "('v, 's, 'e) sem \<Rightarrow> node \<Rightarrow> 'v list \<Rightarrow> 's \<Rightarrow> ('e + 'v) \<times> 's" where
  "act M n vs s =
     (case node_effect n of
        Pure \<Rightarrow> (Inr (sm_op M n vs), s)
      | Peeks \<Rightarrow> (sm_peek M n vs s, s)
      | Acts \<Rightarrow> sm_call M n vs s)"

text \<open>A binding read: a \<open>let\<close> expression's own first, which is local to its body.\<close>

definition read_var :: "('v, 's, 'e) sem \<Rightarrow> 'v env \<Rightarrow> Ident \<Rightarrow> 's \<Rightarrow> 'v" where
  "read_var M env i s =
     (case (if id_Module i = [] then env (id_Name i) else None) of
        Some v \<Rightarrow> v
      | None \<Rightarrow> if id_Stable i then sm_const M i else sm_var M i s)"

text \<open>The operands evaluated before a node acts, in source order.\<close>

fun evaluated :: "expr \<Rightarrow> expr list" where
  "evaluated (Binary op l r t s) = [l, r]"
| "evaluated (Unary op x t s) = [x]"
| "evaluated (Convert v t s) = [v]"
| "evaluated (Call f m xs t s) = xs"
| "evaluated (Await v t s) = [v]"
| "evaluated (NewPromise e t s) = [e]"
| "evaluated (ConsoleLog xs e s) = xs"
| "evaluated (BuiltinCall f xs t s) = xs"
| "evaluated (Concat ps s) = ps"
| "evaluated (Wrap v t s) = [v]"
| "evaluated (Unwrap v t a s) = [v]"
| "evaluated (IsEmpty v u n s) = [v]"
| "evaluated (Truthy v s) = [v]"
| "evaluated (JSONStringify v sp s) = v # (case sp of None \<Rightarrow> [] | Some x \<Rightarrow> [x])"
| "evaluated (HostCall op r xs t s) = (case r of None \<Rightarrow> [] | Some x \<Rightarrow> [x]) @ xs"
| "evaluated (HostProp p r t s) = [r]"
| "evaluated (ObjectLit fs t s) = map (\<lambda>f. fst (snd f)) fs"
| "evaluated (HasField x f s) = [x]"
| "evaluated (ArrayLit xs t s) = xs"
| "evaluated (IndexGet x i t u s) = [x, i]"
| "evaluated (ArrayOp m x xs t s) = x # xs"
| "evaluated (NewError k m s) = (case m of None \<Rightarrow> [] | Some x \<Rightarrow> [x])"
| "evaluated (ErrorGet e p s) = [e]"
| "evaluated (Box v s) = [v]"
| "evaluated (Unbox v t s) = [v]"
| "evaluated (InstanceOf v k s) = [v]"
| "evaluated (TypeOf v t s) = [v]"
| "evaluated _ = []"

lemma size_evaluated: "c \<in> set (evaluated x) \<Longrightarrow> size c < size x"
  by (cases x) (auto split: option.splits dest: size_in_list size_in_fields)

text \<open>An expression as evaluation sees it: the few with an order of their own, and the rest.\<close>

datatype view =
    VIdent Ident
  | VField expr
  | VCond expr expr expr
  | VLet string expr expr
  | VAnd expr expr
  | VOr expr expr
  | VNode "expr list"

fun view_of :: "expr \<Rightarrow> view" where
  "view_of (EIdent i) = VIdent i"
| "view_of (FieldGet x f t s) = VField x"
| "view_of (Cond c a b t s) = VCond c a b"
| "view_of (ELet n v b s) = VLet n v b"
| "view_of (Binary op l r t s) = (if op = OpAnd then VAnd l r else if op = OpOr then VOr l r else VNode [l, r])"
| "view_of x = VNode (evaluated x)"

lemma view_size:
  "view_of x = VField y \<Longrightarrow> size y < size x"
  "view_of x = VCond c a b \<Longrightarrow> size c < size x" "view_of x = VCond c a b \<Longrightarrow> size a < size x" "view_of x = VCond c a b \<Longrightarrow> size b < size x"
  "view_of x = VLet n v b \<Longrightarrow> size v < size x" "view_of x = VLet n v b \<Longrightarrow> size b < size x"
  "view_of x = VAnd a b \<Longrightarrow> size a < size x" "view_of x = VAnd a b \<Longrightarrow> size b < size x"
  "view_of x = VOr a b \<Longrightarrow> size a < size x" "view_of x = VOr a b \<Longrightarrow> size b < size x"
  by (cases x; auto split: if_splits)+

lemma view_node: "view_of x = VNode xs \<Longrightarrow> xs = evaluated x"
  by (cases x) (auto split: if_splits)

lemma view_node_size: "view_of x = VNode xs \<Longrightarrow> c \<in> set xs \<Longrightarrow> size c < size x"
  by (metis view_node size_evaluated)

definition largest :: "expr list \<Rightarrow> nat" where
  "largest xs = foldr max (map size xs) 0"

lemma largest_simps [simp]: "largest [] = 0" "largest (x # xs) = max (size x) (largest xs)"
  by (simp_all add: largest_def)

lemma largest_view: "view_of x = VNode xs \<Longrightarrow> largest xs < size x \<or> (largest xs = size x \<and> xs = [])"
proof (cases xs)
  case (Cons c cs)
  assume v: "view_of x = VNode xs"
  have "0 < n \<Longrightarrow> \<forall>c \<in> set xs. size c < n \<Longrightarrow> largest xs < n" for n xs by (induction xs) auto
  moreover have "\<forall>c \<in> set xs. size c < size x" using view_node_size [OF v] by blast
  ultimately show ?thesis using Cons by (metis gr_zeroI list.set_intros(1) not_less_zero)
qed auto

function js :: "('v, 's, 'e) sem \<Rightarrow> 'v env \<Rightarrow> expr \<Rightarrow> 's \<Rightarrow> ('e + 'v) \<times> 's"
and js_list :: "('v, 's, 'e) sem \<Rightarrow> 'v env \<Rightarrow> expr list \<Rightarrow> 's \<Rightarrow> ('e + 'v list) \<times> 's" where
  "js M env x s =
     (case view_of x of
        VIdent i \<Rightarrow> (Inr (read_var M env i s), s)
      | VField y \<Rightarrow> seq (js M env y s) (\<lambda>v s. (Inr (sm_load M x v s), s))
      | VCond c a b \<Rightarrow> seq (js M env c s) (\<lambda>v s. if sm_true M v then js M env a s else js M env b s)
      | VLet n v b \<Rightarrow> seq (js M env v s) (\<lambda>w s. js M (env(n \<mapsto> w)) b s)
      | VAnd l r \<Rightarrow> seq (js M env l s) (\<lambda>v s. if sm_true M v then js M env r s else (Inr v, s))
      | VOr l r \<Rightarrow> seq (js M env l s) (\<lambda>v s. if sm_true M v then (Inr v, s) else js M env r s)
      | VNode xs \<Rightarrow> seq (js_list M env xs s) (act M (NExpr x)))"
| "js_list M env [] s = (Inr [], s)"
| "js_list M env (x # xs) s =
     seq (js M env x s) (\<lambda>v s. seq (js_list M env xs s) (\<lambda>vs s. (Inr (v # vs), s)))"
  by pat_completeness auto
termination
  by (relation "measures [case_sum (\<lambda>(M, env, x, s). size x) (\<lambda>(M, env, xs, s). largest xs),
    case_sum (\<lambda>_. 1) (\<lambda>(M, env, xs, s). 2 * length xs)]") (auto dest: view_size largest_view)

declare js.simps [simp del]

subsection \<open>What is emitted\<close>

text \<open>
  An emitted expression: a value, while it is executed; a plain read of a variable or of a field;
  an operation; a call; a read through \<open>ts_read\<close>, of a variable or of what an expression gives,
  and then of fields; the operators that may skip their right operand; and the function literal
  of a conditional or a \<open>let\<close>, with its frames while it is executed. What computes from its
  operands alone is an operation: where the emitter makes it a call too, Go has less freedom.
\<close>

datatype 'v go =
    GVal 'v
  | GVar Ident
  | GLoad expr "'v go"
  | GOp node "'v go list"
  | GCall node "'v go list"
  | GRead Ident "expr list"
  | GReadOf "'v go" "expr list"
  | GAnd "'v go" "'v go"
  | GOr "'v go" "'v go"
  | GCond "'v go" "'v go" "'v go"
  | GLet string "'v go" "'v go"
  | GLit "'v go"
  | GScope string 'v "'v go"

definition go_node :: "expr \<Rightarrow> 'v go list \<Rightarrow> 'v go" where
  "go_node x ts = (if effect_of x = Pure then GOp (NExpr x) ts else GCall (NExpr x) ts)"

definition emit_read :: "bool \<Rightarrow> Ident \<Rightarrow> 'v go" where
  [simp]: "emit_read ord i = (if \<not> ord \<or> id_Stable i then GVar i else GRead i [])"

function emit :: "bool \<Rightarrow> expr \<Rightarrow> 'v go"
and path :: "expr \<Rightarrow> expr list \<Rightarrow> 'v go" where
  "emit ord x =
     (case view_of x of
        VIdent i \<Rightarrow> emit_read ord i
      | VField y \<Rightarrow> if \<not> ord then GLoad x (emit ord y) else path y [x]
      | VCond c a b \<Rightarrow> GCond (emit (innerCall c) c) (emit (innerCall a) a) (emit (innerCall b) b)
      | VLet n v b \<Rightarrow> GLet n (emit (innerCall v) v) (emit (innerCall b) b)
      | VAnd l r \<Rightarrow> GAnd (emit ord l) (emit ord r)
      | VOr l r \<Rightarrow> GOr (emit ord l) (emit ord r)
      | VNode xs \<Rightarrow> go_node x (map (emit ord) xs))"
| "path x fs =
     (case view_of x of
        VIdent i \<Rightarrow> GRead i fs
      | VField y \<Rightarrow> path y (x # fs)
      | _ \<Rightarrow> GReadOf (emit True x) fs)"
  by pat_completeness auto
termination
  by (relation "measure (case_sum (\<lambda>(ord, x). 2 * size x) (\<lambda>(x, fs). 2 * size x + 1))")
    (auto dest: view_size view_node_size)

declare emit.simps [simp del] path.simps [simp del]

definition full :: "expr \<Rightarrow> 'v go" where
  "full x = emit (innerCall x) x"

subsection \<open>Go's execution\<close>

text \<open>Whether an emitted expression has no call left to take.\<close>

fun idle :: "'v go \<Rightarrow> bool" where
  "idle (GVal v) \<longleftrightarrow> True"
| "idle (GVar i) \<longleftrightarrow> True"
| "idle (GLoad x t) \<longleftrightarrow> idle t"
| "idle (GOp x ts) \<longleftrightarrow> list_all idle ts"
| "idle (GAnd l r) \<longleftrightarrow> idle l \<and> idle r"
| "idle (GOr l r) \<longleftrightarrow> idle l \<and> idle r"
| "idle _ \<longleftrightarrow> False"

fun loads :: "('v, 's, 'e) sem \<Rightarrow> expr list \<Rightarrow> 'v \<Rightarrow> 's \<Rightarrow> 'v" where
  "loads M [] v s = v"
| "loads M (x # fs) v s = loads M fs (sm_load M x v s) s"

text \<open>
  One step, a call (\<open>True\<close>) or not. A step inside a literal is the literal's, which is a call.
  A step that throws ends the execution.
\<close>

inductive go_step :: "('v, 's, 'e) sem \<Rightarrow> 'v env \<Rightarrow> bool \<Rightarrow> 'v go \<Rightarrow> 's \<Rightarrow> 'e + 'v go \<Rightarrow> 's \<Rightarrow> bool"
  for M :: "('v, 's, 'e) sem" where
  Var: "go_step M env False (GVar i) s (Inr (GVal (read_var M env i s))) s"
| Load: "go_step M env False (GLoad x (GVal v)) s (Inr (GVal (sm_load M x v s))) s"
| LoadOf: "go_step M env k t s r s' \<Longrightarrow> go_step M env k (GLoad x t) s (map_sum id (GLoad x) r) s'"
| Op: "go_step M env False (GOp x (map GVal vs)) s (Inr (GVal (sm_op M x vs))) s"
| OpArg: "go_step M env k t s r s' \<Longrightarrow> k \<longrightarrow> list_all idle ts \<Longrightarrow>
    go_step M env k (GOp x (ts @ t # us)) s (map_sum id (\<lambda>t. GOp x (ts @ t # us)) r) s'"
| Call: "act M x vs s = (r, s') \<Longrightarrow> go_step M env True (GCall x (map GVal vs)) s (map_sum id GVal r) s'"
| CallArg: "go_step M env k t s r s' \<Longrightarrow> k \<longrightarrow> list_all idle ts \<Longrightarrow>
    go_step M env k (GCall x (ts @ t # us)) s (map_sum id (\<lambda>t. GCall x (ts @ t # us)) r) s'"
| Read: "go_step M env True (GRead i fs) s (Inr (GVal (loads M fs (read_var M env i s) s))) s"
| ReadVal: "go_step M env True (GReadOf (GVal v) fs) s (Inr (GVal (loads M fs v s))) s"
| ReadOf: "go_step M env k t s r s' \<Longrightarrow> go_step M env k (GReadOf t fs) s (map_sum id (\<lambda>t. GReadOf t fs) r) s'"
| And: "go_step M env False (GAnd (GVal v) u) s (Inr (if sm_true M v then u else GVal v)) s"
| AndOf: "go_step M env k t s r s' \<Longrightarrow> go_step M env k (GAnd t u) s (map_sum id (\<lambda>t. GAnd t u) r) s'"
| Or: "go_step M env False (GOr (GVal v) u) s (Inr (if sm_true M v then GVal v else u)) s"
| OrOf: "go_step M env k t s r s' \<Longrightarrow> go_step M env k (GOr t u) s (map_sum id (\<lambda>t. GOr t u) r) s'"
| Cond: "go_step M env True (GCond (GVal v) a b) s (Inr (GLit (if sm_true M v then a else b))) s"
| CondOf: "go_step M env k t s r s' \<Longrightarrow> go_step M env True (GCond t a b) s (map_sum id (\<lambda>t. GCond t a b) r) s'"
| Let: "go_step M env True (GLet n (GVal v) b) s (Inr (GScope n v b)) s"
| LetOf: "go_step M env k t s r s' \<Longrightarrow> go_step M env True (GLet n t b) s (map_sum id (\<lambda>t. GLet n t b) r) s'"
| Lit: "go_step M env True (GLit (GVal v)) s (Inr (GVal v)) s"
| LitOf: "go_step M env k t s r s' \<Longrightarrow> go_step M env True (GLit t) s (map_sum id GLit r) s'"
| Scope: "go_step M env True (GScope n w (GVal v)) s (Inr (GVal v)) s"
| ScopeOf: "go_step M (env(n \<mapsto> w)) k t s r s' \<Longrightarrow> go_step M env True (GScope n w t) s (map_sum id (GScope n w) r) s'"

text \<open>An execution of some number of steps, to where none is left.\<close>

inductive go_runs :: "('v, 's, 'e) sem \<Rightarrow> 'v env \<Rightarrow> 'v go \<Rightarrow> 's \<Rightarrow> nat \<Rightarrow> 'e + 'v \<Rightarrow> 's \<Rightarrow> bool"
  for M :: "('v, 's, 'e) sem" and env :: "'v env" where
  "go_runs M env (GVal v) s 0 (Inr v) s"
| "go_step M env k t s (Inl e) s' \<Longrightarrow> go_runs M env t s (Suc 0) (Inl e) s'"
| "go_step M env k t s (Inr t') s' \<Longrightarrow> go_runs M env t' s' n r s'' \<Longrightarrow> go_runs M env t s (Suc n) r s''"

subsection \<open>Left to right\<close>

text \<open>What an emitted expression gives when it is executed strictly left to right.\<close>

fun run :: "('v, 's, 'e) sem \<Rightarrow> 'v env \<Rightarrow> 'v go \<Rightarrow> 's \<Rightarrow> ('e + 'v) \<times> 's"
and runs :: "('v, 's, 'e) sem \<Rightarrow> 'v env \<Rightarrow> 'v go list \<Rightarrow> 's \<Rightarrow> ('e + 'v list) \<times> 's" where
  "run M env (GVal v) s = (Inr v, s)"
| "run M env (GVar i) s = (Inr (read_var M env i s), s)"
| "run M env (GLoad x t) s = seq (run M env t s) (\<lambda>v s. (Inr (sm_load M x v s), s))"
| "run M env (GOp x ts) s = seq (runs M env ts s) (\<lambda>vs s. (Inr (sm_op M x vs), s))"
| "run M env (GCall x ts) s = seq (runs M env ts s) (act M x)"
| "run M env (GRead i fs) s = (Inr (loads M fs (read_var M env i s) s), s)"
| "run M env (GReadOf t fs) s = seq (run M env t s) (\<lambda>v s. (Inr (loads M fs v s), s))"
| "run M env (GAnd l r) s = seq (run M env l s) (\<lambda>v s. if sm_true M v then run M env r s else (Inr v, s))"
| "run M env (GOr l r) s = seq (run M env l s) (\<lambda>v s. if sm_true M v then (Inr v, s) else run M env r s)"
| "run M env (GCond t a b) s = seq (run M env t s) (\<lambda>v s. if sm_true M v then run M env a s else run M env b s)"
| "run M env (GLet n t b) s = seq (run M env t s) (\<lambda>v s. run M (env(n \<mapsto> v)) b s)"
| "run M env (GLit t) s = run M env t s"
| "run M env (GScope n v t) s = run M (env(n \<mapsto> v)) t s"
| "runs M env [] s = (Inr [], s)"
| "runs M env (t # ts) s = seq (run M env t s) (\<lambda>v s. seq (runs M env ts s) (\<lambda>vs s. (Inr (v # vs), s)))"

lemma seq_seq: "seq (seq p f) g = seq p (\<lambda>a s. seq (f a s) g)"
  by (cases p; cases "fst p") auto

lemma seq_ret [simp]: "seq p (\<lambda>a. Pair (Inr a)) = p"
  by (cases p; cases "fst p") auto

lemma seq_cong: "(\<And>a s. f a s = g a s) \<Longrightarrow> seq p f = seq p g"
  by (cases p; cases "fst p") auto

lemma runs_vals [simp]: "runs M env (map GVal vs) s = (Inr vs, s)"
  by (induction vs) simp_all

lemma runs_append: "runs M env (ts @ us) s = seq (runs M env ts s) (\<lambda>vs s. seq (runs M env us s) (\<lambda>ws s. (Inr (vs @ ws), s)))"
  by (induction ts arbitrary: s) (simp_all add: seq_seq)

text \<open>The emitted expression computes what JavaScript does, left to right.\<close>

lemma run_node: "run M env (go_node x ts) s = seq (runs M env ts s) (act M (NExpr x))"
  by (auto simp: go_node_def act_def fun_eq_iff intro!: seq_cong)

lemma run_path:
  assumes "\<And>z s. size z < size x \<or> z = x \<Longrightarrow> run M env (emit True z) s = js M env z s"
  shows "run M env (path x fs) s = seq (js M env x s) (\<lambda>v s. (Inr (loads M fs v s), s))"
  using assms
proof (induction "size x" arbitrary: x fs s rule: less_induct)
  case less
  show ?case
  proof (cases "view_of x")
    case (VIdent i)
    then show ?thesis by (simp add: path.simps [of x] js.simps [of M env x])
  next
    case (VField y)
    then have "run M env (path y (x # fs)) s = seq (js M env y s) (\<lambda>v s. (Inr (loads M (x # fs) v s), s))"
      using view_size(1) [OF VField] by (intro less(1)) (auto intro!: less(2))
    with VField show ?thesis by (simp add: path.simps [of x] js.simps [of M env x] seq_seq)
  qed (use less(2) [of x] in \<open>simp_all add: path.simps [of x]\<close>)
qed

lemma runs_emit: "(\<And>c s. c \<in> set xs \<Longrightarrow> run M env (emit ord c) s = js M env c s) \<Longrightarrow> runs M env (map (emit ord) xs) s = js_list M env xs s"
  by (induction xs arbitrary: s) (auto intro!: seq_cong)

lemma run_emit: "run M env (emit ord x) s = js M env x s"
proof (induction "size x" arbitrary: ord x env s rule: less_induct)
  case less
  have IH: "run M env (emit ord c) = js M env c" if "size c < size x" for ord c env
    using less(1) [OF that] by (intro ext)
  show ?case
  proof (cases "view_of x")
    case (VField y)
    note y = view_size(1) [OF VField]
    have "run M env (path y [x]) s = seq (js M env y s) (\<lambda>v s. (Inr (loads M [x] v s), s))"
      using y by (intro run_path) (auto intro: less(1))
    with y VField show ?thesis by (simp add: emit.simps [of ord x] js.simps [of M env x] IH)
  next
    case (VNode xs)
    then have "runs M env (map (emit ord) xs) s = js_list M env xs s"
      using view_node_size [OF VNode] by (intro runs_emit less(1))
    with VNode show ?thesis by (simp add: emit.simps [of ord x] js.simps [of M env x] run_node)
  qed (use view_size [of x] in \<open>simp_all add: emit.simps [of ord x] js.simps [of M env x] IH cong: if_cong\<close>)
qed

subsection \<open>Why the order does not matter\<close>

text \<open>
  Every plain read is of a stable binding (\<open>calm\<close>, literals apart); no call acts on the state
  (\<open>quiet\<close>), or none below the root does (\<open>still\<close>); and the whole expressions in literals are
  safe in turn (\<open>good\<close>).
\<close>

fun calm :: "'v go \<Rightarrow> bool" where
  "calm (GVal v) \<longleftrightarrow> True"
| "calm (GVar i) \<longleftrightarrow> id_Stable i"
| "calm (GLoad x t) \<longleftrightarrow> False"
| "calm (GOp x ts) \<longleftrightarrow> list_all calm ts"
| "calm (GCall x ts) \<longleftrightarrow> list_all calm ts"
| "calm (GRead i fs) \<longleftrightarrow> True"
| "calm (GReadOf t fs) \<longleftrightarrow> calm t"
| "calm (GAnd l r) \<longleftrightarrow> calm l \<and> calm r"
| "calm (GOr l r) \<longleftrightarrow> calm l \<and> calm r"
| "calm _ \<longleftrightarrow> True"

fun quiet :: "'v go \<Rightarrow> bool" where
  "quiet (GVal v) \<longleftrightarrow> True"
| "quiet (GVar i) \<longleftrightarrow> True"
| "quiet (GLoad x t) \<longleftrightarrow> quiet t"
| "quiet (GOp x ts) \<longleftrightarrow> list_all quiet ts"
| "quiet (GCall x ts) \<longleftrightarrow> node_effect x \<noteq> Acts \<and> list_all quiet ts"
| "quiet (GRead i fs) \<longleftrightarrow> True"
| "quiet (GReadOf t fs) \<longleftrightarrow> quiet t"
| "quiet (GAnd l r) \<longleftrightarrow> quiet l \<and> quiet r"
| "quiet (GOr l r) \<longleftrightarrow> quiet l \<and> quiet r"
| "quiet (GCond t a b) \<longleftrightarrow> quiet t \<and> quiet a \<and> quiet b"
| "quiet (GLet n t b) \<longleftrightarrow> quiet t \<and> quiet b"
| "quiet (GLit t) \<longleftrightarrow> quiet t"
| "quiet (GScope n v t) \<longleftrightarrow> quiet t"

fun still :: "'v go \<Rightarrow> bool" where
  "still (GLoad x t) \<longleftrightarrow> quiet t"
| "still (GOp x ts) \<longleftrightarrow> list_all quiet ts"
| "still (GCall x ts) \<longleftrightarrow> list_all quiet ts"
| "still (GReadOf t fs) \<longleftrightarrow> quiet t"
| "still (GAnd l r) \<longleftrightarrow> quiet l \<and> quiet r"
| "still (GOr l r) \<longleftrightarrow> quiet l \<and> quiet r"
| "still _ \<longleftrightarrow> True"

fun good :: "'v go \<Rightarrow> bool" where
  "good (GLoad x t) \<longleftrightarrow> good t"
| "good (GOp x ts) \<longleftrightarrow> list_all good ts"
| "good (GCall x ts) \<longleftrightarrow> list_all good ts"
| "good (GReadOf t fs) \<longleftrightarrow> good t"
| "good (GAnd l r) \<longleftrightarrow> good l \<and> good r"
| "good (GOr l r) \<longleftrightarrow> good l \<and> good r"
| "good (GCond t a b) \<longleftrightarrow> good t \<and> (calm t \<or> still t) \<and> good a \<and> (calm a \<or> still a) \<and> good b \<and> (calm b \<or> still b)"
| "good (GLet n t b) \<longleftrightarrow> good t \<and> (calm t \<or> still t) \<and> good b \<and> (calm b \<or> still b)"
| "good (GLit t) \<longleftrightarrow> good t \<and> (calm t \<or> still t)"
| "good (GScope n v t) \<longleftrightarrow> good t \<and> (calm t \<or> still t)"
| "good _ \<longleftrightarrow> True"

lemma quiet_still: "quiet t \<Longrightarrow> still t"
  by (cases t) (auto simp: list_all_iff)

text \<open>Without a call, nothing throws; without a plain read of what may change, the state does not matter.\<close>

lemma runs_idle: "(\<And>t s. t \<in> set ts \<Longrightarrow> \<exists>v. run M env t s = (Inr v, s)) \<Longrightarrow> \<exists>vs. runs M env ts s = (Inr vs, s)"
proof (induction ts arbitrary: s)
  case (Cons t ts)
  obtain v where "run M env t s = (Inr v, s)" using Cons.prems by fastforce
  moreover obtain vs where "runs M env ts s = (Inr vs, s)" using Cons by fastforce
  ultimately show ?case by simp
qed simp

lemma idle_run: "idle t \<Longrightarrow> \<exists>v. run M env t s = (Inr v, s)"
proof (induction t arbitrary: s)
  case (GLoad x t)
  then obtain v where "run M env t s = (Inr v, s)" by fastforce
  then show ?case by simp
next
  case (GOp x ts)
  then have "\<exists>vs. runs M env ts s = (Inr vs, s)" by (intro runs_idle) (auto simp: list_all_iff)
  then show ?case by auto
next
  case (GAnd l r)
  then obtain v w where "run M env l s = (Inr v, s)" "run M env r s = (Inr w, s)" by fastforce
  then show ?case by simp
next
  case (GOr l r)
  then obtain v w where "run M env l s = (Inr v, s)" "run M env r s = (Inr w, s)" by fastforce
  then show ?case by simp
qed auto

lemma idle_runs: "list_all idle ts \<Longrightarrow> \<exists>vs. runs M env ts s = (Inr vs, s)"
  by (intro runs_idle idle_run) (auto simp: list_all_iff)

text \<open>A result that does not depend on the state, nor change it.\<close>

definition invariable :: "('s \<Rightarrow> ('e + 'a) \<times> 's) \<Rightarrow> bool" where
  "invariable f \<longleftrightarrow> (\<exists>v. \<forall>s. f s = (Inr v, s))"

lemma invariable_runs: "(\<And>t. t \<in> set ts \<Longrightarrow> invariable (run M env t)) \<Longrightarrow> invariable (runs M env ts)"
proof (induction ts)
  case (Cons t ts)
  then have "invariable (run M env t)" "invariable (runs M env ts)" by simp_all
  then show ?case by (auto simp: invariable_def)
qed (simp add: invariable_def)

lemma calm_run: "idle t \<Longrightarrow> calm t \<Longrightarrow> invariable (run M env t)"
proof (induction t)
  case (GVar i)
  then show ?case by (auto simp: invariable_def read_var_def split: option.split)
next
  case (GOp x ts)
  then have "invariable (runs M env ts)" by (intro invariable_runs) (auto simp: list_all_iff)
  then show ?case by (auto simp: invariable_def)
next
  case (GAnd l r)
  then obtain v w where "\<forall>s. run M env l s = (Inr v, s)" "\<forall>s. run M env r s = (Inr w, s)" by (auto simp: invariable_def)
  then show ?case by (cases "sm_true M v") (auto simp: invariable_def)
next
  case (GOr l r)
  then obtain v w where "\<forall>s. run M env l s = (Inr v, s)" "\<forall>s. run M env r s = (Inr w, s)" by (auto simp: invariable_def)
  then show ?case by (cases "sm_true M v") (auto simp: invariable_def)
qed (auto simp: invariable_def)

lemma calm_runs: "list_all idle ts \<Longrightarrow> list_all calm ts \<Longrightarrow> invariable (runs M env ts)"
  by (intro invariable_runs calm_run) (auto simp: list_all_iff)

lemma snd_seq: "snd p = s \<Longrightarrow> (\<And>a. snd (f a s) = s) \<Longrightarrow> snd (seq p f) = s"
  by (cases p; cases "fst p") auto

lemma runs_quiet: "(\<And>t s. t \<in> set ts \<Longrightarrow> snd (run M env t s) = s) \<Longrightarrow> snd (runs M env ts s) = s"
  by (induction ts arbitrary: s) (auto intro!: snd_seq)

lemma quiet_run: "quiet t \<Longrightarrow> snd (run M env t s) = s"
proof (induction t arbitrary: env s)
  case (GOp x ts)
  then have "snd (runs M env ts s) = s" by (intro runs_quiet) (auto simp: list_all_iff)
  then show ?case by (auto intro!: snd_seq)
next
  case (GCall x ts)
  then have "snd (runs M env ts s) = s" by (intro runs_quiet) (auto simp: list_all_iff)
  with GCall.prems show ?case by (auto intro!: snd_seq simp: act_def split: effect.split)
qed (auto intro!: snd_seq)

lemma quiet_runs: "list_all quiet ts \<Longrightarrow> snd (runs M env ts s) = s"
  by (intro runs_quiet quiet_run) (auto simp: list_all_iff)

text \<open>What a step leaves to compute.\<close>

definition rest :: "('v, 's, 'e) sem \<Rightarrow> 'v env \<Rightarrow> 'e + 'v go \<Rightarrow> 's \<Rightarrow> ('e + 'v) \<times> 's" where
  "rest M env r s = (case r of Inl e \<Rightarrow> (Inl e, s) | Inr t \<Rightarrow> run M env t s)"

lemma rest_simps [simp]: "rest M env (Inl e) s = (Inl e, s)" "rest M env (Inr t) s = run M env t s"
  by (simp_all add: rest_def)

lemma rest_inside:
  "(\<And>t s. run M env (C t) s = seq (run M env' t s) f) \<Longrightarrow> rest M env (map_sum id C r) s = seq (rest M env' r s) f"
  by (cases r) simp_all

lemma rest_literal: "rest M env (map_sum id GLit r) s = rest M env r s" "rest M env (map_sum id (GScope n w) r) s = rest M (env(n \<mapsto> w)) r s"
  by (cases r; simp)+

text \<open>One operand's step, in a list of operands.\<close>

lemma runs_swap:
  "run M env t (snd (runs M env ts s)) = run M env t' (snd (runs M env ts s)) \<Longrightarrow>
     runs M env (ts @ t # us) s = runs M env (ts @ t' # us) s"
  unfolding runs_append by (cases "runs M env ts s"; cases "fst (runs M env ts s)") auto

lemma rest_operand:
  assumes "runs M env ts s = (Inr vs, s)" "runs M env ts s' = (Inr vs, s')" "run M env t s = rest M env r s'"
    and "\<And>ts s. run M env (C ts) s = seq (runs M env ts s) f"
  shows "run M env (C (ts @ t # us)) s = rest M env (map_sum id (\<lambda>t. C (ts @ t # us)) r) s'"
  using assms by (cases r) (simp_all add: runs_append)

lemma map_sum_Inr: "map_sum id C r = Inr x \<longleftrightarrow> (\<exists>t. r = Inr t \<and> x = C t)"
  by (cases r) auto

lemma free_step:
  "go_step M env k t s r s' \<Longrightarrow> \<not> k \<Longrightarrow>
     s' = s \<and> (\<exists>t'. r = Inr t' \<and> (calm t \<longrightarrow> (\<forall>s. run M env t s = run M env t' s)))"
proof (induction rule: go_step.induct)
  case (OpArg env k t s r s' ts x us)
  then obtain t' where "s' = s" "r = Inr t'" "calm t \<Longrightarrow> \<forall>s. run M env t s = run M env t' s" by auto
  moreover from this have "calm t \<Longrightarrow> runs M env (ts @ t # us) s = runs M env (ts @ t' # us) s" for s
    by (intro runs_swap) simp
  ultimately show ?case by auto
next
  case (CallArg env k t s r s' ts x us)
  then obtain t' where "s' = s" "r = Inr t'" "calm t \<Longrightarrow> \<forall>s. run M env t s = run M env t' s" by auto
  moreover from this have "calm t \<Longrightarrow> runs M env (ts @ t # us) s = runs M env (ts @ t' # us) s" for s
    by (intro runs_swap) simp
  ultimately show ?case by auto
next
  case (Var env i s)
  then show ?case by (auto simp: read_var_def split: option.split)
qed auto

lemma calm_step: "go_step M env k t s r s' \<Longrightarrow> r = Inr t' \<Longrightarrow> calm t \<Longrightarrow> calm t'"
  by (induction arbitrary: t' rule: go_step.induct) (auto simp: map_sum_Inr)

text \<open>A step of an operand where the calls before it do not act, or where none is left.\<close>

lemma operand_step:
  assumes step: "go_step M env k t s r s'" "k \<longrightarrow> list_all idle ts"
    and t: "run M env t s = rest M env r s'"
    and before: "s' = s \<and> snd (runs M env ts s) = s \<or> calm t \<and> list_all calm ts"
    and C: "\<And>ts s. run M env (C ts) s = seq (runs M env ts s) f"
  shows "run M env (C (ts @ t # us)) s = rest M env (map_sum id (\<lambda>t. C (ts @ t # us)) r) s'"
proof (cases k)
  case False
  from free_step [OF step(1) False] obtain t' where t': "s' = s" "r = Inr t'"
    "calm t \<Longrightarrow> \<forall>s. run M env t s = run M env t' s" by auto
  have "runs M env (ts @ t # us) s = runs M env (ts @ t' # us) s"
    using before t t' by (intro runs_swap) auto
  with t' show ?thesis by (simp add: C)
next
  case True
  then have i: "list_all idle ts" using step(2) by simp
  obtain vs where vs: "runs M env ts s = (Inr vs, s)" using idle_runs [OF i, of M env s] by blast
  moreover have "runs M env ts s' = (Inr vs, s')"
    using before
  proof
    assume "calm t \<and> list_all calm ts"
    then show ?thesis using calm_runs [OF i, of M env] vs by (auto simp: invariable_def)
  qed (use vs in simp)
  ultimately show ?thesis using t C by (rule rest_operand)
qed

lemma quiet_step:
  "go_step M env k t s r s' \<Longrightarrow> quiet t \<Longrightarrow> s' = s \<and> (\<forall>t'. r = Inr t' \<longrightarrow> quiet t') \<and> run M env t s = rest M env r s"
proof (induction rule: go_step.induct)
  case (OpArg env k t s r s' ts x us)
  then have t: "s' = s" "\<forall>t'. r = Inr t' \<longrightarrow> quiet t'" "run M env t s = rest M env r s'" by auto
  have q: "snd (runs M env ts s) = s" using OpArg.prems by (intro quiet_runs) simp
  have "run M env (GOp x (ts @ t # us)) s = rest M env (map_sum id (\<lambda>t. GOp x (ts @ t # us)) r) s'"
    using OpArg.hyps t(3) by (rule operand_step) (use t q in simp_all)
  with OpArg.prems t show ?case by (auto simp: map_sum_Inr)
next
  case (CallArg env k t s r s' ts x us)
  then have t: "s' = s" "\<forall>t'. r = Inr t' \<longrightarrow> quiet t'" "run M env t s = rest M env r s'" by auto
  have q: "snd (runs M env ts s) = s" using CallArg.prems by (intro quiet_runs) simp
  have "run M env (GCall x (ts @ t # us)) s = rest M env (map_sum id (\<lambda>t. GCall x (ts @ t # us)) r) s'"
    using CallArg.hyps(1,2) t(3) by (rule operand_step) (use t q in simp_all)
  with CallArg.prems t show ?case by (auto simp: map_sum_Inr)
next
  case (Call x vs s r s' env)
  then show ?case by (cases r) (auto simp: act_def split: effect.splits)
qed (auto simp: map_sum_Inr rest_inside rest_literal)

text \<open>A literal runs as a whole, and what it runs is safe in turn.\<close>

lemma still_step: "go_step M env k t s r s' \<Longrightarrow> r = Inr t' \<Longrightarrow> still t \<Longrightarrow> still t'"
proof (induction arbitrary: t' rule: go_step.induct)
  case (And env v u s)
  then show ?case by (auto simp: quiet_still)
next
  case (Or env v u s)
  then show ?case by (auto simp: quiet_still)
qed (auto simp: map_sum_Inr dest: quiet_step)

lemma good_step: "go_step M env k t s r s' \<Longrightarrow> r = Inr t' \<Longrightarrow> good t \<Longrightarrow> good t'"
  by (induction arbitrary: t' rule: go_step.induct) (auto simp: map_sum_Inr dest: calm_step still_step)

lemma safe_step:
  "go_step M env k t s r s' \<Longrightarrow> good t \<Longrightarrow> calm t \<or> still t \<Longrightarrow> run M env t s = rest M env r s'"
proof (induction rule: go_step.induct)
  case (OpArg env k t s r s' ts x us)
  have t: "run M env t s = rest M env r s'"
    using OpArg quiet_still [of t] by auto
  have b: "s' = s \<and> snd (runs M env ts s) = s \<or> calm t \<and> list_all calm ts"
    using OpArg.prems(2) quiet_step [OF OpArg.hyps(1)] quiet_runs [of ts M env s] by auto
  show ?case using OpArg.hyps t b by (rule operand_step) simp
next
  case (CallArg env k t s r s' ts x us)
  have t: "run M env t s = rest M env r s'"
    using CallArg quiet_still [of t] by auto
  have b: "s' = s \<and> snd (runs M env ts s) = s \<or> calm t \<and> list_all calm ts"
    using CallArg.prems(2) quiet_step [OF CallArg.hyps(1)] quiet_runs [of ts M env s] by auto
  show ?case using CallArg.hyps t b by (rule operand_step) simp
next
  case (Call x vs s r s' env)
  then show ?case by (cases r) simp_all
qed (auto simp: rest_inside rest_literal quiet_still)

subsection \<open>What is emitted is safe\<close>

lemma view_operands:
  "view_of x = VField y \<Longrightarrow> y \<in> set (operands x)"
  "view_of x = VCond c a b \<Longrightarrow> {c, a, b} \<subseteq> set (operands x)"
  "view_of x = VLet n v b \<Longrightarrow> {v, b} \<subseteq> set (operands x)"
  "view_of x = VAnd a b \<Longrightarrow> {a, b} \<subseteq> set (operands x)"
  "view_of x = VOr a b \<Longrightarrow> {a, b} \<subseteq> set (operands x)"
  by (cases x; auto split: if_splits)+

lemma node_operands: "view_of x = VNode xs \<Longrightarrow> set xs \<subseteq> set (operands x)"
  by (cases x) (auto split: if_splits option.splits)

lemma acts_isCall: "effect_of x = Acts \<Longrightarrow> isCall x"
  by (cases x) (auto split: if_splits)

lemma no_inner_call: "\<not> innerCall x \<Longrightarrow> c \<in> set (operands x) \<Longrightarrow> \<not> isCall c \<and> \<not> innerCall c"
  by (subst (asm) innerCall.simps) (auto simp: list_ex_iff)

definition calls_none :: "expr \<Rightarrow> bool" where
  "calls_none x \<longleftrightarrow> \<not> isCall x \<and> \<not> innerCall x"

definition emits_safe :: "'v go itself \<Rightarrow> expr \<Rightarrow> bool" where
  "emits_safe T x \<longleftrightarrow>
     (\<forall>ord. good (emit ord x :: 'v go) \<and> (\<not> innerCall x \<longrightarrow> still (emit ord x :: 'v go)) \<and> (calls_none x \<longrightarrow> quiet (emit ord x :: 'v go))) \<and>
     calm (emit True x :: 'v go)"

lemma safe_path:
  assumes "\<And>z. size z < size x \<or> z = x \<Longrightarrow> emits_safe TYPE('v go) z"
  shows "good (path x fs :: 'v go) \<and> calm (path x fs :: 'v go) \<and> (calls_none x \<longrightarrow> quiet (path x fs :: 'v go))"
  using assms
proof (induction "size x" arbitrary: x fs rule: less_induct)
  case less
  show ?case
  proof (cases "view_of x")
    case (VField y)
    have "good (path y (x # fs) :: 'v go) \<and> calm (path y (x # fs) :: 'v go) \<and> (calls_none y \<longrightarrow> quiet (path y (x # fs) :: 'v go))"
      using view_size(1) [OF VField] by (intro less(1)) (auto intro: less(2))
    moreover have "calls_none x \<Longrightarrow> calls_none y"
      using no_inner_call [of x y] view_operands(1) [OF VField] by (simp add: calls_none_def)
    ultimately show ?thesis using VField by (simp add: path.simps [of x])
  qed (use less(2) [of x] in \<open>simp_all add: path.simps [of x] emits_safe_def\<close>)
qed

lemma emit_safe: "emits_safe TYPE('v go) x"
proof (induction "size x" arbitrary: x rule: less_induct)
  case less
  have IH: "good (emit ord c :: 'v go)" "\<not> innerCall c \<Longrightarrow> still (emit ord c :: 'v go)" "calls_none c \<Longrightarrow> quiet (emit ord c :: 'v go)"
    "calm (emit True c :: 'v go)" "calm (emit (innerCall c) c :: 'v go) \<or> still (emit (innerCall c) c :: 'v go)" if "size c < size x" for c ord
    using less [OF that] by (auto simp: emits_safe_def)
  have sub: "c \<in> set (operands x) \<Longrightarrow> \<not> innerCall x \<Longrightarrow> calls_none c" for c
    using no_inner_call by (simp add: calls_none_def)
  show ?case
  proof (cases "view_of x")
    case (VField y)
    note y = view_size(1) [OF VField]
    have p: "good (path y [x] :: 'v go) \<and> calm (path y [x] :: 'v go) \<and> (calls_none y \<longrightarrow> quiet (path y [x] :: 'v go))"
      using y by (intro safe_path) (auto intro: less)
    then have "\<not> innerCall x \<Longrightarrow> still (path y [x] :: 'v go)"
      using sub view_operands(1) [OF VField] by (auto intro: quiet_still)
    with p show ?thesis
      using VField IH [OF y] sub [of y] view_operands(1) [OF VField]
      by (auto simp: emits_safe_def emit.simps [of _ x] calls_none_def)
  next
    case (VNode xs)
    have s: "size c < size x" if "c \<in> set xs" for c using view_node_size [OF VNode that] .
    have "\<not> innerCall x \<Longrightarrow> c \<in> set xs \<Longrightarrow> calls_none c" for c using sub node_operands [OF VNode] by blast
    then show ?thesis
      using VNode IH [OF s] acts_isCall [of x]
      by (auto simp: emits_safe_def emit.simps [of _ x] go_node_def list_all_iff calls_none_def)
  next
    case (VCond c a b)
    show ?thesis using VCond IH [OF view_size(2) [OF VCond]] IH [OF view_size(3) [OF VCond]] IH [OF view_size(4) [OF VCond]]
        sub view_operands(2) [OF VCond]
      by (simp add: emits_safe_def emit.simps [of _ x] calls_none_def)
  next
    case (VLet n v b)
    show ?thesis using VLet IH [OF view_size(5) [OF VLet]] IH [OF view_size(6) [OF VLet]] sub view_operands(3) [OF VLet]
      by (simp add: emits_safe_def emit.simps [of _ x] calls_none_def)
  next
    case (VAnd a b)
    show ?thesis using VAnd IH [OF view_size(7) [OF VAnd]] IH [OF view_size(8) [OF VAnd]] sub view_operands(4) [OF VAnd]
      by (simp add: emits_safe_def emit.simps [of _ x] calls_none_def)
  next
    case (VOr a b)
    show ?thesis using VOr IH [OF view_size(9) [OF VOr]] IH [OF view_size(10) [OF VOr]] sub view_operands(5) [OF VOr]
      by (simp add: emits_safe_def emit.simps [of _ x] calls_none_def)
  next
    case (VIdent i)
    then show ?thesis by (simp add: emits_safe_def emit.simps [of _ x])
  qed
qed

lemma full_safe: "good (full x :: 'v go) \<and> (calm (full x :: 'v go) \<or> still (full x :: 'v go))"
  using emit_safe [where 'v = 'v, of x] by (cases "innerCall x") (auto simp: full_def emits_safe_def)

subsection \<open>Every execution ends\<close>

fun go_size :: "'v go \<Rightarrow> nat" where
  "go_size (GVal v) = 0"
| "go_size (GVar i) = 1"
| "go_size (GLoad x t) = 1 + go_size t"
| "go_size (GOp x ts) = 1 + sum_list (map go_size ts)"
| "go_size (GCall x ts) = 1 + sum_list (map go_size ts)"
| "go_size (GRead i fs) = 1"
| "go_size (GReadOf t fs) = 1 + go_size t"
| "go_size (GAnd l r) = 1 + go_size l + go_size r"
| "go_size (GOr l r) = 1 + go_size l + go_size r"
| "go_size (GCond t a b) = 2 + go_size t + go_size a + go_size b"
| "go_size (GLet n t b) = 2 + go_size t + go_size b"
| "go_size (GLit t) = 1 + go_size t"
| "go_size (GScope n v t) = 1 + go_size t"

lemma step_smaller: "go_step M env k t s r s' \<Longrightarrow> r = Inr t' \<Longrightarrow> go_size t' < go_size t"
  by (induction arbitrary: t' rule: go_step.induct) (auto simp: map_sum_Inr)

lemma step_size: "go_step M env k t s r s' \<Longrightarrow> 0 < go_size t"
  by (induction rule: go_step.induct) auto

lemma values_or_first:
  obtains vs where "ts = map GVal vs" | us t ws where "ts = us @ t # ws" "\<forall>v. t \<noteq> GVal v" "list_all idle us"
proof (induction ts arbitrary: thesis)
  case Nil
  then show ?case by simp
next
  case (Cons t ts)
  show ?case
  proof (cases "\<exists>v. t = GVal v")
    case True
    then obtain v where t: "t = GVal v" ..
    show ?thesis
    proof (rule Cons.IH)
      show thesis if "ts = map GVal vs" for vs using Cons.prems(1) [of "v # vs"] t that by simp
      show thesis if "ts = us @ u # ws" "\<forall>v. u \<noteq> GVal v" "list_all idle us" for us u ws
        using Cons.prems(2) [of "t # us" u ws] t that by simp
    qed
  next
    case False
    then show ?thesis using Cons.prems(2) [of "[]" t ts] by auto
  qed
qed

lemma step_exists: "\<forall>v. t \<noteq> GVal v \<Longrightarrow> \<exists>k r s'. go_step M env k t s r s'"
proof (induction t arbitrary: env s)
  case (GOp x ts)
  show ?case
  proof (cases ts rule: values_or_first)
    case (2 us t ws)
    then obtain k r s' where "go_step M env k t s r s'" using GOp.IH [of t env s] by auto
    then have "go_step M env k (GOp x (us @ t # ws)) s (map_sum id (\<lambda>t. GOp x (us @ t # ws)) r) s'"
      using 2(3) by (intro go_step.OpArg) simp_all
    then show ?thesis unfolding 2(1) by (intro exI)
  qed (auto intro: go_step.intros)
next
  case (GCall x ts)
  show ?case
  proof (cases ts rule: values_or_first)
    case (1 vs)
    obtain r s' where "act M x vs s = (r, s')" by (cases "act M x vs s")
    then have "go_step M env True (GCall x (map GVal vs)) s (map_sum id GVal r) s'" by (rule go_step.Call)
    then show ?thesis unfolding 1 by (intro exI)
  next
    case (2 us t ws)
    then obtain k r s' where "go_step M env k t s r s'" using GCall.IH [of t env s] by auto
    then have "go_step M env k (GCall x (us @ t # ws)) s (map_sum id (\<lambda>t. GCall x (us @ t # ws)) r) s'"
      using 2(3) by (intro go_step.CallArg) simp_all
    then show ?thesis unfolding 2(1) by (intro exI)
  qed
next
  case (GLoad x t)
  then show ?case by (cases "\<exists>v. t = GVal v") (auto intro: go_step.intros, blast intro: go_step.intros)
next
  case (GReadOf t fs)
  then show ?case by (cases "\<exists>v. t = GVal v") (auto intro: go_step.intros, blast intro: go_step.intros)
next
  case (GAnd t r)
  then show ?case by (cases "\<exists>v. t = GVal v") (auto intro: go_step.intros, blast intro: go_step.intros)
next
  case (GOr t r)
  then show ?case by (cases "\<exists>v. t = GVal v") (auto intro: go_step.intros, blast intro: go_step.intros)
next
  case (GCond t a b)
  then show ?case by (cases "\<exists>v. t = GVal v") (auto intro: go_step.intros, blast intro: go_step.intros)
next
  case (GLet n t b)
  then show ?case by (cases "\<exists>v. t = GVal v") (auto intro: go_step.intros, blast intro: go_step.intros)
next
  case (GLit t)
  then show ?case by (cases "\<exists>v. t = GVal v") (auto intro: go_step.intros, blast intro: go_step.intros)
next
  case (GScope n v t)
  then show ?case by (cases "\<exists>v. t = GVal v") (auto intro: go_step.intros, blast intro: go_step.intros)
qed (auto intro: go_step.intros)

lemma runs_exist: "\<exists>n r s'. go_runs M env t s n r s'"
proof (induction "go_size t" arbitrary: t s rule: less_induct)
  case less
  show ?case
  proof (cases "\<exists>v. t = GVal v")
    case True
    then show ?thesis by (auto intro: go_runs.intros)
  next
    case False
    then obtain k r s' where step: "go_step M env k t s r s'" using step_exists by metis
    show ?thesis
    proof (cases r)
      case (Inl e)
      with step show ?thesis by (auto intro: go_runs.intros)
    next
      case (Inr t')
      with step less [of t' s'] step_smaller [OF step Inr] show ?thesis by (blast intro: go_runs.intros)
    qed
  qed
qed

lemma runs_bounded: "go_runs M env t s n r s' \<Longrightarrow> n \<le> go_size t"
  by (induction rule: go_runs.induct) (auto dest: step_size step_smaller)

lemma runs_run: "go_runs M env t s n r s' \<Longrightarrow> good t \<Longrightarrow> calm t \<or> still t \<Longrightarrow> run M env t s = (r, s')"
proof (induction rule: go_runs.induct)
  case (2 k t s e s')
  then show ?case using safe_step by fastforce
next
  case (3 k t s t' s' n r s'')
  have "good t'" "calm t' \<or> still t'" using 3(4,5) good_step [OF 3(1)] calm_step [OF 3(1)] still_step [OF 3(1)] by auto
  with 3(3) safe_step [OF 3(1,4,5)] show ?case by simp
qed simp

subsection \<open>Writes\<close>

text \<open>
  The statements that evaluate several expressions before they write: a field's, an element's
  and an append's. Each is one call, or one assignment, of its operands; whether the reads among
  them are ordered is each statement's own.
\<close>

fun write_operands :: "stmt \<Rightarrow> expr list" where
  "write_operands (FieldSet x f v s) = [x, v]"
| "write_operands (IndexSet x i v s) = [x, i, v]"
| "write_operands (Append (Some t) ps s) = EIdent t # ps"
| "write_operands _ = []"

definition fieldSet_order :: "expr \<Rightarrow> expr \<Rightarrow> bool" where
  "fieldSet_order x v \<longleftrightarrow> isCall x \<or> innerCall x \<or> isCall v \<or> innerCall v"

definition indexSet_order :: "expr \<Rightarrow> expr \<Rightarrow> expr \<Rightarrow> bool" where
  "indexSet_order x i v \<longleftrightarrow> list_ex (\<lambda>x. isCall x \<or> innerCall x) [x, i, v]"

definition append_order :: "Ident \<Rightarrow> expr list \<Rightarrow> Span \<Rightarrow> bool" where
  "append_order t ps s \<longleftrightarrow> innerCall (Concat (EIdent t # ps) s)"

fun write_ordered :: "stmt \<Rightarrow> bool" where
  "write_ordered (FieldSet x f v s) \<longleftrightarrow> fieldSet_order x v"
| "write_ordered (IndexSet x i v s) \<longleftrightarrow> indexSet_order x i v"
| "write_ordered (Append (Some t) ps s) \<longleftrightarrow> append_order t ps s"
| "write_ordered _ \<longleftrightarrow> False"

definition emit_write :: "stmt \<Rightarrow> 'v go" where
  "emit_write w = GCall (NStmt w) (map (emit (write_ordered w)) (write_operands w))"

lemma write_unordered: "\<not> write_ordered w \<Longrightarrow> c \<in> set (write_operands w) \<Longrightarrow> calls_none c"
  by (cases w rule: write_operands.cases) (auto simp: calls_none_def list_ex_iff fieldSet_order_def indexSet_order_def append_order_def innerCall.simps [of "Concat _ _"])

lemma write_safe: "good (emit_write w :: 'v go) \<and> (calm (emit_write w :: 'v go) \<or> still (emit_write w :: 'v go))"
proof -
  have e: "emits_safe TYPE('v go) c" for c by (rule emit_safe)
  have "good (emit_write w :: 'v go)" using e by (simp add: emit_write_def emits_safe_def list_all_iff)
  moreover have "calm (emit_write w :: 'v go)" if "write_ordered w"
    using that e by (simp add: emit_write_def emits_safe_def list_all_iff)
  moreover have "still (emit_write w :: 'v go)" if "\<not> write_ordered w"
    using write_unordered [OF that] e by (auto simp: emit_write_def emits_safe_def list_all_iff)
  ultimately show ?thesis by blast
qed

definition js_write :: "('v, 's, 'e) sem \<Rightarrow> 'v env \<Rightarrow> stmt \<Rightarrow> 's \<Rightarrow> ('e + 'v) \<times> 's" where
  "js_write M env w s = seq (js_list M env (write_operands w) s) (act M (NStmt w))"

subsection \<open>Properties\<close>

text \<open>An execution without an end.\<close>

definition endless :: "('v, 's, 'e) sem \<Rightarrow> 'v env \<Rightarrow> 'v go \<Rightarrow> 's \<Rightarrow> bool" where
  "endless M env t s \<longleftrightarrow>
     (\<exists>ts ss. ts 0 = t \<and> ss 0 = s \<and> (\<forall>i. \<exists>k. go_step M env k (ts i) (ss i) (Inr (ts (Suc i))) (ss (Suc i))))"

lemma never_endless: "\<not> endless M env t s"
proof
  assume "endless M env t s"
  then obtain ts ss where step: "\<forall>i. \<exists>k. go_step M env k (ts i) (ss i) (Inr (ts (Suc i))) (ss (Suc i))"
    unfolding endless_def by blast
  have "go_size (ts n) + n \<le> go_size (ts 0)" for n
  proof (induction n)
    case (Suc n)
    obtain k where "go_step M env k (ts n) (ss n) (Inr (ts (Suc n))) (ss (Suc n))" using step by blast
    then have "go_size (ts (Suc n)) < go_size (ts n)" by (rule step_smaller) (rule refl)
    with Suc show ?case by simp
  qed simp
  from this [of "Suc (go_size (ts 0))"] show False by simp
qed


end
