(* ===== verification/InspectString.thy ===== *)
theory InspectString
  imports JsonString
begin

text \<open>
  Strings as \<open>console.log\<close> writes them inside objects and arrays,
  \<open>backend/runtime/inspect_string.go\<close>: \<open>quote\<close> and \<open>controlEscape\<close>, \<open>splitAfterNewlines\<close>, and
  \<open>printedKey\<close> of \<open>object.go\<close>. What \<open>quote\<close> writes is a JavaScript string literal, or a template
  with no substitution, whose value is the string.
\<close>

subsection \<open>Quoting\<close>

definition controlEscape :: "rune \<Rightarrow> byte list" where
  "controlEscape r =
     (if r = 8 then [0x5C, 0x62]
      else if r = 9 then [0x5C, 0x74]
      else if r = 10 then [0x5C, 0x6E]
      else if r = 12 then [0x5C, 0x66]
      else if r = 13 then [0x5C, 0x72]
      else [0x5C, 0x78, uriHex (r div 16), uriHex (r mod 16)])"

definition quote_mark :: "byte list \<Rightarrow> byte" where
  "quote_mark s =
     (if 0x27 \<in> set s then
        if 0x22 \<notin> set s then 0x22
        else if 0x60 \<notin> set s \<and> list_index s [0x24, 0x7B] = None then 0x60
        else 0x27
      else 0x27)"

text \<open>\<open>strconv.FormatInt(unit, 16)\<close> of a half, which has four digits.\<close>

definition hex_of_half :: "rune \<Rightarrow> byte list" where
  "hex_of_half unit = map (\<lambda>k. hexDigits ! (unit div 16 ^ k mod 16)) [3, 2, 1, 0]"

function quote_loop :: "byte \<Rightarrow> byte list \<Rightarrow> byte list \<Rightarrow> byte list" where
  "quote_loop q b [] = b"
| "quote_loop q b (c # s) =
     (case surrogateAt (c # s) 0 of
        Some unit \<Rightarrow>
          (case (if unit < 0xDC00 then surrogateAt (c # s) 3 else None) of
             Some low \<Rightarrow>
               if low \<ge> 0xDC00
               then quote_loop q (append_rune b (0x10000 + push_bit 10 (unit - 0xD800) + (low - 0xDC00))) (drop 6 (c # s))
               else quote_loop q (b @ [0x5C, 0x75] @ hex_of_half unit) (drop 3 (c # s))
           | None \<Rightarrow> quote_loop q (b @ [0x5C, 0x75] @ hex_of_half unit) (drop 3 (c # s)))
      | None \<Rightarrow>
          let (r, size) = decode_rune (c # s)
          in quote_loop q
               (b @ (if r = 0x27 \<and> q = 0x27 then [0x5C, 0x27]
                     else if r = 0x5C then [0x5C, 0x5C]
                     else if r < 0x20 \<or> (r \<ge> 0x7F \<and> r \<le> 0x9F) then controlEscape r
                     else take size (c # s)))
               (drop size (c # s)))"
  by pat_completeness auto
termination
  by (relation "measure (\<lambda>(q, b, s). length s)") (auto dest: decode_pos)

declare quote_loop.simps(2) [simp del]

definition quote :: "byte list \<Rightarrow> byte list" where
  "quote s = (let q = quote_mark s in quote_loop q [q] s @ [q])"

subsection \<open>Keys and lines\<close>

definition isBareKey :: "byte list \<Rightarrow> bool" where
  "isBareKey k \<longleftrightarrow>
     k \<noteq> [] \<and>
     (\<forall>i < length k.
        let c = k ! i;
            letter = (c = 0x5F \<or> (c \<ge> 0x61 \<and> c \<le> 0x7A) \<or> (c \<ge> 0x41 \<and> c \<le> 0x5A))
        in \<not> (\<not> letter \<and> (i = 0 \<or> c < 0x30 \<or> c > 0x39)))"

definition printedKey :: "byte list \<Rightarrow> byte list" where
  "printedKey k = (if isBareKey k then k else quote k)"

function splitAfterNewlines :: "byte list \<Rightarrow> byte list list" where
  "splitAfterNewlines s =
     (case IndexByte s 0x0A of
        None \<Rightarrow> [s]
      | Some i \<Rightarrow> if i = length s - 1 then [s] else take (i + 1) s # splitAfterNewlines (drop (i + 1) s))"
  by pat_completeness auto
termination
  by (relation "measure length") (auto simp: IndexByte_def split: if_splits dest: length_pos_if_in_set)

declare splitAfterNewlines.simps [simp del]

lemma split_lines_join: "concat (splitAfterNewlines s) = s"
  by (induction s rule: splitAfterNewlines.induct)
    (subst splitAfterNewlines.simps, auto split: option.split)

text \<open>
  The value of the characters of a JavaScript string literal up to its closing quote \<open>q\<close>, which
  must end the text, or of a template without substitutions when \<open>q\<close> is a backtick.
\<close>

definition hex2 :: "unit16 \<Rightarrow> unit16 \<Rightarrow> unit16 option" where
  "hex2 p q =
     (case (hex_value p, hex_value q) of
        (Some a, Some b) \<Rightarrow> Some (word_of_nat (a * 16 + b))
      | _ \<Rightarrow> None)"

definition js_escapes :: "(unit16 \<times> unit16) list" where
  "js_escapes = [(0x27, 0x27), (0x22, 0x22), (0x5C, 0x5C), (0x62, 0x08), (0x74, 0x09), (0x6E, 0x0A), (0x66, 0x0C),
     (0x72, 0x0D), (0x76, 0x0B)]"

fun js_chars :: "unit16 \<Rightarrow> unit16 list \<Rightarrow> unit16 list option" where
  "js_chars q [] = None"
| "js_chars q (u # us) =
     (if u = q then if us = [] then Some [] else None
      else if u = 0x5C then
        (case us of
           [] \<Rightarrow> None
         | e # us \<Rightarrow>
             if e = 0x75 then
               (case us of
                  a # b # c # d # us \<Rightarrow>
                    (case hex4 a b c d of Some v \<Rightarrow> map_option ((#) v) (js_chars q us) | None \<Rightarrow> None)
                | _ \<Rightarrow> None)
             else if e = 0x78 then
               (case us of
                  a # b # us \<Rightarrow> (case hex2 a b of Some v \<Rightarrow> map_option ((#) v) (js_chars q us) | None \<Rightarrow> None)
                | _ \<Rightarrow> None)
             else (case map_of js_escapes e of Some v \<Rightarrow> map_option ((#) v) (js_chars q us) | None \<Rightarrow> None))
      else if q = 0x60 then
        if u = 0x24 \<and> us \<noteq> [] \<and> hd us = 0x7B then None else map_option ((#) u) (js_chars q us)
      else if u = 0x0A \<or> u = 0x0D then None
      else map_option ((#) u) (js_chars q us))"

definition js_string_value :: "unit16 list \<Rightarrow> unit16 list option" where
  "js_string_value us =
     (case us of [] \<Rightarrow> None | q # us \<Rightarrow> if q = 0x22 \<or> q = 0x27 \<or> q = 0x60 then js_chars q us else None)"

subsection \<open>Reading back\<close>

text \<open>One character of a canonical string as \<open>quote\<close> writes it.\<close>

definition quote_char :: "byte \<Rightarrow> rune \<Rightarrow> byte list" where
  "quote_char q r =
     (if lone r then [0x5C, 0x75] @ hex_of_half r
      else if r = 0x27 \<and> q = 0x27 then [0x5C, 0x27]
      else if r = 0x5C then [0x5C, 0x5C]
      else if r < 0x20 \<or> (r \<ge> 0x7F \<and> r \<le> 0x9F) then controlEscape r
      else wtf8 r)"

lemma quote_loop_rune:
  assumes r: "r < 0x110000" and rs: "\<forall>x \<in> set rs. x < 0x110000" "no_pair (r # rs)"
  shows "quote_loop q b (wtf8 r @ encode rs) = quote_loop q (b @ quote_char q r) (encode rs)"
proof -
  obtain c t where ct: "wtf8 r @ encode rs = c # t" by (cases "wtf8 r @ encode rs") auto
  have drop: "drop (length (wtf8 r)) (c # t) = encode rs" "take (length (wtf8 r)) (c # t) = wtf8 r"
    by (simp_all flip: ct)
  show ?thesis
  proof (cases "lone r")
    case True
    then have l: "length (wtf8 r) = 3" using length_wtf8_half [of r] unfolding lone_def is_high_def is_low_def by linarith
    have s0: "surrogateAt (c # t) 0 = Some r"
      using surrogateAt_wtf8 [OF r, of "encode rs"] True ct by (simp add: lone_def)
    have "surrogateAt (c # t) 3 = surrogateAt (encode rs) 0"
      using surrogateAt_shift [of "wtf8 r" "encode rs"] ct l by simp
    also have "\<dots> = (if rs \<noteq> [] \<and> 0xD800 \<le> hd rs \<and> hd rs \<le> 0xDFFF then Some (hd rs) else None)"
      by (rule surrogateAt_encode [OF rs(1)])
    finally have s3: "surrogateAt (c # t) 3 = None \<or> (\<exists>l. surrogateAt (c # t) 3 = Some l \<and> \<not> (r < 0xDC00 \<and> 0xDC00 \<le> l))"
      using rs(2) True by (cases rs) (auto simp: is_high_def is_low_def lone_def)
    then show ?thesis using s0 True drop l
      by (auto simp: ct quote_loop.simps(2) quote_char_def)
  next
    case False
    have "surrogateAt (c # t) 0 = None"
      using surrogateAt_wtf8 [OF r, of "encode rs"] False ct by (simp add: lone_def)
    moreover have "decode_rune (c # t) = (r, length (wtf8 r))"
      using decode_rune_wtf8 [OF r, of "encode rs"] False ct by (simp add: lone_def)
    ultimately show ?thesis using False drop
      by (simp add: ct quote_loop.simps(2) quote_char_def Let_def)
  qed
qed

lemma quote_loop_encode:
  "\<forall>x \<in> set rs. x < 0x110000 \<Longrightarrow> no_pair rs \<Longrightarrow>
   quote_loop q b (encode rs) = b @ concat (map (quote_char q) rs)"
  by (induction rs arbitrary: b) (auto simp: quote_loop_rune no_pair_Cons)

text \<open>
  What the reader makes of one character: the quote must not be it, and after a dollar in a
  template no brace may follow.
\<close>

lemma hex_value_upper: "list_all (\<lambda>d. hex_value (ucast (uriHex d)) = Some d \<and> uriHex d < 0x80) [0..<16]"
  by code_simp

lemma uriHex_value: "d < 16 \<Longrightarrow> hex_value (ucast (uriHex d)) = Some d" "d < 16 \<Longrightarrow> uriHex d < 0x80"
  using hex_value_upper by (simp_all add: list_all_iff)

definition mark_ok :: "byte \<Rightarrow> bool" where
  "mark_ok q \<longleftrightarrow> q \<in> {0x22, 0x27, 0x60}"

lemma toUnits_ascii_list: "\<forall>b \<in> set t. b < 0x80 \<Longrightarrow> toUnits (t @ s) = map ucast t @ toUnits s"
  by (rule toUnits_ascii_append)

lemma control_reads:
  assumes "r < 0x20 \<or> (r \<ge> 0x7F \<and> r \<le> 0x9F)" "mark_ok q"
  shows "js_chars (ucast q) (toUnits (controlEscape r @ s)) = map_option ((#) (word_of_nat r)) (js_chars (ucast q) (toUnits s))"
proof (cases "r \<in> {8, 9, 10, 12, 13}")
  case True
  with assms(2) show ?thesis
    by (auto simp: controlEscape_def toUnits_ascii_Cons js_escapes_def mark_ok_def)
next
  case False
  have r: "r < 256" using assms(1) by auto
  then have d: "r div 16 < 16" "r mod 16 < 16" by simp_all
  have "toUnits (controlEscape r @ s) = [0x5C, 0x78, ucast (uriHex (r div 16)), ucast (uriHex (r mod 16))] @ toUnits s"
    using False uriHex_value(2) [OF d(1)] uriHex_value(2) [OF d(2)]
    by (subst toUnits_ascii_list) (auto simp: controlEscape_def)
  moreover have "hex2 (ucast (uriHex (r div 16))) (ucast (uriHex (r mod 16))) = Some (word_of_nat r)"
    using uriHex_value(1) [OF d(1)] uriHex_value(1) [OF d(2)] by (simp add: hex2_def)
  ultimately show ?thesis using assms(2) by (auto simp: mark_ok_def)
qed

lemma half_reads:
  assumes "lone r" "mark_ok q"
  shows "js_chars (ucast q) (toUnits ([0x5C, 0x75] @ hex_of_half r @ s)) = map_option ((#) (word_of_nat r)) (js_chars (ucast q) (toUnits s))"
proof -
  define a b c where "a = r div 256 mod 16" and "b = r div 16 mod 16" and "c = r mod 16"
  have "r div 4096 = 13" using assms(1) by (simp add: lone_def div_nat_eqI)
  then have h: "hex_of_half r = [hexDigits ! 13, hexDigits ! a, hexDigits ! b, hexDigits ! c]"
    by (simp add: hex_of_half_def a_def b_def c_def)
  have r: "((13 * 16 + a) * 16 + b) * 16 + c = r"
    using half_digits_sum [OF assms(1)] by (simp add: a_def b_def c_def)
  have d: "a < 16" "b < 16" "c < 16" "(13 :: nat) < 16" by (simp_all add: a_def b_def c_def)
  have "toUnits ([0x5C, 0x75] @ hex_of_half r @ s)
    = [0x5C, 0x75, ucast (hexDigits ! 13), ucast (hexDigits ! a), ucast (hexDigits ! b), ucast (hexDigits ! c)] @ toUnits s"
    using hex_digit(2) [OF d(1)] hex_digit(2) [OF d(2)] hex_digit(2) [OF d(3)] hex_digit(2) [OF d(4)]
    by (subst append_assoc [symmetric], subst toUnits_ascii_list) (auto simp: h)
  moreover have "hex4 (ucast (hexDigits ! 13)) (ucast (hexDigits ! a)) (ucast (hexDigits ! b)) (ucast (hexDigits ! c)) = Some (word_of_nat r)"
    using hex_digit(1) [OF d(1)] hex_digit(1) [OF d(2)] hex_digit(1) [OF d(3)] hex_digit(1) [OF d(4)] r
    by (simp add: hex4_def)
  ultimately show ?thesis using assms(2) by (auto simp: mark_ok_def)
qed

lemma high_reads:
  assumes "\<forall>u \<in> set us. 0x80 \<le> unat u" "mark_ok q"
  shows "js_chars (ucast q) (us @ ws) = map_option ((@) us) (js_chars (ucast q) ws)"
  using assms(1)
proof (induction us)
  case (Cons u us)
  then have "u \<noteq> 0x22" "u \<noteq> 0x27" "u \<noteq> 0x60" "u \<noteq> 0x5C" "u \<noteq> 0x24" "u \<noteq> 0x0A" "u \<noteq> 0x0D" by auto
  with Cons assms(2) show ?case by (auto simp: mark_ok_def option.map_comp o_def)
qed (simp add: option.map_ident)

lemma ucast_byte_eq: "(ucast (c :: byte) :: unit16) = ucast d \<longleftrightarrow> c = d"
  using unat_ucast_byte [of c] unat_ucast_byte [of d] by (metis byte_eq_iff)

lemma ascii_reads:
  assumes "c < 0x80" "c \<noteq> q" "c \<noteq> 0x5C" "0x20 \<le> c" "mark_ok q" "q = 0x60 \<Longrightarrow> c = 0x24 \<Longrightarrow> ws \<noteq> [] \<Longrightarrow> hd ws \<noteq> 0x7B"
  shows "js_chars (ucast q) (ucast c # ws) = map_option ((#) (ucast c)) (js_chars (ucast q) ws)"
proof -
  have "c \<noteq> 0x0A" "c \<noteq> 0x0D" using assms(4) by (auto simp: byte_order)
  moreover have "ucast c = (0x0A :: unit16) \<longleftrightarrow> c = 0x0A" "ucast c = (0x0D :: unit16) \<longleftrightarrow> c = 0x0D"
    "ucast c = (0x5C :: unit16) \<longleftrightarrow> c = 0x5C" "ucast c = (0x24 :: unit16) \<longleftrightarrow> c = 0x24"
    using ucast_byte_eq [where c = c and d = "0x0A"] ucast_byte_eq [where c = c and d = "0x0D"]
      ucast_byte_eq [where c = c and d = "0x5C"] ucast_byte_eq [where c = c and d = "0x24"]
    by simp_all
  moreover have "ucast c = (ucast q :: unit16) \<longleftrightarrow> c = q" by (rule ucast_byte_eq)
  moreover have "ucast q = (0x60 :: unit16) \<longleftrightarrow> q = 0x60" using ucast_byte_eq [where c = q and d = "0x60"] by simp
  ultimately show ?thesis using assms(2,3,6) by (cases "q = 0x60") auto
qed

lemma char_reads:
  assumes r: "r < 0x110000" and q: "mark_ok q"
    and mark: "r = unat q \<Longrightarrow> q = 0x27"
    and dollar: "q = 0x60 \<Longrightarrow> r = 0x24 \<Longrightarrow> toUnits s \<noteq> [] \<Longrightarrow> hd (toUnits s) \<noteq> 0x7B"
  shows "js_chars (ucast q) (toUnits (quote_char q r @ s)) = map_option ((@) (units_of r)) (js_chars (ucast q) (toUnits s))"
proof -
  consider "lone r" | "\<not> lone r" "r < 0x20 \<or> (r \<ge> 0x7F \<and> r \<le> 0x9F)"
    | "r = 0x27" "q = 0x27" | "r = 0x5C" | "0x20 \<le> r" "r < 0x7F" "r \<noteq> 0x5C" "r \<noteq> unat q"
    | "\<not> lone r" "0x9F < r"
    using mark by (atomize_elim, intro disjCI) (auto simp: not_less)
  then show ?thesis
  proof cases
    case 1
    then have "units_of r = [word_of_nat r]" by (simp add: units_of_def lone_def)
    with half_reads [OF 1 q] 1 show ?thesis by (simp add: quote_char_def)
  next
    case 2
    then have "units_of r = [word_of_nat r]" by (auto simp: units_of_def)
    with control_reads [OF 2(2) q] 2 show ?thesis by (auto simp: quote_char_def)
  next
    case 3
    then show ?thesis by (simp add: quote_char_def lone_def toUnits_ascii_Cons js_escapes_def units_of_def)
  next
    case 4
    with q show ?thesis by (auto simp: quote_char_def lone_def toUnits_ascii_Cons js_escapes_def units_of_def mark_ok_def)
  next
    case 5
    define c :: byte where "c = word_of_nat r"
    have c: "unat c = r" using 5 by (simp add: c_def unat_word_of_nat_byte)
    have "quote_char q r = [c]" using 5 c by (auto simp: quote_char_def lone_def wtf8_1 c_def)
    moreover have "units_of r = [ucast c]" using units_of_unit [of "ucast c"] c by (simp add: unat_ucast_byte)
    moreover have "js_chars (ucast q) (ucast c # toUnits s) = map_option ((#) (ucast c)) (js_chars (ucast q) (toUnits s))"
      using 5 c q dollar by (intro ascii_reads) (auto simp: byte_order byte_eq_iff)
    ultimately show ?thesis using 5 c by (simp add: toUnits_ascii_Cons byte_order)
  next
    case 6
    then have "quote_char q r = wtf8 r" by (simp add: quote_char_def)
    moreover have "toUnits (wtf8 r @ s) = units_of r @ toUnits s"
      using scan_wtf8 [OF r, of s] by (simp add: toUnits_scan)
    ultimately show ?thesis using high_reads [OF units_high q] 6 r by simp
  qed
qed

subsection \<open>Properties\<close>

lemma first_quoted:
  assumes "r < 0x110000" "r \<noteq> 0x7B" "mark_ok q"
  shows "hd (toUnits (quote_char q r @ s)) \<noteq> 0x7B"
proof -
  consider t where "quote_char q r = 0x5C # t" | "quote_char q r = wtf8 r" "\<not> lone r"
  proof (cases "quote_char q r = wtf8 r \<and> \<not> lone r")
    case False
    then have "\<exists>t. quote_char q r = 0x5C # t" by (auto simp: quote_char_def controlEscape_def split: if_splits)
    with that(1) show thesis by blast
  qed (use that(2) in blast)
  then show ?thesis
  proof cases
    case 1
    then show ?thesis by (simp add: toUnits_ascii_Cons)
  next
    case 2
    have "toUnits (wtf8 r @ s) = units_of r @ toUnits s"
      using scan_wtf8 [OF assms(1), of s] by (simp add: toUnits_scan)
    moreover have "hd (units_of r @ toUnits s) \<noteq> 0x7B"
    proof
      assume "hd (units_of r @ toUnits s) = 0x7B"
      then have "unat (hd (units_of r @ toUnits s)) = 0x7B" by simp
      with assms(1,2) show False
        by (auto simp: units_of_def unat_word_of_nat_unit simp del: of_nat_add split: if_splits)
    qed
    ultimately show ?thesis using 2 by simp
  qed
qed

lemma quote_units:
  assumes "\<forall>x \<in> set rs. x < 0x110000" "mark_ok q" "q \<noteq> 0x27 \<Longrightarrow> unat q \<notin> set rs"
    "q = 0x60 \<Longrightarrow> list_index rs [0x24, 0x7B] = None"
  shows "js_chars (ucast q) (toUnits (concat (map (quote_char q) rs) @ [q])) = Some (concat (map units_of rs))"
  using assms(1,3,4)
proof (induction rs)
  case Nil
  show ?case using assms(2) by (auto simp: mark_ok_def toUnits_ascii_Cons)
next
  case (Cons r rs)
  have rest: "js_chars (ucast q) (toUnits (concat (map (quote_char q) rs) @ [q])) = Some (concat (map units_of rs))"
    using Cons.prems by (intro Cons.IH) (auto split: if_splits)
  have "hd (toUnits (concat (map (quote_char q) rs) @ [q])) \<noteq> 0x7B" if "q = 0x60" "r = 0x24"
  proof (cases rs)
    case (Cons x xs)
    then have "x \<noteq> 0x7B" using Cons.prems(3) that by auto
    with first_quoted [of x q "concat (map (quote_char q) xs) @ [q]"] Cons.prems(1) Cons assms(2)
    show ?thesis by simp
  qed (use that in \<open>simp add: toUnits_ascii_Cons\<close>)
  with char_reads [of r q "concat (map (quote_char q) rs) @ [q]"] Cons.prems assms(2) rest show ?case by auto
qed

lemma ascii_in_encode:
  assumes "\<forall>x \<in> set rs. x < 0x110000" "c < 0x80"
  shows "c \<in> set (encode rs) \<longleftrightarrow> unat c \<in> set rs"
  using assms(1)
proof (induction rs)
  case (Cons r rs)
  have "c \<in> set (wtf8 r) \<longleftrightarrow> unat c = r"
  proof (cases "r < 0x80")
    case True
    then show ?thesis by (auto simp: wtf8_1 byte_eq_iff)
  next
    case False
    then have "c \<notin> set (wtf8 r)" using wtf8_high [of r] Cons.prems assms(2) by auto
    moreover have "unat c \<noteq> r" using False assms(2) by (simp add: byte_order)
    ultimately show ?thesis by simp
  qed
  with Cons show ?case by auto
qed simp

lemma no_substitution:
  assumes "list_index (encode rs) [0x24, 0x7B] = None"
  shows "list_index rs [0x24, 0x7B] = None"
proof (rule ccontr)
  assume "list_index rs [0x24, 0x7B] \<noteq> None"
  then obtain i where "list_index rs [0x24, 0x7B] = Some i" by blast
  then have i: "i + 2 \<le> length rs" "take 2 (drop i rs) = [0x24, 0x7B]"
    using list_index_Some [of rs "[0x24, 0x7B]" i] by (simp_all add: numeral_2_eq_2)
  define a b where "a = take i rs" and "b = drop 2 (drop i rs)"
  have "rs = a @ [0x24, 0x7B] @ b" using i(2) by (metis a_def b_def append_take_drop_id)
  then have "encode rs = encode a @ [0x24, 0x7B] @ encode b" by (simp add: wtf8_1)
  then have "take 2 (drop (length (encode a)) (encode rs)) = [0x24, 0x7B]" "length (encode a) \<le> length (encode rs)" by simp_all
  with assms list_index_None [of "encode rs" "[0x24, 0x7B]"] show False by (simp add: numeral_2_eq_2)
qed


end
