(* ===== verification/Layouts.thy ===== *)
theory Layouts
  imports InspectString
begin

text \<open>
  The key tables of objects, \<open>Layout\<close> of \<open>backend/runtime/object.go\<close>: an object points to the
  table of the literal that made it, and moves to another as it gains and loses optional
  properties (\<open>With\<close>, \<open>Without\<close>). A table remembers the steps taken from it, so objects that
  take the same steps share the tables they reach. The tables are a store; the lock around the
  first taking of a step makes it one atomic operation, which is how the model takes it.

  The refinement: over every history, an object's table lists its properties in the order
  JavaScript keeps them, and is a function of the literal and the steps alone. JavaScript lists
  keys that are array indices before the others; \<open>keyRefusal\<close> of \<open>lower/object.go\<close> refuses a
  property named by one, so the order here is the order of creation.
\<close>

subsection \<open>Tables\<close>

record Layout =
  ly_keys :: "byte list list"
  ly_fields :: "nat list"
  ly_printed :: "byte list list"
  ly_edges :: "((nat \<times> bool) \<times> nat) list"

type_synonym tables = "Layout list"

definition NewLayout :: "byte list list \<Rightarrow> nat list \<Rightarrow> Layout result" where
  "NewLayout keys fs =
     (if length keys \<noteq> length fs then Inl (Panic (Text ''cakebear: a layout needs one field index per key''))
      else Inr \<lparr>ly_keys = keys, ly_fields = fs, ly_printed = map printedKey keys, ly_edges = []\<rparr>)"

definition Has :: "tables \<Rightarrow> nat \<Rightarrow> nat \<Rightarrow> bool" where
  "Has ts l field \<longleftrightarrow> field \<in> set (ly_fields (ts ! l))"

definition stepped :: "tables \<Rightarrow> nat \<Rightarrow> nat \<times> bool \<Rightarrow> nat option" where
  "stepped ts l e = map_of (ly_edges (ts ! l)) e"

definition step :: "tables \<Rightarrow> nat \<Rightarrow> nat \<times> bool \<Rightarrow> Layout result \<Rightarrow> (tables \<times> nat) result" where
  "step ts l e newLayout =
     (case stepped ts l e of
        Some a \<Rightarrow> Inr (ts, a)
      | None \<Rightarrow>
          and_then newLayout
            (\<lambda>t. let a = length ts; ts = ts @ [t]
                 in Inr (ts[l := (ts ! l)\<lparr>ly_edges := ly_edges (ts ! l) @ [(e, a)]\<rparr>], a)))"

definition With :: "tables \<Rightarrow> nat \<Rightarrow> nat \<Rightarrow> byte list \<Rightarrow> (tables \<times> nat) result" where
  "With ts l field key =
     (if Has ts l field then Inr (ts, l)
      else step ts l (field, True)
             (NewLayout (ly_keys (ts ! l) @ [key]) (ly_fields (ts ! l) @ [field])))"

text \<open>Go's \<open>slices.Delete(xs, i, i+1)\<close>, and \<open>slices.Index\<close>.\<close>

definition delete_at :: "nat \<Rightarrow> 'a list \<Rightarrow> 'a list" where
  "delete_at i xs = take i xs @ drop (i + 1) xs"

fun index_of :: "nat list \<Rightarrow> nat \<Rightarrow> nat option" where
  "index_of [] f = None"
| "index_of (g # fs) f = (if g = f then Some 0 else map_option Suc (index_of fs f))"

definition Without :: "tables \<Rightarrow> nat \<Rightarrow> nat \<Rightarrow> (tables \<times> nat) result" where
  "Without ts l field =
     (case index_of (ly_fields (ts ! l)) field of
        None \<Rightarrow> Inr (ts, l)
      | Some i \<Rightarrow>
          step ts l (field, False)
            (NewLayout (delete_at i (ly_keys (ts ! l))) (delete_at i (ly_fields (ts ! l)))))"

subsection \<open>The objects of a shape\<close>

text \<open>
  The literals of one shape, its objects and what happens to them: a literal's own table, an
  object made at a literal, \<open>o.p = v\<close> and \<open>delete o.p\<close>. \<open>name\<close> is the key of each field. Beside
  it, objects as the literal they came from and the properties gained (\<open>True\<close>) and lost since.
\<close>

datatype layout_op = Literal "nat list" | New nat | Assign nat nat | Delete nat nat

type_synonym layout_state = "tables \<times> nat list \<times> nat list"
type_synonym history = "nat \<times> (nat \<times> bool) list"
type_synonym key_state = "nat list list \<times> history list"

fun layout_do :: "(nat \<Rightarrow> byte list) \<Rightarrow> layout_op \<Rightarrow> layout_state \<Rightarrow> layout_state" where
  "layout_do name (Literal fs) (ts, lits, objs) =
     (if distinct fs
      then case NewLayout (map name fs) fs of Inl _ \<Rightarrow> (ts, lits, objs) | Inr t \<Rightarrow> (ts @ [t], lits @ [length ts], objs)
      else (ts, lits, objs))"
| "layout_do name (New k) (ts, lits, objs) =
     (if k < length lits then (ts, lits, objs @ [lits ! k]) else (ts, lits, objs))"
| "layout_do name (Assign i f) (ts, lits, objs) =
     (if i < length objs
      then case With ts (objs ! i) f (name f) of Inl _ \<Rightarrow> (ts, lits, objs) | Inr (ts, a) \<Rightarrow> (ts, lits, objs[i := a])
      else (ts, lits, objs))"
| "layout_do name (Delete i f) (ts, lits, objs) =
     (if i < length objs
      then case Without ts (objs ! i) f of Inl _ \<Rightarrow> (ts, lits, objs) | Inr (ts, a) \<Rightarrow> (ts, lits, objs[i := a])
      else (ts, lits, objs))"

text \<open>JavaScript's order: a property gained goes last, and one lost leaves its place.\<close>

fun apply_edge :: "nat \<times> bool \<Rightarrow> nat list \<Rightarrow> nat list" where
  "apply_edge (f, w) fs = (if w then fs @ [f] else filter (\<lambda>g. g \<noteq> f) fs)"

declare apply_edge.simps [simp del]

definition fields_after :: "nat list \<Rightarrow> (nat \<times> bool) list \<Rightarrow> nat list" where
  "fields_after fs es = fold apply_edge es fs"

definition object_fields :: "nat list list \<Rightarrow> history \<Rightarrow> nat list" where
  "object_fields lits x = fields_after (lits ! fst x) (snd x)"

fun key_do :: "layout_op \<Rightarrow> key_state \<Rightarrow> key_state" where
  "key_do (Literal fs) (lits, objs) = (if distinct fs then (lits @ [fs], objs) else (lits, objs))"
| "key_do (New k) (lits, objs) = (if k < length lits then (lits, objs @ [(k, [])]) else (lits, objs))"
| "key_do (Assign i f) (lits, objs) =
     (if i < length objs \<and> f \<notin> set (object_fields lits (objs ! i))
      then (lits, objs[i := (fst (objs ! i), snd (objs ! i) @ [(f, True)])]) else (lits, objs))"
| "key_do (Delete i f) (lits, objs) =
     (if i < length objs \<and> f \<in> set (object_fields lits (objs ! i))
      then (lits, objs[i := (fst (objs ! i), snd (objs ! i) @ [(f, False)])]) else (lits, objs))"

subsection \<open>Steps\<close>

fun walk :: "tables \<Rightarrow> nat \<Rightarrow> (nat \<times> bool) list \<Rightarrow> nat option" where
  "walk ts l [] = Some l"
| "walk ts l (e # es) = (case stepped ts l e of Some a \<Rightarrow> walk ts a es | None \<Rightarrow> None)"

definition table_ok :: "(nat \<Rightarrow> byte list) \<Rightarrow> tables \<Rightarrow> nat \<Rightarrow> bool" where
  "table_ok name ts l \<longleftrightarrow>
     distinct (ly_fields (ts ! l)) \<and> ly_keys (ts ! l) = map name (ly_fields (ts ! l)) \<and>
     ly_printed (ts ! l) = map printedKey (ly_keys (ts ! l)) \<and>
     (\<forall>e a. stepped ts l e = Some a \<longrightarrow> a < length ts \<and> ly_fields (ts ! a) = apply_edge e (ly_fields (ts ! l)))"

definition tables_ok :: "(nat \<Rightarrow> byte list) \<Rightarrow> tables \<Rightarrow> bool" where
  "tables_ok name ts \<longleftrightarrow> (\<forall>l < length ts. table_ok name ts l)"

text \<open>Tables that keep the keys and the steps of those before.\<close>

definition extends :: "tables \<Rightarrow> tables \<Rightarrow> bool" where
  "extends ts ts' \<longleftrightarrow>
     length ts \<le> length ts' \<and>
     (\<forall>l < length ts. ly_fields (ts' ! l) = ly_fields (ts ! l) \<and>
        (\<forall>e a. stepped ts l e = Some a \<longrightarrow> stepped ts' l e = Some a))"

lemma extends_refl: "extends ts ts"
  by (simp add: extends_def)

lemma stepped_ok:
  "tables_ok name ts \<Longrightarrow> l < length ts \<Longrightarrow> stepped ts l e = Some a \<Longrightarrow>
   a < length ts \<and> ly_fields (ts ! a) = apply_edge e (ly_fields (ts ! l))"
  unfolding tables_ok_def table_ok_def by blast

lemma walk_Cons: "walk ts l (e # es) = Some a \<Longrightarrow> \<exists>b. stepped ts l e = Some b \<and> walk ts b es = Some a"
  by (simp split: option.splits)

lemma walk_below:
  assumes "tables_ok name ts"
  shows "l < length ts \<Longrightarrow> walk ts l es = Some a \<Longrightarrow> a < length ts \<and> ly_fields (ts ! a) = fields_after (ly_fields (ts ! l)) es"
proof (induction es arbitrary: l)
  case (Cons e es)
  then obtain b where b: "stepped ts l e = Some b" "walk ts b es = Some a" using walk_Cons by blast
  with stepped_ok [OF assms Cons.prems(1) b(1)] Cons.IH [of b] show ?case by (simp add: fields_after_def)
qed (simp add: fields_after_def)

lemma walk_extends:
  assumes "tables_ok name ts" "extends ts ts'"
  shows "l < length ts \<Longrightarrow> walk ts l es = Some a \<Longrightarrow> walk ts' l es = Some a"
proof (induction es arbitrary: l)
  case (Cons e es)
  then obtain b where b: "stepped ts l e = Some b" "walk ts b es = Some a" using walk_Cons by blast
  moreover have "stepped ts' l e = Some b" using assms(2) Cons.prems(1) b(1) unfolding extends_def by blast
  ultimately show ?case using stepped_ok [OF assms(1) Cons.prems(1) b(1)] Cons.IH [of b] by simp
qed simp

lemma walk_snoc: "walk ts l (es @ [e]) = (case walk ts l es of Some a \<Rightarrow> stepped ts a e | None \<Rightarrow> None)"
  by (induction es arbitrary: l) (auto split: option.splits)

lemma index_of_Some: "index_of fs f = Some i \<Longrightarrow> distinct fs \<Longrightarrow> i < length fs \<and> delete_at i fs = filter (\<lambda>g. g \<noteq> f) fs \<and> f \<in> set fs"
proof (induction fs arbitrary: i)
  case (Cons g fs)
  show ?case
  proof (cases "g = f")
    case True
    with Cons.prems have "filter (\<lambda>g. g \<noteq> f) fs = fs" by (auto intro!: filter_True)
    with True Cons.prems show ?thesis by (simp add: delete_at_def)
  next
    case False
    with Cons.prems obtain j where "index_of fs f = Some j" "i = Suc j" by auto
    with Cons False show ?thesis by (auto simp: delete_at_def)
  qed
qed simp

lemma index_of_None: "index_of fs f = None \<longleftrightarrow> f \<notin> set fs"
  by (induction fs) auto

lemma delete_at_map: "delete_at i (map h xs) = map h (delete_at i xs)"
  by (simp add: delete_at_def take_map drop_map)

text \<open>A step, taken before or new.\<close>

lemma step_ok:
  assumes ok: "tables_ok name ts" and l: "l < length ts" and fs: "distinct (apply_edge e (ly_fields (ts ! l)))"
    and new: "newLayout = Inr \<lparr>ly_keys = map name (apply_edge e (ly_fields (ts ! l))), ly_fields = apply_edge e (ly_fields (ts ! l)),
      ly_printed = map printedKey (map name (apply_edge e (ly_fields (ts ! l)))), ly_edges = []\<rparr>"
  obtains ts' a where "step ts l e newLayout = Inr (ts', a)" "tables_ok name ts'" "extends ts ts'" "stepped ts' l e = Some a"
proof (cases "stepped ts l e")
  case (Some a)
  with ok that [of ts a] show thesis by (simp add: step_def extends_refl)
next
  case None
  define t where "t = \<lparr>ly_keys = map name (apply_edge e (ly_fields (ts ! l))), ly_fields = apply_edge e (ly_fields (ts ! l)),
      ly_printed = map printedKey (map name (apply_edge e (ly_fields (ts ! l)))), ly_edges = []\<rparr>"
  define ts' where "ts' = (ts @ [t])[l := (ts ! l)\<lparr>ly_edges := ly_edges (ts ! l) @ [(e, length ts)]\<rparr>]"
  have n: "length ts' = Suc (length ts)" by (simp add: ts'_def)
  have at: "ts' ! i = (if i = l then (ts ! l)\<lparr>ly_edges := ly_edges (ts ! l) @ [(e, length ts)]\<rparr>
      else if i = length ts then t else ts ! i)" if "i \<le> length ts" for i
    using l that by (auto simp: ts'_def nth_append nth_list_update)
  have s: "stepped ts' i d = (if i = l \<and> d = e then Some (length ts) else if i = length ts then None else stepped ts i d)"
    if "i \<le> length ts" for i d
    using at [OF that] None l by (auto simp: stepped_def t_def map_add_def split: option.split)
  have f: "ly_fields (ts' ! i) = (if i = length ts then apply_edge e (ly_fields (ts ! l)) else ly_fields (ts ! i))"
    if "i \<le> length ts" for i
    using at [OF that] l by (simp add: t_def)
  have "table_ok name ts' i" if "i < length ts'" for i
  proof (cases "i = length ts")
    case True
    have "\<not> stepped ts' i d = Some a" for d a using True s [of i] l by simp
    with True fs at [of i] l show ?thesis by (simp add: table_ok_def t_def)
  next
    case False
    then have i: "i < length ts" using that n by simp
    then have k: "distinct (ly_fields (ts ! i))" "ly_keys (ts ! i) = map name (ly_fields (ts ! i))"
      "ly_printed (ts ! i) = map printedKey (ly_keys (ts ! i))"
      and e: "\<And>d a. stepped ts i d = Some a \<Longrightarrow> a < length ts \<and> ly_fields (ts ! a) = apply_edge d (ly_fields (ts ! i))"
      using ok by (auto simp: tables_ok_def table_ok_def)
    have "a < length ts' \<and> ly_fields (ts' ! a) = apply_edge d (ly_fields (ts' ! i))" if "stepped ts' i d = Some a" for d a
    proof (cases "i = l \<and> d = e")
      case True
      then have "a = length ts" using that s [of l e] l by simp
      with True n f [of a] f [of l] l show ?thesis by simp
    next
      case False
      then have "stepped ts i d = Some a" using that s [of i d] i by (metis less_irrefl less_imp_le)
      with e [OF this] f [of a] f [of i] i n show ?thesis by simp
    qed
    moreover have "ly_fields (ts' ! i) = ly_fields (ts ! i)" "ly_keys (ts' ! i) = ly_keys (ts ! i)"
      "ly_printed (ts' ! i) = ly_printed (ts ! i)"
      using at [of i] i by (simp_all split: if_splits)
    ultimately show ?thesis using k unfolding table_ok_def by simp
  qed
  then have *: "tables_ok name ts'" by (simp add: tables_ok_def)
  have "step ts l e newLayout = Inr (ts', length ts)"
    using None new l by (simp add: step_def Let_def ts'_def t_def nth_append)
  then show thesis
  proof (rule that [OF _ *])
    show "extends ts ts'" using f s None by (auto simp: extends_def n)
    show "stepped ts' l e = Some (length ts)" using s [of l e] l by simp
  qed
qed

text \<open>\<open>With\<close> and \<open>Without\<close>, where the object lacks the property and where it has it.\<close>

lemma With_ok:
  assumes "tables_ok name ts" "l < length ts" "f \<notin> set (ly_fields (ts ! l))"
  obtains ts' a where "With ts l f (name f) = Inr (ts', a)" "tables_ok name ts'" "extends ts ts'" "stepped ts' l (f, True) = Some a"
proof -
  have t: "table_ok name ts l" using assms by (simp add: tables_ok_def)
  then have "NewLayout (ly_keys (ts ! l) @ [name f]) (ly_fields (ts ! l) @ [f])
    = Inr \<lparr>ly_keys = map name (apply_edge (f, True) (ly_fields (ts ! l))), ly_fields = apply_edge (f, True) (ly_fields (ts ! l)),
        ly_printed = map printedKey (map name (apply_edge (f, True) (ly_fields (ts ! l)))), ly_edges = []\<rparr>"
    by (simp add: NewLayout_def table_ok_def apply_edge.simps)
  moreover have "distinct (apply_edge (f, True) (ly_fields (ts ! l)))"
    using t assms(3) by (simp add: table_ok_def apply_edge.simps)
  ultimately show thesis
    using step_ok [OF assms(1,2), of "(f, True)"] assms(3) that by (auto simp: With_def Has_def)
qed

lemma Without_ok:
  assumes "tables_ok name ts" "l < length ts" "f \<in> set (ly_fields (ts ! l))"
  obtains ts' a where "Without ts l f = Inr (ts', a)" "tables_ok name ts'" "extends ts ts'" "stepped ts' l (f, False) = Some a"
proof -
  have t: "table_ok name ts l" using assms by (simp add: tables_ok_def)
  obtain i where i: "index_of (ly_fields (ts ! l)) f = Some i"
    using assms(3) index_of_None by (metis not_None_eq)
  then have d: "delete_at i (ly_fields (ts ! l)) = apply_edge (f, False) (ly_fields (ts ! l))"
    using index_of_Some [OF i] t by (simp add: table_ok_def apply_edge.simps)
  then have "NewLayout (delete_at i (ly_keys (ts ! l))) (delete_at i (ly_fields (ts ! l)))
    = Inr \<lparr>ly_keys = map name (apply_edge (f, False) (ly_fields (ts ! l))), ly_fields = apply_edge (f, False) (ly_fields (ts ! l)),
        ly_printed = map printedKey (map name (apply_edge (f, False) (ly_fields (ts ! l)))), ly_edges = []\<rparr>"
    using t by (simp add: NewLayout_def table_ok_def delete_at_map)
  moreover have "distinct (apply_edge (f, False) (ly_fields (ts ! l)))"
    using t by (simp add: table_ok_def apply_edge.simps)
  ultimately show thesis
    using step_ok [OF assms(1,2), of "(f, False)"] i that by (auto simp: Without_def)
qed

subsection \<open>The refinement\<close>

definition literals_ok :: "tables \<Rightarrow> nat list \<Rightarrow> nat list list \<Rightarrow> bool" where
  "literals_ok ts lits fss \<longleftrightarrow>
     length lits = length fss \<and> (\<forall>k < length lits. lits ! k < length ts \<and> ly_fields (ts ! (lits ! k)) = fss ! k)"

definition object_ok :: "tables \<Rightarrow> nat list \<Rightarrow> nat \<Rightarrow> history \<Rightarrow> bool" where
  "object_ok ts lits o' x \<longleftrightarrow> fst x < length lits \<and> walk ts (lits ! fst x) (snd x) = Some o'"

fun layout_rel :: "(nat \<Rightarrow> byte list) \<Rightarrow> layout_state \<Rightarrow> key_state \<Rightarrow> bool" where
  "layout_rel name (ts, lits, objs) (fss, xs) \<longleftrightarrow>
     tables_ok name ts \<and> literals_ok ts lits fss \<and> list_all2 (object_ok ts lits) objs xs"

lemma object_below:
  assumes "tables_ok name ts" "literals_ok ts lits fss" "object_ok ts lits a x"
  shows "a < length ts" "ly_fields (ts ! a) = object_fields fss x"
  using walk_below [OF assms(1), of "lits ! fst x" "snd x" a] assms(2,3)
  by (auto simp: object_ok_def literals_ok_def object_fields_def)

text \<open>An object that takes a step.\<close>

lemma object_steps:
  assumes rel: "layout_rel name (ts, lits, objs) (fss, xs)" and i: "i < length objs"
    and s: "tables_ok name ts'" "extends ts ts'" "stepped ts' (objs ! i) e = Some a"
  shows "layout_rel name (ts', lits, objs[i := a]) (fss, xs[i := (fst (xs ! i), snd (xs ! i) @ [e])])"
proof -
  have ok: "tables_ok name ts" and lits: "literals_ok ts lits fss" and objs: "list_all2 (object_ok ts lits) objs xs"
    using rel by simp_all
  have lits': "literals_ok ts' lits fss" using lits s(2) by (auto simp: literals_ok_def extends_def)
  have keep: "object_ok ts' lits b x" if "object_ok ts lits b x" for b x
    using walk_extends [OF ok s(2), of "lits ! fst x" "snd x" b] that lits by (auto simp: object_ok_def literals_ok_def)
  have "object_ok ts' lits (objs ! i) (xs ! i)" using keep objs i by (simp add: list_all2_conv_all_nth)
  then have "object_ok ts' lits a (fst (xs ! i), snd (xs ! i) @ [e])"
    using s(3) by (simp add: object_ok_def walk_snoc)
  moreover have "list_all2 (object_ok ts' lits) objs xs" using objs keep by (rule list_all2_mono)
  ultimately have "list_all2 (object_ok ts' lits) (objs[i := a]) (xs[i := (fst (xs ! i), snd (xs ! i) @ [e])])"
    by (intro list_all2_update_cong)
  with s(1) lits' show ?thesis by simp
qed

lemma layout_sim: "layout_rel name s x \<Longrightarrow> layout_rel name (layout_do name op s) (key_do op x)"
proof -
  assume rel': "layout_rel name s x"
  obtain ts lits objs where s: "s = (ts, lits, objs)" by (cases s)
  obtain fss xs where x: "x = (fss, xs)" by (cases x)
  note rel = rel' [unfolded s x]
  have ok: "tables_ok name ts" and lits: "literals_ok ts lits fss" and objs: "list_all2 (object_ok ts lits) objs xs"
    using rel by simp_all
  note lens = list_all2_lengthD [OF objs]
  have obj: "objs ! i < length ts" "ly_fields (ts ! (objs ! i)) = object_fields fss (xs ! i)" if "i < length objs" for i
    using object_below [OF ok lits list_all2_nthD [OF objs that]] by simp_all
  show ?thesis
  proof (cases op)
    case (Literal fs)
    show ?thesis
    proof (cases "distinct fs")
      case True
      define t where "t = \<lparr>ly_keys = map name fs, ly_fields = fs, ly_printed = map printedKey (map name fs), ly_edges = []\<rparr>"
      have at: "(ts @ [t]) ! i = (if i < length ts then ts ! i else t)" if "i \<le> length ts" for i
        using that by (auto simp: nth_append)
      have st: "stepped (ts @ [t]) i e = (if i < length ts then stepped ts i e else None)" if "i \<le> length ts" for i e
        using at [OF that] by (simp add: stepped_def t_def)
      have ext: "extends ts (ts @ [t])" using at st by (simp add: extends_def)
      have "table_ok name (ts @ [t]) i" if "i \<le> length ts" for i
      proof (cases "i < length ts")
        case False
        with at [OF that] st [OF that] True show ?thesis by (simp add: table_ok_def t_def)
      next
        case i: True
        then have "table_ok name ts i" using ok by (simp add: tables_ok_def)
        moreover have "a < length (ts @ [t]) \<and> ly_fields ((ts @ [t]) ! a) = apply_edge e (ly_fields ((ts @ [t]) ! i))"
          if "stepped (ts @ [t]) i e = Some a" for e a
        proof -
          have "stepped ts i e = Some a" using that st [of i e] i by simp
          with stepped_ok [OF ok i this] at [of a] at [of i] i show ?thesis by simp
        qed
        ultimately show ?thesis using at [OF that] i unfolding table_ok_def by simp
      qed
      then have ok': "tables_ok name (ts @ [t])" by (simp add: tables_ok_def less_Suc_eq_le)
      have lits': "literals_ok (ts @ [t]) (lits @ [length ts]) (fss @ [fs])"
        using lits by (auto simp: literals_ok_def nth_append t_def less_Suc_eq)
      have "object_ok (ts @ [t]) (lits @ [length ts]) a y" if "object_ok ts lits a y" for a y
        using walk_extends [OF ok ext, of "lits ! fst y" "snd y" a] that lits
        by (auto simp: object_ok_def literals_ok_def nth_append)
      with objs have "list_all2 (object_ok (ts @ [t]) (lits @ [length ts])) objs xs" by (rule list_all2_mono)
      with ok' lits' True show ?thesis by (simp add: s x Literal NewLayout_def t_def)
    next
      case False
      with rel show ?thesis by (simp add: s x Literal)
    qed
  next
    case (New k)
    have "length lits = length fss" using lits by (simp add: literals_ok_def)
    with rel show ?thesis by (auto simp: s x New object_ok_def intro: list_all2_appendI)
  next
    case (Assign i f)
    show ?thesis
    proof (cases "i < length objs \<and> f \<notin> set (object_fields fss (xs ! i))")
      case True
      with With_ok [OF ok, of "objs ! i" f] obj [of i] obtain ts' a where w: "With ts (objs ! i) f (name f) = Inr (ts', a)"
        "tables_ok name ts'" "extends ts ts'" "stepped ts' (objs ! i) (f, True) = Some a" by metis
      with object_steps [OF rel _ w(2-4)] True lens show ?thesis by (simp add: s x Assign)
    next
      case False
      then have "i < length objs \<Longrightarrow> With ts (objs ! i) f (name f) = Inr (ts, objs ! i)"
        using obj by (simp add: With_def Has_def)
      with rel False lens show ?thesis by (auto simp: s x Assign)
    qed
  next
    case (Delete i f)
    show ?thesis
    proof (cases "i < length objs \<and> f \<in> set (object_fields fss (xs ! i))")
      case True
      with Without_ok [OF ok, of "objs ! i" f] obj [of i] obtain ts' a where w: "Without ts (objs ! i) f = Inr (ts', a)"
        "tables_ok name ts'" "extends ts ts'" "stepped ts' (objs ! i) (f, False) = Some a" by metis
      with object_steps [OF rel _ w(2-4)] True lens show ?thesis by (simp add: s x Delete)
    next
      case False
      then have "i < length objs \<Longrightarrow> Without ts (objs ! i) f = Inr (ts, objs ! i)"
        using obj index_of_None [of "ly_fields (ts ! (objs ! i))" f] by (simp add: Without_def)
      with rel False lens show ?thesis by (auto simp: s x Delete)
    qed
  qed
qed

interpretation layouts: simulation "layout_rel name" "layout_do name" key_do for name
  by unfold_locales (rule layout_sim)

subsection \<open>Properties\<close>

text \<open>
  C36: Whatever a program's objects gain and lose, each one's table lists its keys in JavaScript's
  order: as its literal wrote them, a property gained after all others, one lost gone, and one
  lost and gained again last. And the table is a function of the literal and the steps taken
  since, so objects of one literal that took the same steps share it.
\<close>

theorem layouts_keep_order:
  "\<exists>table. case fold (layout_do name) ops ([], [], []) of (ts, lits, objs) \<Rightarrow>
     case fold key_do ops ([], []) of (fss, xs) \<Rightarrow>
       objs = map table xs \<and>
       map (\<lambda>a. (ly_fields (ts ! a), ly_keys (ts ! a), ly_printed (ts ! a))) objs
       = map (\<lambda>x. let fs = object_fields fss x in (fs, map name fs, map (printedKey \<circ> name) fs)) xs"
proof -
  obtain ts lits objs where s: "fold (layout_do name) ops ([], [], []) = (ts, lits, objs)"
    by (cases "fold (layout_do name) ops ([], [], [])")
  obtain fss xs where x: "fold key_do ops ([], []) = (fss, xs)" by (cases "fold key_do ops ([], [])")
  have "layout_rel name (fold (layout_do name) ops ([], [], [])) (fold key_do ops ([], []))"
    by (rule layouts.history) (simp add: tables_ok_def literals_ok_def)
  then have rel: "tables_ok name ts" "literals_ok ts lits fss" "list_all2 (object_ok ts lits) objs xs"
    by (simp_all add: s x)
  define table where "table = (\<lambda>x. the (walk ts (lits ! fst x) (snd x)))"
  have "objs = map table xs"
    using rel(3) by (induction rule: list_all2_induct) (simp_all add: table_def object_ok_def)
  moreover have "map (\<lambda>a. (ly_fields (ts ! a), ly_keys (ts ! a), ly_printed (ts ! a))) objs
      = map (\<lambda>x. let fs = object_fields fss x in (fs, map name fs, map (printedKey \<circ> name) fs)) xs"
    using rel(3)
  proof (induction rule: list_all2_induct)
    case (Cons a as y ys)
    from object_below [OF rel(1,2) Cons.hyps(1)]
    have "a < length ts" "ly_fields (ts ! a) = object_fields fss y" by simp_all
    moreover have "table_ok name ts a" using rel(1) \<open>a < length ts\<close> by (simp add: tables_ok_def)
    ultimately show ?case using Cons.IH by (simp add: table_ok_def Let_def)
  qed simp
  ultimately show ?thesis by (auto simp: s x)
qed

end
