(* ===== verification/Json.thy ===== *)
theory Json
  imports JsonString Layouts Cloner
begin

text \<open>
  \<open>JSON.stringify\<close>, \<open>backend/runtime/json.go\<close> with \<open>errorJSON\<close> of \<open>error.go\<close>, over the objects and
  arrays of \<open>Cloner\<close> and the key tables of \<open>Layouts\<close>. The encoder keeps the stack of the
  containers being written; one met again throws. The graph may have cycles, so the walk is a
  partial function, and that it returns is part of the theorem.

  The theorem: a value that unfolds into a finite tree is written as ECMA-262 lays that tree
  out, with V8's two departures for the gap; one that does not throws the TypeError that names
  a circle of the graph. Numbers are written by \<open>NumberToString\<close>, which is an argument, the field
  \<open>w_text\<close>. An array of numbers or strings has loops of its own in the code, which write what the
  general one would.
\<close>

subsection \<open>The encoder\<close>

record Error =
  er_kind :: error_kind
  er_message :: "byte list"
  er_code :: "byte list"

text \<open>Where a value's references lead; \<open>w_errors\<close> knows the errors among the shared values.\<close>

record world =
  w_heap :: "node list"
  w_tables :: tables
  w_errors :: "nat \<Rightarrow> Error option"
  w_text :: "f64 \<Rightarrow> byte list"

datatype jsonKey = KName "byte list" | KIndex nat

datatype container = CNode nat | CError nat

record jsonFrame =
  jf_container :: container
  jf_via :: jsonKey

record jsonEncoder =
  je_gap :: JSONGap
  je_buf :: "byte list"
  je_stack :: "jsonFrame list"

text \<open>The TypeError of a cycle, with its message, and the two panics.\<close>

datatype json_error = Circular "byte list" | StringifyUndefined | CannotWrite

fun JSONGapNumber :: "f64 \<Rightarrow> JSONGap" where
  "JSONGapNumber space =
     (let n = f64_min (Fin 10) space
      in if \<not> f64_less (Fin 0) n then \<lparr>gap_indent = [], gap_lines = False\<rparr>
         else \<lparr>gap_indent = replicate (nat (f64_int n)) 0x20, gap_lines = True\<rparr>)"

definition put :: "byte list \<Rightarrow> jsonEncoder \<Rightarrow> jsonEncoder" where
  "put s e = e\<lparr>je_buf := je_buf e @ s\<rparr>"

definition newline :: "jsonEncoder \<Rightarrow> jsonEncoder" where
  "newline e =
     (if \<not> gap_lines (je_gap e) then e
      else put ([0x0A] @ concat (replicate (length (je_stack e)) (gap_indent (je_gap e)))) e)"

definition entry :: "nat \<Rightarrow> jsonEncoder \<Rightarrow> jsonEncoder" where
  "entry i e = newline (if 0 < i then put [0x2C] e else e)"

definition leave :: "byte \<Rightarrow> jsonEncoder \<Rightarrow> jsonEncoder" where
  "leave closing e = put [closing] (newline (e\<lparr>je_stack := butlast (je_stack e)\<rparr>))"

subsection \<open>The message of a cycle\<close>

definition text_bytes :: "string \<Rightarrow> byte list" where
  "text_bytes s = map byte_of s"

fun describe :: "jsonKey \<Rightarrow> byte list" where
  "describe (KIndex i) = text_bytes (''index '' @ Itoa i)"
| "describe (KName k) =
     (if k = [] then text_bytes ''<anonymous>'' else text_bytes ''property '' @ [0x27] @ k @ [0x27])"

fun constructorName :: "world \<Rightarrow> container \<Rightarrow> byte list" where
  "constructorName W (CNode a) =
     (case w_heap W ! a of
        ObjectNode l ts vs \<Rightarrow> [0x27] @ text_bytes ''Object'' @ [0x27]
      | ArrayNode vs \<Rightarrow> [0x27] @ text_bytes ''Array'' @ [0x27])"
| "constructorName W (CError a) = [0x27] @ text_bytes ''Array'' @ [0x27]"

definition step_text :: "world \<Rightarrow> jsonFrame \<Rightarrow> byte list" where
  "step_text W f =
     [0x0A] @ text_bytes ''    |     '' @ describe (jf_via f) @ text_bytes '' -> object with constructor '' @
     constructorName W (jf_container f)"

definition circularMessage :: "world \<Rightarrow> jsonFrame list \<Rightarrow> jsonKey \<Rightarrow> byte list" where
  "circularMessage W path closing =
     (let steps = tl path; first = min (length steps) 2
      in text_bytes ''Converting circular structure to JSON'' @ [0x0A] @
         text_bytes ''    --> starting at object with constructor '' @ constructorName W (jf_container (hd path)) @
         concat (map (step_text W) (take first steps)) @
         (if first + 1 < length steps then [0x0A] @ text_bytes ''    |     ...'' else []) @
         concat (map (step_text W) (drop (max first (length steps - 1)) steps)) @
         [0x0A] @ text_bytes ''    --- '' @ describe closing @ text_bytes '' closes the circle'')"

definition enter :: "world \<Rightarrow> container \<Rightarrow> jsonKey \<Rightarrow> jsonEncoder \<Rightarrow> json_error + jsonEncoder" where
  "enter W c via e =
     (let before = takeWhile (\<lambda>f. jf_container f \<noteq> c) (je_stack e)
      in if length before < length (je_stack e)
         then Inl (Circular (circularMessage W (drop (length before) (je_stack e)) via))
         else Inr (e\<lparr>je_stack := je_stack e @ [\<lparr>jf_container = c, jf_via = via\<rparr>]\<rparr>))"

subsection \<open>Writing a value\<close>

fun isUndefined :: "gvalue \<Rightarrow> bool" where
  "isUndefined GNil = True"
| "isUndefined (GMaybe Undefined) = True"
| "isUndefined _ = False"

definition json_number :: "world \<Rightarrow> f64 \<Rightarrow> byte list" where
  "json_number W f = (if f = NaN \<or> f64_is_inf f then text_bytes ''null'' else w_text W f)"

definition int_text :: "int \<Rightarrow> byte list" where
  "int_text i = text_bytes (if i < 0 then CHR 0x2D # Itoa (nat (- i)) else Itoa (nat i))"

definition key_text :: "byte list \<Rightarrow> jsonEncoder \<Rightarrow> jsonEncoder" where
  "key_text key e =
     (let e = put [0x3A] (e\<lparr>je_buf := appendJSONString (je_buf e) key\<rparr>)
      in if gap_lines (je_gap e) then put [0x20] e else e)"

definition errorJSON :: "world \<Rightarrow> nat \<Rightarrow> Error \<Rightarrow> jsonKey \<Rightarrow> jsonEncoder \<Rightarrow> json_error + jsonEncoder" where
  "errorJSON W a err via e =
     (if er_code err = [] then Inr (put (text_bytes ''{}'') e)
      else map_sum id
             (\<lambda>e. let e = key_text (text_bytes ''code'') (entry 0 (put [0x7B] e))
                  in leave 0x7D (e\<lparr>je_buf := appendJSONString (je_buf e) (er_code err)\<rparr>))
             (enter W (CError a) via e))"

text \<open>What may throw, or never return, then what goes on from it.\<close>

fun chain :: "('e + 'a) option \<Rightarrow> ('a \<Rightarrow> ('e + 'b) option) \<Rightarrow> ('e + 'b) option" where
  "chain None f = None"
| "chain (Some (Inl e)) f = Some (Inl e)"
| "chain (Some (Inr a)) f = f a"

lemma chain_bind: "chain p f = Option.bind p (case_sum (\<lambda>e. Some (Inl e)) f)"
  by (cases p rule: option.exhaust) (auto split: sum.splits)

lemma chain_mono [partial_function_mono]:
  assumes "mono_option F" "\<And>a. mono_option (\<lambda>f. G a f)"
  shows "mono_option (\<lambda>f. chain (F f) (\<lambda>a. G a f))"
proof -
  have "mono_option (\<lambda>f. case_sum (\<lambda>e. Some (Inl e)) (\<lambda>a. G a f) r)" for r
    using assms(2) by (cases r) (simp_all add: option.const_mono)
  then show ?thesis unfolding chain_bind by (intro bind_mono assms(1))
qed

primrec props_loop :: "(gvalue \<Rightarrow> jsonKey \<Rightarrow> jsonEncoder \<Rightarrow> (json_error + jsonEncoder) option)
    \<Rightarrow> (byte list \<times> gvalue) list \<Rightarrow> nat \<Rightarrow> jsonEncoder \<Rightarrow> (json_error + nat \<times> jsonEncoder) option" where
  "props_loop f [] written e = Some (Inr (written, e))"
| "props_loop f (p # ps) written e =
     (if isUndefined (snd p) then props_loop f ps written e
      else chain (f (snd p) (KName (fst p)) (key_text (fst p) (entry written e))) (props_loop f ps (written + 1)))"

primrec items_loop :: "(gvalue \<Rightarrow> jsonKey \<Rightarrow> jsonEncoder \<Rightarrow> (json_error + jsonEncoder) option)
    \<Rightarrow> nat \<Rightarrow> gvalue list \<Rightarrow> jsonEncoder \<Rightarrow> (json_error + jsonEncoder) option" where
  "items_loop f i [] e = Some (Inr e)"
| "items_loop f i (v # vs) e = chain (f v (KIndex i) (entry i e)) (items_loop f (i + 1) vs)"

lemma props_loop_mono [partial_function_mono]:
  assumes "\<And>v k e. mono_option (\<lambda>f. F f v k e)"
  shows "mono_option (\<lambda>f. props_loop (F f) ps n e)"
proof (induction ps arbitrary: n e)
  case (Cons p ps)
  have "mono_option (\<lambda>f. chain (F f (snd p) (KName (fst p)) (key_text (fst p) (entry n e))) (\<lambda>e. props_loop (F f) ps (n + 1) e))"
    by (intro chain_mono assms Cons)
  then show ?case using Cons by (cases "isUndefined (snd p)") simp_all
qed (simp add: option.const_mono)

lemma items_loop_mono [partial_function_mono]:
  assumes "\<And>v k e. mono_option (\<lambda>f. F f v k e)"
  shows "mono_option (\<lambda>f. items_loop (F f) i vs e)"
proof (induction vs arbitrary: i e)
  case (Cons v vs)
  have "mono_option (\<lambda>f. chain (F f v (KIndex i) (entry i e)) (\<lambda>e. items_loop (F f) (i + 1) vs e))"
    by (intro chain_mono assms Cons)
  then show ?case by simp
qed (simp add: option.const_mono)

text \<open>An object's properties, in its key table's order.\<close>

definition properties :: "world \<Rightarrow> nat \<Rightarrow> gvalue list \<Rightarrow> (byte list \<times> gvalue) list" where
  "properties W l vs = zip (ly_keys (w_tables W ! l)) (map ((!) vs) (ly_fields (w_tables W ! l)))"

definition json_undefined :: "jsonKey \<Rightarrow> jsonEncoder \<Rightarrow> json_error + jsonEncoder" where
  "json_undefined via e = (case via of KIndex i \<Rightarrow> Inr (put (text_bytes ''null'') e) | KName k \<Rightarrow> Inl StringifyUndefined)"

partial_function (option) json_value :: "world \<Rightarrow> gvalue \<Rightarrow> jsonKey \<Rightarrow> jsonEncoder \<Rightarrow> (json_error + jsonEncoder) option" where
  "json_value W v via e =
     (case v of
        GNumber f \<Rightarrow> Some (Inr (put (json_number W f) e))
      | GInt i \<Rightarrow> Some (Inr (put (int_text i) e))
      | GBool b \<Rightarrow> Some (Inr (put (text_bytes (if b then ''true'' else ''false'')) e))
      | GString s \<Rightarrow> Some (Inr (e\<lparr>je_buf := appendJSONString (je_buf e) s\<rparr>))
      | GNull \<Rightarrow> Some (Inr (put (text_bytes ''null'') e))
      | GNil \<Rightarrow> Some (json_undefined via e)
      | GShared a \<Rightarrow> (case w_errors W a of Some err \<Rightarrow> Some (errorJSON W a err via e) | None \<Rightarrow> Some (Inl CannotWrite))
      | GRef a \<Rightarrow>
          (case w_heap W ! a of
             ObjectNode l ts vs \<Rightarrow>
               if ly_keys (w_tables W ! l) = [] then Some (Inr (put (text_bytes ''{}'') e))
               else chain (Some (enter W (CNode a) via e)) (\<lambda>e.
                 chain (props_loop (json_value W) (properties W l vs) 0 (put [0x7B] e)) (\<lambda>r. Some (Inr
                   (if fst r = 0 then put [0x7D] ((snd r)\<lparr>je_stack := butlast (je_stack (snd r))\<rparr>) else leave 0x7D (snd r)))))
           | ArrayNode vs \<Rightarrow>
               if vs = [] then Some (Inr (put (text_bytes ''[]'') e))
               else chain (Some (enter W (CNode a) via e)) (\<lambda>e.
                 chain (items_loop (json_value W) 0 vs (put [0x5B] e)) (\<lambda>e. Some (Inr (leave 0x5D e)))))
      | GMaybe m \<Rightarrow>
          (case m of
             Value w \<Rightarrow> json_value W w via e
           | Null \<Rightarrow> Some (Inr (put (text_bytes ''null'') e))
           | Undefined \<Rightarrow> Some (json_undefined via e)))"

definition JSONStringify :: "world \<Rightarrow> gvalue \<Rightarrow> JSONGap \<Rightarrow> (json_error + byte list) option" where
  "JSONStringify W v gap =
     map_option (map_sum id je_buf) (json_value W v (KName []) \<lparr>je_gap = gap, je_buf = [], je_stack = []\<rparr>)"

subsection \<open>The tree a value unfolds into\<close>

text \<open>
  What is written for a scalar, or an array or object of what is written for its parts. A finite
  tree: a value that leads back to itself has none.
\<close>

datatype jtree = JText "byte list" | JArray "jtree list" | JObject "(byte list \<times> jtree) list"

fun scalar_text :: "world \<Rightarrow> gvalue \<Rightarrow> byte list option" where
  "scalar_text W (GNumber f) = Some (json_number W f)"
| "scalar_text W (GInt i) = Some (int_text i)"
| "scalar_text W (GBool b) = Some (text_bytes (if b then ''true'' else ''false''))"
| "scalar_text W (GString s) = Some (appendJSONString [] s)"
| "scalar_text W GNull = Some (text_bytes ''null'')"
| "scalar_text W (GMaybe Null) = Some (text_bytes ''null'')"
| "scalar_text W _ = None"

definition error_tree :: "Error \<Rightarrow> jtree" where
  "error_tree err = JObject (if er_code err = [] then [] else [(text_bytes ''code'', JText (appendJSONString [] (er_code err)))])"

inductive unfolds :: "world \<Rightarrow> gvalue \<Rightarrow> jtree \<Rightarrow> bool" for W where
  Scalar: "scalar_text W v = Some s \<Longrightarrow> unfolds W v (JText s)"
| Held: "unfolds W v t \<Longrightarrow> unfolds W (GMaybe (Value v)) t"
| Err: "w_errors W a = Some err \<Longrightarrow> unfolds W (GShared a) (error_tree err)"
| Object: "w_heap W ! a = ObjectNode l ts vs \<Longrightarrow>
    list_all2 (\<lambda>p q. fst p = fst q \<and> unfolds W (snd p) (snd q))
      (filter (\<lambda>p. \<not> isUndefined (snd p)) (properties W l vs)) qs \<Longrightarrow> unfolds W (GRef a) (JObject qs)"
| Array: "w_heap W ! a = ArrayNode vs \<Longrightarrow>
    list_all2 (\<lambda>v t. isUndefined v \<and> t = JText (text_bytes ''null'') \<or> \<not> isUndefined v \<and> unfolds W v t) vs us \<Longrightarrow>
    unfolds W (GRef a) (JArray us)"

text \<open>
  SerializeJSONObject and SerializeJSONArray: nothing between the brackets of an empty one;
  otherwise the parts with a comma between each two, each on a line of its own if the gap says
  so, one level in.
\<close>

definition line_start :: "JSONGap \<Rightarrow> byte list \<Rightarrow> byte list" where
  "line_start G ind = (if gap_lines G then 0x0A # ind else [])"

definition block :: "JSONGap \<Rightarrow> byte list \<Rightarrow> byte \<Rightarrow> byte \<Rightarrow> byte list list \<Rightarrow> byte list" where
  "block G ind opening closing parts =
     (if parts = [] then [opening, closing]
      else let inner = line_start G (ind @ gap_indent G)
           in [opening] @ inner @ separated ([0x2C] @ inner) parts @ line_start G ind @ [closing])"

definition member_text :: "JSONGap \<Rightarrow> byte list \<Rightarrow> byte list \<Rightarrow> byte list" where
  "member_text G key text = appendJSONString [] key @ [0x3A] @ (if gap_lines G then [0x20] else []) @ text"

fun render :: "JSONGap \<Rightarrow> byte list \<Rightarrow> jtree \<Rightarrow> byte list" where
  "render G ind (JText s) = s"
| "render G ind (JArray us) = block G ind 0x5B 0x5D (map (render G (ind @ gap_indent G)) us)"
| "render G ind (JObject qs) =
     block G ind 0x7B 0x7D (map (\<lambda>q. member_text G (fst q) (render G (ind @ gap_indent G) (snd q))) qs)"

subsection \<open>Circles\<close>

fun target :: "gvalue \<Rightarrow> nat option" where
  "target (GRef a) = Some a"
| "target (GMaybe (Value v)) = target v"
| "target _ = None"

text \<open>What a container holds under a key, and the container that leads to.\<close>

definition holds :: "world \<Rightarrow> nat \<Rightarrow> jsonKey \<Rightarrow> gvalue \<Rightarrow> bool" where
  "holds W a k v \<longleftrightarrow>
     (case w_heap W ! a of
        ObjectNode l ts vs \<Rightarrow> \<exists>key. k = KName key \<and> (key, v) \<in> set (properties W l vs)
      | ArrayNode vs \<Rightarrow> \<exists>i < length vs. k = KIndex i \<and> v = vs ! i)"

fun leads :: "world \<Rightarrow> container \<Rightarrow> jsonKey \<Rightarrow> container \<Rightarrow> bool" where
  "leads W (CNode a) k (CNode b) \<longleftrightarrow> (\<exists>v. holds W a k v \<and> target v = Some b)"
| "leads W _ _ _ \<longleftrightarrow> False"

fun linked :: "world \<Rightarrow> jsonFrame list \<Rightarrow> bool" where
  "linked W (f # g # fs) \<longleftrightarrow> leads W (jf_container f) (jf_via g) (jf_container g) \<and> linked W (g # fs)"
| "linked W _ \<longleftrightarrow> True"

definition circle :: "world \<Rightarrow> jsonFrame list \<Rightarrow> jsonKey \<Rightarrow> bool" where
  "circle W path k \<longleftrightarrow>
     path \<noteq> [] \<and> linked W path \<and> distinct (map jf_container path) \<and>
     leads W (jf_container (last path)) k (jf_container (hd path))"

text \<open>
  Values that lowering lets through: no reference dangles, what is shared is an error, a \<open>Maybe\<close>
  holds no undefined, and a key table names fields of the object it is of.
\<close>

fun value_ok :: "world \<Rightarrow> gvalue \<Rightarrow> bool" where
  "value_ok W (GRef a) \<longleftrightarrow> a < length (w_heap W)"
| "value_ok W (GShared a) \<longleftrightarrow> w_errors W a \<noteq> None"
| "value_ok W (GMaybe (Value v)) \<longleftrightarrow> \<not> isUndefined v \<and> value_ok W v"
| "value_ok W _ \<longleftrightarrow> True"

fun node_fits :: "world \<Rightarrow> node \<Rightarrow> bool" where
  "node_fits W (ObjectNode l ts vs) \<longleftrightarrow>
     l < length (w_tables W) \<and> length (ly_keys (w_tables W ! l)) = length (ly_fields (w_tables W ! l)) \<and>
     list_all (\<lambda>i. i < length vs) (ly_fields (w_tables W ! l)) \<and> list_all (value_ok W) vs"
| "node_fits W (ArrayNode vs) \<longleftrightarrow> list_all (value_ok W) vs"

definition world_ok :: "world \<Rightarrow> bool" where
  "world_ok W \<longleftrightarrow> list_all (node_fits W) (w_heap W)"

subsection \<open>What the encoder writes\<close>

definition indentation :: "jsonEncoder \<Rightarrow> byte list" where
  "indentation e = concat (replicate (length (je_stack e)) (gap_indent (je_gap e)))"

lemma put_simps [simp]:
  "je_gap (put s e) = je_gap e" "je_stack (put s e) = je_stack e" "je_buf (put s e) = je_buf e @ s"
  "put [] e = e" "put u (put s e) = put (s @ u) e" "indentation (put s e) = indentation e"
  by (simp_all add: put_def indentation_def)

lemma entry_put: "entry n e = put ((if 0 < n then [0x2C] else []) @ line_start (je_gap e) (indentation e)) e"
  by (simp add: entry_def newline_def line_start_def indentation_def)

lemma appendJSONString_put: "e\<lparr>je_buf := appendJSONString (je_buf e) s\<rparr> = put (appendJSONString [] s) e"
  by (simp add: put_def appendJSONString_text)

lemma key_text_put: "key_text key e = put (member_text (je_gap e) key []) e"
  by (simp add: key_text_def member_text_def appendJSONString_put Let_def)

definition push :: "container \<Rightarrow> jsonKey \<Rightarrow> jsonEncoder \<Rightarrow> jsonEncoder" where
  "push c via e = e\<lparr>je_stack := je_stack e @ [\<lparr>jf_container = c, jf_via = via\<rparr>]\<rparr>"

lemma push_simps [simp]:
  "je_gap (push c via e) = je_gap e" "je_buf (push c via e) = je_buf e"
  "je_stack (push c via e) = je_stack e @ [\<lparr>jf_container = c, jf_via = via\<rparr>]"
  "indentation (push c via e) = indentation e @ gap_indent (je_gap e)"
  by (simp_all add: push_def indentation_def replicate_append_same [symmetric])

lemma leave_push:
  "leave c (put s (push b via e)) = put (s @ line_start (je_gap e) (indentation e) @ [c]) e"
  by (simp add: leave_def newline_def put_def push_def line_start_def indentation_def)

lemma pop_push: "(put s (push b via e))\<lparr>je_stack := je_stack e\<rparr> = put s e"
  by (simp add: put_def push_def)

lemma enter_push: "c \<notin> jf_container ` set (je_stack e) \<Longrightarrow> enter W c via e = Inr (push c via e)"
proof -
  assume "c \<notin> jf_container ` set (je_stack e)"
  then have t: "takeWhile (\<lambda>f. jf_container f \<noteq> c) (je_stack e) = je_stack e" by (auto simp: takeWhile_eq_all_conv)
  show ?thesis unfolding enter_def Let_def t by (simp add: push_def)
qed

text \<open>The parts of a block from the \<open>n\<close>th on.\<close>

definition parts_text :: "JSONGap \<Rightarrow> byte list \<Rightarrow> nat \<Rightarrow> byte list list \<Rightarrow> byte list" where
  "parts_text G ind n parts =
     concat (map (\<lambda>(i, part). (if 0 < i then [0x2C] else []) @ line_start G ind @ part) (enumerate n parts))"

lemma parts_text_simps [simp]:
  "parts_text G ind n [] = []"
  "parts_text G ind n (p # ps) = (if 0 < n then [0x2C] else []) @ line_start G ind @ p @ parts_text G ind (Suc n) ps"
  by (simp_all add: parts_text_def)

lemma parts_text_after: "0 < n \<Longrightarrow> parts_text G ind n ps = concat (map ((@) ([0x2C] @ line_start G ind)) ps)"
  by (induction ps arbitrary: n) simp_all

lemma block_parts:
  "parts \<noteq> [] \<Longrightarrow>
   block G ind c d parts = [c] @ parts_text G (ind @ gap_indent G) 0 parts @ line_start G ind @ [d]"
  by (cases parts) (simp_all add: block_def Let_def separated_Cons parts_text_after)

subsection \<open>A finite tree is written\<close>

inductive_cases unfolds_GRef: "unfolds W (GRef a) t"

lemma unfolds_not_undefined: "unfolds W v t \<Longrightarrow> \<not> isUndefined v"
  by (induction rule: unfolds.induct) (auto elim: isUndefined.elims)

lemma list_all2_unique:
  assumes "list_all2 (\<lambda>x y. P x y \<and> (\<forall>z. Q x z \<longrightarrow> y = z)) xs ys" "list_all2 Q xs zs"
  shows "ys = zs"
  using assms by (induction arbitrary: zs rule: list_all2_induct) (auto simp: list_all2_Cons1)

lemma unfolds_unique: "unfolds W v t \<Longrightarrow> unfolds W v u \<Longrightarrow> t = u"
proof (induction arbitrary: u rule: unfolds.induct)
  case (Scalar v s)
  from Scalar(2,1) show ?case by cases auto
next
  case (Held v t)
  from Held.prems Held.IH show ?case by cases auto
next
  case (Err a err)
  from Err(2,1) show ?case by cases auto
next
  case (Object a l ts vs qs)
  from Object.prems Object.hyps obtain rs where u: "u = JObject rs"
    "list_all2 (\<lambda>p q. fst p = fst q \<and> unfolds W (snd p) (snd q))
      (filter (\<lambda>p. \<not> isUndefined (snd p)) (properties W l vs)) rs"
    by (auto elim: unfolds_GRef)
  have "list_all2 (\<lambda>p q. True \<and> (\<forall>r. fst p = fst r \<and> unfolds W (snd p) (snd r) \<longrightarrow> q = r))
      (filter (\<lambda>p. \<not> isUndefined (snd p)) (properties W l vs)) qs"
    using Object.IH by (rule list_all2_mono) (auto intro: prod_eqI)
  from list_all2_unique [OF this u(2)] u(1) show ?case by simp
next
  case (Array a vs us)
  from Array.prems Array.hyps obtain rs where u: "u = JArray rs"
    "list_all2 (\<lambda>v t. isUndefined v \<and> t = JText (text_bytes ''null'') \<or> \<not> isUndefined v \<and> unfolds W v t) vs rs"
    by (auto elim: unfolds_GRef)
  have "list_all2 (\<lambda>v t. True \<and> (\<forall>r. isUndefined v \<and> r = JText (text_bytes ''null'') \<or> \<not> isUndefined v \<and> unfolds W v r \<longrightarrow> t = r)) vs us"
    using Array.IH by (rule list_all2_mono) auto
  from list_all2_unique [OF this u(2)] u(1) show ?case by simp
qed

text \<open>The containers being written unfold into larger trees than \<open>t\<close>, so none of them unfolds into \<open>t\<close>.\<close>

definition above :: "world \<Rightarrow> jsonFrame list \<Rightarrow> jtree \<Rightarrow> bool" where
  "above W st t \<longleftrightarrow> (\<forall>f \<in> set st. \<exists>a u. jf_container f = CNode a \<and> unfolds W (GRef a) u \<and> size t < size u)"

lemma above_enter: "above W (je_stack e) t \<Longrightarrow> unfolds W (GRef a) t \<Longrightarrow> enter W (CNode a) via e = Inr (push (CNode a) via e)"
  by (rule enter_push) (fastforce simp: above_def dest: unfolds_unique)

lemma above_push:
  "above W (je_stack e) t \<Longrightarrow> unfolds W (GRef a) t \<Longrightarrow> size u < size t \<Longrightarrow> above W (je_stack (push (CNode a) via e)) u"
  by (fastforce simp: above_def)

lemma size_array_part: "u \<in> set us \<Longrightarrow> size u < size (JArray us)"
  by (induction us) auto

lemma size_object_part: "q \<in> set qs \<Longrightarrow> size (snd q) < size (JObject qs)"
  by (induction qs) auto

definition writes_tree :: "world \<Rightarrow> gvalue \<Rightarrow> jtree \<Rightarrow> bool" where
  "writes_tree W v t \<longleftrightarrow>
     (\<forall>via e. above W (je_stack e) t \<longrightarrow>
        json_value W v via e = Some (Inr (put (render (je_gap e) (indentation e) t) e)))"

lemma undefined_item: "isUndefined v \<Longrightarrow> json_value W v (KIndex i) e = Some (Inr (put (text_bytes ''null'') e))"
  by (cases v rule: isUndefined.cases) (simp_all add: json_value.simps json_undefined_def)

lemma items_written:
  assumes "list_all2 (\<lambda>v t. isUndefined v \<and> t = JText (text_bytes ''null'') \<or> \<not> isUndefined v \<and> writes_tree W v t) vs us"
    "\<forall>u \<in> set us. above W (je_stack e) u"
  shows "items_loop (json_value W) i vs e
    = Some (Inr (put (parts_text (je_gap e) (indentation e) i (map (render (je_gap e) (indentation e)) us)) e))"
  using assms
proof (induction arbitrary: i e rule: list_all2_induct)
  case (Cons v vs u us)
  have "json_value W v (KIndex i) (entry i e) = Some (Inr (put (render (je_gap e) (indentation e) u) (entry i e)))"
    using Cons.hyps(1) Cons.prems by (auto simp: writes_tree_def undefined_item entry_put)
  then show ?case using Cons.IH Cons.prems by (simp add: entry_put)
qed simp

lemma props_written:
  assumes "list_all2 (\<lambda>p q. fst p = fst q \<and> writes_tree W (snd p) (snd q)) (filter (\<lambda>p. \<not> isUndefined (snd p)) ps) qs"
    "\<forall>q \<in> set qs. above W (je_stack e) (snd q)"
  shows "props_loop (json_value W) ps n e
    = Some (Inr (n + length qs, put (parts_text (je_gap e) (indentation e) n
        (map (\<lambda>q. member_text (je_gap e) (fst q) (render (je_gap e) (indentation e) (snd q))) qs)) e))"
  using assms
proof (induction ps arbitrary: n e qs)
  case (Cons p ps)
  show ?case
  proof (cases "isUndefined (snd p)")
    case False
    with Cons.prems(1) obtain q rs where q: "qs = q # rs" "fst p = fst q" "writes_tree W (snd p) (snd q)"
      "list_all2 (\<lambda>p q. fst p = fst q \<and> writes_tree W (snd p) (snd q)) (filter (\<lambda>p. \<not> isUndefined (snd p)) ps) rs"
      by (auto simp: list_all2_Cons1)
    have "json_value W (snd p) (KName (fst p)) (key_text (fst p) (entry n e))
      = Some (Inr (put (render (je_gap e) (indentation e) (snd q)) (key_text (fst p) (entry n e))))"
      using q(1,3) Cons.prems(2) by (simp add: writes_tree_def entry_put key_text_put)
    then show ?thesis
      using False q(1,2) Cons.IH [OF q(4)] Cons.prems(2) by (simp add: entry_put key_text_put member_text_def)
  qed (use Cons in simp)
qed simp

lemma text_brackets: "text_bytes ''{}'' = [0x7B, 0x7D]" "text_bytes ''[]'' = [0x5B, 0x5D]"
  by (simp_all add: text_bytes_def byte_of_def)

lemma unfolds_written: "unfolds W v t \<Longrightarrow> writes_tree W v t"
proof (induction rule: unfolds.induct)
  case (Scalar v s)
  then show ?case
    by (cases "(W, v)" rule: scalar_text.cases) (auto simp: writes_tree_def json_value.simps appendJSONString_put)
next
  case (Held v t)
  then show ?case unfolding writes_tree_def by (subst json_value.simps) simp
next
  case (Err a err)
  show ?case
    unfolding writes_tree_def
  proof (intro allI impI)
    fix via and e :: jsonEncoder
    assume "above W (je_stack e) (error_tree err)"
    then have "enter W (CError a) via e = Inr (push (CError a) via e)"
      by (intro enter_push) (fastforce simp: above_def)
    then have "errorJSON W a err via e = Inr (put (render (je_gap e) (indentation e) (error_tree err)) e)"
      by (cases "er_code err = []") (simp_all add: errorJSON_def error_tree_def text_brackets block_def entry_put key_text_put
        appendJSONString_put leave_push member_text_def)
    then show "json_value W (GShared a) via e = Some (Inr (put (render (je_gap e) (indentation e) (error_tree err)) e))"
      using Err by (subst json_value.simps) simp
  qed
next
  case (Object a l ts vs qs)
  have u: "unfolds W (GRef a) (JObject qs)"
    using Object.hyps Object.IH by (auto intro!: unfolds.Object elim: list_all2_mono)
  have w: "list_all2 (\<lambda>p q. fst p = fst q \<and> writes_tree W (snd p) (snd q)) (filter (\<lambda>p. \<not> isUndefined (snd p)) (properties W l vs)) qs"
    using Object.IH by (rule list_all2_mono) auto
  show ?case
    unfolding writes_tree_def
  proof (intro allI impI)
    fix via and e :: jsonEncoder
    assume ab: "above W (je_stack e) (JObject qs)"
    show "json_value W (GRef a) via e = Some (Inr (put (render (je_gap e) (indentation e) (JObject qs)) e))"
    proof (cases "ly_keys (w_tables W ! l) = []")
      case True
      then have "qs = []" using w by (simp add: properties_def)
      with True Object.hyps show ?thesis
        by (subst json_value.simps) (simp add: block_def text_brackets)
    next
      case False
      have sub: "\<forall>q \<in> set qs. above W (je_stack (put [0x7B] (push (CNode a) via e))) (snd q)"
        using above_push [OF ab u] size_object_part by fastforce
      note props_written [OF w sub, of 0] above_enter [OF ab u]
      then show ?thesis
        using False Object.hyps
        by (subst json_value.simps) (cases "qs = []"; simp add: block_parts leave_push pop_push block_def [of _ _ _ _ "[]"])
    qed
  qed
next
  case (Array a vs us)
  have u: "unfolds W (GRef a) (JArray us)"
    using Array.hyps Array.IH by (auto intro!: unfolds.Array elim!: list_all2_mono)
  have w: "list_all2 (\<lambda>v t. isUndefined v \<and> t = JText (text_bytes ''null'') \<or> \<not> isUndefined v \<and> writes_tree W v t) vs us"
    using Array.IH by (rule list_all2_mono) auto
  show ?case
    unfolding writes_tree_def
  proof (intro allI impI)
    fix via and e :: jsonEncoder
    assume ab: "above W (je_stack e) (JArray us)"
    show "json_value W (GRef a) via e = Some (Inr (put (render (je_gap e) (indentation e) (JArray us)) e))"
    proof (cases "vs = []")
      case True
      with w Array.hyps show ?thesis
        by (subst json_value.simps) (simp add: block_def text_brackets)
    next
      case False
      have sub: "\<forall>u \<in> set us. above W (je_stack (put [0x5B] (push (CNode a) via e))) u"
        using above_push [OF ab u] size_array_part by fastforce
      have "us \<noteq> []" using False w by auto
      then show ?thesis
        using False Array.hyps above_enter [OF ab u] items_written [OF w sub, of 0]
        by (subst json_value.simps) (simp add: block_parts leave_push)
    qed
  qed
qed

subsection \<open>Every walk returns\<close>

text \<open>
  The containers on the stack follow from one another, and the last one leads under \<open>via\<close> to
  where \<open>v\<close> does.
\<close>

definition leads_to :: "world \<Rightarrow> jsonFrame list \<Rightarrow> jsonKey \<Rightarrow> gvalue \<Rightarrow> bool" where
  "leads_to W st via v \<longleftrightarrow>
     linked W st \<and> distinct (map jf_container st) \<and>
     (\<forall>f \<in> set st. \<exists>a < length (w_heap W). jf_container f = CNode a) \<and>
     (st \<noteq> [] \<longrightarrow> (\<exists>a u. jf_container (last st) = CNode a \<and> holds W a via u \<and> target u = target v))"

lemma linked_append: "linked W (fs @ gs) \<Longrightarrow> linked W gs"
  by (induction fs) (auto elim: linked.elims)

lemma linked_snoc: "linked W (fs @ [f]) \<longleftrightarrow> linked W fs \<and> (fs \<noteq> [] \<longrightarrow> leads W (jf_container (last fs)) (jf_via f) (jf_container f))"
  by (induction W fs rule: linked.induct) auto

lemma enter_leads:
  assumes "leads_to W (je_stack e) via (GRef a)"
  shows "(\<exists>path. circle W path via \<and> enter W (CNode a) via e = Inl (Circular (circularMessage W path via))) \<or>
    (CNode a \<notin> jf_container ` set (je_stack e) \<and> enter W (CNode a) via e = Inr (push (CNode a) via e))"
proof (cases "CNode a \<in> jf_container ` set (je_stack e)")
  case True
  define before path where d: "before = takeWhile (\<lambda>f. jf_container f \<noteq> CNode a) (je_stack e)"
    "path = dropWhile (\<lambda>f. jf_container f \<noteq> CNode a) (je_stack e)"
  have st: "je_stack e = before @ path" by (simp add: d)
  have p: "path \<noteq> []" using True by (auto simp: d dropWhile_eq_Nil_conv)
  then have h: "jf_container (hd path) = CNode a" unfolding d by (rule hd_dropWhile [THEN notnotD])
  have "circle W path via"
    using assms p h linked_append [of W before path] by (fastforce simp: circle_def leads_to_def st)
  moreover have "enter W (CNode a) via e = Inl (Circular (circularMessage W path via))"
    using p by (simp add: enter_def Let_def d(1) [symmetric]) (simp add: st)
  ultimately show ?thesis by blast
next
  case False
  with enter_push [OF False] show ?thesis by blast
qed

lemma holds_fits:
  assumes "world_ok W" "a < length (w_heap W)" "holds W a k v"
  shows "value_ok W v"
proof -
  have n: "node_fits W (w_heap W ! a)" using assms(1,2) by (simp add: world_ok_def list_all_length)
  show ?thesis
  proof (cases "w_heap W ! a")
    case (ObjectNode l ts vs)
    with assms(3) obtain key where "(key, v) \<in> set (properties W l vs)" by (auto simp: holds_def)
    then have "v \<in> (!) vs ` set (ly_fields (w_tables W ! l))" by (auto simp: properties_def dest: set_zip_rightD)
    with n ObjectNode show ?thesis by (auto simp: list_all_iff)
  next
    case (ArrayNode vs)
    with assms(3) n show ?thesis by (auto simp: holds_def list_all_length)
  qed
qed

lemma leads_to_held:
  assumes "leads_to W (je_stack e) via (GRef a)" "CNode a \<notin> jf_container ` set (je_stack e)" "a < length (w_heap W)" "holds W a k v"
  shows "leads_to W (je_stack (push (CNode a) via e)) k v"
  using assms by (auto simp: leads_to_def linked_snoc)

text \<open>What a walk gives: it throws for a circle, or leaves the stack as it was, and the value has a tree.\<close>

definition outcome_ok :: "world \<Rightarrow> jsonEncoder \<Rightarrow> bool \<Rightarrow> json_error + jsonEncoder \<Rightarrow> bool" where
  "outcome_ok W e fin r \<longleftrightarrow>
     (case r of
        Inl er \<Rightarrow> \<exists>path k. circle W path k \<and> er = Circular (circularMessage W path k)
      | Inr e' \<Rightarrow> je_stack e' = je_stack e \<and> fin)"

definition unfolds_some :: "world \<Rightarrow> gvalue \<Rightarrow> bool" where
  "unfolds_some W v \<longleftrightarrow> isUndefined v \<or> (\<exists>t. unfolds W v t)"

lemma items_return:
  assumes "\<And>j e'. j < length vs \<Longrightarrow> je_stack e' = je_stack e \<Longrightarrow>
    \<exists>r. json_value W (vs ! j) (KIndex (i + j)) e' = Some r \<and> outcome_ok W e' (unfolds_some W (vs ! j)) r"
  shows "\<exists>r. items_loop (json_value W) i vs e = Some r \<and> outcome_ok W e (list_all (unfolds_some W) vs) r"
  using assms
proof (induction vs arbitrary: i e)
  case (Cons v vs)
  obtain r where r: "json_value W v (KIndex i) (entry i e) = Some r" "outcome_ok W (entry i e) (unfolds_some W v) r"
    using Cons.prems [of 0 "entry i e"] by (auto simp: entry_put)
  show ?case
  proof (cases r)
    case (Inr e')
    then have st: "je_stack e' = je_stack e" "unfolds_some W v" using r(2) by (simp_all add: outcome_ok_def entry_put)
    have "\<exists>r. items_loop (json_value W) (Suc i) vs e' = Some r \<and> outcome_ok W e' (list_all (unfolds_some W) vs) r"
      using Cons.prems [of "Suc _"] st(1) by (intro Cons.IH) auto
    with r(1) Inr st show ?thesis by (auto simp: outcome_ok_def split: sum.splits)
  qed (use r in \<open>simp add: outcome_ok_def\<close>)
qed (simp add: outcome_ok_def)

definition uncounted :: "'e + nat \<times> 'a \<Rightarrow> 'e + 'a" where
  "uncounted r = map_sum id snd r"

lemma uncounted_simps [simp]: "uncounted (Inl e) = Inl e" "uncounted (Inr (n, a)) = Inr a"
  by (simp_all add: uncounted_def)

lemma props_return:
  assumes "\<And>p e'. p \<in> set ps \<Longrightarrow> \<not> isUndefined (snd p) \<Longrightarrow> je_stack e' = je_stack e \<Longrightarrow>
    \<exists>r. json_value W (snd p) (KName (fst p)) e' = Some r \<and> outcome_ok W e' (unfolds_some W (snd p)) r"
  shows "\<exists>r. props_loop (json_value W) ps n e = Some r \<and>
    outcome_ok W e (\<forall>p \<in> set ps. unfolds_some W (snd p)) (uncounted r)"
  using assms
proof (induction ps arbitrary: n e)
  case (Cons p ps)
  show ?case
  proof (cases "isUndefined (snd p)")
    case True
    have "\<exists>r. props_loop (json_value W) ps n e = Some r \<and>
      outcome_ok W e (\<forall>p \<in> set ps. unfolds_some W (snd p)) (uncounted r)"
      using Cons.prems by (intro Cons.IH) auto
    moreover have "unfolds_some W (snd p)" using True by (simp add: unfolds_some_def)
    ultimately show ?thesis using True by simp
  next
    case False
    let ?e = "key_text (fst p) (entry n e)"
    obtain r where r: "json_value W (snd p) (KName (fst p)) ?e = Some r" "outcome_ok W ?e (unfolds_some W (snd p)) r"
      using Cons.prems [of p ?e] False by (auto simp: entry_put key_text_put)
    show ?thesis
    proof (cases r)
      case (Inr e')
      then have st: "je_stack e' = je_stack e" "unfolds_some W (snd p)"
        using r(2) by (simp_all add: outcome_ok_def entry_put key_text_put)
      have "\<exists>r. props_loop (json_value W) ps (Suc n) e' = Some r \<and>
        outcome_ok W e' (\<forall>p \<in> set ps. unfolds_some W (snd p)) (uncounted r)"
        using Cons.prems st(1) by (intro Cons.IH) auto
      with False r(1) Inr st show ?thesis by (auto simp: outcome_ok_def split: sum.splits)
    qed (use False r in \<open>simp add: outcome_ok_def\<close>)
  qed
qed (simp add: outcome_ok_def)

definition room :: "world \<Rightarrow> jsonEncoder \<Rightarrow> nat" where
  "room W e = card ({..<length (w_heap W)} - {a. CNode a \<in> jf_container ` set (je_stack e)})"

lemma room_push:
  assumes "a < length (w_heap W)" "CNode a \<notin> jf_container ` set (je_stack e)"
  shows "room W (push (CNode a) via e) < room W e"
  unfolding room_def using assms by (intro psubset_card_mono) (auto simp: image_iff)

lemma room_stack: "je_stack e' = je_stack e \<Longrightarrow> room W e' = room W e"
  by (simp add: room_def)

lemma unfolds_object:
  assumes "w_heap W ! a = ObjectNode l ts vs" "\<forall>p \<in> set (properties W l vs). unfolds_some W (snd p)"
  shows "\<exists>t. unfolds W (GRef a) t"
proof -
  let ?ps = "filter (\<lambda>p. \<not> isUndefined (snd p)) (properties W l vs)"
  have "\<exists>qs. list_all2 (\<lambda>p q. fst p = fst q \<and> unfolds W (snd p) (snd q)) ps qs"
    if "\<forall>p \<in> set ps. \<exists>t. unfolds W (snd p) t" for ps
    using that
  proof (induction ps)
    case (Cons p ps)
    then obtain t qs where "unfolds W (snd p) t" "list_all2 (\<lambda>p q. fst p = fst q \<and> unfolds W (snd p) (snd q)) ps qs" by auto
    then have "list_all2 (\<lambda>p q. fst p = fst q \<and> unfolds W (snd p) (snd q)) (p # ps) ((fst p, t) # qs)" by simp
    then show ?case ..
  qed (rule exI [of _ "[]"], simp)
  moreover have "\<forall>p \<in> set ?ps. \<exists>t. unfolds W (snd p) t" using assms(2) by (fastforce simp: unfolds_some_def)
  ultimately obtain qs where "list_all2 (\<lambda>p q. fst p = fst q \<and> unfolds W (snd p) (snd q)) ?ps qs" by blast
  with assms(1) show ?thesis by (blast intro: unfolds.Object)
qed

lemma unfolds_array:
  assumes "w_heap W ! a = ArrayNode vs" "list_all (unfolds_some W) vs"
  shows "\<exists>t. unfolds W (GRef a) t"
proof -
  let ?R = "\<lambda>v t. isUndefined v \<and> t = JText (text_bytes ''null'') \<or> \<not> isUndefined v \<and> unfolds W v t"
  from assms(2) have "\<exists>us. list_all2 ?R vs us"
  proof (induction vs)
    case (Cons v vs)
    then obtain t us where "?R v t" "list_all2 ?R vs us" by (auto simp: unfolds_some_def)
    then have "list_all2 ?R (v # vs) (t # us)" by simp
    then show ?case ..
  qed (rule exI [of _ "[]"], simp)
  with assms(1) show ?thesis by (blast intro: unfolds.Array)
qed

lemma scalar_unfolds: "scalar_text W v \<noteq> None \<Longrightarrow> Ex (unfolds W v)"
  by (auto intro: unfolds.Scalar)

lemma json_returns:
  assumes "world_ok W"
  shows "value_ok W v \<Longrightarrow> leads_to W (je_stack e) via v \<Longrightarrow> \<not> isUndefined v \<or> (\<exists>i. via = KIndex i) \<Longrightarrow>
    \<exists>r. json_value W v via e = Some r \<and> outcome_ok W e (unfolds_some W v) r"
proof (induction "room W e" arbitrary: v via e rule: less_induct)
  case less
  note IH = less.hyps
  from less.prems show ?case
  proof (induction v)
    case (GShared a)
    then obtain err where err: "w_errors W a = Some err" by auto
    have "CError a \<notin> jf_container ` set (je_stack e)" using GShared.prems(2) by (fastforce simp: leads_to_def)
    then have "\<exists>e'. errorJSON W a err via e = Inr e' \<and> je_stack e' = je_stack e"
      by (simp add: errorJSON_def enter_push entry_put key_text_put appendJSONString_put leave_push)
    moreover have "unfolds_some W (GShared a)" using unfolds.Err [of W, OF err] by (auto simp: unfolds_some_def)
    ultimately show ?case using err by (subst json_value.simps) (auto simp: outcome_ok_def)
  next
    case (GMaybe m)
    show ?case
    proof (cases m)
      case (Value w)
      have "leads_to W (je_stack e) via w" using GMaybe.prems(2) Value by (simp add: leads_to_def)
      then have "\<exists>r. json_value W w via e = Some r \<and> outcome_ok W e (unfolds_some W w) r"
        using GMaybe Value by (intro GMaybe.IH [of w]) auto
      moreover have "unfolds_some W (GMaybe m) \<longleftrightarrow> unfolds_some W w"
        using GMaybe.prems(1) Value by (auto simp: unfolds_some_def intro: unfolds.Held elim: unfolds.cases)
      ultimately show ?thesis unfolding Value by (subst json_value.simps) simp
    qed (use GMaybe.prems(3) unfolds.Scalar [of W "GMaybe Null"] in
        \<open>auto simp: json_value.simps json_undefined_def outcome_ok_def unfolds_some_def\<close>)
  next
    case (GRef a)
    then have a: "a < length (w_heap W)" by simp
    show ?case
    proof (cases "enter W (CNode a) via e")
      case (Inl er)
      with enter_leads [OF GRef.prems(2)] obtain path where
        c: "circle W path via" "enter W (CNode a) via e = Inl (Circular (circularMessage W path via))" by auto
      have "\<exists>t. unfolds W (GRef a) t"
        if "ly_keys (w_tables W ! l) = []" "w_heap W ! a = ObjectNode l ts vs" for l ts vs
        using unfolds_object [OF that(2)] that(1) by (simp add: properties_def)
      moreover have "\<exists>t. unfolds W (GRef a) t" if "w_heap W ! a = ArrayNode []"
        using unfolds_array [OF that] by simp
      ultimately show ?thesis
        using c by (subst json_value.simps) (auto simp: outcome_ok_def unfolds_some_def split: node.split)
    next
      case (Inr e1)
      with enter_leads [OF GRef.prems(2)]
      have n: "CNode a \<notin> jf_container ` set (je_stack e)" "enter W (CNode a) via e = Inr (push (CNode a) via e)" by auto
      have part: "\<exists>r. json_value W w k e' = Some r \<and> outcome_ok W e' (unfolds_some W w) r"
        if "je_stack e' = je_stack (put s (push (CNode a) via e))" "holds W a k w" "\<not> isUndefined w \<or> (\<exists>i. k = KIndex i)" for e' w k s
      proof (rule IH)
        show "room W e' < room W e" using room_push [OF a n(1)] room_stack [of e' "push (CNode a) via e"] that(1) by simp
        show "value_ok W w" using holds_fits [OF assms a that(2)] .
        show "leads_to W (je_stack e') k w" using leads_to_held [OF GRef.prems(2) n(1) a that(2)] that(1) by simp
      qed (fact that(3))
      show ?thesis
      proof (cases "w_heap W ! a")
        case (ObjectNode l ts vs)
        let ?e = "put [0x7B] (push (CNode a) via e)"
        have "\<exists>r. props_loop (json_value W) (properties W l vs) 0 ?e = Some r \<and>
          outcome_ok W ?e (\<forall>p \<in> set (properties W l vs). unfolds_some W (snd p)) (uncounted r)"
          using ObjectNode by (intro props_return part) (auto simp: holds_def)
        then obtain r where r: "props_loop (json_value W) (properties W l vs) 0 ?e = Some r"
          "outcome_ok W ?e (\<forall>p \<in> set (properties W l vs). unfolds_some W (snd p)) (uncounted r)" by blast
        have t: "unfolds_some W (GRef a)" if "\<forall>p \<in> set (properties W l vs). unfolds_some W (snd p)"
          using unfolds_object [OF ObjectNode that] by (simp add: unfolds_some_def)
        show ?thesis
        proof (cases "ly_keys (w_tables W ! l) = []")
          case True
          then show ?thesis
            using ObjectNode t by (subst json_value.simps) (simp add: outcome_ok_def properties_def)
        next
          case False
          then show ?thesis
            using ObjectNode t n(2) r by (subst json_value.simps) (cases r; auto simp: outcome_ok_def leave_def newline_def)
        qed
      next
        case (ArrayNode vs)
        let ?e = "put [0x5B] (push (CNode a) via e)"
        have "\<exists>r. items_loop (json_value W) 0 vs ?e = Some r \<and> outcome_ok W ?e (list_all (unfolds_some W) vs) r"
          using ArrayNode by (intro items_return part) (auto simp: holds_def)
        then obtain r where r: "items_loop (json_value W) 0 vs ?e = Some r"
          "outcome_ok W ?e (list_all (unfolds_some W) vs) r" by blast
        have t: "unfolds_some W (GRef a)" if "list_all (unfolds_some W) vs"
          using unfolds_array [OF ArrayNode that] by (simp add: unfolds_some_def)
        show ?thesis
        proof (cases "vs = []")
          case True
          then show ?thesis using ArrayNode t by (subst json_value.simps) (simp add: outcome_ok_def)
        next
          case False
          then show ?thesis
            using ArrayNode t n(2) r by (subst json_value.simps) (cases r; auto simp: outcome_ok_def leave_def newline_def)
        qed
      qed
    qed
  qed (auto simp: json_value.simps json_undefined_def outcome_ok_def unfolds_some_def appendJSONString_put intro!: scalar_unfolds)
qed

subsection \<open>Properties\<close>

text \<open>
  C34: \<open>JSON.stringify\<close> returns, on any graph. A value that unfolds into a finite tree, unique,
  is written as that tree, entries laid out by the gap; one that does not throws the TypeError
  that describes a circle of the graph, each container on it leading to the next under the key
  named, and the last back to the first.
\<close>

theorem stringify_tree:
  assumes "world_ok W" "value_ok W v" "\<not> isUndefined v"
  shows "(\<exists>t. (\<forall>u. unfolds W v u \<longleftrightarrow> u = t) \<and> JSONStringify W v gap = Some (Inr (render gap [] t))) \<or>
    (\<nexists>t. unfolds W v t) \<and>
      (\<exists>path k. circle W path k \<and> JSONStringify W v gap = Some (Inl (Circular (circularMessage W path k))))"
proof -
  let ?e = "\<lparr>je_gap = gap, je_buf = [], je_stack = []\<rparr>"
  show ?thesis
  proof (cases "\<exists>t. unfolds W v t")
    case True
    then obtain t where t: "unfolds W v t" ..
    have "unfolds W v u \<longleftrightarrow> u = t" for u using t unfolds_unique by blast
    moreover
    have "json_value W v (KName []) ?e = Some (Inr (put (render gap [] t) ?e))"
      using unfolds_written [OF t] by (simp add: writes_tree_def above_def indentation_def)
    ultimately show ?thesis by (intro disjI1 exI [of _ t]) (simp add: JSONStringify_def)
  next
    case False
    have "leads_to W (je_stack ?e) (KName []) v" by (simp add: leads_to_def)
    then obtain r where "json_value W v (KName []) ?e = Some r" "outcome_ok W ?e (unfolds_some W v) r"
      using json_returns [OF assms(1,2)] assms(3) by blast
    with False assms(3) show ?thesis
      by (cases r) (auto simp: JSONStringify_def outcome_ok_def unfolds_some_def)
  qed
qed

text \<open>\<open>{"a": [1, xs], "b": undefined}\<close>, where \<open>xs\<close> is the array itself.\<close>

definition sample_world :: world where
  "sample_world =
     \<lparr>w_heap = [ObjectNode 0 [] [GRef 1, GNil], ArrayNode [GInt 1, GRef 1]],
      w_tables = [\<lparr>ly_keys = [[0x61], [0x62]], ly_fields = [0, 1], ly_printed = [], ly_edges = []\<rparr>],
      w_errors = (\<lambda>_. None), w_text = (\<lambda>_. [])\<rparr>"

theorem stringify_tree_witness:
  "(\<exists>t. (\<forall>u. unfolds sample_world (GRef 0) u = (u = t)) \<and>
      JSONStringify sample_world (GRef 0) (JSONGapNumber (Fin 2)) = Some (Inr (render (JSONGapNumber (Fin 2)) [] t))) \<or>
    (\<nexists>t. unfolds sample_world (GRef 0) t) \<and>
      (\<exists>path k. circle sample_world path k \<and>
        JSONStringify sample_world (GRef 0) (JSONGapNumber (Fin 2)) = Some (Inl (Circular (circularMessage sample_world path k))))"
  by (rule stringify_tree) (simp_all add: world_ok_def sample_world_def)

end
