(* ===== verification/Float64.thy ===== *)
theory Float64
  imports Prelude
begin

text \<open>
  Rounding to \<open>float64\<close>, where the code computes what no double holds: \<open>strconv.ParseFloat\<close> of a
  decimal, \<open>math.FMA\<close> and \<open>math.Ldexp\<close>, which the standard library rounds to the nearest double, a tie to
  the even one, and to infinity from halfway past the largest.

  Proved: \<open>round_f64\<close> is that rounding, against the doubles as a set of rationals.
\<close>

subsection \<open>Doubles\<close>

text \<open>A double \<open>m * 2^e\<close>; its significand is even when it needs not all 53 bits.\<close>

definition is_double :: "rat \<Rightarrow> bool" where
  "is_double x \<longleftrightarrow> (\<exists>m e. x = of_int m * 2 powi e \<and> \<bar>m\<bar> < 2 ^ 53 \<and> -1074 \<le> e \<and> e \<le> 971)"

subsection \<open>The exponent\<close>

text \<open>\<open>bits.Len64\<close>.\<close>

fun bit_len :: "nat \<Rightarrow> nat" where
  "bit_len n = (if n = 0 then 0 else Suc (bit_len (n div 2)))"

declare bit_len.simps [simp del]

lemma bit_len_less: "n < 2 ^ bit_len n"
  by (induction n rule: bit_len.induct) (subst bit_len.simps, auto)

lemma bit_len_ge: "0 < n \<Longrightarrow> 2 ^ (bit_len n - 1) \<le> n"
proof (induction n rule: bit_len.induct)
  case (1 n)
  show ?case
  proof (cases "n div 2 = 0")
    case True
    with 1(2) show ?thesis by (subst bit_len.simps, subst bit_len.simps) auto
  next
    case False
    then have "0 < bit_len (n div 2)" by (subst bit_len.simps) simp
    then have "2 ^ bit_len (n div 2) = 2 * (2::nat) ^ (bit_len (n div 2) - 1)" by (cases "bit_len (n div 2)") auto
    also have "\<dots> \<le> n" using 1 False by auto
    finally show ?thesis using 1(2) by (subst bit_len.simps) simp
  qed
qed

lemma bit_len_pos: "0 < n \<Longrightarrow> 0 < bit_len n"
  by (subst bit_len.simps) simp

lemma bit_len_unique: "2 ^ k \<le> n \<Longrightarrow> n < 2 ^ Suc k \<Longrightarrow> bit_len n = Suc k"
proof -
  assume a: "2 ^ k \<le> n" "n < 2 ^ Suc k"
  then have n: "0 < n" by (metis gr0I not_less zero_less_numeral zero_less_power)
  have "(2::nat) ^ k < 2 ^ bit_len n" using a(1) bit_len_less [of n] by (rule le_less_trans)
  then have "k < bit_len n" by (rule power_less_imp_less_exp [rotated]) simp
  moreover have "(2::nat) ^ (bit_len n - 1) < 2 ^ Suc k" using bit_len_ge [OF n] a(2) by (rule le_less_trans)
  then have "bit_len n - 1 < Suc k" by (rule power_less_imp_less_exp [rotated]) simp
  ultimately show ?thesis by simp
qed

definition floor_log :: "rat \<Rightarrow> int" where
  "floor_log q =
     (let (a, b) = quotient_of q; l = int (bit_len (nat a)) - int (bit_len (nat b))
      in if q < 2 powi l then l - 1 else l)"

lemma powi_of_nat: "(2 :: rat) powi int n = 2 ^ n"
  by simp

lemma bit_len_bounds:
  assumes "0 < n"
  shows "2 powi (int (bit_len n) - 1) \<le> (of_nat n :: rat)" "(of_nat n :: rat) < 2 powi int (bit_len n)"
proof -
  have e: "int (bit_len n) - 1 = int (bit_len n - 1)" using bit_len_pos [OF assms] by simp
  have "(of_nat (2 ^ (bit_len n - 1)) :: rat) \<le> of_nat n" using bit_len_ge [OF assms] by (simp only: of_nat_le_iff)
  then show "2 powi (int (bit_len n) - 1) \<le> (of_nat n :: rat)" unfolding e powi_of_nat by simp
  have "(of_nat n :: rat) < of_nat (2 ^ bit_len n)" using bit_len_less [of n] by (simp only: of_nat_less_iff)
  then show "(of_nat n :: rat) < 2 powi int (bit_len n)" unfolding powi_of_nat by simp
qed

lemma floor_log_bounds:
  assumes "0 < q"
  shows "2 powi floor_log q \<le> q" "q < 2 powi (floor_log q + 1)"
proof -
  obtain a b where q: "quotient_of q = (a, b)" by (cases "quotient_of q")
  have b: "0 < b" using quotient_of_denom_pos [OF q] .
  have e: "q = of_int a / of_int b" using quotient_of_div [OF q] .
  then have a: "0 < a" using assms b by (simp add: zero_less_divide_iff)
  let ?a = "of_nat (nat a) :: rat" and ?b = "of_nat (nat b) :: rat"
  define la lb where l: "la = int (bit_len (nat a))" "lb = int (bit_len (nat b))"
  have q': "q = ?a / ?b" using e a b by simp
  have A: "2 powi (la - 1) \<le> ?a" "?a < 2 powi la" and B: "2 powi (lb - 1) \<le> ?b" "?b < 2 powi lb"
    using bit_len_bounds [of "nat a"] bit_len_bounds [of "nat b"] a b by (simp_all add: l)
  have "2 powi (la - 1 - lb) * ?b \<le> 2 powi (la - 1 - lb) * 2 powi lb" using B by simp
  also have "\<dots> = 2 powi (la - 1)" by (simp add: power_int_add [symmetric])
  also note A(1)
  finally have low: "2 powi (la - lb - 1) \<le> q" using b by (simp add: q' field_simps)
  have "?a < 2 powi (la - lb + 1) * 2 powi (lb - 1)" using A(2) by (simp add: power_int_add [symmetric])
  also have "\<dots> \<le> 2 powi (la - lb + 1) * ?b" using B by simp
  finally have high: "q < 2 powi (la - lb + 1)" using b by (simp add: q' field_simps)
  have f: "floor_log q = (if q < 2 powi (la - lb) then la - lb - 1 else la - lb)"
    by (simp add: floor_log_def q l)
  show "2 powi floor_log q \<le> q" "q < 2 powi (floor_log q + 1)" using low high f by auto
qed

lemma floor_log_unique: "2 powi k \<le> q \<Longrightarrow> q < 2 powi (k + 1) \<Longrightarrow> floor_log q = k"
proof -
  assume a: "2 powi k \<le> q" "q < 2 powi (k + 1)"
  have q: "0 < q" using a(1) by (rule less_le_trans [rotated]) simp
  note b = floor_log_bounds [OF q]
  have "\<not> k + 1 \<le> floor_log q"
  proof
    assume "k + 1 \<le> floor_log q"
    then have "(2 :: rat) powi (k + 1) \<le> 2 powi floor_log q" by (rule power_int_increasing) simp
    with a(2) b(1) show False by linarith
  qed
  moreover have "\<not> floor_log q + 1 \<le> k"
  proof
    assume "floor_log q + 1 \<le> k"
    then have "(2 :: rat) powi (floor_log q + 1) \<le> 2 powi k" by (rule power_int_increasing) simp
    with a(1) b(2) show False by linarith
  qed
  ultimately show ?thesis by simp
qed

subsection \<open>Rounding\<close>

definition half_even :: "rat \<Rightarrow> int" where
  "half_even q = (let f = \<lfloor>q\<rfloor>; r = q - of_int f in if 1 / 2 < r \<or> (r = 1 / 2 \<and> odd f) then f + 1 else f)"

text \<open>The exponent of the last bit of the double nearest \<open>q\<close>, and that double, for \<open>q \<ge> 0\<close>.\<close>

definition last_bit :: "rat \<Rightarrow> int" where
  "last_bit q = max (floor_log q - 52) (-1074)"

definition f64_limit :: rat where
  "f64_limit = 2 powi 1024"

definition round_f64 :: "rat \<Rightarrow> f64" where
  "round_f64 q =
     (if q = 0 then Fin 0
      else let x = of_int (half_even (q / 2 powi last_bit q)) * 2 powi last_bit q
        in if f64_limit \<le> x then PosInf else Fin x)"

lemma half_even_nearest:
  shows "\<bar>q - of_int (half_even q)\<bar> \<le> \<bar>q - of_int i\<bar>"
    and "\<bar>q - of_int (half_even q)\<bar> = \<bar>q - of_int i\<bar> \<Longrightarrow> i = half_even q \<or> even (half_even q)"
proof -
  define f where "f = \<lfloor>q\<rfloor>"
  have f: "of_int f \<le> q" "q < of_int f + 1" using floor_correct [of q] by (simp_all add: f_def)
  have h: "half_even q = (if 1 / 2 < q - of_int f \<or> (q - of_int f = 1 / 2 \<and> odd f) then f + 1 else f)"
    by (simp add: half_even_def f_def Let_def)
  have i: "i \<le> f - 1 \<or> i = f \<or> i = f + 1 \<or> f + 2 \<le> i" by linarith
  have lo: "of_int i \<le> (of_int f - 1 :: rat)" if "i \<le> f - 1" using that by (metis of_int_1 of_int_diff of_int_le_iff)
  have hi: "(of_int f + 2 :: rat) \<le> of_int i" if "f + 2 \<le> i" using that by (metis of_int_add of_int_le_iff of_int_numeral)
  show "\<bar>q - of_int (half_even q)\<bar> \<le> \<bar>q - of_int i\<bar>" using f i lo hi by (auto simp: h abs_if)
  have close: "\<bar>q - of_int (half_even q)\<bar> \<le> 1 / 2" using f by (auto simp: h abs_if)
  show "i = half_even q \<or> even (half_even q)" if eq: "\<bar>q - of_int (half_even q)\<bar> = \<bar>q - of_int i\<bar>"
  proof -
    have "\<bar>q - of_int i\<bar> \<le> 1 / 2" using close eq by simp
    then have "i = f \<or> i = f + 1" using i f lo hi by (auto simp: abs_if split: if_splits)
    then show ?thesis
    proof
      assume "i = f"
      with eq f show ?thesis by (auto simp: h abs_if split: if_splits)
    next
      assume "i = f + 1"
      with eq f show ?thesis by (auto simp: h abs_if split: if_splits)
    qed
  qed
qed

lemma half_even_int [simp]: "half_even (of_int n) = n"
  by (simp add: half_even_def)

lemma half_even_below: "0 \<le> q \<Longrightarrow> q < 1 / 2 \<Longrightarrow> half_even q = 0"
proof -
  assume "0 \<le> q" "q < 1 / 2"
  moreover from this have "\<lfloor>q\<rfloor> = 0" by (simp add: floor_eq_iff)
  ultimately show ?thesis by (simp add: half_even_def Let_def)
qed

lemma half_even_mono: "of_int n \<le> q \<Longrightarrow> n \<le> half_even q" "q \<le> of_int n \<Longrightarrow> half_even q \<le> n"
proof -
  show "n \<le> half_even q" if "of_int n \<le> q"
  proof -
    have "n \<le> \<lfloor>q\<rfloor>" using that by (simp add: le_floor_iff)
    then show ?thesis by (simp add: half_even_def Let_def)
  qed
  show "half_even q \<le> n" if "q \<le> of_int n"
  proof (cases "q = of_int n")
    case False
    with that have "\<lfloor>q\<rfloor> < n" by (simp add: floor_less_iff)
    then show ?thesis by (simp add: half_even_def Let_def)
  qed simp
qed

text \<open>The scaled value: between 2^52 and 2^53, or below for a subnormal.\<close>

lemma powi_pos: "0 < (2 :: rat) powi k"
  by (simp add: zero_less_power_int)

lemma scaled_less:
  assumes "0 < q"
  shows "q / 2 powi last_bit q < 2 ^ 53"
proof -
  have "floor_log q + 1 \<le> 53 + last_bit q" by (simp add: last_bit_def)
  then have "(2 :: rat) powi (floor_log q + 1) \<le> 2 powi (53 + last_bit q)" by (rule power_int_increasing) simp
  with floor_log_bounds(2) [OF assms] have "q < 2 powi (53 + last_bit q)" by (rule less_le_trans)
  then show ?thesis using powi_pos [of "last_bit q"] by (simp add: power_int_add divide_less_eq)
qed

lemma scaled_ge:
  assumes "0 < q" "-1074 < last_bit q"
  shows "2 ^ 52 \<le> q / 2 powi last_bit q"
proof -
  have "floor_log q = 52 + last_bit q" using assms(2) by (simp add: last_bit_def)
  with floor_log_bounds(1) [OF assms(1)] have "2 powi (52 + last_bit q) \<le> q" by simp
  then show ?thesis using powi_pos [of "last_bit q"] by (simp add: power_int_add le_divide_eq)
qed

definition sig :: "rat \<Rightarrow> int" where
  "sig q = half_even (q / 2 powi last_bit q)"

lemma sig_bounds:
  assumes "0 < q"
  shows "0 \<le> sig q" "sig q \<le> 2 ^ 53" "-1074 < last_bit q \<Longrightarrow> 2 ^ 52 \<le> sig q"
proof -
  show "0 \<le> sig q" unfolding sig_def using assms powi_pos [of "last_bit q"] by (intro half_even_mono(1)) simp
  show "sig q \<le> 2 ^ 53" unfolding sig_def using scaled_less [OF assms] by (intro half_even_mono(2)) simp
  show "2 ^ 52 \<le> sig q" if "-1074 < last_bit q"
    unfolding sig_def using scaled_ge [OF assms that] by (intro half_even_mono(1)) simp
qed

lemma round_f64_sig:
  "0 < q \<Longrightarrow> round_f64 q = (if f64_limit \<le> of_int (sig q) * 2 powi last_bit q then PosInf else Fin (of_int (sig q) * 2 powi last_bit q))"
  by (simp add: round_f64_def sig_def Let_def)

text \<open>A double whose last bit is 0.\<close>

definition even_double :: "rat \<Rightarrow> bool" where
  "even_double x \<longleftrightarrow> (\<exists>m e. x = of_int (2 * m) * 2 powi e \<and> \<bar>2 * m\<bar> < 2 ^ 53 \<and> -1074 \<le> e \<and> e \<le> 971 \<and>
     (2 ^ 52 \<le> \<bar>2 * m\<bar> \<or> e = -1074))"

lemma powi_less_iff: "(2 :: rat) powi j < 2 powi k \<longleftrightarrow> j < k"
proof
  show "j < k" if "(2 :: rat) powi j < 2 powi k"
  proof (rule ccontr)
    assume "\<not> j < k"
    then have "(2 :: rat) powi k \<le> 2 powi j" by (intro power_int_increasing) simp_all
    with that show False by simp
  qed
qed (simp add: power_int_strict_increasing)

lemma sig_last_bit:
  assumes "0 < q" "of_int (sig q) * 2 powi last_bit q < f64_limit"
  shows "last_bit q \<le> 971" "sig q = 2 ^ 53 \<Longrightarrow> last_bit q \<le> 970"
proof -
  have below: "j + last_bit q < 1024" if "2 powi j \<le> (of_int (sig q) :: rat)" for j
  proof -
    have "2 powi (j + last_bit q) \<le> of_int (sig q) * (2 :: rat) powi last_bit q"
      using that powi_pos [of "last_bit q"] by (simp add: power_int_add)
    with assms(2) have "(2 :: rat) powi (j + last_bit q) < 2 powi 1024" unfolding f64_limit_def by (rule le_less_trans [rotated])
    then show ?thesis unfolding powi_less_iff .
  qed
  show "last_bit q \<le> 971"
  proof (cases "-1074 < last_bit q")
    case True
    have "(of_int (2 ^ 52) :: rat) \<le> of_int (sig q)" using sig_bounds(3) [OF assms(1) True] unfolding of_int_le_iff .
    with below [of 52] show ?thesis by simp
  qed simp
  show "last_bit q \<le> 970" if "sig q = 2 ^ 53" using below [of 53] that by simp
qed

lemma sig_double:
  assumes "0 < q" "of_int (sig q) * 2 powi last_bit q < f64_limit"
  shows "is_double (of_int (sig q) * 2 powi last_bit q)"
    and "even (sig q) \<Longrightarrow> even_double (of_int (sig q) * 2 powi last_bit q)"
proof -
  note l = sig_last_bit [OF assms] and b = sig_bounds [OF assms(1)]
  have e: "-1074 \<le> last_bit q" by (simp add: last_bit_def)
  show "is_double (of_int (sig q) * 2 powi last_bit q)"
  proof (cases "sig q = 2 ^ 53")
    case True
    then have "of_int (sig q) * (2 :: rat) powi last_bit q = of_int (2 ^ 52) * 2 powi (last_bit q + 1)"
      by (simp add: power_int_add)
    moreover have "\<bar>2 ^ 52 :: int\<bar> < 2 ^ 53" "-1074 \<le> last_bit q + 1" "last_bit q + 1 \<le> 971" using l(2) [OF True] e by simp_all
    ultimately show ?thesis unfolding is_double_def by blast
  next
    case False
    with b l(1) e show ?thesis unfolding is_double_def by (intro exI [of _ "sig q"] exI [of _ "last_bit q"]) simp
  qed
  show "even_double (of_int (sig q) * 2 powi last_bit q)" if even: "even (sig q)"
  proof (cases "sig q = 2 ^ 53")
    case True
    then have "of_int (sig q) * (2 :: rat) powi last_bit q = of_int (2 * 2 ^ 51) * 2 powi (last_bit q + 1)"
      by (simp add: power_int_add)
    moreover have "\<bar>2 * 2 ^ 51 :: int\<bar> < 2 ^ 53" "2 ^ 52 \<le> \<bar>2 * 2 ^ 51 :: int\<bar>" "-1074 \<le> last_bit q + 1" "last_bit q + 1 \<le> 971"
      using l(2) [OF True] e by simp_all
    ultimately show ?thesis unfolding even_double_def by blast
  next
    case False
    obtain m where m: "sig q = 2 * m" using even by (blast elim: evenE)
    have "2 ^ 52 \<le> \<bar>2 * m\<bar> \<or> last_bit q = -1074" using b(3) e m by linarith
    with False m b l(1) e show ?thesis unfolding even_double_def by (intro exI [of _ m] exI [of _ "last_bit q"]) simp
  qed
qed

lemma sig_nearest:
  assumes "0 < q" "is_double d"
  defines "x \<equiv> of_int (sig q) * 2 powi last_bit q"
  shows "\<bar>q - x\<bar> \<le> \<bar>q - d\<bar>" "\<bar>q - x\<bar> = \<bar>q - d\<bar> \<Longrightarrow> d = x \<or> even (sig q)"
proof -
  define k where "k = last_bit q"
  note p = powi_pos [of k]
  have dist: "\<bar>q - of_int i * 2 powi k\<bar> = \<bar>q / 2 powi k - of_int i\<bar> * 2 powi k" for i
    using p by (simp add: abs_mult_pos left_diff_distrib)
  have grid: "\<bar>q - x\<bar> \<le> \<bar>q - of_int i * 2 powi k\<bar>" for i
    unfolding x_def k_def [symmetric] dist using half_even_nearest(1) [of "q / 2 powi k" i] p
    by (simp add: sig_def k_def)
  have tie: "i = sig q \<or> even (sig q)" if "\<bar>q - x\<bar> = \<bar>q - of_int i * 2 powi k\<bar>" for i
    using that half_even_nearest(2) [of "q / 2 powi k" i] p
    unfolding x_def k_def [symmetric] dist by (simp add: sig_def k_def)
  obtain m e where d: "d = of_int m * 2 powi e" "\<bar>m\<bar> < 2 ^ 53" "-1074 \<le> e" using assms(2) by (auto simp: is_double_def)
  have "\<bar>q - x\<bar> \<le> \<bar>q - d\<bar> \<and> (\<bar>q - x\<bar> = \<bar>q - d\<bar> \<longrightarrow> d = x \<or> even (sig q))"
  proof (cases "k \<le> e")
    case True
    then have "(2 :: rat) powi e = 2 powi (int (nat (e - k)) + k)" by (intro arg_cong [where f = "(powi) 2"]) simp
    also have "\<dots> = 2 powi int (nat (e - k)) * 2 powi k" by (rule power_int_add) simp
    also have "(2 :: rat) powi int (nat (e - k)) = of_int (2 ^ nat (e - k))" by (simp only: powi_of_nat of_int_power of_int_numeral)
    finally have "d = of_int (m * 2 ^ nat (e - k)) * 2 powi k" by (simp add: d(1))
    with grid tie show ?thesis by (metis k_def x_def)
  next
    case False
    then have k: "-1074 < k" "e + 1 \<le> k" using d(3) by auto
    have "2 ^ 52 \<le> q / 2 powi k" using scaled_ge [OF assms(1)] k(1) by (simp add: k_def)
    then have low: "of_int (2 ^ 52) * 2 powi k \<le> q" using p by (simp add: le_divide_eq)
    have "(of_int \<bar>m\<bar> :: rat) < of_int (2 ^ 53)" using d(2) unfolding of_int_less_iff .
    then have "\<bar>d\<bar> < 2 ^ 53 * 2 powi e" using powi_pos [of e] by (simp add: d(1) abs_mult abs_of_pos)
    also have "(2::rat) ^ 53 * 2 powi e = 2 ^ 52 * 2 powi (e + 1)" by (simp add: power_int_add)
    also have "\<dots> \<le> 2 ^ 52 * 2 powi k" using power_int_increasing [OF k(2), of "2 :: rat"] by simp
    finally have "\<bar>q - of_int (2 ^ 52) * 2 powi k\<bar> < \<bar>q - d\<bar>" using low by simp
    with grid [of "2 ^ 52"] show ?thesis by linarith
  qed
  then show "\<bar>q - x\<bar> \<le> \<bar>q - d\<bar>" "\<bar>q - x\<bar> = \<bar>q - d\<bar> \<Longrightarrow> d = x \<or> even (sig q)" by blast+
qed

lemma past_half: "n + 1 \<le> h \<Longrightarrow> \<bar>q - h\<bar> \<le> \<bar>q - n\<bar> \<Longrightarrow> n + 1 / 2 \<le> q" for n h q :: rat
  by (auto simp: abs_if split: if_splits)

lemma round_f64_inf:
  assumes "0 < q"
  shows "round_f64 q = PosInf \<longleftrightarrow> 2 powi 1024 - 2 powi 970 \<le> q"
proof -
  define k where "k = last_bit q"
  have e: "round_f64 q = PosInf \<longleftrightarrow> (2 :: rat) powi 1024 \<le> of_int (sig q) * 2 powi k"
    unfolding round_f64_sig [OF assms] f64_limit_def k_def by (simp only: if_splits f64.distinct simp_thms split: if_split)
  note b = sig_bounds [OF assms] and fl = floor_log_bounds [OF assms]
  consider "k \<le> 970" | "k = 971" | "972 \<le> k" by linarith
  then show ?thesis
  proof cases
    case 1
    then have "(2 :: rat) powi k \<le> 2 powi 970" by (intro power_int_increasing) simp_all
    moreover have "(of_int (sig q) :: rat) \<le> of_int (2 ^ 53)" using b(2) unfolding of_int_le_iff .
    ultimately have "of_int (sig q) * 2 powi k \<le> of_int (2 ^ 53) * (2 :: rat) powi 970" by (intro mult_mono) simp_all
    also have "\<dots> < 2 powi 1024" by simp
    finally have "\<not> (2 :: rat) powi 1024 \<le> of_int (sig q) * (2 :: rat) powi k" by simp
    moreover have "q < 2 powi 1023"
    proof -
      have "floor_log q + 1 \<le> 1023" using 1 by (simp add: k_def last_bit_def)
      then have "(2 :: rat) powi (floor_log q + 1) \<le> 2 powi 1023" by (intro power_int_increasing) simp_all
      with fl(2) show ?thesis by simp
    qed
    moreover have "(2 :: rat) powi 1023 < 2 powi 1024 - 2 powi 970" by simp
    ultimately show ?thesis unfolding e by linarith
  next
    case 2
    have "(2 :: rat) powi 1024 \<le> of_int (sig q) * (2 :: rat) powi k \<longleftrightarrow> of_int (2 ^ 53) \<le> (of_int (sig q) :: rat)"
      unfolding 2 by simp
    also have "\<dots> \<longleftrightarrow> 2 ^ 53 \<le> sig q" by (simp only: of_int_le_iff)
    also have "\<dots> \<longleftrightarrow> 2 ^ 53 - 1 / 2 \<le> q / 2 powi k"
    proof
      assume "2 ^ 53 \<le> sig q"
      then have "of_int (2 ^ 53) \<le> (of_int (half_even (q / 2 powi k)) :: rat)" unfolding of_int_le_iff by (simp add: sig_def k_def)
      moreover have "\<bar>q / 2 powi k - of_int (half_even (q / 2 powi k))\<bar> \<le> \<bar>q / 2 powi k - of_int (2 ^ 53 - 1)\<bar>"
        by (rule half_even_nearest(1))
      ultimately have "of_int (2 ^ 53 - 1) + 1 / 2 \<le> q / 2 powi k"
        by (intro past_half [of _ "of_int (half_even (q / 2 powi k))"]) simp_all
      then show "2 ^ 53 - 1 / 2 \<le> q / 2 powi k" by simp
    next
      assume a: "2 ^ 53 - 1 / 2 \<le> q / 2 powi k"
      show "2 ^ 53 \<le> sig q"
      proof (cases "2 ^ 53 \<le> q / 2 powi k")
        case True
        then show ?thesis unfolding sig_def k_def [symmetric] by (intro half_even_mono(1)) simp
      next
        case False
        moreover have "of_int (2 ^ 53 - 1) \<le> q / 2 powi k" using a by (rule order_trans [rotated]) simp
        ultimately have f: "\<lfloor>q / 2 powi k\<rfloor> = 2 ^ 53 - 1" by (intro floor_unique) simp_all
        show ?thesis using a unfolding sig_def k_def [symmetric] half_even_def f Let_def by auto
      qed
    qed
    also have "\<dots> \<longleftrightarrow> (2 ^ 53 - 1 / 2) * 2 powi k \<le> q" by (simp add: le_divide_eq)
    also have "(2 ^ 53 - 1 / 2) * (2 :: rat) powi k = 2 powi 1024 - 2 powi 970" unfolding 2 by simp
    finally show ?thesis unfolding e .
  next
    case 3
    have "(2 :: rat) powi 972 \<le> 2 powi k" using 3 by (intro power_int_increasing) simp_all
    moreover have "(of_int (2 ^ 52) :: rat) \<le> of_int (sig q)" using b(3) 3 unfolding of_int_le_iff k_def by simp
    ultimately have "of_int (2 ^ 52) * (2 :: rat) powi 972 \<le> of_int (sig q) * 2 powi k" by (intro mult_mono) simp_all
    moreover have "2 powi 1024 \<le> q"
    proof -
      have "1024 \<le> floor_log q" using 3 by (simp add: k_def last_bit_def)
      then have "(2 :: rat) powi 1024 \<le> 2 powi floor_log q" by (intro power_int_increasing) simp_all
      with fl(1) show ?thesis by simp
    qed
    ultimately show ?thesis unfolding e by simp
  qed
qed

text \<open>The rounding, for what is not negative: to a double none is nearer than, the even one of two.\<close>

lemma round_f64_nearest:
  assumes "0 \<le> q" "round_f64 q = Fin x"
  shows "is_double x" "is_double d \<Longrightarrow> \<bar>q - x\<bar> \<le> \<bar>q - d\<bar>"
    "is_double d \<Longrightarrow> \<bar>q - x\<bar> = \<bar>q - d\<bar> \<Longrightarrow> d = x \<or> even_double x"
proof -
  have "is_double x \<and> (is_double d \<longrightarrow> \<bar>q - x\<bar> \<le> \<bar>q - d\<bar> \<and> (\<bar>q - x\<bar> = \<bar>q - d\<bar> \<longrightarrow> d = x \<or> even_double x))"
  proof (cases "q = 0")
    case True
    with assms(2) have "x = 0" by (simp add: round_f64_def)
    moreover have "is_double 0" unfolding is_double_def by (intro exI [of _ 0]) simp
    ultimately show ?thesis using True by simp
  next
    case False
    then have q: "0 < q" using assms(1) by simp
    from assms(2) have x: "x = of_int (sig q) * 2 powi last_bit q" "of_int (sig q) * 2 powi last_bit q < f64_limit"
      by (auto simp: round_f64_sig [OF q] split: if_splits)
    then show ?thesis using sig_double [OF q x(2)] sig_nearest [OF q, of d] by blast
  qed
  then show "is_double x" "is_double d \<Longrightarrow> \<bar>q - x\<bar> \<le> \<bar>q - d\<bar>"
    "is_double d \<Longrightarrow> \<bar>q - x\<bar> = \<bar>q - d\<bar> \<Longrightarrow> d = x \<or> even_double x" by blast+
qed

lemma round_f64_cases: "0 \<le> q \<Longrightarrow> round_f64 q = PosInf \<or> (\<exists>x. round_f64 q = Fin x)"
  by (simp add: round_f64_def Let_def)

lemma is_double_bound: "is_double x \<Longrightarrow> x < 2 powi 1024 - 2 powi 970"
proof -
  assume "is_double x"
  then obtain m e where x: "x = of_int m * 2 powi e" "\<bar>m\<bar> < 2 ^ 53" "e \<le> 971" by (auto simp: is_double_def)
  have "m \<le> 2 ^ 53 - 1" using x(2) by simp
  then have m: "(of_int m :: rat) \<le> of_int (2 ^ 53 - 1)" unfolding of_int_le_iff .
  have "x \<le> of_int (2 ^ 53 - 1) * 2 powi e" unfolding x(1) using m powi_pos [of e] by (intro mult_right_mono) simp_all
  also have "\<dots> \<le> of_int (2 ^ 53 - 1) * 2 powi 971"
    using power_int_increasing [OF x(3), of "2 :: rat"] by (intro mult_left_mono) simp_all
  also have "\<dots> < 2 powi 1024 - 2 powi 970" by simp
  finally show ?thesis .
qed

lemma round_f64_double:
  assumes "is_double x" "0 \<le> x"
  shows "round_f64 x = Fin x"
proof (cases "x = 0")
  case False
  then have "round_f64 x \<noteq> PosInf" using round_f64_inf [of x] is_double_bound [OF assms(1)] assms(2) by simp
  then obtain y where y: "round_f64 x = Fin y" using round_f64_cases [OF assms(2)] by auto
  then show ?thesis using round_f64_nearest(2) [OF assms(2) y assms(1)] by simp
qed (simp add: round_f64_def)

lemma round_f64_nat: "n \<le> 2 ^ 53 \<Longrightarrow> round_f64 (of_nat n) = f64_of_nat n"
proof -
  assume n: "n \<le> 2 ^ 53"
  have "is_double (of_nat n)"
  proof (cases "n = 2 ^ 53")
    case True
    have "(of_nat n :: rat) = of_int (2 ^ 52) * 2 powi 1" unfolding True by simp
    moreover have "\<bar>2 ^ 52 :: int\<bar> < 2 ^ 53" "(-1074 :: int) \<le> 1" "(1 :: int) \<le> 971" by simp_all
    ultimately show ?thesis unfolding is_double_def by blast
  next
    case False
    from n False have "n < 2 ^ 53" by (rule le_neq_implies_less)
    then have "\<bar>int n\<bar> < 2 ^ 53" by simp
    moreover have "(of_nat n :: rat) = of_int (int n) * 2 powi 0" by simp
    moreover have "(-1074 :: int) \<le> 0" "(0 :: int) \<le> 971" by simp_all
    ultimately show ?thesis unfolding is_double_def by blast
  qed
  then show ?thesis unfolding f64_of_nat_def by (rule round_f64_double) simp
qed

lemma round_f64_tiny:
  assumes "0 \<le> q" "q < 2 powi -1075"
  shows "round_f64 q = Fin 0"
proof (cases "q = 0")
  case False
  then have q: "0 < q" using assms(1) by simp
  have "(2 :: rat) powi floor_log q < 2 powi -1075" using floor_log_bounds(1) [OF q] assms(2) by (rule le_less_trans)
  then have "last_bit q = -1074" unfolding powi_less_iff by (simp add: last_bit_def)
  moreover have "q / 2 powi -1074 < 1 / 2"
  proof -
    have "(2 :: rat) powi -1075 = 1 / 2 * 2 powi -1074" by simp
    then show ?thesis using assms(2) powi_pos [of "-1074"] by (simp only: divide_less_eq) simp
  qed
  moreover have "0 \<le> q / 2 powi -1074" using assms(1) powi_pos [of "-1074"] by (simp only: zero_le_divide_iff) simp
  ultimately have "sig q = 0" unfolding sig_def by (intro half_even_below) simp_all
  moreover have "\<not> f64_limit \<le> 0" unfolding f64_limit_def using powi_pos [of 1024] by (simp only: not_le)
  ultimately show ?thesis using round_f64_sig [OF q] by simp
qed (simp add: round_f64_def)

lemma round_f64_again:
  assumes "0 < q"
  shows "round_f64 (of_int (sig q) * 2 powi last_bit q) = round_f64 q"
proof -
  have p: "0 \<le> of_int (sig q) * (2 :: rat) powi last_bit q" using sig_bounds(1) [OF assms] powi_pos [of "last_bit q"] by simp
  show ?thesis
  proof (cases "f64_limit \<le> of_int (sig q) * 2 powi last_bit q")
    case True
    have l: "0 < f64_limit" "2 powi 1024 - 2 powi 970 \<le> f64_limit"
      unfolding f64_limit_def using powi_pos [of 970] powi_pos [of 1024] by (simp_all only: diff_le_eq le_add_same_cancel1 less_imp_le)
    have "round_f64 (of_int (sig q) * 2 powi last_bit q) = PosInf"
      using l True by (subst round_f64_inf) linarith+
    then show ?thesis using True by (simp add: round_f64_sig [OF assms])
  next
    case False
    then show ?thesis using sig_double(1) [OF assms] p by (simp add: round_f64_sig [OF assms] round_f64_double)
  qed
qed

lemma round_scaled:
  assumes m: "2 ^ 52 \<le> m" "m < 2 ^ 53" and r: "r < 2 ^ x" and x: "0 < x"
  defines "m' \<equiv> if 2 ^ (x - 1) < r \<or> (r = 2 ^ (x - 1) \<and> odd m) then m + 1 else m"
  shows "round_f64 (of_nat (m * 2 ^ x + r)) = round_f64 (of_nat m' * 2 ^ x)"
proof -
  let ?q = "of_nat (m * 2 ^ x + r) :: rat"
  have "2 ^ 52 * 2 ^ x \<le> m * 2 ^ x" using m(1) by simp
  then have lo: "2 ^ (52 + x) \<le> m * 2 ^ x + r" unfolding power_add by (rule trans_le_add1)
  have "m * 2 ^ x + r < (m + 1) * 2 ^ x" using r by (simp add: algebra_simps)
  also have "\<dots> \<le> 2 ^ 53 * 2 ^ x" using m(2) by (intro mult_le_mono1) simp
  also have "(2 :: nat) ^ 53 * 2 ^ x = 2 ^ (52 + x + 1)" by (simp add: power_add)
  finally have hi: "m * 2 ^ x + r < 2 ^ (52 + x + 1)" .
  have "(of_nat (2 ^ (52 + x)) :: rat) \<le> ?q" using lo unfolding of_nat_le_iff .
  moreover have "?q < of_nat (2 ^ (52 + x + 1))" using hi unfolding of_nat_less_iff .
  ultimately have "floor_log ?q = 52 + int x"
    by (intro floor_log_unique) (simp_all only: of_nat_power of_nat_numeral powi_of_nat [symmetric] of_nat_add of_nat_1)
  then have l: "last_bit ?q = int x" by (simp add: last_bit_def)
  have q: "0 < ?q" using m(1) by (intro of_nat_0_less_iff [THEN iffD2]) (simp add: trans_less_add1)
  have e: "?q / 2 powi int x = of_nat m + of_nat r / 2 ^ x" unfolding powi_of_nat by (simp add: add_divide_distrib)
  have "(of_nat r :: rat) < of_nat (2 ^ x)" using r unfolding of_nat_less_iff .
  then have f: "0 \<le> (of_nat r :: rat) / 2 ^ x" "(of_nat r :: rat) / 2 ^ x < 1" by simp_all
  then have fl: "\<lfloor>of_nat m + (of_nat r :: rat) / 2 ^ x\<rfloor> = int m" by (intro floor_unique) simp_all
  have h: "(2 :: rat) ^ x = 2 * of_nat (2 ^ (x - 1))" using x by (cases x) simp_all
  have "(1 / 2 < (of_nat r :: rat) / 2 ^ x) = (of_nat (2 ^ (x - 1)) < (of_nat r :: rat))" unfolding h by (simp add: field_simps)
  moreover have "((of_nat r :: rat) / 2 ^ x = 1 / 2) = (of_nat r = (of_nat (2 ^ (x - 1)) :: rat))" unfolding h by (auto simp: field_simps)
  ultimately have "sig ?q = int m'"
    unfolding sig_def l e half_even_def fl Let_def m'_def of_nat_less_iff of_nat_eq_iff by (simp only: of_int_of_nat_eq add_diff_cancel_left' even_of_nat) auto
  then show ?thesis using round_f64_again [OF q] unfolding l powi_of_nat by (simp only: of_int_of_nat_eq)
qed

end
