(* ===== verification/NumParse.thy ===== *)
theory NumParse
  imports StrPad Uri Float64
begin

text \<open>
  The number grammars, \<open>backend/runtime/num_parse.go\<close>: \<open>Number(s)\<close>, \<open>parseInt\<close> and \<open>parseFloat\<close>,
  on bytes. \<open>strconv.ParseFloat\<close>, \<open>math.FMA\<close> and \<open>math.Ldexp\<close> are \<open>round_f64\<close> of what they compute.

  Proved: what is read is the longest literal of the grammar, and its value is the double
  nearest the number it denotes, as exactly as V8 gives it.
\<close>

subsection \<open>Spaces and digits\<close>

definition numSpace :: "rune \<Rightarrow> bool" where
  "numSpace r \<longleftrightarrow>
     r \<in> {9, 10, 11, 12, 13, 0x20, 0xA0, 0x1680, 0x2028, 0x2029, 0x202F, 0x205F, 0x3000, 0xFEFF} \<or>
     (r \<ge> 0x2000 \<and> r \<le> 0x200A)"

lemma decode_size: "(r, k) = decode_rune (c # s) \<Longrightarrow> 0 < k"
  using decode_width [of c s] by (metis snd_conv)

function numTrimStart :: "byte list \<Rightarrow> byte list" where
  "numTrimStart [] = []"
| "numTrimStart (c # s) =
     (if c < 0x80 then
        if c \<noteq> 0x20 \<and> (c < 0x09 \<or> c > 0x0D) then c # s else numTrimStart s
      else
        let (r, size) = decode_rune (c # s)
        in if \<not> numSpace r then c # s else numTrimStart (drop size (c # s)))"
  by pat_completeness auto
termination
  by (relation "measure length") (auto dest: decode_size)

function numTrimEnd :: "byte list \<Rightarrow> byte list" where
  "numTrimEnd s =
     (if length s > 0 then
        let (r, size) = DecodeLastRuneInString s
        in if \<not> numSpace r then s else numTrimEnd (take (length s - size) s)
      else s)"
  by pat_completeness auto
termination
proof (relation "measure length")
  fix s :: "byte list" and x r size
  assume "0 < length s" "x = DecodeLastRuneInString s" "(r, size) = x"
  then have "0 < length s" "0 < size" using last_rune_size [of s r size] by simp_all
  then show "(take (length s - size) s, s) \<in> measure length" by simp
qed simp

declare numTrimStart.simps(2) [simp del] numTrimEnd.simps [simp del]

definition numDigitRun :: "byte list \<Rightarrow> nat \<Rightarrow> nat" where
  "numDigitRun s radix = length (takeWhile (\<lambda>c. numDigit c < radix) s)"

text \<open>The value of a run of digits.\<close>

definition digits_value :: "nat \<Rightarrow> byte list \<Rightarrow> nat" where
  "digits_value radix s = foldl (\<lambda>v c. v * radix + numDigit c) 0 s"

subsection \<open>Radix a power of two\<close>

text \<open>
  The loops over \<open>s[i:]\<close>. A number under 2^53 takes at most five bits more before it is cut, so
  an \<open>int64\<close> holds it.
\<close>

fun pow2_tail :: "nat \<Rightarrow> nat \<Rightarrow> bool \<Rightarrow> nat \<Rightarrow> byte list \<Rightarrow> nat \<times> bool \<times> nat" where
  "pow2_tail shift i zeroTail exponent [] = (i, zeroTail, exponent)"
| "pow2_tail shift i zeroTail exponent (c # s) =
     (if numDigit c < 2 ^ shift then pow2_tail shift (i + 1) (zeroTail \<and> c = 0x30) (exponent + shift) s
      else (i, zeroTail, exponent))"

definition Ldexp :: "nat \<Rightarrow> nat \<Rightarrow> f64" where
  "Ldexp n e = round_f64 (of_nat n * 2 ^ e)"

fun pow2_loop :: "nat \<Rightarrow> nat \<Rightarrow> nat \<Rightarrow> byte list \<Rightarrow> f64 \<times> nat" where
  "pow2_loop shift i number [] = (f64_of_nat number, i)"
| "pow2_loop shift i number (c # s) =
     (let d = numDigit c
      in if d \<ge> 2 ^ shift then (f64_of_nat number, i)
         else
           let number = push_bit shift number OR d;
               overflow = drop_bit 53 number
           in if overflow = 0 then pow2_loop shift (i + 1) number s
              else
                let dropped = bit_len overflow;
                    droppedBits = number AND (2 ^ dropped - 1);
                    number = drop_bit dropped number;
                    (i, zeroTail, exponent) = pow2_tail shift (i + 1) True dropped s;
                    middle = push_bit (dropped - 1) 1;
                    number = (if droppedBits > middle \<or> (droppedBits = middle \<and> (number AND 1 \<noteq> 0 \<or> \<not> zeroTail))
                              then number + 1 else number)
                in (Ldexp number exponent, i))"

definition numPow2Digits :: "byte list \<Rightarrow> nat \<Rightarrow> f64 \<times> nat" where
  "numPow2Digits s shift =
     (let i = length (takeWhile (\<lambda>c. c = 0x30) s) in pow2_loop shift i 0 (drop i s))"

subsection \<open>Any other radix\<close>

definition maxMultiplier :: nat where
  "maxMultiplier = (2 ^ 32 - 1) div 36"

text \<open>One part: it, its multiplier, whether it is the last, and \<open>s[i:]\<close> after it.\<close>

fun generic_part :: "nat \<Rightarrow> nat \<Rightarrow> nat \<Rightarrow> nat \<Rightarrow> byte list \<Rightarrow> nat \<times> nat \<times> bool \<times> nat \<times> byte list" where
  "generic_part radix i part multiplier [] = (part, multiplier, True, i, [])"
| "generic_part radix i part multiplier (c # s) =
     (let d = numDigit c
      in if d \<ge> radix then (part, multiplier, True, i, c # s)
         else
           let m = multiplier * radix
           in if m > maxMultiplier then (part, multiplier, False, i, c # s)
              else generic_part radix (i + 1) (part * radix + d) m s)"

definition FMA :: "f64 \<Rightarrow> nat \<Rightarrow> nat \<Rightarrow> f64" where
  "FMA r m p = (case r of Fin q \<Rightarrow> round_f64 (q * of_nat m + of_nat p) | _ \<Rightarrow> r)"

partial_function (option) generic_loop :: "nat \<Rightarrow> f64 \<Rightarrow> nat \<Rightarrow> byte list \<Rightarrow> (f64 \<times> nat) option" where
  "generic_loop radix r i s =
     (let (part, multiplier, final, i, s) = generic_part radix i 0 1 s;
          r = FMA r multiplier part
      in if final then Some (r, i) else generic_loop radix r i s)"

definition numGenericDigits :: "byte list \<Rightarrow> nat \<Rightarrow> (f64 \<times> nat) option" where
  "numGenericDigits s radix =
     (let i = length (takeWhile (\<lambda>c. c = 0x30) s) in generic_loop radix (Fin 0) i (drop i s))"

subsection \<open>Decimals\<close>

definition decimal_float :: "byte list \<Rightarrow> int \<Rightarrow> f64" where
  "decimal_float digits p = round_f64 (of_nat (digits_value 10 digits) / 10 ^ length digits * 10 powi p)"

definition numDecimalValue :: "byte list \<Rightarrow> byte list \<Rightarrow> int \<Rightarrow> f64" where
  "numDecimalValue whole fraction exponent =
     (let digits = whole @ fraction;
          lead = length (takeWhile (\<lambda>c. c = 0x30) digits);
          digits = drop lead digits
      in if digits = [] then Fin 0
         else
           let p = int (length whole) - int lead + exponent
           in if p > 310 then PosInf
              else if p < -323 then Fin 0
              else decimal_float digits p)"

text \<open>The exponent at the start of \<open>s[i:]\<close>, if it has a digit, and how many bytes it is.\<close>

definition scan_exponent :: "byte list \<Rightarrow> int \<times> nat" where
  "scan_exponent s =
     (case s of
        [] \<Rightarrow> (0, 0)
      | c # t \<Rightarrow>
          if c OR 0x20 = 0x65 then
            let signed = t \<noteq> [] \<and> (hd t = 0x2B \<or> hd t = 0x2D);
                expSign = (if signed \<and> hd t = 0x2D then -1 else 1);
                u = (if signed then tl t else t);
                n = numDigitRun u 10
            in if n > 0
               then (expSign * foldl (\<lambda>x c. min (x * 10 + int (unat (c - 0x30))) 1000000000) 0 (take n u),
                 1 + (if signed then 1 else 0) + n)
               else (0, 0)
          else (0, 0))"

definition infinity_text :: "byte list" where
  "infinity_text = map byte_of ''Infinity''"

text \<open>What follows the sign, \<open>s[i:]\<close>: its value, and how many bytes it is.\<close>

definition scan_unsigned :: "byte list \<Rightarrow> f64 \<times> nat" where
  "scan_unsigned s =
     (if take 8 s = infinity_text then (PosInf, 8)
      else
        let n = numDigitRun s 10;
            whole = take n s;
            t = drop n s;
            point = t \<noteq> [] \<and> hd t = 0x2E;
            fraction = (if point then take (numDigitRun (tl t) 10) (tl t) else []);
            u = (if point then drop (length fraction) (tl t) else t);
            i = n + (if point then 1 + length fraction else 0)
        in if whole = [] \<and> fraction = [] then (Fin 0, 0)
           else let (exponent, k) = scan_exponent u in (numDecimalValue whole fraction exponent, i + k))"

definition numScanDecimal :: "byte list \<Rightarrow> f64 \<times> nat" where
  "numScanDecimal s =
     (let signed = s \<noteq> [] \<and> (hd s = 0x2B \<or> hd s = 0x2D);
          sign = (if signed \<and> hd s = 0x2D then Fin (-1) else Fin 1);
          (v, n) = scan_unsigned (if signed then tl s else s)
      in if n = 0 then (Fin 0, 0) else (f64_mul sign v, (if signed then 1 else 0) + n))"

subsection \<open>The functions\<close>

definition StringToNumber :: "byte list \<Rightarrow> f64" where
  "StringToNumber s =
     (let s = numTrimEnd (numTrimStart s)
      in if s = [] then Fin 0
         else
           let shift = (if length s > 2 \<and> s ! 0 = 0x30 then
                          if s ! 1 OR 0x20 = 0x78 then 4
                          else if s ! 1 OR 0x20 = 0x6F then 3
                          else if s ! 1 OR 0x20 = 0x62 then 1 else 0
                        else (0 :: nat))
           in if shift \<noteq> 0 then
                let (v, n) = numPow2Digits (drop 2 s) shift
                in if n \<noteq> length s - 2 then NaN else v
              else
                let (v, n) = numScanDecimal s
                in if n = length s then v else NaN)"

definition ParseFloat :: "byte list \<Rightarrow> f64" where
  "ParseFloat s = (let (v, n) = numScanDecimal (numTrimStart s) in if n = 0 then NaN else v)"

text \<open>ToInt32: truncated, the remainder of 2^32, and that as an \<open>int32\<close>.\<close>

definition numToInt32 :: "f64 \<Rightarrow> 32 word" where
  "numToInt32 x =
     (if x = NaN \<or> f64_is_inf x then 0
      else let t = f64_int (f64_trunc x)
           in word_of_int (if 0 \<le> t then t mod 2 ^ 32 else - (- t mod 2 ^ 32)))"

fun f64_neg :: "f64 \<Rightarrow> f64" where
  "f64_neg (Fin q) = (if q = 0 then NegZero else Fin (- q))"
| "f64_neg NegZero = Fin 0"
| "f64_neg PosInf = NegInf"
| "f64_neg NegInf = PosInf"
| "f64_neg NaN = NaN"

text \<open>\<open>bits.TrailingZeros\<close>.\<close>

fun trailing_zeros :: "nat \<Rightarrow> nat" where
  "trailing_zeros n = (if n = 0 \<or> odd n then 0 else Suc (trailing_zeros (n div 2)))"

declare trailing_zeros.simps [simp del]

definition ParseInt :: "byte list \<Rightarrow> f64 list \<Rightarrow> f64 option" where
  "ParseInt s radix =
     (let r = (if length radix > 0 then sint (numToInt32 (radix ! 0)) else 0)
      in if r \<noteq> 0 \<and> (r < 2 \<or> r > 36) then Some NaN
         else
           let s = numTrimStart s;
               signed = s \<noteq> [] \<and> (s ! 0 = 0x2B \<or> s ! 0 = 0x2D);
               negative = signed \<and> s ! 0 = 0x2D;
               s = (if signed then drop 1 s else s);
               prefixed = (r = 0 \<or> r = 16) \<and> length s \<ge> 2 \<and> s ! 0 = 0x30 \<and> s ! 1 OR 0x20 = 0x78;
               s = (if prefixed then drop 2 s else s);
               r = (if prefixed then 16 else if r = 0 then 10 else nat r)
           in map_option (\<lambda>(v, n). if n = 0 then NaN else if negative then f64_neg v else v)
                (if r = 10 then let n = numDigitRun s 10 in Some (round_f64 (of_nat (digits_value 10 (take n s))), n)
                 else if r AND (r - 1) = 0 then Some (numPow2Digits s (trailing_zeros r))
                 else numGenericDigits s r))"

definition NumberIsFinite :: "f64 \<Rightarrow> bool" where
  "NumberIsFinite x \<longleftrightarrow> \<not> f64_is_inf x \<and> x \<noteq> NaN"

definition NumberIsNaN :: "f64 \<Rightarrow> bool" where
  "NumberIsNaN x \<longleftrightarrow> x = NaN"

definition NumberIsInteger :: "f64 \<Rightarrow> bool" where
  "NumberIsInteger x \<longleftrightarrow> NumberIsFinite x \<and> f64_eq (f64_trunc x) x"

subsection \<open>Trimming\<close>

lemma numSpace_isJSSpace: "numSpace = isJSSpace"
  by (simp add: numSpace_def isJSSpace_def fun_eq_iff)

lemma byte_space: "c < 0x80 \<Longrightarrow> isJSSpace (unat c) \<longleftrightarrow> c = 0x20 \<or> (0x09 \<le> c \<and> c \<le> 0x0D)" for c :: byte
  by (auto simp: isJSSpace_def word_less_nat_alt word_le_nat_alt byte_eq_iff)

lemma numTrimStart_StrTrimStart: "numTrimStart s = StrTrimStart s"
proof (induction s rule: numTrimStart.induct)
  case (2 c s)
  show ?case
  proof (cases "c < 0x80")
    case True
    then have d: "decode_rune (c # s) = (unat c, 1)" by (simp add: decode_rune_1 word_less_nat_alt)
    show ?thesis
      using True 2(1) byte_space [OF True]
      by (auto simp: numTrimStart.simps(2) StrTrimStart.simps(2) d not_le not_less)
  next
    case False
    then show ?thesis
      using 2(2) [OF False] by (auto simp: numTrimStart.simps(2) StrTrimStart.simps(2) numSpace_isJSSpace split: prod.split)
  qed
qed simp

lemma numTrimEnd_StrTrimEnd: "numTrimEnd s = StrTrimEnd s"
  by (induction s rule: numTrimEnd.induct)
    (subst numTrimEnd.simps, subst StrTrimEnd.simps, auto simp: numSpace_isJSSpace split: prod.split)

subsection \<open>Runs of digits\<close>

lemma digits_value_simps [simp]: "digits_value radix [] = 0"
  by (simp add: digits_value_def)

lemma digits_fold: "foldl (\<lambda>v c. v * radix + numDigit c) n s = n * radix ^ length s + digits_value radix s"
proof (induction s arbitrary: n)
  case (Cons c s)
  have "digits_value radix (c # s) = numDigit c * radix ^ length s + digits_value radix s"
    using Cons [of "numDigit c"] by (simp add: digits_value_def)
  with Cons [of "n * radix + numDigit c"] show ?case by (simp add: algebra_simps)
qed simp

lemma digits_value_append: "digits_value radix (s @ t) = digits_value radix s * radix ^ length t + digits_value radix t"
  using digits_fold [of radix "digits_value radix s" t] by (simp add: digits_value_def)

lemma digits_value_Cons: "digits_value radix (c # s) = numDigit c * radix ^ length s + digits_value radix s"
  using digits_value_append [of radix "[c]" s] by (simp add: digits_value_def)

lemma digits_value_less: "\<forall>c \<in> set s. numDigit c < radix \<Longrightarrow> digits_value radix s < radix ^ length s"
proof (induction s)
  case (Cons c s)
  then have "digits_value radix (c # s) < (numDigit c + 1) * radix ^ length s" by (simp add: digits_value_Cons)
  also have "\<dots> \<le> radix * radix ^ length s" using Cons.prems by (intro mult_le_mono1) simp
  finally show ?case by simp
qed simp

lemma numDigit_0: "numDigit c = 0 \<longleftrightarrow> c = 0x30"
  by (auto simp: numDigit_def unat_eq_0)

lemma digits_value_0: "\<forall>c \<in> set s. numDigit c < radix \<Longrightarrow> 0 < radix \<Longrightarrow> digits_value radix s = 0 \<longleftrightarrow> (\<forall>c \<in> set s. c = 0x30)"
  by (induction s) (auto simp: digits_value_Cons numDigit_0)

lemma digits_value_zeros: "digits_value radix (takeWhile (\<lambda>c. c = 0x30) s @ t) = digits_value radix t"
  by (induction s) (auto simp: digits_value_Cons numDigit_def)

definition run :: "nat \<Rightarrow> byte list \<Rightarrow> byte list" where
  "run radix s = takeWhile (\<lambda>c. numDigit c < radix) s"

lemma run_digits: "\<forall>c \<in> set (run radix s). numDigit c < radix"
  by (auto simp: run_def dest: set_takeWhileD)

lemma run_zeros:
  fixes s :: "byte list"
  assumes "0 < radix"
  defines "i \<equiv> length (takeWhile (\<lambda>c. c = 0x30) s)"
  shows "run radix s = takeWhile (\<lambda>c. c = 0x30) s @ run radix (drop i s)"
    "digits_value radix (run radix s) = digits_value radix (run radix (drop i s))"
proof -
  have d: "drop i s = dropWhile (\<lambda>c. c = 0x30) s" by (simp add: i_def dropWhile_eq_drop)
  show e: "run radix s = takeWhile (\<lambda>c. c = 0x30) s @ run radix (drop i s)"
    unfolding d run_def using assms(1) numDigit_0 [of "0x30"] by (induction s) auto
  show "digits_value radix (run radix s) = digits_value radix (run radix (drop i s))"
    unfolding e by (rule digits_value_zeros)
qed

subsection \<open>A power of two rounds as a decimal does\<close>

lemma pow2_tail_run:
  "pow2_tail shift i z x s = (i + length (run (2 ^ shift) s), z \<and> (\<forall>c \<in> set (run (2 ^ shift) s). c = 0x30), x + shift * length (run (2 ^ shift) s))"
  by (induction shift i z x s rule: pow2_tail.induct) (auto simp: run_def)

lemma cut_bits:
  assumes "0 < drop_bit 53 (n :: nat)"
  defines "x \<equiv> bit_len (drop_bit 53 n)"
  shows "0 < x" "2 ^ 52 \<le> drop_bit x n" "drop_bit x n < 2 ^ 53" "n AND (2 ^ x - 1) = n mod 2 ^ x"
proof -
  show x: "0 < x" unfolding x_def by (rule bit_len_pos [OF assms(1)])
  have "2 ^ (x - 1) \<le> n div 2 ^ 53" using bit_len_ge [OF assms(1)] by (simp only: x_def drop_bit_eq_div)
  then have "2 ^ (x - 1) * 2 ^ 53 \<le> n" by (simp only: less_eq_div_iff_mult_less_eq zero_less_power zero_less_numeral)
  moreover have "(2 :: nat) ^ (x - 1) * 2 ^ 53 = 2 ^ 52 * 2 ^ x" using x by (cases x) simp_all
  ultimately show "2 ^ 52 \<le> drop_bit x n" by (simp only: drop_bit_eq_div less_eq_div_iff_mult_less_eq zero_less_power zero_less_numeral)
  have "n div 2 ^ 53 < 2 ^ x" using bit_len_less [of "drop_bit 53 n"] by (simp only: x_def drop_bit_eq_div)
  then have "n < 2 ^ x * 2 ^ 53" by (simp only: div_less_iff_less_mult zero_less_power zero_less_numeral)
  then show "drop_bit x n < 2 ^ 53" by (simp only: drop_bit_eq_div div_less_iff_less_mult zero_less_power zero_less_numeral mult.commute)
  show "n AND (2 ^ x - 1) = n mod 2 ^ x" by (simp only: mask_eq_exp_minus_1 [symmetric] take_bit_eq_mask [symmetric] take_bit_eq_mod)
qed

text \<open>The bits cut off, then the digits of the tail, against half of the last bit kept.\<close>

lemma compare_half:
  fixes b l v x :: nat
  assumes "v < 2 ^ l" "0 < x"
  shows "2 ^ (x + l - 1) < b * 2 ^ l + v \<longleftrightarrow> 2 ^ (x - 1) < b \<or> (b = 2 ^ (x - 1) \<and> 0 < v)"
    "b * 2 ^ l + v = 2 ^ (x + l - 1) \<longleftrightarrow> b = 2 ^ (x - 1) \<and> v = 0"
proof -
  have h: "(2 :: nat) ^ (x + l - 1) = 2 ^ (x - 1) * 2 ^ l" using assms(2) by (cases x) (simp_all add: power_add)
  have lt: "b * 2 ^ l + v < 2 ^ (x - 1) * 2 ^ l" if "b < 2 ^ (x - 1)"
  proof -
    have "b * 2 ^ l + v < (b + 1) * 2 ^ l" using assms(1) by simp
    also have "\<dots> \<le> 2 ^ (x - 1) * 2 ^ l" using that by (intro mult_le_mono1) simp
    finally show ?thesis .
  qed
  have gt: "2 ^ (x - 1) * 2 ^ l < b * 2 ^ l + v" if "2 ^ (x - 1) < b"
    using that by (intro trans_less_add1) simp
  show "2 ^ (x + l - 1) < b * 2 ^ l + v \<longleftrightarrow> 2 ^ (x - 1) < b \<or> (b = 2 ^ (x - 1) \<and> 0 < v)"
    "b * 2 ^ l + v = 2 ^ (x + l - 1) \<longleftrightarrow> b = 2 ^ (x - 1) \<and> v = 0"
    unfolding h using lt gt by (cases b "2 ^ (x - 1) :: nat" rule: linorder_cases; fastforce)+
qed

lemma pow2_step:
  "numDigit c < 2 ^ shift \<Longrightarrow> push_bit shift n OR numDigit c = m \<Longrightarrow>
   pow2_loop shift i n (c # s) =
     (let overflow = drop_bit 53 m
      in if overflow = 0 then pow2_loop shift (i + 1) m s
         else
           let dropped = bit_len overflow;
               droppedBits = m AND (2 ^ dropped - 1);
               number = drop_bit dropped m;
               (i, zeroTail, exponent) = pow2_tail shift (i + 1) True dropped s;
               middle = push_bit (dropped - 1) 1;
               number = (if droppedBits > middle \<or> (droppedBits = middle \<and> (number AND 1 \<noteq> 0 \<or> \<not> zeroTail))
                         then number + 1 else number)
           in (Ldexp number exponent, i))"
  by (simp only: pow2_loop.simps Let_def not_le if_False if_True simp_thms)
    (simp add: Let_def)

lemma pow2_loop_value:
  assumes "n < 2 ^ 53"
  shows "pow2_loop shift i n s
    = (round_f64 (of_nat (foldl (\<lambda>v c. v * 2 ^ shift + numDigit c) n (run (2 ^ shift) s))), i + length (run (2 ^ shift) s))"
  using assms
proof (induction shift i n s rule: pow2_loop.induct)
  case (1 shift i n)
  then show ?case by (simp add: run_def round_f64_nat)
next
  case (2 shift i n c s)
  show ?case
  proof (cases "numDigit c < 2 ^ shift")
    case False
    then show ?thesis using 2(2) by (simp add: run_def round_f64_nat)
  next
    case True
    let ?t = "run (2 ^ shift) s"
    define m where "m = n * 2 ^ shift + numDigit c"
    have n: "push_bit shift n OR numDigit c = m" unfolding m_def using True by (rule or_push_bit)
    have r: "run (2 ^ shift) (c # s) = c # ?t" using True by (simp add: run_def)
    show ?thesis
    proof (cases "drop_bit 53 m = 0")
      case over: True
      then have "m < 2 ^ 53" by (simp add: drop_bit_eq_div div_eq_0_iff)
      then show ?thesis
        using 2(1) [OF refl _ refl refl] True over unfolding pow2_step [OF True n] r by (simp add: n m_def [symmetric])
    next
      case over: False
      then have pos: "0 < drop_bit 53 m" by simp
      define x where "x = bit_len (drop_bit 53 m)"
      define l where "l = shift * length ?t"
      define v where "v = digits_value (2 ^ shift) ?t"
      define b where "b = m mod 2 ^ x"
      note cut = cut_bits [OF pos, folded x_def]
      have p: "(2 ^ shift) ^ length ?t = (2 :: nat) ^ l" by (simp add: l_def power_mult)
      have v: "v < 2 ^ l" using digits_value_less [OF run_digits, of "2 ^ shift" s] by (simp add: v_def p)
      have v0: "v = 0 \<longleftrightarrow> (\<forall>c \<in> set ?t. c = 0x30)" unfolding v_def by (rule digits_value_0 [OF run_digits]) simp
      have b: "b < 2 ^ x" by (simp add: b_def)
      have gen: "k * 2 ^ l + v = q * 2 ^ (x + l) + (b * 2 ^ l + v)" if "k = q * 2 ^ x + b" for k q
        by (simp add: that power_add algebra_simps)
      have "m = drop_bit x m * 2 ^ x + b" unfolding b_def drop_bit_eq_div by (rule div_mult_mod_eq [symmetric])
      then have N: "m * 2 ^ l + v = drop_bit x m * 2 ^ (x + l) + (b * 2 ^ l + v)" by (rule gen)
      have "b * 2 ^ l + v < (b + 1) * 2 ^ l" using v by simp
      also have "\<dots> \<le> 2 ^ x * 2 ^ l" using b by (intro mult_le_mono1) simp
      finally have rest: "b * 2 ^ l + v < 2 ^ (x + l)" by (simp add: power_add)
      have "foldl (\<lambda>v c. v * 2 ^ shift + numDigit c) n (run (2 ^ shift) (c # s)) = m * 2 ^ l + v"
        unfolding r foldl_Cons m_def [symmetric] unfolding digits_fold p v_def by (rule refl)
      moreover have "round_f64 (of_nat (m * 2 ^ l + v))
        = Ldexp (if 2 ^ (x - 1) < b \<or> (b = 2 ^ (x - 1) \<and> (odd (drop_bit x m) \<or> v \<noteq> 0)) then drop_bit x m + 1 else drop_bit x m) (x + l)"
        unfolding N Ldexp_def using compare_half [OF v cut(1)] cut(1) by (subst round_scaled [OF cut(2,3) rest]) auto
      moreover have "m AND (2 ^ x - Suc 0) = b" using cut(4) by (simp add: b_def)
      ultimately show ?thesis
        using over unfolding pow2_step [OF True n] r
        by (simp add: Let_def pow2_tail_run x_def [symmetric] push_bit_eq_mult and_one_eq odd_iff_mod_2_eq_one
          v0 l_def [symmetric])
    qed
  qed
qed

lemma numPow2Digits_value:
  "numPow2Digits s shift = (round_f64 (of_nat (digits_value (2 ^ shift) (run (2 ^ shift) s))), length (run (2 ^ shift) s))"
proof -
  define z where "z = takeWhile (\<lambda>c. c = 0x30) s"
  note r = run_zeros [of "2 ^ shift" s, folded z_def]
  have "pow2_loop shift (length z) 0 (drop (length z) s)
    = (round_f64 (of_nat (digits_value (2 ^ shift) (run (2 ^ shift) (drop (length z) s)))),
       length z + length (run (2 ^ shift) (drop (length z) s)))"
    by (subst pow2_loop_value) (simp_all add: digits_value_def)
  moreover have "length (run (2 ^ shift) s) = length z + length (run (2 ^ shift) (drop (length z) s))" using r(1) by simp
  moreover have "digits_value (2 ^ shift) (run (2 ^ shift) s) = digits_value (2 ^ shift) (run (2 ^ shift) (drop (length z) s))"
    using r(2) by simp
  ultimately show ?thesis by (simp only: numPow2Digits_def Let_def z_def [symmetric])
qed

subsection \<open>Any other radix, part by part\<close>

text \<open>A part stops where the run does, or with digits left; its multiplier is the power of its length.\<close>

lemma generic_part_reads:
  assumes "generic_part radix i p m s = (p', m', final, j, t)"
  shows "\<exists>ds. run radix s = ds @ run radix t \<and> p' = p * radix ^ length ds + digits_value radix ds \<and> m' = m * radix ^ length ds \<and>
    j = i + length ds \<and> length s = length ds + length t \<and> (final \<longrightarrow> run radix t = []) \<and>
    (\<not> final \<longrightarrow> t \<noteq> [] \<and> run radix t \<noteq> [] \<and> maxMultiplier < m' * radix)"
  using assms
proof (induction radix i p m s rule: generic_part.induct)
  case (1 radix i p m)
  then show ?case by (intro exI [of _ "[]"]) (auto simp: run_def)
next
  case (2 radix i p m c s)
  consider "radix \<le> numDigit c" | "numDigit c < radix" "maxMultiplier < m * radix" | "numDigit c < radix" "m * radix \<le> maxMultiplier"
    by linarith
  then show ?case
  proof cases
    case 3
    with 2(2) have "generic_part radix (i + 1) (p * radix + numDigit c) (m * radix) s = (p', m', final, j, t)" by simp
    from 2(1) [OF refl _ refl _ this] 3 obtain ds where ds: "run radix s = ds @ run radix t"
      "p' = (p * radix + numDigit c) * radix ^ length ds + digits_value radix ds" "m' = m * radix * radix ^ length ds"
      "j = i + 1 + length ds" "length s = length ds + length t" "final \<longrightarrow> run radix t = []"
      "\<not> final \<longrightarrow> t \<noteq> [] \<and> run radix t \<noteq> [] \<and> maxMultiplier < m' * radix" by auto
    have "run radix (c # s) = c # run radix s" using 3 by (simp add: run_def)
    with ds show ?thesis by (intro exI [of _ "c # ds"]) (simp add: digits_value_Cons algebra_simps)
  qed (use 2(2) in \<open>auto simp: run_def intro!: exI [of _ "[]"]\<close>)
qed

lemma small_radix: "radix \<le> 36 \<Longrightarrow> radix \<le> maxMultiplier"
  by (simp add: maxMultiplier_def)

lemma FMA_exact: "n * m + p \<le> 2 ^ 53 \<Longrightarrow> FMA (f64_of_nat n) m p = f64_of_nat (n * m + p)"
  using round_f64_nat [of "n * m + p"] by (simp add: FMA_def f64_of_nat_def)

lemma generic_loop_value:
  assumes "2 \<le> radix" "radix \<le> 36"
  shows "\<exists>v. generic_loop radix r i s = Some (v, i + length (run radix s)) \<and>
    (\<forall>n. r = f64_of_nat n \<longrightarrow> n * radix ^ length (run radix s) + digits_value radix (run radix s) \<le> 2 ^ 53 \<longrightarrow>
      v = f64_of_nat (n * radix ^ length (run radix s) + digits_value radix (run radix s)))"
proof (induction "length s" arbitrary: r i s rule: less_induct)
  case less
  obtain p m final j t where g: "generic_part radix i 0 1 s = (p, m, final, j, t)" by (metis prod_cases5)
  from generic_part_reads [OF g] obtain ds where ds: "run radix s = ds @ run radix t" "p = digits_value radix ds"
    "m = radix ^ length ds" "j = i + length ds" "length s = length ds + length t" "final \<Longrightarrow> run radix t = []"
    "\<not> final \<Longrightarrow> maxMultiplier < m * radix" by auto
  have e: "generic_loop radix r i s = (if final then Some (FMA r m p, j) else generic_loop radix (FMA r m p) j t)"
    by (subst generic_loop.simps) (simp add: g [simplified])
  have val: "n * radix ^ length (run radix s) + digits_value radix (run radix s)
    = (n * m + p) * radix ^ length (run radix t) + digits_value radix (run radix t)" for n
    by (simp add: ds(1-3) digits_value_append power_add algebra_simps)
  show ?case
  proof (cases final)
    case True
    with ds e val show ?thesis by (auto simp: FMA_exact)
  next
    case False
    have "ds \<noteq> []" using ds(3) ds(7) [OF False] small_radix [OF assms(2)] by auto
    then have "length t < length s" using ds(5) by simp
    from less(1) [OF this, of "FMA r m p" j] obtain v where v: "generic_loop radix (FMA r m p) j t = Some (v, j + length (run radix t))"
      "\<And>n. FMA r m p = f64_of_nat n \<Longrightarrow> n * radix ^ length (run radix t) + digits_value radix (run radix t) \<le> 2 ^ 53 \<Longrightarrow>
        v = f64_of_nat (n * radix ^ length (run radix t) + digits_value radix (run radix t))" by blast
    have "v = f64_of_nat ((n * m + p) * radix ^ length (run radix t) + digits_value radix (run radix t))"
      if "r = f64_of_nat n" "(n * m + p) * radix ^ length (run radix t) + digits_value radix (run radix t) \<le> 2 ^ 53" for n
    proof -
      have "1 \<le> radix ^ length (run radix t)" using assms(1) by simp
      then have "n * m + p \<le> (n * m + p) * radix ^ length (run radix t)" by simp
      with that(2) have "n * m + p \<le> 2 ^ 53" by linarith
      with that show ?thesis by (intro v(2)) (simp_all add: FMA_exact)
    qed
    then show ?thesis using False v(1) ds(1,4) e unfolding val by simp
  qed
qed

lemma numGenericDigits_value:
  assumes "2 \<le> radix" "radix \<le> 36"
  shows "\<exists>v. numGenericDigits s radix = Some (v, length (run radix s)) \<and>
    (digits_value radix (run radix s) \<le> 2 ^ 53 \<longrightarrow> v = f64_of_nat (digits_value radix (run radix s)))"
proof -
  define z where "z = takeWhile (\<lambda>c. c = 0x30) s"
  note r = run_zeros [of radix s, folded z_def]
  have z: "Fin 0 = f64_of_nat 0" by (simp add: f64_of_nat_def)
  from generic_loop_value [OF assms, of "Fin 0" "length z" "drop (length z) s"]
  obtain v where "generic_loop radix (Fin 0) (length z) (drop (length z) s) = Some (v, length z + length (run radix (drop (length z) s)))"
    "digits_value radix (run radix (drop (length z) s)) \<le> 2 ^ 53 \<longrightarrow> v = f64_of_nat (digits_value radix (run radix (drop (length z) s)))"
    unfolding z by (metis add_0 mult_0)
  moreover have "length (run radix s) = length z + length (run radix (drop (length z) s))" using r(1) assms(1) by simp
  ultimately show ?thesis using r(2) assms(1) by (simp add: numGenericDigits_def Let_def z_def [symmetric])
qed

subsection \<open>parseInt\<close>

text \<open>
  The steps of ECMAScript's parseInt up to its digits: the radix by ToInt32, the spaces, a sign and
  a prefix gone; whether it is negative, the radix, and the longest run of its digits.
\<close>

definition to_int32 :: "f64 \<Rightarrow> int" where
  "to_int32 x =
     (case to_integer_or_infinity x of
        Integer i \<Rightarrow> let i = i mod 2 ^ 32 in if 2 ^ 31 \<le> i then i - 2 ^ 32 else i
      | _ \<Rightarrow> 0)"

definition int_parts :: "byte list \<Rightarrow> f64 list \<Rightarrow> (bool \<times> nat \<times> byte list) option" where
  "int_parts s radix =
     (let s = StrTrimStart s;
          negative = (case s of c # _ \<Rightarrow> c = 0x2D | [] \<Rightarrow> False);
          s = (case s of c # t \<Rightarrow> if c = 0x2B \<or> c = 0x2D then t else s | [] \<Rightarrow> []);
          r = (case radix of x # _ \<Rightarrow> to_int32 x | [] \<Rightarrow> 0);
          stripPrefix = (r = 0 \<or> r = 16);
          hex = (stripPrefix \<and> (take 2 s = [0x30, 0x78] \<or> take 2 s = [0x30, 0x58]));
          R = (if hex then 16 else if r = 0 then 10 else r);
          digits = run (nat R) (if hex then drop 2 s else s)
      in if R < 2 \<or> 36 < R \<or> digits = [] then None else Some (negative, nat R, digits))"

lemma or_20_add: "c OR 0x20 = (if bit c 5 then c else c + 0x20)" for c :: byte
proof -
  have "(0x20 :: byte) = push_bit 5 1" by (simp add: push_bit_eq_mult)
  then have "c OR 0x20 = set_bit 5 c" by (simp only: set_bit_eq_or)
  also have "\<dots> = c + of_bool (\<not> bit c 5) * 2 ^ 5" by (rule set_bit_eq)
  finally show ?thesis by simp
qed

lemma or_20:
  "c OR 0x20 = 0x78 \<longleftrightarrow> c = 0x78 \<or> c = 0x58"
  "c OR 0x20 = 0x6F \<longleftrightarrow> c = 0x6F \<or> c = 0x4F"
  "c OR 0x20 = 0x62 \<longleftrightarrow> c = 0x62 \<or> c = 0x42"
  "c OR 0x20 = 0x65 \<longleftrightarrow> c = 0x65 \<or> c = 0x45" for c :: byte
proof -
  have *: "c + 0x20 = d + 0x20 \<longleftrightarrow> c = d" for c d :: byte by simp
  show "c OR 0x20 = 0x78 \<longleftrightarrow> c = 0x78 \<or> c = 0x58" using * [of c "0x58"] by (auto simp: or_20_add)
  show "c OR 0x20 = 0x6F \<longleftrightarrow> c = 0x6F \<or> c = 0x4F" using * [of c "0x4F"] by (auto simp: or_20_add)
  show "c OR 0x20 = 0x62 \<longleftrightarrow> c = 0x62 \<or> c = 0x42" using * [of c "0x42"] by (auto simp: or_20_add)
  show "c OR 0x20 = 0x65 \<longleftrightarrow> c = 0x65 \<or> c = 0x45" using * [of c "0x45"] by (auto simp: or_20_add)
qed

lemma signed_32: "sint (word_of_int k :: 32 word) = (let i = k mod 2 ^ 32 in if 2 ^ 31 \<le> i then i - 2 ^ 32 else i)"
proof -
  have "sint (word_of_int k :: 32 word) = signed_take_bit 31 k" by (simp add: signed_of_int)
  also have "\<dots> = (k + 2 ^ 31) mod 2 ^ 32 - 2 ^ 31" by (simp add: signed_take_bit_eq_take_bit_shift take_bit_eq_mod)
  also have "(k + 2 ^ 31) mod 2 ^ 32 = (k mod 2 ^ 32 + 2 ^ 31) mod 2 ^ 32" by (simp only: mod_add_left_eq)
  finally have e: "sint (word_of_int k :: 32 word) = (k mod 2 ^ 32 + 2 ^ 31) mod 2 ^ 32 - 2 ^ 31" .
  define i where "i = k mod 2 ^ 32"
  have i: "0 \<le> i" "i < 2 ^ 32" by (simp_all add: i_def)
  have "(i + 2 ^ 31) mod 2 ^ 32 = (if 2 ^ 31 \<le> i then i - 2 ^ 31 else i + 2 ^ 31)"
  proof (cases "2 ^ 31 \<le> i")
    case True
    have "(i + 2 ^ 31) mod 2 ^ 32 = (i - 2 ^ 31 + 2 ^ 32) mod 2 ^ 32" by (simp add: add.commute)
    also have "\<dots> = (i - 2 ^ 31) mod 2 ^ 32" by (rule mod_add_self2)
    also have "\<dots> = i - 2 ^ 31" using True i by (intro mod_pos_pos_trivial) simp_all
    finally show ?thesis using True by simp
  next
    case False
    then show ?thesis using i by simp
  qed
  then show ?thesis unfolding e i_def [symmetric] Let_def by simp
qed

lemma trunc_int: "f64_int (f64_trunc (Fin q)) = (if 0 \<le> q then \<lfloor>q\<rfloor> else \<lceil>q\<rceil>)"
proof (cases "0 \<le> q")
  case False
  then have "\<lceil>q\<rceil> \<le> 0" by simp
  moreover have "\<lceil>q\<rceil> = 0" if "-1 < q" using that False by (intro ceiling_unique) simp_all
  ultimately show ?thesis using False by auto
qed simp

lemma numToInt32_spec: "sint (numToInt32 x) = to_int32 x"
proof (cases x)
  case (Fin q)
  have neg: "- (- t mod 2 ^ 32) mod 2 ^ 32 = t mod (2 ^ 32 :: int)" for t :: int
    by (simp only: mod_minus_eq minus_minus)
  have "word_of_int (if 0 \<le> t then t mod 2 ^ 32 else - (- t mod 2 ^ 32)) = (word_of_int t :: 32 word)" for t :: int
    using neg [of t] unfolding word_of_int_eq_iff take_bit_eq_mod by (simp split: if_split)
  then have "numToInt32 x = word_of_int (f64_int (f64_trunc x))" by (simp add: numToInt32_def Fin f64_is_inf_def Let_def)
  then show ?thesis by (simp add: Fin trunc_int signed_32 to_int32_def del: f64_trunc.simps)
qed (simp_all add: numToInt32_def f64_is_inf_def to_int32_def)

fun signed_by :: "bool \<Rightarrow> f64 \<Rightarrow> f64" where
  "signed_by negative v = (if negative then f64_neg v else v)"

lemma powers_of_2: "list_all (\<lambda>r. r AND (r - 1) = 0 \<longrightarrow> r \<in> {2, 4, 8, 16, 32} \<and> r = 2 ^ trailing_zeros r) [2..<37]"
  by code_simp

lemma power_of_2:
  assumes "2 \<le> r" "r \<le> 36" "r AND (r - 1) = (0 :: nat)"
  shows "r = 2 ^ trailing_zeros r" "r \<in> {2, 4, 8, 16, 32}"
proof -
  have "r < 37" using assms(2) by simp
  then have "r \<in> set [2..<37]" using assms(1) by (simp only: set_upt atLeastLessThan_iff)
  then show "r = 2 ^ trailing_zeros r" "r \<in> {2, 4, 8, 16, 32}"
    using powers_of_2 assms(3) unfolding list_all_iff by blast+
qed

text \<open>The digits read, whatever the radix, and their value.\<close>

definition read_digits :: "nat \<Rightarrow> byte list \<Rightarrow> (f64 \<times> nat) option" where
  "read_digits r s =
     (if r = 10 then let n = numDigitRun s 10 in Some (round_f64 (of_nat (digits_value 10 (take n s))), n)
      else if r AND (r - 1) = 0 then Some (numPow2Digits s (trailing_zeros r))
      else numGenericDigits s r)"

lemma take_run: "take (numDigitRun s radix) s = run radix s"
  by (simp add: numDigitRun_def run_def takeWhile_eq_take [symmetric])

lemma read_digits_value:
  assumes "2 \<le> r" "r \<le> 36"
  shows "\<exists>v. read_digits r s = Some (v, length (run r s)) \<and>
    (r \<in> {2, 4, 8, 10, 16, 32} \<or> digits_value r (run r s) \<le> 2 ^ 53 \<longrightarrow> v = round_f64 (of_nat (digits_value r (run r s))))"
proof -
  consider "r = 10" | "r \<noteq> 10" "r AND (r - 1) = 0" | "r \<noteq> 10" "r AND (r - 1) \<noteq> 0" by blast
  then show ?thesis
  proof cases
    case 1
    then show ?thesis by (simp add: read_digits_def Let_def take_run) (simp add: numDigitRun_def run_def)
  next
    case 2
    have "2 ^ trailing_zeros r = r" using power_of_2(1) [OF assms 2(2)] by (rule sym)
    then show ?thesis using 2 by (simp add: read_digits_def numPow2Digits_value)
  next
    case 3
    have "r \<notin> {2, 4, 8, 10, 16, 32}" using 3 by auto
    moreover obtain v where "numGenericDigits s r = Some (v, length (run r s))"
      "digits_value r (run r s) \<le> 2 ^ 53 \<longrightarrow> v = f64_of_nat (digits_value r (run r s))"
      using numGenericDigits_value [OF assms] by blast
    ultimately show ?thesis using 3 by (auto simp: read_digits_def round_f64_nat)
  qed
qed

lemma hex_prefix:
  "length s \<ge> 2 \<and> s ! 0 = 0x30 \<and> s ! 1 OR 0x20 = 0x78 \<longleftrightarrow> take 2 s = [0x30, 0x78] \<or> take 2 s = [0x30, 0x58]" for s :: "byte list"
proof (cases s)
  case (Cons c t)
  then show ?thesis by (cases t) (auto simp: or_20)
qed simp

text \<open>
  C29: \<open>parseInt\<close> returns on every string and radix: NaN where ECMAScript's steps find no digits,
  and otherwise the double nearest the number the longest run of digits denotes, with its sign,
  where the radix is one the specification is exact for, or the number fits 53 bits.
\<close>

theorem parse_int_value:
  "\<exists>v. ParseInt s radix = Some v \<and>
     (case int_parts s radix of
        None \<Rightarrow> v = NaN
      | Some (negative, r, digits) \<Rightarrow>
          r \<in> {2, 4, 8, 10, 16, 32} \<or> digits_value r digits \<le> 2 ^ 53 \<longrightarrow>
            v = signed_by negative (round_f64 (of_nat (digits_value r digits))))"
proof -
  define r where "r = (case radix of x # _ \<Rightarrow> to_int32 x | [] \<Rightarrow> 0)"
  define u where "u = StrTrimStart s"
  define t where "t = (case u of c # t \<Rightarrow> if c = 0x2B \<or> c = 0x2D then t else u | [] \<Rightarrow> [])"
  define neg where "neg = (case u of c # _ \<Rightarrow> c = 0x2D | [] \<Rightarrow> False)"
  define hex where "hex = ((r = 0 \<or> r = 16) \<and> (take 2 t = [0x30, 0x78] \<or> take 2 t = [0x30, 0x58]))"
  define w where "w = (if hex then drop 2 t else t)"
  define R where "R = (if hex then 16 else if r = 0 then 10 else r)"
  have parts: "int_parts s radix = (if R < 2 \<or> 36 < R \<or> run (nat R) w = [] then None else Some (neg, nat R, run (nat R) w))"
    unfolding int_parts_def Let_def r_def [symmetric] u_def [symmetric] t_def [symmetric] neg_def [symmetric]
      hex_def [symmetric] w_def [symmetric] R_def [symmetric] by (rule refl)
  have r': "(if length radix > 0 then sint (numToInt32 (radix ! 0)) else 0) = r"
    by (cases radix) (simp_all add: r_def numToInt32_spec)
  have neg': "(u \<noteq> [] \<and> (u ! 0 = 0x2B \<or> u ! 0 = 0x2D)) \<and> u ! 0 = 0x2D \<longleftrightarrow> neg" by (cases u) (auto simp: neg_def)
  have t': "(if u \<noteq> [] \<and> (u ! 0 = 0x2B \<or> u ! 0 = 0x2D) then drop 1 u else u) = t" by (cases u) (auto simp: t_def)
  have hex': "(r = 0 \<or> r = 16) \<and> length t \<ge> 2 \<and> t ! 0 = 0x30 \<and> t ! 1 OR 0x20 = 0x78 \<longleftrightarrow> hex"
    unfolding hex_def hex_prefix by (rule refl)
  have R': "(if hex then 16 else if r = 0 then 10 else nat r) = nat R" by (simp add: R_def)
  have code: "ParseInt s radix
    = (if r \<noteq> 0 \<and> (r < 2 \<or> r > 36) then Some NaN
       else map_option (\<lambda>(v, n). if n = 0 then NaN else if neg then f64_neg v else v) (read_digits (nat R) w))"
    unfolding ParseInt_def numTrimStart_StrTrimStart r' Let_def u_def [symmetric] neg' t' hex' w_def [symmetric] R' read_digits_def
    by (rule refl)
  show ?thesis
  proof (cases "r \<noteq> 0 \<and> (r < 2 \<or> r > 36)")
    case True
    then have "R = r" by (auto simp: R_def hex_def)
    with True show ?thesis unfolding code parts by auto
  next
    case False
    then have R: "2 \<le> R" "R \<le> 36" by (auto simp: R_def)
    then have "2 \<le> nat R" "nat R \<le> 36" by simp_all
    from read_digits_value [OF this, of w] obtain v where v: "read_digits (nat R) w = Some (v, length (run (nat R) w))"
      "nat R \<in> {2, 4, 8, 10, 16, 32} \<or> digits_value (nat R) (run (nat R) w) \<le> 2 ^ 53 \<longrightarrow>
        v = round_f64 (of_nat (digits_value (nat R) (run (nat R) w)))" by blast
    show ?thesis
    proof (cases "run (nat R) w = []")
      case True
      then show ?thesis using False v(1) unfolding code parts by simp
    next
      case nonempty: False
      have "ParseInt s radix = Some (signed_by neg v)" using nonempty v(1) unfolding code if_not_P [OF False] by simp
      moreover have "int_parts s radix = Some (neg, nat R, run (nat R) w)" unfolding parts using R nonempty by simp
      ultimately show ?thesis using v(2) by auto
    qed
  qed
qed

subsection \<open>The decimal grammar\<close>

text \<open>StrDecimalLiteral, and the double nearest to what it denotes.\<close>

definition is_digits :: "byte list \<Rightarrow> bool" where
  "is_digits ds \<longleftrightarrow> list_all (\<lambda>c. numDigit c < 10) ds"

inductive exponent_part :: "byte list \<Rightarrow> int \<Rightarrow> bool" where
  None: "exponent_part [] 0"
| Unsigned: "c = 0x65 \<or> c = 0x45 \<Longrightarrow> is_digits ds \<Longrightarrow> ds \<noteq> [] \<Longrightarrow> exponent_part (c # ds) (int (digits_value 10 ds))"
| Plus: "c = 0x65 \<or> c = 0x45 \<Longrightarrow> is_digits ds \<Longrightarrow> ds \<noteq> [] \<Longrightarrow> exponent_part (c # 0x2B # ds) (int (digits_value 10 ds))"
| Minus: "c = 0x65 \<or> c = 0x45 \<Longrightarrow> is_digits ds \<Longrightarrow> ds \<noteq> [] \<Longrightarrow> exponent_part (c # 0x2D # ds) (- int (digits_value 10 ds))"

definition decimal_number :: "byte list \<Rightarrow> byte list \<Rightarrow> int \<Rightarrow> f64" where
  "decimal_number whole fraction e = round_f64 (of_nat (digits_value 10 (whole @ fraction)) * 10 powi (e - int (length fraction)))"

inductive unsigned_literal :: "byte list \<Rightarrow> f64 \<Rightarrow> bool" where
  Infinite: "unsigned_literal (infinity_text) PosInf"
| Whole: "is_digits w \<Longrightarrow> w \<noteq> [] \<Longrightarrow> exponent_part x e \<Longrightarrow> unsigned_literal (w @ x) (decimal_number w [] e)"
| Point: "is_digits w \<Longrightarrow> is_digits f \<Longrightarrow> w @ f \<noteq> [] \<Longrightarrow> exponent_part x e \<Longrightarrow>
    unsigned_literal (w @ 0x2E # f @ x) (decimal_number w f e)"

inductive decimal_literal :: "byte list \<Rightarrow> f64 \<Rightarrow> bool" where
  NoSign: "unsigned_literal s v \<Longrightarrow> decimal_literal s v"
| PlusSign: "unsigned_literal s v \<Longrightarrow> decimal_literal (0x2B # s) v"
| MinusSign: "unsigned_literal s v \<Longrightarrow> decimal_literal (0x2D # s) (f64_neg v)"

subsection \<open>The value of a decimal\<close>

lemma ten_powi: "(10 :: rat) powi int n = 10 ^ n" "0 < (10 :: rat) powi k"
  by (simp_all add: zero_less_power_int)

lemma digits_value_ge:
  assumes "is_digits (c # ds)" "c \<noteq> 0x30"
  shows "10 ^ length ds \<le> digits_value 10 (c # ds)"
proof -
  have "1 \<le> numDigit c" using numDigit_0 [of c] assms(2) by (cases "numDigit c") auto
  then have "1 * 10 ^ length ds \<le> numDigit c * 10 ^ length ds" by (intro mult_le_mono1)
  then show ?thesis unfolding digits_value_Cons by (simp add: trans_le_add1)
qed

lemma digits_from_first:
  defines "z \<equiv> \<lambda>ds. length (takeWhile (\<lambda>c. c = (0x30 :: byte)) ds)"
  shows "digits_value 10 (drop (z ds) ds) = digits_value 10 ds" "drop (z ds) ds = c # t \<Longrightarrow> c \<noteq> 0x30"
proof -
  have "drop (z ds) ds = dropWhile (\<lambda>c. c = 0x30) ds" by (simp add: z_def dropWhile_eq_drop)
  then show "digits_value 10 (drop (z ds) ds) = digits_value 10 ds"
    using digits_value_zeros [of 10 ds "dropWhile (\<lambda>c. c = 0x30) ds"] by simp
  show "c \<noteq> 0x30" if "drop (z ds) ds = c # t"
    using that hd_dropWhile [of "\<lambda>c. c = 0x30" ds] by (simp add: z_def dropWhile_eq_drop [symmetric])
qed

text \<open>The bounds the code cuts at leave only infinity above and zero below.\<close>

lemma round_f64_high: "10 powi 310 \<le> q \<Longrightarrow> round_f64 q = PosInf"
proof -
  assume q: "10 powi 310 \<le> q"
  have "(2 :: rat) powi 1024 - 2 powi 970 \<le> 10 powi 310" by simp
  with q have "2 powi 1024 - 2 powi 970 \<le> q" by (rule order_trans [rotated])
  moreover have "0 < q" using ten_powi(2) [of 310] q by (rule less_le_trans)
  ultimately show ?thesis using round_f64_inf by blast
qed

lemma round_f64_low: "0 \<le> q \<Longrightarrow> q < 10 powi -324 \<Longrightarrow> round_f64 q = Fin 0"
proof -
  assume q: "0 \<le> q" "q < 10 powi -324"
  have "(10 :: rat) powi -324 \<le> 2 powi -1075" by simp
  with q(2) have "q < 2 powi -1075" by (rule less_le_trans)
  with q(1) show ?thesis by (rule round_f64_tiny)
qed

lemma numDecimalValue_number:
  assumes "is_digits w" "is_digits f"
  shows "numDecimalValue w f e = decimal_number w f e"
proof -
  define lead where "lead = length (takeWhile (\<lambda>c. c = 0x30) (w @ f))"
  define ds where "ds = drop lead (w @ f)"
  define p where "p = int (length w) - int lead + e"
  have val: "digits_value 10 ds = digits_value 10 (w @ f)" unfolding ds_def lead_def by (rule digits_from_first(1))
  have code: "numDecimalValue w f e
    = (if ds = [] then Fin 0 else if p > 310 then PosInf else if p < -323 then Fin 0 else decimal_float ds p)"
    unfolding numDecimalValue_def Let_def lead_def [symmetric] ds_def [symmetric] p_def [symmetric] by (rule refl)
  have dig: "is_digits ds" using assms by (auto simp: ds_def is_digits_def list_all_iff dest: in_set_dropD)
  show ?thesis
  proof (cases ds)
    case Nil
    then have "digits_value 10 (w @ f) = 0" using val by simp
    then show ?thesis
      using Nil unfolding code by (simp add: decimal_number_def round_f64_def)
  next
    case (Cons c t)
    define q where "q = of_nat (digits_value 10 (w @ f)) * (10 :: rat) powi (e - int (length f))"
    have "lead \<le> length (w @ f)" unfolding lead_def by (rule length_takeWhile_le)
    then have e: "e - int (length f) = p - int (length ds)" by (simp add: p_def ds_def)
    have q: "q = of_nat (digits_value 10 ds) / 10 ^ length ds * 10 powi p"
      unfolding q_def e val [symmetric] by (simp add: power_int_diff)
    have "c \<noteq> 0x30" using Cons unfolding ds_def lead_def by (rule digits_from_first(2))
    then have lo: "10 ^ length t \<le> digits_value 10 ds" using digits_value_ge dig unfolding Cons by blast
    have hi: "digits_value 10 ds < 10 ^ length ds" using dig by (intro digits_value_less) (simp add: is_digits_def list_all_iff)
    have "(of_nat (10 ^ length t) :: rat) \<le> of_nat (digits_value 10 ds)" using lo unfolding of_nat_le_iff .
    then have "1 / 10 \<le> (of_nat (digits_value 10 ds) :: rat) / 10 ^ length ds" by (simp add: Cons field_simps)
    then have "1 / 10 * 10 powi p \<le> q" unfolding q using ten_powi(2) [of p] by (intro mult_right_mono) simp_all
    then have low: "10 powi (p - 1) \<le> q" by (simp add: power_int_diff)
    have "(of_nat (digits_value 10 ds) :: rat) < of_nat (10 ^ length ds)" using hi unfolding of_nat_less_iff .
    then have "(of_nat (digits_value 10 ds) :: rat) / 10 ^ length ds < 1" by simp
    then have "q < 1 * 10 powi p" unfolding q using ten_powi(2) [of p] by (intro mult_strict_right_mono)
    then have high: "q < 10 powi p" by simp
    have q0: "0 \<le> q" unfolding q_def using ten_powi(2) [of "e - int (length f)"] by simp
    have "round_f64 q = (if p > 310 then PosInf else if p < -323 then Fin 0 else decimal_float ds p)"
    proof -
      have "round_f64 q = PosInf" if "p > 310"
      proof (rule round_f64_high)
        have "(10 :: rat) powi 310 \<le> 10 powi (p - 1)" using that by (intro power_int_increasing) simp_all
        with low show "10 powi 310 \<le> q" by (rule order_trans [rotated])
      qed
      moreover have "round_f64 q = Fin 0" if "p < -323"
      proof (rule round_f64_low [OF q0])
        have "(10 :: rat) powi p \<le> 10 powi -324" using that by (intro power_int_increasing) simp_all
        with high show "q < 10 powi -324" by (rule less_le_trans)
      qed
      moreover have "round_f64 q = decimal_float ds p" by (simp add: decimal_float_def q)
      ultimately show ?thesis by simp
    qed
    then show ?thesis
      using Cons unfolding code decimal_number_def q_def [symmetric] by simp
  qed
qed

subsection \<open>The scan\<close>

lemma run_append_digits: "is_digits w \<Longrightarrow> run 10 (w @ s) = w @ run 10 s"
  by (induction w) (simp_all add: is_digits_def run_def)

lemma run_is_digits [simp]: "is_digits (run 10 s)"
  using run_digits [of 10 s] by (simp add: is_digits_def list_all_iff)

lemma not_digits_plain: "\<not> numDigit 0x2E < 10" "\<not> numDigit 0x65 < 10" "\<not> numDigit 0x45 < 10" "\<not> numDigit 0x2B < 10" "\<not> numDigit 0x2D < 10" "\<not> numDigit 0x49 < 10"
  by (simp_all add: numDigit_def)

lemma run_stops [simp]:
  "run 10 (0x2E # s) = []" "run 10 (0x65 # s) = []" "run 10 (0x45 # s) = []" "run 10 (0x2B # s) = []" "run 10 (0x2D # s) = []" "run 10 (0x49 # s) = []"
  using not_digits_plain by (simp_all add: run_def)

lemma run_prefix: "s = run 10 s @ drop (length (run 10 s)) s"
  using takeWhile_dropWhile_id [of "\<lambda>c. numDigit c < 10" s] by (simp add: run_def dropWhile_eq_drop)

lemma numDigitRun_run: "numDigitRun s 10 = length (run 10 s)"
  by (simp add: numDigitRun_def run_def)

text \<open>The exponent saturates where it no longer matters.\<close>

lemma saturated:
  "0 \<le> x \<Longrightarrow> is_digits ds \<Longrightarrow>
   foldl (\<lambda>x c. min (x * 10 + int (unat (c - 0x30))) 1000000000) (min x 1000000000) ds
   = min (x * 10 ^ length ds + int (digits_value 10 ds)) 1000000000"
proof (induction ds arbitrary: x)
  case (Cons c ds)
  then have c: "numDigit c < 10" "is_digits ds" by (simp_all add: is_digits_def)
  then have "unat (c - 0x30) = numDigit c" by (auto simp: numDigit_def split: if_splits)
  then have d: "int (unat (c - 0x30)) = int (numDigit c)" by (simp only:)
  have "min (min x 1000000000 * 10 + int (numDigit c)) 1000000000 = min (x * 10 + int (numDigit c)) 1000000000" using Cons.prems by auto
  then have "foldl (\<lambda>x c. min (x * 10 + int (unat (c - 0x30))) 1000000000) (min x 1000000000) (c # ds)
    = foldl (\<lambda>x c. min (x * 10 + int (unat (c - 0x30))) 1000000000) (min (x * 10 + int (numDigit c)) 1000000000) ds"
    by (simp only: foldl_Cons d)
  also have "\<dots> = min ((x * 10 + int (numDigit c)) * 10 ^ length ds + int (digits_value 10 ds)) 1000000000"
    using Cons.prems(1) by (intro Cons.IH c(2)) simp
  also have "(x * 10 + int (numDigit c)) * 10 ^ length ds + int (digits_value 10 ds) = x * 10 ^ length (c # ds) + int (digits_value 10 (c # ds))"
    by (simp add: digits_value_Cons algebra_simps)
  finally show ?case .
qed simp

definition sat :: "int \<Rightarrow> int" where
  "sat e = max (-1000000000) (min e 1000000000)"

lemma run_fold: "foldl (\<lambda>x c. min (x * 10 + int (unat (c - 0x30))) 1000000000) 0 (run 10 u) = min (int (digits_value 10 (run 10 u))) 1000000000"
  using saturated [of 0 "run 10 u"] by simp

lemma sat_pos: "min (int n) 1000000000 = sat (int n)" "- sat x = sat (- x)"
  by (auto simp: sat_def)

lemma run_length: "take (length (run 10 u)) u = run 10 u" "length (run 10 u) \<le> length u"
  using take_run [of u 10] unfolding numDigitRun_run by (simp_all add: run_def length_takeWhile_le)

lemma scan_exponent_simps:
  assumes "c = 0x65 \<or> c = 0x45"
  shows "scan_exponent (c # 0x2B # u) = (if run 10 u = [] then (0, 0) else (sat (int (digits_value 10 (run 10 u))), 2 + length (run 10 u)))"
    "scan_exponent (c # 0x2D # u) = (if run 10 u = [] then (0, 0) else (sat (- int (digits_value 10 (run 10 u))), 2 + length (run 10 u)))"
    "u = [] \<or> (hd u \<noteq> 0x2B \<and> hd u \<noteq> 0x2D) \<Longrightarrow>
      scan_exponent (c # u) = (if run 10 u = [] then (0, 0) else (sat (int (digits_value 10 (run 10 u))), 1 + length (run 10 u)))"
proof -
  have c: "c OR 0x20 = 0x65" using assms by (simp add: or_20(4))
  show "scan_exponent (c # 0x2B # u) = (if run 10 u = [] then (0, 0) else (sat (int (digits_value 10 (run 10 u))), 2 + length (run 10 u)))"
    by (simp add: scan_exponent_def c numDigitRun_run run_length run_fold [simplified] sat_pos [simplified] Let_def)
  show "scan_exponent (c # 0x2D # u) = (if run 10 u = [] then (0, 0) else (sat (- int (digits_value 10 (run 10 u))), 2 + length (run 10 u)))"
    by (simp add: scan_exponent_def c numDigitRun_run run_length run_fold [simplified] sat_pos [simplified] Let_def)
  show "scan_exponent (c # u) = (if run 10 u = [] then (0, 0) else (sat (int (digits_value 10 (run 10 u))), 1 + length (run 10 u)))"
    if "u = [] \<or> (hd u \<noteq> 0x2B \<and> hd u \<noteq> 0x2D)"
    using that by (auto simp: scan_exponent_def c numDigitRun_run run_length run_fold [simplified] sat_pos [simplified] Let_def)
qed

lemma scan_exponent_cases:
  obtains (none) "scan_exponent s = (0, 0)"
  | (plus) c u where "c = 0x65 \<or> c = 0x45" "s = c # 0x2B # u" "run 10 u \<noteq> []"
  | (minus) c u where "c = 0x65 \<or> c = 0x45" "s = c # 0x2D # u" "run 10 u \<noteq> []"
  | (unsigned) c u where "c = 0x65 \<or> c = 0x45" "s = c # u" "hd u \<noteq> 0x2B" "hd u \<noteq> 0x2D" "run 10 u \<noteq> []"
proof (cases s)
  case Nil
  then show ?thesis using none by (simp add: scan_exponent_def)
next
  case (Cons c t)
  show ?thesis
  proof (cases "c = 0x65 \<or> c = 0x45")
    case False
    then show ?thesis using none Cons by (simp add: scan_exponent_def or_20(4))
  next
    case c: True
    show ?thesis
    proof (cases t)
      case Nil
      then show ?thesis using none Cons scan_exponent_simps(3) [OF c, of "[]"] by (simp add: run_def)
    next
      case (Cons d u)
      note s = \<open>s = c # t\<close>
      consider "d = 0x2B" | "d = 0x2D" | "d \<noteq> 0x2B" "d \<noteq> 0x2D" by blast
      then show ?thesis
      proof cases
        case 1
        then show ?thesis using none plus [OF c, of u] s Cons scan_exponent_simps(1) [OF c, of u] by (cases "run 10 u = []") auto
      next
        case 2
        then show ?thesis using none minus [OF c, of u] s Cons scan_exponent_simps(2) [OF c, of u] by (cases "run 10 u = []") auto
      next
        case 3
        then show ?thesis using none unsigned [OF c, of t] s Cons scan_exponent_simps(3) [OF c, of t] by (cases "run 10 t = []") auto
      qed
    qed
  qed
qed

lemma scan_exponent_reads:
  "\<exists>e. exponent_part (take (snd (scan_exponent s)) s) e \<and> fst (scan_exponent s) = sat e \<and> snd (scan_exponent s) \<le> length s"
proof (cases s rule: scan_exponent_cases)
  case none
  then show ?thesis by (auto intro!: exI [of _ 0] exponent_part.None simp: sat_def)
next
  case (plus c u)
  then show ?thesis
    using exponent_part.Plus [of c "run 10 u"] run_length [of u] scan_exponent_simps(1) [of c u] by auto
next
  case (minus c u)
  then show ?thesis
    using exponent_part.Minus [of c "run 10 u"] run_length [of u] scan_exponent_simps(2) [of c u] by auto
next
  case (unsigned c u)
  then show ?thesis
    using exponent_part.Unsigned [of c "run 10 u"] run_length [of u] scan_exponent_simps(3) [of c u] by auto
qed

lemma scan_exponent_longest: "exponent_part x e \<Longrightarrow> length x \<le> snd (scan_exponent (x @ s))"
proof (induction rule: exponent_part.induct)
  case (Unsigned c ds)
  have "hd ds \<noteq> 0x2B" "hd ds \<noteq> 0x2D"
    using Unsigned(2,3) not_digits_plain(4,5) by (cases ds; auto simp: is_digits_def)+
  then show ?case
    using Unsigned scan_exponent_simps(3) [OF Unsigned(1), of "ds @ s"] by (auto simp: run_append_digits)
next
  case (Plus c ds)
  then show ?case using scan_exponent_simps(1) [OF Plus(1), of "ds @ s"] by (auto simp: run_append_digits)
next
  case (Minus c ds)
  then show ?case using scan_exponent_simps(2) [OF Minus(1), of "ds @ s"] by (auto simp: run_append_digits)
qed simp

lemma exponent_part_start: "exponent_part x e \<Longrightarrow> x \<noteq> [] \<Longrightarrow> hd x = 0x65 \<or> hd x = 0x45"
  by (induction rule: exponent_part.induct) auto

subsection \<open>The longest literal\<close>

lemma sat_value:
  assumes "is_digits w" "is_digits f" "length w + length f < 999999000"
  shows "numDecimalValue w f (sat e) = decimal_number w f e"
proof -
  define lead where "lead = length (takeWhile (\<lambda>c. c = 0x30) (w @ f))"
  define ds where "ds = drop lead (w @ f)"
  have "lead \<le> length (w @ f)" unfolding lead_def by (rule length_takeWhile_le)
  then have "int lead \<le> int (length w) + int (length f)" by simp
  then have l: "int (length w) - int lead < 999999000" "-999999000 < int (length w) - int lead" using assms(3) by linarith+
  have code: "numDecimalValue w f k = (if ds = [] then Fin 0
      else let p = int (length w) - int lead + k in if p > 310 then PosInf else if p < -323 then Fin 0 else decimal_float ds p)" for k
    unfolding numDecimalValue_def Let_def lead_def [symmetric] ds_def [symmetric] by (rule refl)
  have big: "numDecimalValue w f k = (if ds = [] then Fin 0 else PosInf)" if "1000000000 \<le> k" for k
    unfolding code Let_def using l that by simp
  have small: "numDecimalValue w f k = Fin 0" if "k \<le> -1000000000" for k
    unfolding code Let_def using l that by simp
  consider "-1000000000 < e" "e < 1000000000" | "1000000000 \<le> e" | "e \<le> -1000000000" by linarith
  then have "numDecimalValue w f (sat e) = numDecimalValue w f e"
  proof cases
    case 1
    then show ?thesis by (simp add: sat_def)
  next
    case 2
    then have "sat e = 1000000000" by (simp add: sat_def)
    with 2 show ?thesis using big [of e] big [of 1000000000] by simp
  next
    case 3
    then have "sat e = -1000000000" by (simp add: sat_def)
    with 3 show ?thesis using small [of e] small [of "-1000000000"] by simp
  qed
  then show ?thesis using numDecimalValue_number [OF assms(1,2)] by simp
qed

text \<open>What is read, in parts: digits, a point and digits, and an exponent.\<close>

lemma scan_unsigned_parts:
  assumes "take 8 s \<noteq> infinity_text"
  defines "w \<equiv> run 10 s" and "t \<equiv> drop (length (run 10 s)) s"
  defines "f \<equiv> run 10 (tl t)"
  shows "t \<noteq> [] \<and> hd t = 0x2E \<Longrightarrow> scan_unsigned s = (if w = [] \<and> f = [] then (Fin 0, 0)
      else (numDecimalValue w f (fst (scan_exponent (drop (length f) (tl t)))), length w + (1 + length f) + snd (scan_exponent (drop (length f) (tl t)))))"
    and "\<not> (t \<noteq> [] \<and> hd t = 0x2E) \<Longrightarrow> scan_unsigned s = (if w = [] then (Fin 0, 0)
      else (numDecimalValue w [] (fst (scan_exponent t)), length w + snd (scan_exponent t)))"
proof -
  have tw: "take (length w) s = w" unfolding w_def by (rule run_length(1))
  assume c: "t \<noteq> [] \<and> hd t = 0x2E"
  show "scan_unsigned s = (if w = [] \<and> f = [] then (Fin 0, 0)
      else (numDecimalValue w f (fst (scan_exponent (drop (length f) (tl t)))), length w + (1 + length f) + snd (scan_exponent (drop (length f) (tl t)))))"
    unfolding scan_unsigned_def numDigitRun_run run_length(1) Let_def w_def [symmetric] tw t_def [unfolded w_def [symmetric], symmetric]
      if_not_P [OF assms(1)] if_P [OF c] f_def [symmetric] case_prod_beta by (rule refl)
next
  have tw: "take (length w) s = w" unfolding w_def by (rule run_length(1))
  assume c: "\<not> (t \<noteq> [] \<and> hd t = 0x2E)"
  show "scan_unsigned s = (if w = [] then (Fin 0, 0)
      else (numDecimalValue w [] (fst (scan_exponent t)), length w + snd (scan_exponent t)))"
    unfolding scan_unsigned_def numDigitRun_run run_length(1) Let_def w_def [symmetric] tw t_def [unfolded w_def [symmetric], symmetric]
      if_not_P [OF assms(1)] if_not_P [OF c] case_prod_beta by simp
qed

lemma infinity_start: "hd infinity_text = 0x49" "length infinity_text = 8" "infinity_text \<noteq> []"
  by (simp_all add: infinity_text_def byte_of_def)

lemma scan_unsigned_reads:
  assumes "scan_unsigned s = (v, n)" "0 < n" "length s < 999999000"
  shows "n \<le> length s" "unsigned_literal (take n s) v"
proof -
  have "n \<le> length s \<and> unsigned_literal (take n s) v"
  proof (cases "take 8 s = infinity_text")
    case True
    then have "v = PosInf" "n = 8" using assms(1) by (simp_all add: scan_unsigned_def)
    moreover have "8 \<le> length s" using arg_cong [OF True, of length] infinity_start(2) by simp
    ultimately show ?thesis using True by (simp add: unsigned_literal.Infinite)
  next
    case False
    define w t where "w = run 10 s" and "t = drop (length (run 10 s)) s"
    have s: "s = w @ t" unfolding w_def t_def by (rule run_prefix)
    have w: "is_digits w" by (simp add: w_def)
    note parts = scan_unsigned_parts [OF False, folded w_def, folded t_def [folded w_def]]
    show ?thesis
    proof (cases "t \<noteq> [] \<and> hd t = 0x2E")
      case True
      define f u where "f = run 10 (tl t)" and "u = drop (length (run 10 (tl t))) (tl t)"
      have t: "t = 0x2E # f @ u" using True run_prefix [of "tl t"] by (cases t) (simp_all add: f_def u_def)
      obtain e where e: "exponent_part (take (snd (scan_exponent u)) u) e" "fst (scan_exponent u) = sat e" "snd (scan_exponent u) \<le> length u"
        using scan_exponent_reads [of u] by blast
      have sc: "scan_unsigned s = (if w = [] \<and> f = [] then (Fin 0, 0)
        else (numDecimalValue w f (fst (scan_exponent u)), length w + (1 + length f) + snd (scan_exponent u)))"
        using parts(1) True unfolding f_def u_def w_def t_def by simp
      then have ne: "\<not> (w = [] \<and> f = [])" using assms(1,2) by auto
      have f: "is_digits f" by (simp add: f_def)
      have "length w + length f < 999999000" using assms(3) by (simp add: s t)
      then have "v = decimal_number w f e" "n = length w + (1 + length f) + snd (scan_exponent u)"
        using sc ne assms(1) e(2) sat_value [OF w f] by simp_all
      moreover have "take n s = w @ 0x2E # f @ take (snd (scan_exponent u)) u" by (simp add: calculation(2) s t)
      ultimately show ?thesis
        using unsigned_literal.Point [OF w f _ e(1)] ne e(3) by (simp add: s t)
    next
      case point: False
      obtain e where e: "exponent_part (take (snd (scan_exponent t)) t) e" "fst (scan_exponent t) = sat e" "snd (scan_exponent t) \<le> length t"
        using scan_exponent_reads [of t] by blast
      have sc: "scan_unsigned s = (if w = [] then (Fin 0, 0) else (numDecimalValue w [] (fst (scan_exponent t)), length w + snd (scan_exponent t)))"
        using parts(2) point unfolding w_def t_def by simp
      then have ne: "w \<noteq> []" using assms(1,2) by auto
      have "length w + length ([] :: byte list) < 999999000" using assms(3) by (simp add: s)
      then have "v = decimal_number w [] e" "n = length w + snd (scan_exponent t)"
        using sc ne assms(1) e(2) sat_value [OF w, of "[]"] by (simp_all add: is_digits_def)
      moreover have "take n s = w @ take (snd (scan_exponent t)) t" by (simp add: calculation(2) s)
      ultimately show ?thesis using unsigned_literal.Whole [OF w ne e(1)] e(3) by (simp add: s)
    qed
  qed
  then show "n \<le> length s" "unsigned_literal (take n s) v" by simp_all
qed

lemma digit_start: "is_digits w \<Longrightarrow> w \<noteq> [] \<Longrightarrow> hd w \<noteq> 0x49 \<and> hd w \<noteq> 0x2B \<and> hd w \<noteq> 0x2D \<and> hd w \<noteq> 0x2E"
  using not_digits_plain by (cases w) (auto simp: is_digits_def)

lemma unsigned_start: "unsigned_literal x v \<Longrightarrow> x \<noteq> [] \<and> hd x \<noteq> 0x2B \<and> hd x \<noteq> 0x2D"
proof (induction rule: unsigned_literal.induct)
  case Infinite
  then show ?case by (simp add: infinity_start)
next
  case (Whole w x e)
  then show ?case using digit_start [of w] by simp
next
  case (Point w f x e)
  then show ?case using digit_start [of w] by (cases w) auto
qed

lemma not_infinity: "hd s \<noteq> 0x49 \<Longrightarrow> take 8 s \<noteq> infinity_text"
  using infinity_start(1) hd_take [of 8 s] by fastforce

lemma run_after_exponent: "exponent_part x e \<Longrightarrow> x \<noteq> [] \<Longrightarrow> run 10 (x @ r) = []"
  using exponent_part_start [of x e] by (cases x) auto

lemma scan_unsigned_longest: "unsigned_literal x v \<Longrightarrow> length x \<le> snd (scan_unsigned (x @ r))"
proof (induction rule: unsigned_literal.induct)
  case Infinite
  then show ?case by (simp add: scan_unsigned_def infinity_start(2))
next
  case (Whole w x e)
  let ?s = "w @ x @ r"
  have inf: "take 8 ?s \<noteq> infinity_text" using digit_start [OF Whole(1,2)] Whole(2) by (intro not_infinity) simp
  have run: "run 10 ?s = w @ run 10 (x @ r)" by (rule run_append_digits [OF Whole(1)])
  note parts = scan_unsigned_parts [OF inf, unfolded run]
  show ?case
  proof (cases "x = []")
    case True
    then show ?thesis using parts Whole(2) by (cases "drop (length (w @ run 10 (x @ r))) ?s \<noteq> [] \<and> hd (drop (length (w @ run 10 (x @ r))) ?s) = 0x2E") auto
  next
    case False
    then have "hd (x @ r) \<noteq> 0x2E" using exponent_part_start [OF Whole(3)] by auto
    then show ?thesis
      using parts(2) Whole(2) run_after_exponent [OF Whole(3) False] scan_exponent_longest [OF Whole(3), of r] by simp
  qed
next
  case (Point w f x e)
  let ?s = "w @ 0x2E # f @ x @ r"
  have inf: "take 8 ?s \<noteq> infinity_text" using digit_start [OF Point(1)] by (intro not_infinity) (cases w; auto)
  have run: "run 10 ?s = w" using run_append_digits [OF Point(1)] by simp
  have runf: "run 10 (f @ x @ r) = f @ run 10 (x @ r)" by (rule run_append_digits [OF Point(2)])
  note parts = scan_unsigned_parts(1) [OF inf, unfolded run]
  show ?case
  proof (cases "x = []")
    case True
    then show ?thesis using parts Point(3) runf by auto
  next
    case False
    then show ?thesis
      using parts Point(3) runf run_after_exponent [OF Point(4) False] scan_exponent_longest [OF Point(4), of r] by auto
  qed
qed

text \<open>A whole literal is read to its end, so its value is unique.\<close>

lemma run_self: "is_digits ds \<Longrightarrow> run 10 ds = ds"
  using run_append_digits [of ds "[]"] by (simp add: run_def)

lemma scan_exponent_exact: "exponent_part x e \<Longrightarrow> scan_exponent x = (sat e, length x)"
proof (induction rule: exponent_part.induct)
  case (Unsigned c ds)
  then show ?case using digit_start [of ds] scan_exponent_simps(3) [OF Unsigned(1), of ds] run_self by auto
next
  case (Plus c ds)
  then show ?case using scan_exponent_simps(1) [OF Plus(1), of ds] run_self by auto
next
  case (Minus c ds)
  then show ?case using scan_exponent_simps(2) [OF Minus(1), of ds] run_self by auto
qed (simp add: scan_exponent_def sat_def)

lemma scan_unsigned_exact: "unsigned_literal x v \<Longrightarrow> length x < 999999000 \<Longrightarrow> scan_unsigned x = (v, length x)"
proof (induction rule: unsigned_literal.induct)
  case Infinite
  then show ?case using infinity_start(2) by (simp add: scan_unsigned_def)
next
  case (Whole w x e)
  have inf: "take 8 (w @ x) \<noteq> infinity_text" using digit_start [OF Whole(1,2)] Whole(2) by (intro not_infinity) simp
  have run: "run 10 (w @ x) = w"
    using run_append_digits [OF Whole(1), of x] run_after_exponent [OF Whole(3), of "[]"] by (cases "x = []") (auto simp: run_self Whole(1))
  have "x = [] \<or> hd x \<noteq> 0x2E" using exponent_part_start [OF Whole(3)] by auto
  then show ?case
    using scan_unsigned_parts(2) [OF inf, unfolded run] Whole(2,4) scan_exponent_exact [OF Whole(3)] sat_value [OF Whole(1), of "[]" e]
    by (auto simp: is_digits_def)
next
  case (Point w f x e)
  let ?s = "w @ 0x2E # f @ x"
  have inf: "take 8 ?s \<noteq> infinity_text" using digit_start [OF Point(1)] by (intro not_infinity) (cases w; auto)
  have run: "run 10 ?s = w" using run_append_digits [OF Point(1)] by simp
  have runf: "run 10 (f @ x) = f"
    using run_append_digits [OF Point(2), of x] run_after_exponent [OF Point(4), of "[]"] by (cases "x = []") (auto simp: run_self Point(2))
  show ?case
    using scan_unsigned_parts(1) [OF inf, unfolded run] runf Point(3,5) scan_exponent_exact [OF Point(4)] sat_value [OF Point(1,2), of e] by auto
qed

lemma round_f64_nonneg: "0 \<le> q \<Longrightarrow> round_f64 q = PosInf \<or> (\<exists>x \<ge> 0. round_f64 q = Fin x)"
proof (cases "q = 0")
  case False
  assume "0 \<le> q"
  with False have q: "0 < q" by simp
  have "0 \<le> of_int (sig q) * (2 :: rat) powi last_bit q" using sig_bounds(1) [OF q] powi_pos [of "last_bit q"] by simp
  then show ?thesis by (simp add: round_f64_sig [OF q])
qed (simp add: round_f64_def)

lemma unsigned_value: "unsigned_literal x v \<Longrightarrow> v = PosInf \<or> (\<exists>q \<ge> 0. v = Fin q)"
proof (induction rule: unsigned_literal.induct)
  case (Whole w y e)
  then show ?case using ten_powi(2) [of e] by (auto simp: decimal_number_def intro!: round_f64_nonneg)
next
  case (Point w f y e)
  then show ?case using ten_powi(2) [of "e - int (length f)"] by (auto simp: decimal_number_def intro!: round_f64_nonneg)
qed simp

lemma unsigned_sign:
  assumes "unsigned_literal x v"
  shows "f64_mul (Fin 1) v = v" "f64_mul (Fin (-1)) v = f64_neg v"
  using unsigned_value [OF assms] by (auto simp: f64_mul_def f64_is_inf_def Let_def)

lemma f64_neg_NaN: "f64_neg v = NaN \<longleftrightarrow> v = NaN"
  by (cases v) auto

lemma decimal_not_NaN: "decimal_literal x v \<Longrightarrow> v \<noteq> NaN"
  by (induction rule: decimal_literal.induct) (auto simp: f64_neg_NaN dest: unsigned_value)

lemma numScanDecimal_sign:
  "numScanDecimal (0x2B # t) = (let (v, n) = scan_unsigned t in if n = 0 then (Fin 0, 0) else (f64_mul (Fin 1) v, 1 + n))"
  "numScanDecimal (0x2D # t) = (let (v, n) = scan_unsigned t in if n = 0 then (Fin 0, 0) else (f64_mul (Fin (-1)) v, 1 + n))"
  "s = [] \<or> hd s \<noteq> 0x2B \<and> hd s \<noteq> 0x2D \<Longrightarrow>
     numScanDecimal s = (let (v, n) = scan_unsigned s in if n = 0 then (Fin 0, 0) else (f64_mul (Fin 1) v, n))"
  by (auto simp: numScanDecimal_def Let_def split: prod.split)

lemma numScanDecimal_reads:
  assumes "numScanDecimal s = (v, n)" "0 < n" "length s < 999999000"
  shows "n \<le> length s \<and> decimal_literal (take n s) v"
proof -
  consider (plus) t where "s = 0x2B # t" | (minus) t where "s = 0x2D # t" | (none) "s = [] \<or> hd s \<noteq> 0x2B \<and> hd s \<noteq> 0x2D"
    by (cases s) auto
  then show ?thesis
  proof cases
    case plus
    obtain u k where u: "scan_unsigned t = (u, k)" by (cases "scan_unsigned t")
    with assms plus have k: "v = f64_mul (Fin 1) u" "n = 1 + k" "0 < k" by (auto simp: numScanDecimal_sign split: if_splits)
    note r = scan_unsigned_reads [OF u k(3)]
    show ?thesis using r assms(3) k unsigned_sign(1) decimal_literal.PlusSign plus by simp
  next
    case minus
    obtain u k where u: "scan_unsigned t = (u, k)" by (cases "scan_unsigned t")
    with assms minus have k: "v = f64_mul (Fin (-1)) u" "n = 1 + k" "0 < k" by (auto simp: numScanDecimal_sign split: if_splits)
    note r = scan_unsigned_reads [OF u k(3)]
    show ?thesis using r assms(3) k unsigned_sign(2) decimal_literal.MinusSign minus by simp
  next
    case none
    obtain u k where u: "scan_unsigned s = (u, k)" by (cases "scan_unsigned s")
    with assms none have k: "v = f64_mul (Fin 1) u" "n = k" "0 < k" by (auto simp: numScanDecimal_sign split: if_splits)
    note r = scan_unsigned_reads [OF u k(3)]
    show ?thesis using r assms(3) k unsigned_sign(1) decimal_literal.NoSign by simp
  qed
qed

lemma unsigned_no_sign: "unsigned_literal (x # y) v \<Longrightarrow> x \<noteq> 0x2B \<and> x \<noteq> 0x2D"
  using unsigned_start [of "x # y" v] by simp

lemma numScanDecimal_longest: "decimal_literal x v \<Longrightarrow> length x \<le> snd (numScanDecimal (x @ r))"
proof (induction rule: decimal_literal.induct)
  case (NoSign s v)
  have n: "0 < length s" using unsigned_start [OF NoSign] by simp
  then have "0 < snd (scan_unsigned (s @ r))" using scan_unsigned_longest [OF NoSign, of r] by (rule less_le_trans)
  then show ?case
    using numScanDecimal_sign(3) [of "s @ r"] scan_unsigned_longest [OF NoSign, of r] unsigned_start [OF NoSign]
    by (auto simp: Let_def split: prod.splits)
next
  case (PlusSign s v)
  then show ?case
    using scan_unsigned_longest [OF PlusSign, of r] unsigned_start [OF PlusSign] by (auto simp: numScanDecimal_sign Let_def split: prod.splits)
next
  case (MinusSign s v)
  then show ?case
    using scan_unsigned_longest [OF MinusSign, of r] unsigned_start [OF MinusSign] by (auto simp: numScanDecimal_sign Let_def split: prod.splits)
qed

lemma numScanDecimal_exact: "decimal_literal x v \<Longrightarrow> length x < 999999000 \<Longrightarrow> numScanDecimal x = (v, length x)"
proof (induction rule: decimal_literal.induct)
  case (NoSign s v)
  then show ?case
    using numScanDecimal_sign(3) [of s] scan_unsigned_exact [OF NoSign(1)] unsigned_start [OF NoSign(1)] unsigned_sign(1) [OF NoSign(1)] by auto
next
  case (PlusSign s v)
  then show ?case
    using scan_unsigned_exact [OF PlusSign(1)] unsigned_start [OF PlusSign(1)] unsigned_sign(1) [OF PlusSign(1)] by (auto simp: numScanDecimal_sign)
next
  case (MinusSign s v)
  then show ?case
    using scan_unsigned_exact [OF MinusSign(1)] unsigned_start [OF MinusSign(1)] unsigned_sign(2) [OF MinusSign(1)] by (auto simp: numScanDecimal_sign)
qed

subsection \<open>Number and parseFloat\<close>

text \<open>StringNumericLiteral, spaces gone: nothing, a decimal, or a prefix and digits of its radix.\<close>

inductive numeric_literal :: "byte list \<Rightarrow> f64 \<Rightarrow> bool" where
  Empty: "numeric_literal [] (Fin 0)"
| Decimal: "decimal_literal s v \<Longrightarrow> numeric_literal s v"
| Radix: "(c, k) \<in> {(0x78, 4), (0x58, 4), (0x6F, 3), (0x4F, 3), (0x62, 1), (0x42, 1)} \<Longrightarrow> ds \<noteq> [] \<Longrightarrow> run (2 ^ k) ds = ds \<Longrightarrow>
    numeric_literal (0x30 # c # ds) (round_f64 (of_nat (digits_value (2 ^ k) ds)))"

definition prefix_shift :: "byte list \<Rightarrow> nat" where
  "prefix_shift s =
     (if length s > 2 \<and> s ! 0 = 0x30 then
        if s ! 1 OR 0x20 = 0x78 then 4
        else if s ! 1 OR 0x20 = 0x6F then 3
        else if s ! 1 OR 0x20 = 0x62 then 1 else 0
      else 0)"

lemma prefix_shift_cases:
  obtains (prefixed) c ds where "s = 0x30 # c # ds" "ds \<noteq> []"
      "(c, prefix_shift s) \<in> {(0x78, 4), (0x58, 4), (0x6F, 3), (0x4F, 3), (0x62, 1), (0x42, 1)}"
    | (plain) "prefix_shift s = 0"
proof (cases "prefix_shift s = 0")
  case False
  then have "2 < length s" "s ! 0 = 0x30" by (auto simp: prefix_shift_def split: if_splits)
  then obtain c ds where s: "s = 0x30 # c # ds" "ds \<noteq> []" by (cases s; cases "tl s"; auto)
  then have "(c, prefix_shift s) \<in> {(0x78, 4), (0x58, 4), (0x6F, 3), (0x4F, 3), (0x62, 1), (0x42, 1)}"
    using False by (auto simp: prefix_shift_def or_20 split: if_splits)
  with s show ?thesis by (rule prefixed)
qed (rule plain)

lemma prefix_not_decimal:
  assumes "c \<in> {0x78, 0x58, 0x6F, 0x4F, 0x62, 0x42 :: byte}" "ds \<noteq> []" "length (0x30 # c # ds) < 999999000"
  shows "\<not> decimal_literal (0x30 # c # ds) v"
proof
  assume "decimal_literal (0x30 # c # ds) v"
  then have e: "numScanDecimal (0x30 # c # ds) = (v, length (0x30 # c # ds))"
    using assms(3) by (rule numScanDecimal_exact)
  have c: "\<not> numDigit c < 10" "c OR 0x20 \<noteq> 0x65" "c \<noteq> 0x2E" using assms(1) by (auto simp: numDigit_def or_20(4))
  have z: "numDigit 0x30 < 10" by (simp add: numDigit_def)
  have inf: "take 8 (0x30 # c # ds) \<noteq> infinity_text" by (rule not_infinity) simp
  have run: "run 10 (0x30 # c # ds) = [0x30]" using c(1) z by (simp add: run_def)
  have "scan_unsigned (0x30 # c # ds) = (numDecimalValue [0x30] [] 0, 1)"
    using scan_unsigned_parts(2) [OF inf, unfolded run] c(2,3) by (simp add: scan_exponent_def)
  then have "snd (numScanDecimal (0x30 # c # ds)) = 1" by (simp add: numScanDecimal_sign(3))
  with e show False by simp
qed

lemma StringToNumber_code:
  "StringToNumber s =
     (let t = StrTrim s
      in if t = [] then Fin 0
         else if prefix_shift t \<noteq> 0 then
           let (v, n) = numPow2Digits (drop 2 t) (prefix_shift t) in if n \<noteq> length t - 2 then NaN else v
         else let (v, n) = numScanDecimal t in if n = length t then v else NaN)"
  unfolding StringToNumber_def numTrimStart_StrTrimStart numTrimEnd_StrTrimEnd StrTrim_def [symmetric] Let_def prefix_shift_def [symmetric]
  by (rule refl)

lemma trim_shorter: "length (StrTrimStart s) \<le> length s" "length (StrTrimEnd s) \<le> length s"
proof -
  show "length (StrTrimStart s) \<le> length s"
    by (induction s rule: StrTrimStart.induct) (fastforce simp: StrTrimStart.simps(2) Let_def split: prod.split)+
  show "length (StrTrimEnd s) \<le> length s"
    by (induction s rule: StrTrimEnd.induct) (subst StrTrimEnd.simps, fastforce simp: Let_def split: prod.split)
qed

lemma numeric_literal_value:
  assumes "numeric_literal t v" "length t < 999999000"
  shows "v = (if t = [] then Fin 0
         else if prefix_shift t \<noteq> 0 then
           let (v, n) = numPow2Digits (drop 2 t) (prefix_shift t) in if n \<noteq> length t - 2 then NaN else v
         else let (v, n) = numScanDecimal t in if n = length t then v else NaN)"
  using assms(1)
proof cases
  case Decimal
  have "t \<noteq> []" using Decimal by (cases; auto dest: unsigned_start)
  moreover have "prefix_shift t = 0"
  proof (cases t rule: prefix_shift_cases)
    case (prefixed c ds)
    then have "c \<in> {0x78, 0x58, 0x6F, 0x4F, 0x62, 0x42}" by auto
    then show ?thesis using prefix_not_decimal [of c ds v] Decimal assms(2) prefixed(1,2) by simp
  qed
  ultimately show ?thesis using numScanDecimal_exact [OF Decimal assms(2)] by simp
next
  case (Radix c k ds)
  then have "2 < length t" "t ! 0 = 0x30" "t ! 1 = c" by (cases ds; simp)+
  then have "prefix_shift t = k" using Radix(3) by (auto simp: prefix_shift_def or_20)
  moreover have "k \<noteq> 0" using Radix(3) by auto
  ultimately show ?thesis using Radix by (simp add: numPow2Digits_value)
qed simp

lemma run_all: "length (run radix ds) = length ds \<longleftrightarrow> run radix ds = ds"
  unfolding run_def by (metis takeWhile_eq_take take_all order_refl)

text \<open>
  C30: \<open>Number(s)\<close> takes the literals of ECMAScript's grammar and no others: the value of the
  one that \<open>s\<close>, trimmed, is, unique and the double nearest what it denotes, or NaN if it is none.
\<close>

theorem number_literals:
  assumes "length s < 999999000"
  shows "(\<forall>v. numeric_literal (StrTrim s) v \<longleftrightarrow> v = StringToNumber s) \<or>
    (\<forall>v. \<not> numeric_literal (StrTrim s) v) \<and> StringToNumber s = NaN"
proof -
  define t where "t = StrTrim s"
  have len: "length t < 999999000"
    using trim_shorter(1) [of s] trim_shorter(2) [of "StrTrimStart s"] assms by (simp add: t_def StrTrim_def)
  note code = StringToNumber_code [of s, folded t_def, unfolded Let_def]
  have unique: "v = StringToNumber s" if "numeric_literal t v" for v
    using numeric_literal_value [OF that len] unfolding code Let_def .
  have "numeric_literal t (StringToNumber s) \<or> StringToNumber s = NaN"
  proof (cases t rule: prefix_shift_cases)
    case (prefixed c ds)
    then have "prefix_shift t \<noteq> 0" by auto
    then show ?thesis
      using numeric_literal.Radix [OF prefixed(3,2)] prefixed(1) unfolding code
      by (auto simp: numPow2Digits_value run_all)
  next
    case plain
    then show ?thesis
      using numScanDecimal_reads [of t] len numeric_literal.Empty numeric_literal.Decimal unfolding code
      by (auto split: prod.split)
  qed
  moreover have "\<not> numeric_literal t NaN"
  proof
    assume "numeric_literal t NaN"
    then show False
    proof cases
      case (Radix c k ds)
      then show ?thesis using round_f64_cases [of "of_nat (digits_value (2 ^ k) ds)"] by auto
    qed (auto dest: decimal_not_NaN)
  qed
  ultimately show ?thesis using unique unfolding t_def [symmetric] by metis
qed

theorem number_literals_witness:
  "(\<forall>v. numeric_literal (StrTrim [0x20, 0x31, 0x65, 0x33]) v \<longleftrightarrow> v = StringToNumber [0x20, 0x31, 0x65, 0x33]) \<or>
    (\<forall>v. \<not> numeric_literal (StrTrim [0x20, 0x31, 0x65, 0x33]) v) \<and> StringToNumber [0x20, 0x31, 0x65, 0x33] = NaN"
  by (rule number_literals) simp

text \<open>
  C31: \<open>parseFloat(s)\<close> reads the longest decimal literal that \<open>s\<close> starts with after its spaces,
  and gives its value; NaN if it starts with none.
\<close>

theorem parse_float_literals:
  assumes "length s < 999999000"
  shows "(\<exists>n. 0 < n \<and> n \<le> length (StrTrimStart s) \<and> (\<forall>v. decimal_literal (take n (StrTrimStart s)) v \<longleftrightarrow> v = ParseFloat s) \<and>
        (\<forall>m v. n < m \<longrightarrow> m \<le> length (StrTrimStart s) \<longrightarrow> \<not> decimal_literal (take m (StrTrimStart s)) v)) \<or>
      (\<forall>m v. \<not> decimal_literal (take m (StrTrimStart s)) v) \<and> ParseFloat s = NaN"
proof -
  define t where "t = StrTrimStart s"
  have len: "length t < 999999000" using trim_shorter(1) [of s] assms by (simp add: t_def)
  obtain v n where vn: "numScanDecimal t = (v, n)" by (cases "numScanDecimal t")
  have code: "ParseFloat s = (if n = 0 then NaN else v)"
    by (simp add: ParseFloat_def numTrimStart_StrTrimStart t_def [symmetric] vn)
  have longest: "length (take m t) \<le> n" if "decimal_literal (take m t) u" for m u
    using numScanDecimal_longest [OF that, of "drop m t"] by (simp add: vn)
  show ?thesis
  proof (cases "n = 0")
    case True
    have "\<not> decimal_literal (take m t) u" for m u
    proof
      assume a: "decimal_literal (take m t) u"
      have "length (take m t) = 0" using longest [OF a] True by (simp only: le_zero_eq)
      then have "take m t = []" by (simp only: length_0_conv)
      with a show False by (cases; auto dest: unsigned_start)
    qed
    then show ?thesis using True code unfolding t_def [symmetric] by simp
  next
    case False
    have r: "n \<le> length t" "decimal_literal (take n t) v" using numScanDecimal_reads [OF vn _ len] False by simp_all
    have u: "u = v" if "decimal_literal (take n t) u" for u
      using numScanDecimal_exact [OF that] numScanDecimal_exact [OF r(2)] len r(1) by simp
    have "\<not> decimal_literal (take m t) w" if "n < m" "m \<le> length t" for m w
    proof
      assume "decimal_literal (take m t) w"
      then have "length (take m t) \<le> n" by (rule longest)
      with that show False by simp
    qed
    moreover have "decimal_literal (take n t) w \<longleftrightarrow> w = ParseFloat s" for w
      unfolding code if_not_P [OF False] by (rule iffI) (erule u, simp only: r(2))
    moreover have "0 < n" using False by simp
    ultimately show ?thesis using r(1) unfolding t_def [symmetric] by blast
  qed
qed

definition sample_float :: "byte list" where
  "sample_float = [0x31, 0x2E, 0x35, 0x70, 0x78]"

theorem parse_float_literals_witness:
  "(\<exists>n. 0 < n \<and> n \<le> length (StrTrimStart sample_float) \<and>
      (\<forall>v. decimal_literal (take n (StrTrimStart sample_float)) v \<longleftrightarrow> v = ParseFloat sample_float) \<and>
      (\<forall>m v. n < m \<longrightarrow> m \<le> length (StrTrimStart sample_float) \<longrightarrow> \<not> decimal_literal (take m (StrTrimStart sample_float)) v)) \<or>
    (\<forall>m v. \<not> decimal_literal (take m (StrTrimStart sample_float)) v) \<and> ParseFloat sample_float = NaN"
  by (rule parse_float_literals) (simp add: sample_float_def)

text \<open>\<open>parseInt("-ff", 16)\<close>.\<close>

theorem parse_int_value_witness: "ParseInt [0x2D, 0x66, 0x66] [Fin 16] = Some (Fin (- 255))"
proof -
  have t: "StrTrimStart [0x2D, 0x66, 0x66] = [0x2D, 0x66, 0x66]"
    by (simp add: StrTrimStart.simps(2) decode_rune_1 isJSSpace_def)
  have r: "to_int32 (Fin 16) = 16" by (simp add: to_int32_def)
  have "int_parts [0x2D, 0x66, 0x66] [Fin 16] = Some (True, 16, [0x66, 0x66])"
    by (simp add: int_parts_def t r Let_def run_def numDigit_def)
  moreover have "digits_value 16 [0x66, 0x66] = 255" by (simp add: digits_value_def numDigit_def)
  moreover have "round_f64 (of_nat 255) = Fin 255" using round_f64_nat [of 255] by (simp add: f64_of_nat_def)
  ultimately show ?thesis using parse_int_value [of "[0x2D, 0x66, 0x66]" "[Fin 16]"] by simp
qed

end
